(* ===== verification/Prelude.thy ===== *)
theory Prelude
  imports Main "HOL-Library.Word" "HOL-Library.List_Lexorder" "HOL-Library.Multiset"
begin

text \<open>
  Shared vocabulary of the development: the machine types of the Rust code
  (\<open>u8\<close> ... \<open>u64\<close> as words, \<open>usize\<close> as \<open>nat\<close> where the code does not wrap,
  \<open>[u8; N]\<close> as the type \<open>'n barr\<close> of byte arrays of a fixed length), slices and
  in-place overwrites of byte buffers, the standard-library integer functions the code
  calls (\<open>is_power_of_two\<close>, \<open>next_power_of_two\<close>), big- and little-endian integer
  fields, and two interfaces used by several components: a codec of a fixed-width field
  (locale \<open>field_codec\<close>) and a loop that consumes a budget (locale \<open>budget_loop\<close>).
\<close>

unbundle bit_operations_syntax

named_theorems slice_simps \<open>length and content of slices and overwrites\<close>

type_synonym u8 = "8 word"
type_synonym u16 = "16 word"
type_synonym u32 = "32 word"
type_synonym u64 = "64 word"
type_synonym bytes = "u8 list"

abbreviation usize_max :: nat where "usize_max \<equiv> 18446744073709551615"

subsection \<open>Slices and overwrites\<close>

text \<open>\<open>&buf[off..off + n]\<close> and \<open>buf[off..off + src.len()].copy_from_slice(src)\<close>,
  both for ranges inside the buffer: the callers model the bounds check.\<close>

definition subslice :: "nat \<Rightarrow> nat \<Rightarrow> 'a list \<Rightarrow> 'a list" where
  "subslice off n buf = take n (drop off buf)"

definition overwrite :: "nat \<Rightarrow> 'a list \<Rightarrow> 'a list \<Rightarrow> 'a list" where
  "overwrite off src buf = take off buf @ src @ drop (off + length src) buf"

lemma length_slice [slice_simps]: "off + n \<le> length buf \<Longrightarrow> length (subslice off n buf) = n"
  by (simp add: subslice_def)

lemma length_overwrite [slice_simps]:
  "off + length src \<le> length buf \<Longrightarrow> length (overwrite off src buf) = length buf"
  by (simp add: overwrite_def)

lemma slice_overwrite_same [slice_simps]:
  "off + length src \<le> length buf \<Longrightarrow> n = length src \<Longrightarrow> subslice off n (overwrite off src buf) = src"
  by (simp add: subslice_def overwrite_def)

lemma nth_overwrite:
  "off + length src \<le> length buf \<Longrightarrow> i < length buf \<Longrightarrow>
   overwrite off src buf ! i = (if off \<le> i \<and> i < off + length src then src ! (i - off) else buf ! i)"
  by (auto simp: overwrite_def nth_append not_le not_less min_def)

lemma slice_overwrite_disjoint [slice_simps]:
  assumes "off + length src \<le> length buf" "off' + n \<le> length buf"
    and "off' + n \<le> off \<or> off + length src \<le> off'"
  shows "subslice off' n (overwrite off src buf) = subslice off' n buf"
proof (rule nth_equalityI)
  show "length (subslice off' n (overwrite off src buf)) = length (subslice off' n buf)"
    using assms by (simp add: length_slice length_overwrite)
  fix i assume "i < length (subslice off' n (overwrite off src buf))"
  with assms have "i < n" by (simp add: subslice_def)
  with assms show "subslice off' n (overwrite off src buf) ! i = subslice off' n buf ! i"
    by (auto simp: subslice_def nth_overwrite length_overwrite)
qed

lemma overwrite_slice_id:
  "off + n \<le> length buf \<Longrightarrow> overwrite off (subslice off n buf) buf = buf"
proof -
  assume "off + n \<le> length buf"
  then have "overwrite off (subslice off n buf) buf = take off buf @ take n (drop off buf) @ drop n (drop off buf)"
    by (simp add: subslice_def overwrite_def add.commute)
  then show ?thesis by (simp only: append_take_drop_id)
qed

lemma drop_overwrite [slice_simps]:
  "off + length src \<le> length buf \<Longrightarrow> off + length src \<le> k \<Longrightarrow>
   drop k (overwrite off src buf) = drop k buf"
  by (simp add: overwrite_def)

lemma take_overwrite [slice_simps]:
  "off + length src \<le> length buf \<Longrightarrow> k \<le> off \<Longrightarrow>
   take k (overwrite off src buf) = take k buf"
  by (simp add: overwrite_def min_absorb1)

lemma overwrite_twice [slice_simps]:
  "off + length src \<le> length buf \<Longrightarrow> length src' = length src \<Longrightarrow>
   overwrite off src' (overwrite off src buf) = overwrite off src' buf"
  by (simp add: overwrite_def)

lemma overwrite_append1 [slice_simps]:
  "off + length src \<le> length xs \<Longrightarrow> overwrite off src (xs @ ys) = overwrite off src xs @ ys"
  by (simp add: overwrite_def)

lemma overwrite_append2 [slice_simps]:
  "overwrite (length xs + off) src (xs @ ys) = xs @ overwrite off src ys"
  by (simp add: overwrite_def add.assoc)

lemma slice_append2 [slice_simps]: "subslice (length xs + off) n (xs @ ys) = subslice off n ys"
  by (simp add: subslice_def)

lemma slice_append1 [slice_simps]:
  "off + n \<le> length xs \<Longrightarrow> subslice off n (xs @ ys) = subslice off n xs"
  by (simp add: subslice_def)

lemma slice_take [slice_simps]: "off + n \<le> k \<Longrightarrow> subslice off n (take k xs) = subslice off n xs"
  by (simp add: subslice_def drop_take min_def)

lemma slice_slice [slice_simps]: "a + n \<le> m \<Longrightarrow> subslice a n (subslice b m xs) = subslice (b + a) n xs"
  by (simp add: subslice_def take_drop min_def add.commute add.left_commute add.assoc)


subsection \<open>Integer fields\<close>

text \<open>\<open>to_le_bytes\<close>, \<open>from_le_bytes\<close> and their big-endian forms, for a word of any width;
  a native-endian unaligned read on the little-endian targets of the repository is \<open>le_val\<close>.\<close>

definition le_bytes :: "'a::len word \<Rightarrow> bytes" where
  "le_bytes w = map (\<lambda>i. ucast (drop_bit (8 * i) w)) [0..<LENGTH('a) div 8]"

definition le_val :: "bytes \<Rightarrow> 'a::len word" where
  "le_val bs = foldr (\<lambda>b acc. ucast b OR push_bit 8 acc) bs 0"

definition be_bytes :: "'a::len word \<Rightarrow> bytes" where
  "be_bytes w = rev (le_bytes w)"

definition be_val :: "bytes \<Rightarrow> 'a::len word" where
  "be_val bs = le_val (rev bs)"

lemma length_le_bytes [simp]: "length (le_bytes (w :: 'a::len word)) = LENGTH('a) div 8"
  by (simp add: le_bytes_def)

lemma length_be_bytes [simp]: "length (be_bytes (w :: 'a::len word)) = LENGTH('a) div 8"
  by (simp add: be_bytes_def)

lemma nth_le_bytes: "i < LENGTH('a) div 8 \<Longrightarrow>
   le_bytes (w :: 'a::len word) ! i = ucast (drop_bit (8 * i) w)"
  by (simp add: le_bytes_def)

lemma bit_le_val:
  "bit (le_val bs :: 'a::len word) k \<longleftrightarrow>
   k < LENGTH('a) \<and> k div 8 < length bs \<and> bit (bs ! (k div 8)) (k mod 8)"
proof (induction bs arbitrary: k)
  case Nil
  then show ?case by (simp add: le_val_def)
next
  case (Cons b bs)
  have unf: "(le_val (b # bs) :: 'a word) = ucast b OR push_bit 8 (le_val bs)"
    by (simp add: le_val_def)
  show ?case
  proof (cases "k < 8")
    case True
    then show ?thesis by (auto simp: unf bit_or_iff bit_push_bit_iff bit_ucast_iff)
  next
    case False
    then obtain j where j: "k = 8 + j" by (metis le_add_diff_inverse not_less)
    then have dm: "k div 8 = Suc (j div 8)" "k mod 8 = j mod 8" by simp_all
    have k8: "k - 8 = j" "j \<le> k" using j by simp_all
    show ?thesis
      using False k8(2) by (auto simp: unf dm k8(1) bit_or_iff bit_push_bit_iff bit_ucast_iff Cons.IH
          dest: bit_imp_le_length)
  qed
qed

lemma le_val_le_bytes:
  assumes "8 dvd LENGTH('a)"
  shows "le_val (le_bytes w) = (w :: 'a::len word)"
proof (rule bit_word_eqI)
  fix k assume k: "k < LENGTH('a)"
  with assms have "k div 8 < LENGTH('a) div 8" by auto
  with k show "bit (le_val (le_bytes w) :: 'a word) k = bit w k"
    by (simp add: bit_le_val nth_le_bytes bit_ucast_iff bit_drop_bit_eq)
qed

lemma le_bytes_le_val:
  assumes "8 dvd LENGTH('a)" "length bs = LENGTH('a) div 8"
  shows "le_bytes (le_val bs :: 'a::len word) = bs"
proof (rule nth_equalityI)
  show "length (le_bytes (le_val bs :: 'a word)) = length bs" using assms by simp
  fix i assume "i < length (le_bytes (le_val bs :: 'a word))"
  then have i: "i < LENGTH('a) div 8" by simp
  show "le_bytes (le_val bs :: 'a word) ! i = bs ! i"
  proof (rule bit_word_eqI)
    fix k assume k: "k < LENGTH(8)"
    then have "(8 * i + k) div 8 = i" "(8 * i + k) mod 8 = k" by simp_all
    moreover have "8 * i + k < LENGTH('a)" using i k assms(1) by auto
    ultimately show "bit (le_bytes (le_val bs :: 'a word) ! i) k = bit (bs ! i) k"
      using i k assms by (simp add: nth_le_bytes bit_ucast_iff bit_drop_bit_eq bit_le_val)
  qed
qed

lemma be_val_be_bytes: "8 dvd LENGTH('a) \<Longrightarrow> be_val (be_bytes w) = (w :: 'a::len word)"
  by (simp add: be_val_def be_bytes_def le_val_le_bytes)

lemma be_bytes_be_val:
  "8 dvd LENGTH('a) \<Longrightarrow> length bs = LENGTH('a) div 8 \<Longrightarrow> be_bytes (be_val bs :: 'a::len word) = bs"
  by (simp add: be_val_def be_bytes_def le_bytes_le_val)

lemma be_bytes_inj: "8 dvd LENGTH('a) \<Longrightarrow> be_bytes v = be_bytes (w :: 'a::len word) \<longleftrightarrow> v = w"
  by (metis be_val_be_bytes)


lemma le_bytes_0 [simp]: "le_bytes (0 :: 'a::len word) = replicate (LENGTH('a) div 8) 0"
  by (simp add: le_bytes_def map_replicate_const)

lemma be_bytes_0 [simp]: "be_bytes (0 :: 'a::len word) = replicate (LENGTH('a) div 8) 0"
  by (simp add: be_bytes_def)

subsection \<open>Byte arrays of a fixed length\<close>

text \<open>\<open>[u8; N]\<close>. The array type carries its length, as in Rust, so no operation on
  identifiers, tags or keys needs a length hypothesis; its order is the lexicographic
  order that \<open>Ord\<close> for arrays gives to the keys of a \<open>BTreeMap\<close>.\<close>

typedef (overloaded) 'n barr = "{bs :: bytes. length bs = LENGTH('n::len)}"
  morphisms bytes_of Abs_barr
  by (rule exI [of _ "replicate LENGTH('n) 0"]) simp

definition arr :: "bytes \<Rightarrow> 'n::len barr" where
  "arr bs = Abs_barr (take LENGTH('n) (bs @ replicate LENGTH('n) 0))"

definition fill_arr :: "u8 \<Rightarrow> 'n::len barr" where
  "fill_arr b = arr (replicate LENGTH('n) b)"

lemma length_bytes_of [simp]: "length (bytes_of (a :: 'n::len barr)) = LENGTH('n)"
  using bytes_of [of a] by simp

lemma Abs_barr_bytes_of [code abstype]: "Abs_barr (bytes_of a) = a"
  by (rule bytes_of_inverse)

lemma bytes_of_arr_code [code abstract]:
  "bytes_of (arr bs :: 'n::len barr) = take LENGTH('n) (bs @ replicate LENGTH('n) 0)"
  by (simp add: arr_def Abs_barr_inverse)

lemma bytes_of_arr [simp]: "length bs = LENGTH('n) \<Longrightarrow> bytes_of (arr bs :: 'n::len barr) = bs"
  by (simp add: bytes_of_arr_code)

lemma arr_bytes_of [simp]: "arr (bytes_of a) = a"
  by (simp add: bytes_of_inject [symmetric])

lemma barr_eq_iff: "a = b \<longleftrightarrow> bytes_of a = bytes_of b"
  by (simp add: bytes_of_inject)

lemma bytes_of_fill [simp]: "bytes_of (fill_arr b :: 'n::len barr) = replicate LENGTH('n) b"
  by (simp add: fill_arr_def)

lemma fill_arr_eq_iff [simp]: "(fill_arr a :: 'n::len barr) = fill_arr b \<longleftrightarrow> a = b"
  by (simp add: barr_eq_iff)

instantiation barr :: (len) linorder
begin

definition less_eq_barr :: "'a barr \<Rightarrow> 'a barr \<Rightarrow> bool" where
  "less_eq_barr a b \<longleftrightarrow> bytes_of a \<le> bytes_of b"

definition less_barr :: "'a barr \<Rightarrow> 'a barr \<Rightarrow> bool" where
  "less_barr a b \<longleftrightarrow> bytes_of a < bytes_of b"

instance
  by standard (auto simp: less_eq_barr_def less_barr_def barr_eq_iff)

end

instantiation barr :: (len) equal
begin

definition equal_barr :: "'a barr \<Rightarrow> 'a barr \<Rightarrow> bool" where
  "equal_barr a b \<longleftrightarrow> bytes_of a = bytes_of b"

instance by standard (simp add: equal_barr_def barr_eq_iff)

end

subsection \<open>Powers of two\<close>

fun is_power_of_two :: "nat \<Rightarrow> bool" where
  "is_power_of_two n = (if 0 < n \<and> even n then is_power_of_two (n div 2) else n = 1)"

declare is_power_of_two.simps [simp del]

lemma is_power_of_two_iff: "is_power_of_two n \<longleftrightarrow> (\<exists>k. n = 2 ^ k)"
proof (induction n rule: is_power_of_two.induct)
  case (1 n)
  show ?case
  proof (cases "n > 0 \<and> even n")
    case True
    then have "is_power_of_two n \<longleftrightarrow> (\<exists>k. n div 2 = 2 ^ k)"
      using 1 by (subst is_power_of_two.simps) auto
    also have "\<dots> \<longleftrightarrow> (\<exists>k. n = 2 ^ Suc k)" using True by (auto elim!: evenE)
    also have "\<dots> \<longleftrightarrow> (\<exists>k. n = 2 ^ k)"
    proof -
      have "k \<noteq> 0" if "n = 2 ^ k" for k using True that by (auto intro: gr0I)
      then show ?thesis by (metis not0_implies_Suc)
    qed
    finally show ?thesis .
  next
    case False
    then have "is_power_of_two n \<longleftrightarrow> n = 1" by (subst is_power_of_two.simps) auto
    also have "\<dots> \<longleftrightarrow> (\<exists>k. n = 2 ^ k)" using False by (auto intro: exI [of _ 0])
    finally show ?thesis .
  qed
qed

text \<open>The code replaces \<open>x % n\<close> by \<open>x & (n - 1)\<close> for powers of two.\<close>

lemma and_mask_mod:
  assumes "is_power_of_two n"
  shows "(x :: nat) AND (n - 1) = x mod n"
proof -
  from assms obtain k where "n = 2 ^ k" by (auto simp: is_power_of_two_iff)
  then show ?thesis by (metis mask_eq_exp_minus_1 take_bit_eq_mask take_bit_eq_mod)
qed

lemma and_mask_less: "0 < n \<Longrightarrow> (x :: nat) AND (n - 1) < n"
proof -
  assume "0 < n"
  have "nat (int x AND int (n - 1)) \<le> n - 1"
    using AND_upper2 [of "int (n - 1)" "int x"] by linarith
  with \<open>0 < n\<close> show ?thesis by (simp add: and_nat_def)
qed

definition mask_or_mod :: "nat \<Rightarrow> nat \<Rightarrow> nat" where
  "mask_or_mod x n = (if is_power_of_two n then x AND (n - 1) else x mod n)"

lemma mask_or_mod_eq: "mask_or_mod x n = x mod n"
  by (cases "is_power_of_two n") (simp_all only: mask_or_mod_def and_mask_mod if_True if_False)

fun npow2_from :: "nat \<Rightarrow> nat \<Rightarrow> nat \<Rightarrow> nat" where
  "npow2_from 0 p n = p"
| "npow2_from (Suc fuel) p n = (if n \<le> p then p else npow2_from fuel (2 * p) n)"

text \<open>\<open>usize::next_power_of_two\<close>, the least power of two that is at least \<open>n\<close>.\<close>

definition next_power_of_two :: "nat \<Rightarrow> nat" where
  "next_power_of_two n = npow2_from n 1 n"

lemma npow2_from_props:
  assumes "0 < p" "n \<le> p * 2 ^ fuel"
  shows "n \<le> npow2_from fuel p n \<and> npow2_from fuel p n \<le> max p (2 * n) \<and> (\<exists>k. npow2_from fuel p n = p * 2 ^ k)"
  using assms
proof (induction fuel p n rule: npow2_from.induct)
  case (1 p n)
  then show ?case by (auto intro: exI [of _ 0])
next
  case (2 fuel p n)
  show ?case
  proof (cases "n \<le> p")
    case True
    then show ?thesis by (auto intro: exI [of _ 0])
  next
    case False
    with 2 have IH: "n \<le> npow2_from fuel (2 * p) n" "npow2_from fuel (2 * p) n \<le> max (2 * p) (2 * n)"
      "\<exists>k. npow2_from fuel (2 * p) n = 2 * p * 2 ^ k" by auto
    from IH(3) obtain k where "npow2_from fuel (2 * p) n = p * 2 ^ Suc k"
      by (metis mult.assoc mult.commute power_Suc)
    with IH(1,2) False show ?thesis
      by (auto simp: max_def simp del: power_Suc intro: exI [of _ "Suc k"] split: if_splits)
  qed
qed

lemma next_power_of_two_ge: "n \<le> next_power_of_two n"
  and next_power_of_two_le: "next_power_of_two n \<le> max 1 (2 * n)"
  and next_power_of_two_pow: "is_power_of_two (next_power_of_two n)"
  using npow2_from_props [of 1 n n] less_exp [of n]
  by (auto simp: next_power_of_two_def is_power_of_two_iff)

lemma next_power_of_two_pos [simp]: "0 < next_power_of_two n"
  using next_power_of_two_pow [of n] by (auto simp: is_power_of_two_iff)

lemma le_power_of_two_next: "is_power_of_two m \<Longrightarrow> is_power_of_two n \<Longrightarrow> m < n \<Longrightarrow> 2 * m \<le> n"
proof -
  assume "is_power_of_two m" "is_power_of_two n" "m < n"
  then obtain i j where "m = 2 ^ i" "n = 2 ^ j" "i < j"
    by (auto simp: is_power_of_two_iff)
  then show ?thesis by (metis Suc_leI power_Suc power_increasing one_le_numeral)
qed


subsection \<open>Fixed-width fields of a buffer\<close>

text \<open>A field of a packet or of a shared ring: an encoding into exactly \<open>w\<close> bytes and its
  inverse. A client reads and writes a field at an offset through \<open>get\<close> and \<open>put\<close>; what it
  relies on is proved once, from the three laws.\<close>

locale field_codec =
  fixes enc :: "'a \<Rightarrow> bytes" and dec :: "bytes \<Rightarrow> 'a" and w :: nat
  assumes enc_length [simp]: "length (enc x) = w"
    and dec_enc [simp]: "dec (enc x) = x"
    and enc_dec: "length bs = w \<Longrightarrow> enc (dec bs) = bs"
begin

lemma get_put_same:
  "off + w \<le> length buf \<Longrightarrow> dec (subslice off w (overwrite off (enc x) buf)) = x"
  by (simp add: slice_simps)

lemma get_put_other:
  assumes "off + w \<le> length buf" "off' + n \<le> length buf" "off' + n \<le> off \<or> off + w \<le> off'"
  shows "subslice off' n (overwrite off (enc x) buf) = subslice off' n buf"
  using assms by (intro slice_overwrite_disjoint) auto

lemma put_get:
  "off + w \<le> length buf \<Longrightarrow> overwrite off (enc (dec (subslice off w buf))) buf = buf"
  by (simp add: enc_dec length_slice overwrite_slice_id)

lemma put_put:
  "off + w \<le> length buf \<Longrightarrow> overwrite off (enc y) (overwrite off (enc x) buf) = overwrite off (enc y) buf"
  by (simp add: slice_simps)

lemma length_put: "off + w \<le> length buf \<Longrightarrow> length (overwrite off (enc x) buf) = length buf"
  by (simp add: slice_simps)

end

interpretation be16: field_codec "be_bytes :: u16 \<Rightarrow> bytes" be_val 2
  by unfold_locales (auto simp: be_val_be_bytes be_bytes_be_val)

interpretation be32: field_codec "be_bytes :: u32 \<Rightarrow> bytes" be_val 4
  by unfold_locales (auto simp: be_val_be_bytes be_bytes_be_val)

interpretation be64: field_codec "be_bytes :: u64 \<Rightarrow> bytes" be_val 8
  by unfold_locales (auto simp: be_val_be_bytes be_bytes_be_val)

interpretation le32: field_codec "le_bytes :: u32 \<Rightarrow> bytes" le_val 4
  by unfold_locales (auto simp: le_val_le_bytes le_bytes_le_val)

interpretation le64: field_codec "le_bytes :: u64 \<Rightarrow> bytes" le_val 8
  by unfold_locales (auto simp: le_val_le_bytes le_bytes_le_val)

interpretation raw32: field_codec "bytes_of :: 32 barr \<Rightarrow> bytes" arr 32
  by unfold_locales auto

interpretation raw16: field_codec "bytes_of :: 16 barr \<Rightarrow> bytes" arr 16
  by unfold_locales auto

subsection \<open>Loops over a list that consume a budget\<close>

text \<open>The batch loops of the code first reserve room for the whole batch and then run one
  step per item, each of which writes without a capacity check. A step may fail (a fault of
  the model); the law is that a step on a state with enough room succeeds, keeps the
  invariant and consumes at most its cost.\<close>

fun loop_r :: "('s \<Rightarrow> 'p \<Rightarrow> 'e + 's) \<Rightarrow> 's \<Rightarrow> 'p list \<Rightarrow> 'e + 's" where
  "loop_r step s [] = Inr s"
| "loop_r step s (p # ps) = (case step s p of Inl e \<Rightarrow> Inl e | Inr s' \<Rightarrow> loop_r step s' ps)"

locale budget_loop =
  fixes step :: "'s \<Rightarrow> 'p \<Rightarrow> 'e + 's" and room :: "'s \<Rightarrow> nat" and cost :: "'p \<Rightarrow> nat"
    and inv :: "'s \<Rightarrow> bool" and rel :: "'s \<Rightarrow> 'p list \<Rightarrow> 's \<Rightarrow> bool"
  assumes step_ok: "inv s \<Longrightarrow> cost p \<le> room s \<Longrightarrow>
      \<exists>s'. step s p = Inr s' \<and> inv s' \<and> room s \<le> room s' + cost p \<and> rel s [p] s'"
    and rel_Nil: "rel s [] s"
    and rel_trans: "rel s ps s' \<Longrightarrow> rel s' qs s'' \<Longrightarrow> rel s (ps @ qs) s''"
begin

lemma loop_ok:
  assumes "inv s" "sum_list (map cost ps) \<le> room s"
  shows "\<exists>s'. loop_r step s ps = Inr s' \<and> inv s' \<and> rel s ps s'"
  using assms
proof (induction ps arbitrary: s)
  case Nil
  then show ?case by (simp add: rel_Nil)
next
  case (Cons p ps)
  then obtain s1 where s1: "step s p = Inr s1" "inv s1" "room s \<le> room s1 + cost p" "rel s [p] s1"
    using step_ok [of s p] by auto
  with Cons.prems have "sum_list (map cost ps) \<le> room s1" by simp
  with Cons.IH [OF s1(2)] obtain s' where "loop_r step s1 ps = Inr s'" "inv s'" "rel s1 ps s'"
    by blast
  with s1 rel_trans [OF s1(4)] show ?case by auto
qed

end

end
