(* ===== verification/Wire.thy ===== *)
theory Wire
  imports Prelude
begin

text \<open>
  The SMIP packet header of \<open>wire/src/lib.rs\<close>: the 96-byte layout, \<open>Header::marshal_into\<close>
  and \<open>Header::parse\<close>, the read-only view \<open>HeaderViewRef\<close> and the mutable view
  \<open>HeaderView\<close>. A buffer is the list of its bytes; the unaligned pointer reads and writes of
  the code are \<open>subslice\<close> and \<open>overwrite\<close> at the field's offset, with the big-endian
  conversion (\<open>to_be\<close>, \<open>from_be\<close> around a native access) written as \<open>be_bytes\<close> and
  \<open>be_val\<close>. A view is the first 96 bytes of the buffer it borrows.
\<close>

subsection \<open>Layout\<close>

definition HEADER_SIZE :: nat where "HEADER_SIZE = 96"
definition MCR_SPRAY_FLAG :: u16 where "MCR_SPRAY_FLAG = push_bit 0 1"
definition MCR_FULL_SPRAY_FLAG :: u16 where "MCR_FULL_SPRAY_FLAG = push_bit 1 1"

definition SRC_OFFSET :: nat where "SRC_OFFSET = 0"
definition DST_OFFSET :: nat where "DST_OFFSET = 32"
definition FLOW_OFFSET :: nat where "FLOW_OFFSET = 64"
definition SEQ_OFFSET :: nat where "SEQ_OFFSET = 68"
definition SESSION_OFFSET :: nat where "SESSION_OFFSET = 76"
definition FLAGS_OFFSET :: nat where "FLAGS_OFFSET = 92"
definition LEN_OFFSET :: nat where "LEN_OFFSET = 94"

lemmas layout_defs = HEADER_SIZE_def SRC_OFFSET_def DST_OFFSET_def FLOW_OFFSET_def SEQ_OFFSET_def
  SESSION_OFFSET_def FLAGS_OFFSET_def LEN_OFFSET_def

record header =
  src_id :: "32 barr"
  dst_id :: "32 barr"
  flow_label :: u32
  seq_num :: u64
  session_id :: "16 barr"
  flags :: u16
  payload_length :: u16

datatype wire_error = ErrBufferTooSmall

definition header_new :: header where
  "header_new = \<lparr>src_id = fill_arr 0, dst_id = fill_arr 0, flow_label = 0, seq_num = 0,
     session_id = fill_arr 0, flags = 0, payload_length = 0\<rparr>"

definition new_header_buffer :: "nat \<Rightarrow> bytes" where
  "new_header_buffer payload_len = replicate (HEADER_SIZE + payload_len) 0"

subsection \<open>Marshalling and parsing\<close>

definition marshal_into :: "header \<Rightarrow> bytes \<Rightarrow> wire_error + bytes" where
  "marshal_into h buf =
     (if length buf < HEADER_SIZE then Inl ErrBufferTooSmall
      else let buf = overwrite SRC_OFFSET (bytes_of (src_id h)) buf;
               buf = overwrite DST_OFFSET (bytes_of (dst_id h)) buf;
               buf = overwrite FLOW_OFFSET (be_bytes (flow_label h)) buf;
               buf = overwrite SEQ_OFFSET (be_bytes (seq_num h)) buf;
               buf = overwrite SESSION_OFFSET (bytes_of (session_id h)) buf;
               buf = overwrite FLAGS_OFFSET (be_bytes (flags h)) buf;
               buf = overwrite LEN_OFFSET (be_bytes (payload_length h)) buf
           in Inr buf)"

definition parse :: "bytes \<Rightarrow> wire_error + header" where
  "parse buf =
     (if length buf < HEADER_SIZE then Inl ErrBufferTooSmall
      else Inr \<lparr>src_id = arr (subslice SRC_OFFSET 32 buf),
                dst_id = arr (subslice DST_OFFSET 32 buf),
                flow_label = be_val (subslice FLOW_OFFSET 4 buf),
                seq_num = be_val (subslice SEQ_OFFSET 8 buf),
                session_id = arr (subslice SESSION_OFFSET 16 buf),
                flags = be_val (subslice FLAGS_OFFSET 2 buf),
                payload_length = be_val (subslice LEN_OFFSET 2 buf)\<rparr>)"

text \<open>The wire format as a specification: the fields in order, integers big-endian.\<close>

definition header_bytes :: "header \<Rightarrow> bytes" where
  "header_bytes h = bytes_of (src_id h) @ bytes_of (dst_id h) @ be_bytes (flow_label h) @
     be_bytes (seq_num h) @ bytes_of (session_id h) @ be_bytes (flags h) @
     be_bytes (payload_length h)"

lemma length_header_bytes [simp]: "length (header_bytes h) = 96"
  by (simp add: header_bytes_def)

text \<open>Fields written in order extend a written prefix.\<close>

lemma overwrite_next:
  "length xs = n \<Longrightarrow> n + length src = m \<Longrightarrow>
   overwrite n src (xs @ drop n buf) = (xs @ src) @ drop m buf"
  by (auto simp: overwrite_def add.commute)

lemma marshal_into_layout:
  assumes "96 \<le> length buf"
  shows "marshal_into h buf = Inr (header_bytes h @ drop 96 buf)"
proof -
  let ?s = "bytes_of (src_id h)" and ?d = "bytes_of (dst_id h)" and ?f = "be_bytes (flow_label h)"
  let ?q = "be_bytes (seq_num h)" and ?i = "bytes_of (session_id h)" and ?g = "be_bytes (flags h)"
  have "overwrite 0 ?s buf = ?s @ drop 32 buf" by (simp add: overwrite_def)
  moreover have "overwrite 32 ?d (?s @ drop 32 buf) = (?s @ ?d) @ drop 64 buf"
    by (rule overwrite_next) simp_all
  moreover have "overwrite 64 ?f ((?s @ ?d) @ drop 64 buf) = ((?s @ ?d) @ ?f) @ drop 68 buf"
    by (rule overwrite_next) simp_all
  moreover have "overwrite 68 ?q (((?s @ ?d) @ ?f) @ drop 68 buf) =
      (((?s @ ?d) @ ?f) @ ?q) @ drop 76 buf"
    by (rule overwrite_next) simp_all
  moreover have "overwrite 76 ?i ((((?s @ ?d) @ ?f) @ ?q) @ drop 76 buf) =
      ((((?s @ ?d) @ ?f) @ ?q) @ ?i) @ drop 92 buf"
    by (rule overwrite_next) simp_all
  moreover have "overwrite 92 ?g (((((?s @ ?d) @ ?f) @ ?q) @ ?i) @ drop 92 buf) =
      (((((?s @ ?d) @ ?f) @ ?q) @ ?i) @ ?g) @ drop 94 buf"
    by (rule overwrite_next) simp_all
  moreover have "overwrite 94 (be_bytes (payload_length h))
        ((((((?s @ ?d) @ ?f) @ ?q) @ ?i) @ ?g) @ drop 94 buf) = header_bytes h @ drop 96 buf"
    by (subst overwrite_next [where m = 96]) (simp_all add: header_bytes_def)
  ultimately show ?thesis
    using assms by (simp only: marshal_into_def layout_defs Let_def not_less if_False) simp
qed

lemma header_of_parts:
  assumes "length s = 32" "length d = 32" "length f = 4" "length q = 8" "length i = 16"
    "length g = 2" "length l = 2"
  shows "parse (s @ d @ f @ q @ i @ g @ l @ rest) =
    Inr \<lparr>src_id = arr s, dst_id = arr d, flow_label = be_val f, seq_num = be_val q,
      session_id = arr i, flags = be_val g, payload_length = be_val l\<rparr>"
  using assms by (simp add: parse_def layout_defs subslice_def)

lemma parse_header_bytes: "parse (header_bytes h @ rest) = Inr h"
  by (simp add: header_bytes_def header_of_parts be_val_be_bytes)

lemma parse_ErrBufferTooSmall: "parse buf = Inl e \<longleftrightarrow> length buf < 96"
  by (cases e) (simp add: parse_def HEADER_SIZE_def)

lemma split_header:
  assumes "96 \<le> length buf"
  obtains s d f q i g l rest where "buf = s @ d @ f @ q @ i @ g @ l @ rest"
    "length s = 32" "length d = 32" "length f = 4" "length q = 8" "length i = 16"
    "length g = 2" "length l = 2"
proof
  define r where "r n = drop n buf" for n
  have step: "r n = take k (r n) @ r (n + k)" for n k
    by (simp add: r_def add.commute [of n k] drop_drop [of k n, symmetric] del: drop_drop)
  show "buf = take 32 (r 0) @ take 32 (r 32) @ take 4 (r 64) @ take 8 (r 68) @
      take 16 (r 76) @ take 2 (r 92) @ take 2 (r 94) @ r 96"
    using step [of 0 32] step [of 32 32] step [of 64 4] step [of 68 8] step [of 76 16]
      step [of 92 2] step [of 94 2] by (simp add: r_def)
qed (use assms in simp_all)

lemma header_bytes_parse: "parse buf = Inr h \<Longrightarrow> header_bytes h = take 96 buf"
proof -
  assume p: "parse buf = Inr h"
  then have "96 \<le> length buf" by (auto simp: parse_def HEADER_SIZE_def split: if_splits)
  then show ?thesis
  proof (rule split_header)
    fix s d f q i g l rest
    assume b: "buf = s @ d @ f @ q @ i @ g @ l @ rest"
      "length s = 32" "length d = 32" "length f = 4" "length q = 8" "length i = 16"
      "length g = 2" "length l = 2"
    with p header_of_parts [of s d f q i g l rest] show ?thesis
      by (auto simp: header_bytes_def be_bytes_be_val)
  qed
qed


subsection \<open>Read-only views\<close>

text \<open>\<open>HeaderViewRef::new\<close> checks the length once; the getters then read without a check.\<close>

definition HeaderViewRef_new :: "bytes \<Rightarrow> wire_error + bytes" where
  "HeaderViewRef_new buf =
     (if length buf < HEADER_SIZE then Inl ErrBufferTooSmall else Inr (take HEADER_SIZE buf))"

definition ref_src_id :: "bytes \<Rightarrow> 32 barr" where
  "ref_src_id v = arr (subslice SRC_OFFSET 32 v)"

definition ref_dst_id :: "bytes \<Rightarrow> 32 barr" where
  "ref_dst_id v = arr (subslice DST_OFFSET 32 v)"

definition ref_flow_label :: "bytes \<Rightarrow> u32" where
  "ref_flow_label v = be_val (subslice FLOW_OFFSET 4 v)"

definition ref_seq_num :: "bytes \<Rightarrow> u64" where
  "ref_seq_num v = be_val (subslice SEQ_OFFSET 8 v)"

definition ref_session_id :: "bytes \<Rightarrow> 16 barr" where
  "ref_session_id v = arr (subslice SESSION_OFFSET 16 v)"

definition ref_flags :: "bytes \<Rightarrow> u16" where
  "ref_flags v = be_val (subslice FLAGS_OFFSET 2 v)"

definition ref_length :: "bytes \<Rightarrow> u16" where
  "ref_length v = be_val (subslice LEN_OFFSET 2 v)"

lemmas ref_defs = ref_src_id_def ref_dst_id_def ref_flow_label_def ref_seq_num_def
  ref_session_id_def ref_flags_def ref_length_def

lemma ref_take:
  "ref_src_id (take 96 buf) = ref_src_id buf" "ref_dst_id (take 96 buf) = ref_dst_id buf"
  "ref_flow_label (take 96 buf) = ref_flow_label buf" "ref_seq_num (take 96 buf) = ref_seq_num buf"
  "ref_session_id (take 96 buf) = ref_session_id buf" "ref_flags (take 96 buf) = ref_flags buf"
  "ref_length (take 96 buf) = ref_length buf"
  by (simp_all add: ref_defs SRC_OFFSET_def DST_OFFSET_def FLOW_OFFSET_def SEQ_OFFSET_def
      SESSION_OFFSET_def FLAGS_OFFSET_def LEN_OFFSET_def slice_take)

subsection \<open>Mutable views\<close>

definition HeaderView_view :: "bytes \<Rightarrow> wire_error + bytes" where
  "HeaderView_view buf =
     (if length buf < HEADER_SIZE then Inl ErrBufferTooSmall else Inr (take HEADER_SIZE buf))"

definition view_src_id :: "bytes \<Rightarrow> 32 barr" where
  "view_src_id v = arr (subslice SRC_OFFSET 32 v)"

definition view_dst_id :: "bytes \<Rightarrow> 32 barr" where
  "view_dst_id v = arr (subslice DST_OFFSET 32 v)"

definition view_flow_label :: "bytes \<Rightarrow> u32" where
  "view_flow_label v = be_val (subslice FLOW_OFFSET 4 v)"

definition view_seq_num :: "bytes \<Rightarrow> u64" where
  "view_seq_num v = be_val (subslice SEQ_OFFSET 8 v)"

definition view_session_id :: "bytes \<Rightarrow> 16 barr" where
  "view_session_id v = arr (subslice SESSION_OFFSET 16 v)"

definition view_flags :: "bytes \<Rightarrow> u16" where
  "view_flags v = be_val (subslice FLAGS_OFFSET 2 v)"

definition view_length :: "bytes \<Rightarrow> u16" where
  "view_length v = be_val (subslice LEN_OFFSET 2 v)"

definition set_src_id :: "32 barr \<Rightarrow> bytes \<Rightarrow> bytes" where
  "set_src_id x v = overwrite SRC_OFFSET (bytes_of x) v"

definition set_dst_id :: "32 barr \<Rightarrow> bytes \<Rightarrow> bytes" where
  "set_dst_id x v = overwrite DST_OFFSET (bytes_of x) v"

definition set_flow_label :: "u32 \<Rightarrow> bytes \<Rightarrow> bytes" where
  "set_flow_label x v = overwrite FLOW_OFFSET (be_bytes x) v"

definition set_seq_num :: "u64 \<Rightarrow> bytes \<Rightarrow> bytes" where
  "set_seq_num x v = overwrite SEQ_OFFSET (be_bytes x) v"

definition set_session_id :: "16 barr \<Rightarrow> bytes \<Rightarrow> bytes" where
  "set_session_id x v = overwrite SESSION_OFFSET (bytes_of x) v"

definition set_flags :: "u16 \<Rightarrow> bytes \<Rightarrow> bytes" where
  "set_flags x v = overwrite FLAGS_OFFSET (be_bytes x) v"

definition set_length :: "u16 \<Rightarrow> bytes \<Rightarrow> bytes" where
  "set_length x v = overwrite LEN_OFFSET (be_bytes x) v"

lemmas view_defs = view_src_id_def view_dst_id_def view_flow_label_def view_seq_num_def
  view_session_id_def view_flags_def view_length_def
lemmas set_defs = set_src_id_def set_dst_id_def set_flow_label_def set_seq_num_def
  set_session_id_def set_flags_def set_length_def

lemma HeaderViewRef_new_ok: "HeaderViewRef_new buf = Inr v \<longleftrightarrow> 96 \<le> length buf \<and> v = take 96 buf"
  by (auto simp: HeaderViewRef_new_def HEADER_SIZE_def)

lemma HeaderView_view_ok: "HeaderView_view buf = Inr v \<longleftrightarrow> 96 \<le> length buf \<and> v = take 96 buf"
  by (auto simp: HeaderView_view_def HEADER_SIZE_def)

lemma overwrite_field:
  "length xs = n \<Longrightarrow> length src = length old \<Longrightarrow> overwrite n src (xs @ old @ ys) = xs @ src @ ys"
  by (simp add: overwrite_def)

lemma set_header_bytes:
  "set_src_id a (header_bytes h) = header_bytes (h\<lparr>src_id := a\<rparr>)"
  "set_dst_id a (header_bytes h) = header_bytes (h\<lparr>dst_id := a\<rparr>)"
  "set_flow_label f (header_bytes h) = header_bytes (h\<lparr>flow_label := f\<rparr>)"
  "set_seq_num q (header_bytes h) = header_bytes (h\<lparr>seq_num := q\<rparr>)"
  "set_session_id i (header_bytes h) = header_bytes (h\<lparr>session_id := i\<rparr>)"
  "set_flags g (header_bytes h) = header_bytes (h\<lparr>flags := g\<rparr>)"
  "set_length l (header_bytes h) = header_bytes (h\<lparr>payload_length := l\<rparr>)"
proof -
  let ?s = "bytes_of (src_id h)" and ?d = "bytes_of (dst_id h)" and ?f = "be_bytes (flow_label h)"
  let ?q = "be_bytes (seq_num h)" and ?i = "bytes_of (session_id h)" and ?g = "be_bytes (flags h)"
  let ?l = "be_bytes (payload_length h)"
  show "set_src_id a (header_bytes h) = header_bytes (h\<lparr>src_id := a\<rparr>)"
    using overwrite_field [of "[]" 0 "bytes_of a" ?s]
    by (simp add: set_src_id_def header_bytes_def SRC_OFFSET_def)
  show "set_dst_id a (header_bytes h) = header_bytes (h\<lparr>dst_id := a\<rparr>)"
    using overwrite_field [of ?s 32 "bytes_of a" ?d]
    by (simp add: set_dst_id_def header_bytes_def DST_OFFSET_def)
  show "set_flow_label f (header_bytes h) = header_bytes (h\<lparr>flow_label := f\<rparr>)"
    using overwrite_field [of "?s @ ?d" 64 "be_bytes f" ?f]
    by (simp add: set_flow_label_def header_bytes_def FLOW_OFFSET_def)
  show "set_seq_num q (header_bytes h) = header_bytes (h\<lparr>seq_num := q\<rparr>)"
    using overwrite_field [of "?s @ ?d @ ?f" 68 "be_bytes q" ?q]
    by (simp add: set_seq_num_def header_bytes_def SEQ_OFFSET_def)
  show "set_session_id i (header_bytes h) = header_bytes (h\<lparr>session_id := i\<rparr>)"
    using overwrite_field [of "?s @ ?d @ ?f @ ?q" 76 "bytes_of i" ?i]
    by (simp add: set_session_id_def header_bytes_def SESSION_OFFSET_def)
  show "set_flags g (header_bytes h) = header_bytes (h\<lparr>flags := g\<rparr>)"
    using overwrite_field [of "?s @ ?d @ ?f @ ?q @ ?i" 92 "be_bytes g" ?g]
    by (simp add: set_flags_def header_bytes_def FLAGS_OFFSET_def)
  show "set_length l (header_bytes h) = header_bytes (h\<lparr>payload_length := l\<rparr>)"
    using overwrite_field [of "?s @ ?d @ ?f @ ?q @ ?i @ ?g" 94 "be_bytes l" ?l "[]"]
    by (simp add: set_length_def header_bytes_def LEN_OFFSET_def)
qed

text \<open>What the getters of both views read: the fields that \<open>parse\<close> returns.\<close>

lemma view_getters:
  assumes "parse buf = Inr h"
  shows "ref_src_id (take 96 buf) = src_id h" "ref_dst_id (take 96 buf) = dst_id h"
    "ref_flow_label (take 96 buf) = flow_label h" "ref_seq_num (take 96 buf) = seq_num h"
    "ref_session_id (take 96 buf) = session_id h" "ref_flags (take 96 buf) = flags h"
    "ref_length (take 96 buf) = payload_length h"
    "view_src_id (take 96 buf) = src_id h" "view_dst_id (take 96 buf) = dst_id h"
    "view_flow_label (take 96 buf) = flow_label h" "view_seq_num (take 96 buf) = seq_num h"
    "view_session_id (take 96 buf) = session_id h" "view_flags (take 96 buf) = flags h"
    "view_length (take 96 buf) = payload_length h"
  using assms
  by (auto simp: parse_def layout_defs ref_defs view_defs slice_simps split: if_splits)

lemma ref_header_bytes:
  "ref_src_id (header_bytes h @ rest) = src_id h" "ref_dst_id (header_bytes h @ rest) = dst_id h"
  "ref_flow_label (header_bytes h @ rest) = flow_label h" "ref_seq_num (header_bytes h @ rest) = seq_num h"
  "ref_session_id (header_bytes h @ rest) = session_id h" "ref_flags (header_bytes h @ rest) = flags h"
  "ref_length (header_bytes h @ rest) = payload_length h"
  using view_getters(1-7) [OF parse_header_bytes [of h rest]] by (simp_all only: ref_take)

lemma ref_getters_prefix:
  assumes "96 \<le> length buf"
  shows "ref_src_id (take 96 buf) = arr (subslice 0 32 buf)"
    "ref_dst_id (take 96 buf) = arr (subslice 32 32 buf)"
    "ref_flow_label (take 96 buf) = be_val (subslice 64 4 buf)"
    "ref_seq_num (take 96 buf) = be_val (subslice 68 8 buf)"
    "ref_length (take 96 buf) = be_val (subslice 94 2 buf)"
  by (simp_all add: ref_defs layout_defs slice_simps)

subsection \<open>Properties\<close>

text \<open>The bytes of the scalar fields. The documents of the repository differ from the code here:
  \<open>BRIDGE_CONTRACT.md\<close> (lines 26 and 46) calls the format little-endian, and the table of
  \<open>docs/formal/SMIP_HEADER_SPEC.md\<close> puts the flags at offset 0x5A, although the sizes of that
  table, like the code, put them at 0x5C. With flags 1 all three readings give different bytes.\<close>

lemma header_bytes_scalars:
  "take 4 (drop 0x40 (header_bytes h)) = be_bytes (flow_label h)"
  "take 8 (drop 0x44 (header_bytes h)) = be_bytes (seq_num h)"
  "take 2 (drop 0x5C (header_bytes h)) = be_bytes (flags h)"
  "take 2 (drop 0x5E (header_bytes h)) = be_bytes (payload_length h)"
  by (simp_all add: header_bytes_def)

lemma documented_layout_differs:
  "take 6 (drop 0x5A (header_bytes (header_new\<lparr>flags := 1\<rparr>))) = [0, 0, 0, 1, 0, 0]"
  by code_simp

text \<open>C32. The code's wire format, with its own layout and byte order, which two documents of the
  repository contradict. \<open>marshal_into\<close> fails exactly on a buffer shorter than the header; otherwise
  it writes into the first 96 bytes the source, the destination, the flow label, the sequence number,
  the session, the flags (at offset 0x5C) and the length, every number big-endian, and leaves every
  byte after them alone; \<open>parse\<close> of the result gives the header back.\<close>

theorem marshal_parse_roundtrip:
  "marshal_into h buf =
     (if length buf < 96 then Inl ErrBufferTooSmall else Inr (header_bytes h @ drop 96 buf))
   \<and> parse (header_bytes h @ drop 96 buf) = Inr h
   \<and> length (header_bytes h) = HEADER_SIZE"
  by (simp add: marshal_into_layout parse_header_bytes HEADER_SIZE_def)
    (simp add: marshal_into_def HEADER_SIZE_def)

text \<open>Every buffer that parses is the wire format of the header it parses to:
  marshalling the parsed header back into the buffer changes nothing.\<close>

theorem parse_marshal_identity:
  assumes "parse buf = Inr h"
  shows "marshal_into h buf = Inr buf \<and> take 96 buf = header_bytes h"
proof -
  have "96 \<le> length buf" using assms by (auto simp: parse_def HEADER_SIZE_def split: if_splits)
  then show ?thesis
    using header_bytes_parse [OF assms] by (simp add: marshal_into_layout)
qed

theorem parse_marshal_identity_witness:
  "marshal_into header_new (new_header_buffer 4) = Inr (new_header_buffer 4) \<and>
   take 96 (new_header_buffer 4) = header_bytes header_new"
proof (rule parse_marshal_identity)
  have "header_bytes header_new = replicate 96 0"
    by (simp add: header_bytes_def header_new_def replicate_add [symmetric])
  moreover have "new_header_buffer 4 = replicate 96 0 @ replicate 4 0"
    by (simp add: new_header_buffer_def HEADER_SIZE_def replicate_add [symmetric])
  ultimately show "parse (new_header_buffer 4) = Inr header_new"
    by (metis parse_header_bytes)
qed

text \<open>The zero-copy views agree with \<open>parse\<close>: they are created on exactly the buffers
  that parse, and each getter of each view returns the parsed field.\<close>

theorem views_agree_with_parse:
  assumes "parse buf = Inr h"
  shows "HeaderViewRef_new buf = Inr (take 96 buf) \<and> HeaderView_view buf = Inr (take 96 buf)
    \<and> h = \<lparr>src_id = ref_src_id (take 96 buf), dst_id = ref_dst_id (take 96 buf),
         flow_label = ref_flow_label (take 96 buf), seq_num = ref_seq_num (take 96 buf),
         session_id = ref_session_id (take 96 buf), flags = ref_flags (take 96 buf),
         payload_length = ref_length (take 96 buf)\<rparr>
    \<and> h = \<lparr>src_id = view_src_id (take 96 buf), dst_id = view_dst_id (take 96 buf),
         flow_label = view_flow_label (take 96 buf), seq_num = view_seq_num (take 96 buf),
         session_id = view_session_id (take 96 buf), flags = view_flags (take 96 buf),
         payload_length = view_length (take 96 buf)\<rparr>"
proof -
  have "96 \<le> length buf" using assms by (auto simp: parse_def HEADER_SIZE_def split: if_splits)
  then show ?thesis
    by (simp add: view_getters [OF assms] HeaderViewRef_new_ok HeaderView_view_ok)
qed

theorem views_agree_with_parse_witness:
  "ref_flow_label (take 96 (header_bytes (header_new\<lparr>flow_label := 7\<rparr>) @ [1, 2])) = 7"
proof -
  note h = views_agree_with_parse [OF parse_header_bytes [of "header_new\<lparr>flow_label := 7\<rparr>" "[1, 2]"],
      THEN conjunct2, THEN conjunct2, THEN conjunct1]
  from arg_cong [OF h, of flow_label] show ?thesis by simp
qed

text \<open>Each setter of the mutable view updates exactly its field: on a view of a buffer
  that parses to \<open>h\<close>, the written view followed by the rest of the buffer parses to \<open>h\<close> with
  that one field replaced.\<close>

theorem setters_update_one_field:
  assumes "HeaderView_view buf = Inr v" and "parse buf = Inr h"
  shows "parse (set_src_id a v @ drop 96 buf) = Inr (h\<lparr>src_id := a\<rparr>)
    \<and> parse (set_dst_id a v @ drop 96 buf) = Inr (h\<lparr>dst_id := a\<rparr>)
    \<and> parse (set_flow_label f v @ drop 96 buf) = Inr (h\<lparr>flow_label := f\<rparr>)
    \<and> parse (set_seq_num q v @ drop 96 buf) = Inr (h\<lparr>seq_num := q\<rparr>)
    \<and> parse (set_session_id i v @ drop 96 buf) = Inr (h\<lparr>session_id := i\<rparr>)
    \<and> parse (set_flags g v @ drop 96 buf) = Inr (h\<lparr>flags := g\<rparr>)
    \<and> parse (set_length l v @ drop 96 buf) = Inr (h\<lparr>payload_length := l\<rparr>)"
proof -
  have "v = header_bytes h"
    using assms header_bytes_parse by (auto simp: HeaderView_view_ok)
  then show ?thesis by (simp add: set_header_bytes parse_header_bytes)
qed

theorem setters_update_one_field_witness:
  "parse (set_flags 68 (header_bytes header_new) @ drop 96 (header_bytes header_new @ [9])) =
     Inr (header_new\<lparr>flags := 68\<rparr>)"
proof -
  have "HeaderView_view (header_bytes header_new @ [9]) = Inr (header_bytes header_new)"
    by (simp add: HeaderView_view_ok)
  from setters_update_one_field [OF this parse_header_bytes] show ?thesis by blast
qed

end
