(* ===== verification/Route_Table.thy ===== *)
theory Route_Table
  imports Prelude
begin

text \<open>
  The route table of \<open>routing/src/lib.rs\<close>: \<open>RouteEntry\<close>, the sorted main map
  (\<open>BTreeMap\<close>, the list of its entries in key order), the sixteen hash shards that the fast
  path reads, the compact list of next hops used by the predictive fallback, the
  per-destination channel statistics, and \<open>update_route\<close> / \<open>remove_route\<close> with the bump of
  the global epoch. A hash map that is only looked up is a function; one that is iterated
  is a list of pairs, whose order stands for the unspecified iteration order. The locks are
  taken and released inside one operation, so an operation is one state change here.
  The interface \<open>map_store\<close> states what a keyed store promises; the shards and the
  sorted map both provide it, and \<open>store_mirror\<close> is the client that keeps two of them equal.
\<close>

subsection \<open>Data\<close>

type_synonym node_id = "32 barr"

record route_entry =
  dest_id :: node_id
  next_hop_id :: node_id
  metric :: "32 word"
  last_seen :: nat
  channel_count :: u8
  alternate_channels :: "node_id list"
  mcr_epoch :: u64

record channel_stats =
  per_channel_forwarded :: "(node_id \<times> u64) list"
  packets_dropped :: u64
  last_failure :: "nat option"
  failure_count :: u32

record table =
  entries :: "(node_id \<times> route_entry) list"
  predictive_next_hops :: "node_id list"
  fast_shards :: "(node_id \<rightharpoonup> route_entry) list"
  mcr_channel_stats :: "(node_id \<times> channel_stats) list"

definition HOT_CACHE_SIZE :: nat where "HOT_CACHE_SIZE = 256"
definition FAST_SHARDS :: nat where "FAST_SHARDS = 16"

definition channel_stats_default :: channel_stats where
  "channel_stats_default =
     \<lparr>per_channel_forwarded = [], packets_dropped = 0, last_failure = None, failure_count = 0\<rparr>"

definition table_new :: table where
  "table_new = \<lparr>entries = [], predictive_next_hops = [],
     fast_shards = replicate FAST_SHARDS Map.empty, mcr_channel_stats = []\<rparr>"

subsection \<open>Hashing of identifiers\<close>

text \<open>The first eight bytes of an identifier, read as a native (little-endian) \<open>u64\<close>.\<close>

definition prefix64 :: "node_id \<Rightarrow> u64" where
  "prefix64 d = le_val (subslice 0 8 (bytes_of d))"

definition KNUTH :: u64 where "KNUTH = 0x9e3779b97f4a7c15"

definition shard_for_val :: "u64 \<Rightarrow> nat" where
  "shard_for_val val_64 = unat (val_64 * KNUTH) AND (FAST_SHARDS - 1)"

definition shard_for_dest :: "node_id \<Rightarrow> nat" where
  "shard_for_dest d = shard_for_val (prefix64 d)"

definition simple_cache_index :: "u64 \<Rightarrow> nat" where
  "simple_cache_index val_64 = unat (val_64 * KNUTH) AND (HOT_CACHE_SIZE - 1)"

definition spray_cache_index :: "u64 \<Rightarrow> u32 \<Rightarrow> nat" where
  "spray_cache_index val_64 flow = unat ((val_64 XOR ucast flow) * KNUTH) AND (HOT_CACHE_SIZE - 1)"

definition cache_index_from_hash :: "u64 \<Rightarrow> nat" where
  "cache_index_from_hash h = unat (h XOR drop_bit 32 h) AND (HOT_CACHE_SIZE - 1)"

definition fast_flow_hash :: "node_id \<Rightarrow> node_id \<Rightarrow> u32 \<Rightarrow> u64" where
  "fast_flow_hash src dst flow =
     (let s = (\<lambda>i. le_val (subslice (8 * i) 8 (bytes_of src)));
          d = (\<lambda>i. le_val (subslice (8 * i) 8 (bytes_of dst)))
      in s 0 XOR s 1 XOR s 2 XOR s 3 XOR d 0 XOR d 1 XOR d 2 XOR d 3 XOR ucast flow)"

lemma shard_for_dest_less [simp]: "shard_for_dest d < FAST_SHARDS"
  by (simp add: shard_for_dest_def shard_for_val_def FAST_SHARDS_def and_mask_less [of 16, simplified])

lemma simple_cache_index_less [simp]: "simple_cache_index v < HOT_CACHE_SIZE"
  by (simp add: simple_cache_index_def HOT_CACHE_SIZE_def and_mask_less [of 256, simplified])

lemma spray_cache_index_less [simp]: "spray_cache_index v f < HOT_CACHE_SIZE"
  by (simp add: spray_cache_index_def HOT_CACHE_SIZE_def and_mask_less [of 256, simplified])

lemma cache_index_from_hash_less [simp]: "cache_index_from_hash h < HOT_CACHE_SIZE"
  by (simp add: cache_index_from_hash_def HOT_CACHE_SIZE_def and_mask_less [of 256, simplified])

subsection \<open>Keyed stores\<close>

datatype ('k, 'v) store_op = Put 'k 'v | Drop 'k

fun run_map :: "('k \<rightharpoonup> 'v) \<Rightarrow> ('k, 'v) store_op list \<Rightarrow> ('k \<rightharpoonup> 'v)" where
  "run_map m [] = m"
| "run_map m (Put k v # ops) = run_map (m(k \<mapsto> v)) ops"
| "run_map m (Drop k # ops) = run_map (m(k := None)) ops"

fun run_store :: "('k \<Rightarrow> 'v \<Rightarrow> 's \<Rightarrow> 's) \<Rightarrow> ('k \<Rightarrow> 's \<Rightarrow> 's) \<Rightarrow> 's \<Rightarrow> ('k, 'v) store_op list \<Rightarrow> 's" where
  "run_store upd del s [] = s"
| "run_store upd del s (Put k v # ops) = run_store upd del (upd k v s) ops"
| "run_store upd del s (Drop k # ops) = run_store upd del (del k s) ops"

locale map_store =
  fixes upd :: "'k \<Rightarrow> 'v \<Rightarrow> 's \<Rightarrow> 's" and del :: "'k \<Rightarrow> 's \<Rightarrow> 's"
    and look :: "'s \<Rightarrow> 'k \<Rightarrow> 'v option" and inv :: "'s \<Rightarrow> bool"
  assumes look_upd: "inv s \<Longrightarrow> look (upd k v s) = (look s)(k \<mapsto> v)"
    and look_del: "inv s \<Longrightarrow> look (del k s) = (look s)(k := None)"
    and inv_upd: "inv s \<Longrightarrow> inv (upd k v s)"
    and inv_del: "inv s \<Longrightarrow> inv (del k s)"
begin

lemma look_upd_same: "inv s \<Longrightarrow> look (upd k v s) k = Some v"
  by (simp add: look_upd)

lemma look_upd_other: "inv s \<Longrightarrow> k' \<noteq> k \<Longrightarrow> look (upd k v s) k' = look s k'"
  by (simp add: look_upd)

lemma look_del_same: "inv s \<Longrightarrow> look (del k s) k = None"
  by (simp add: look_del)

lemma run_store_refines:
  "inv s \<Longrightarrow> look (run_store upd del s ops) = run_map (look s) ops \<and> inv (run_store upd del s ops)"
proof (induction ops arbitrary: s)
  case (Cons op ops)
  then show ?case by (cases op) (simp_all add: look_upd look_del inv_upd inv_del fun_upd_def)
qed simp

end

locale store_mirror =
  a: map_store upd1 del1 look1 inv1 + b: map_store upd2 del2 look2 inv2
  for upd1 :: "'k \<Rightarrow> 'v \<Rightarrow> 's1 \<Rightarrow> 's1" and del1 look1 inv1
    and upd2 :: "'k \<Rightarrow> 'v \<Rightarrow> 's2 \<Rightarrow> 's2" and del2 look2 inv2
begin

lemma mirror_run:
  assumes "inv1 s" "inv2 t" "look1 s = look2 t"
  shows "look1 (run_store upd1 del1 s ops) = look2 (run_store upd2 del2 t ops)"
  using assms a.run_store_refines [of s ops] b.run_store_refines [of t ops] by simp

lemma mirror_upd:
  assumes "inv1 s" "inv2 t" "look1 s = look2 t"
  shows "look1 (upd1 k v s) = look2 (upd2 k v t)"
  using assms by (simp add: a.look_upd b.look_upd)

lemma mirror_del:
  assumes "inv1 s" "inv2 t" "look1 s = look2 t"
  shows "look1 (del1 k s) = look2 (del2 k t)"
  using assms by (simp add: a.look_del b.look_del)

end

text \<open>The sharded index.\<close>

definition shard_insert :: "node_id \<Rightarrow> route_entry \<Rightarrow> (node_id \<rightharpoonup> route_entry) list \<Rightarrow> (node_id \<rightharpoonup> route_entry) list" where
  "shard_insert d e shards = shards[shard_for_dest d := (shards ! shard_for_dest d)(d \<mapsto> e)]"

definition shard_remove :: "node_id \<Rightarrow> (node_id \<rightharpoonup> route_entry) list \<Rightarrow> (node_id \<rightharpoonup> route_entry) list" where
  "shard_remove d shards = shards[shard_for_dest d := (shards ! shard_for_dest d)(d := None)]"

definition shard_get :: "(node_id \<rightharpoonup> route_entry) list \<Rightarrow> node_id \<Rightarrow> route_entry option" where
  "shard_get shards d = (shards ! shard_for_dest d) d"

definition shards_wf :: "(node_id \<rightharpoonup> route_entry) list \<Rightarrow> bool" where
  "shards_wf shards \<longleftrightarrow> length shards = FAST_SHARDS"

lemma shard_get_insert:
  "shards_wf s \<Longrightarrow> shard_get (shard_insert d e s) = (shard_get s)(d \<mapsto> e)"
  by (auto simp: shard_get_def shard_insert_def shards_wf_def nth_list_update fun_eq_iff)

lemma shard_get_remove:
  "shards_wf s \<Longrightarrow> shard_get (shard_remove d s) = (shard_get s)(d := None)"
  by (auto simp: shard_get_def shard_remove_def shards_wf_def nth_list_update fun_eq_iff)

lemma shards_wf_insert: "shards_wf s \<Longrightarrow> shards_wf (shard_insert d e s)"
  and shards_wf_remove: "shards_wf s \<Longrightarrow> shards_wf (shard_remove d s)"
  by (simp_all add: shards_wf_def shard_insert_def shard_remove_def)

text \<open>The sorted main map.\<close>

fun btree_insert :: "'k::linorder \<Rightarrow> 'v \<Rightarrow> ('k \<times> 'v) list \<Rightarrow> ('k \<times> 'v) list" where
  "btree_insert k v [] = [(k, v)]"
| "btree_insert k v ((k', v') # xs) =
     (if k < k' then (k, v) # (k', v') # xs
      else if k = k' then (k, v) # xs
      else (k', v') # btree_insert k v xs)"

definition btree_remove :: "'k \<Rightarrow> ('k \<times> 'v) list \<Rightarrow> ('k \<times> 'v) list" where
  "btree_remove k xs = filter (\<lambda>(k', _). k' \<noteq> k) xs"

definition btree_wf :: "('k::linorder \<times> 'v) list \<Rightarrow> bool" where
  "btree_wf xs \<longleftrightarrow> sorted_wrt (<) (map fst xs)"

lemma set_btree_insert: "fst ` set (btree_insert k v xs) = insert k (fst ` set xs)"
  by (induction k v xs rule: btree_insert.induct) auto

lemma map_of_btree_insert: "btree_wf xs \<Longrightarrow> map_of (btree_insert k v xs) = (map_of xs)(k \<mapsto> v)"
  by (induction k v xs rule: btree_insert.induct) (auto simp: btree_wf_def fun_eq_iff)

lemma btree_wf_insert: "btree_wf xs \<Longrightarrow> btree_wf (btree_insert k v xs)"
proof (induction k v xs rule: btree_insert.induct)
  case (2 k v k' v' xs)
  then show ?case
    using set_btree_insert [of k v xs] by (auto simp: btree_wf_def)
qed (simp add: btree_wf_def)

lemma map_of_btree_remove: "map_of (btree_remove k xs) = (map_of xs)(k := None)"
  by (induction xs) (auto simp: btree_remove_def fun_eq_iff)

lemma btree_wf_remove: "btree_wf xs \<Longrightarrow> btree_wf (btree_remove k xs)"
  by (induction xs) (auto simp: btree_wf_def btree_remove_def)

interpretation shard_store: map_store shard_insert shard_remove shard_get shards_wf
  by unfold_locales
    (simp_all add: shard_get_insert shard_get_remove shards_wf_insert shards_wf_remove)

interpretation btree_store: map_store "btree_insert :: node_id \<Rightarrow> route_entry \<Rightarrow> _" btree_remove map_of btree_wf
  by unfold_locales (simp_all add: map_of_btree_insert map_of_btree_remove btree_wf_insert btree_wf_remove)

interpretation mirror: store_mirror shard_insert shard_remove shard_get shards_wf
  "btree_insert :: node_id \<Rightarrow> route_entry \<Rightarrow> _" btree_remove map_of btree_wf ..


subsection \<open>Updating and removing routes\<close>

definition rebuild_predictive_entries :: "table \<Rightarrow> table" where
  "rebuild_predictive_entries t =
     t\<lparr>predictive_next_hops := map (\<lambda>(_, e). next_hop_id e) (entries t)\<rparr>"

text \<open>\<open>stats.entry(dest_id).or_default()\<close>.\<close>

definition stats_entry_or_default :: "node_id \<Rightarrow> (node_id \<times> channel_stats) list \<Rightarrow> (node_id \<times> channel_stats) list" where
  "stats_entry_or_default d stats =
     (case map_of stats d of None \<Rightarrow> (d, channel_stats_default) # stats | Some _ \<Rightarrow> stats)"

text \<open>A table together with \<open>GLOBAL_TABLE_EPOCH\<close>, which every table of the process shares;
  \<open>now\<close> is the reading of the system clock.\<close>

definition update_route :: "nat \<Rightarrow> route_entry \<Rightarrow> table \<times> u64 \<Rightarrow> table \<times> u64" where
  "update_route now e te =
     (let (t, epoch) = te;
          e = e\<lparr>last_seen := now\<rparr>;
          d = dest_id e;
          t = t\<lparr>fast_shards := shard_insert d e (fast_shards t)\<rparr>;
          t = rebuild_predictive_entries (t\<lparr>entries := btree_insert d e (entries t)\<rparr>);
          t = t\<lparr>mcr_channel_stats := stats_entry_or_default d (mcr_channel_stats t)\<rparr>
      in (t, epoch + 1))"

definition remove_route :: "node_id \<Rightarrow> table \<times> u64 \<Rightarrow> table \<times> u64" where
  "remove_route d te =
     (let (t, epoch) = te;
          t = t\<lparr>fast_shards := shard_remove d (fast_shards t)\<rparr>;
          t = rebuild_predictive_entries (t\<lparr>entries := btree_remove d (entries t)\<rparr>);
          t = t\<lparr>mcr_channel_stats := btree_remove d (mcr_channel_stats t)\<rparr>
      in (t, epoch + 1))"

text \<open>The routes a table holds, as a map: the abstraction the lookups are specified by.\<close>

definition routes_of :: "table \<Rightarrow> node_id \<rightharpoonup> route_entry" where
  "routes_of t = shard_get (fast_shards t)"

definition table_wf :: "table \<Rightarrow> bool" where
  "table_wf t \<longleftrightarrow> shards_wf (fast_shards t) \<and> btree_wf (entries t)
     \<and> map_of (entries t) = routes_of t
     \<and> predictive_next_hops t = map (\<lambda>(_, e). next_hop_id e) (entries t)"

lemma table_wf_new: "table_wf table_new" and routes_of_new: "routes_of table_new = Map.empty"
proof -
  show "routes_of table_new = Map.empty"
    by (simp add: routes_of_def table_new_def shard_get_def fun_eq_iff)
  then show "table_wf table_new"
    by (simp add: table_wf_def table_new_def shards_wf_def btree_wf_def)
qed

lemma table_wf_update:
  assumes "table_wf t" "update_route now e (t, ep) = (t', ep')"
  shows "table_wf t'" "routes_of t' = (routes_of t)(dest_id e \<mapsto> e\<lparr>last_seen := now\<rparr>)" "ep' = ep + 1"
  using assms
  by (auto simp: table_wf_def update_route_def Let_def rebuild_predictive_entries_def routes_of_def
      shard_get_insert shards_wf_insert btree_wf_insert map_of_btree_insert)

lemma table_wf_remove:
  assumes "table_wf t" "remove_route d (t, ep) = (t', ep')"
  shows "table_wf t'" "routes_of t' = (routes_of t)(d := None)" "ep' = ep + 1"
  using assms
  by (auto simp: table_wf_def remove_route_def Let_def rebuild_predictive_entries_def routes_of_def
      shard_get_remove shards_wf_remove btree_wf_remove map_of_btree_remove)

subsection \<open>Channel statistics\<close>

definition update_stats :: "node_id \<Rightarrow> (channel_stats \<Rightarrow> channel_stats) \<Rightarrow>
    (node_id \<times> channel_stats) list \<Rightarrow> (node_id \<times> channel_stats) list" where
  "update_stats d f stats = map (\<lambda>(k, s). (k, if k = d then f s else s)) (stats_entry_or_default d stats)"

text \<open>\<open>fetch_add\<close> on the counter of a next hop, created at zero when it is missing.\<close>

definition add_forwarded :: "node_id \<Rightarrow> u64 \<Rightarrow> channel_stats \<Rightarrow> channel_stats" where
  "add_forwarded nh n s =
     (let counters = per_channel_forwarded s
      in s\<lparr>per_channel_forwarded :=
           (case map_of counters nh of
              None \<Rightarrow> (nh, n) # counters
            | Some _ \<Rightarrow> map (\<lambda>(k, c). (k, if k = nh then c + n else c)) counters)\<rparr>)"

definition add_dropped :: "u64 \<Rightarrow> channel_stats \<Rightarrow> channel_stats" where
  "add_dropped n s = s\<lparr>packets_dropped := packets_dropped s + n\<rparr>"

definition inc_channel_forwarded :: "node_id \<Rightarrow> node_id \<Rightarrow> table \<Rightarrow> table" where
  "inc_channel_forwarded d nh t =
     t\<lparr>mcr_channel_stats := update_stats d (add_forwarded nh 1) (mcr_channel_stats t)\<rparr>"

definition inc_channel_dropped :: "node_id \<Rightarrow> table \<Rightarrow> table" where
  "inc_channel_dropped d t = t\<lparr>mcr_channel_stats := update_stats d (add_dropped 1) (mcr_channel_stats t)\<rparr>"

text \<open>The batch maps are given as the lists of their entries in iteration order.\<close>

definition apply_mcr_batch_stats ::
    "(node_id \<times> (node_id \<times> u64) list) list \<Rightarrow> (node_id \<times> u64) list \<Rightarrow> table \<Rightarrow> table" where
  "apply_mcr_batch_stats forwarded dropped t =
     (let stats = mcr_channel_stats t;
          stats = fold (\<lambda>(d, by_next_hop) st.
                     update_stats d (fold (\<lambda>(nh, n). add_forwarded nh n) by_next_hop) st) forwarded stats;
          stats = fold (\<lambda>(d, n) st. update_stats d (add_dropped n) st) dropped stats
      in t\<lparr>mcr_channel_stats := stats\<rparr>)"

text \<open>Hex encoding is the \<open>hex\<close> crate's, a parameter.\<close>

definition collect_mcr_metrics :: "(bytes \<Rightarrow> string) \<Rightarrow> table \<Rightarrow> (string \<times> string \<times> u64) list" where
  "collect_mcr_metrics hex_encode t =
     concat (map (\<lambda>(d, s).
        map (\<lambda>(nh, c). (hex_encode (bytes_of d), hex_encode (bytes_of nh), c)) (per_channel_forwarded s)
        @ (if 0 < packets_dropped s then [(hex_encode (bytes_of d), ''dropped'', packets_dropped s)] else []))
      (mcr_channel_stats t))"

text \<open>The counters as total functions: a missing entry counts zero.\<close>

definition count_of :: "channel_stats \<Rightarrow> node_id \<Rightarrow> u64" where
  "count_of s nh = (case map_of (per_channel_forwarded s) nh of None \<Rightarrow> 0 | Some c \<Rightarrow> c)"

definition forwarded_in :: "(node_id \<times> channel_stats) list \<Rightarrow> node_id \<Rightarrow> node_id \<Rightarrow> u64" where
  "forwarded_in stats d nh = (case map_of stats d of None \<Rightarrow> 0 | Some s \<Rightarrow> count_of s nh)"

definition dropped_in :: "(node_id \<times> channel_stats) list \<Rightarrow> node_id \<Rightarrow> u64" where
  "dropped_in stats d = (case map_of stats d of None \<Rightarrow> 0 | Some s \<Rightarrow> packets_dropped s)"

lemma map_of_map_snd: "map_of (map (\<lambda>(k, s). (k, g k s)) xs) k = map_option (g k) (map_of xs k)"
  by (induction xs) auto

lemma map_of_update_stats:
  "map_of (update_stats d f stats) d' =
     (if d' = d then Some (f (case map_of stats d of None \<Rightarrow> channel_stats_default | Some s \<Rightarrow> s))
      else map_of stats d')"
  by (auto simp: update_stats_def stats_entry_or_default_def map_of_map_snd
      map_of_map_snd [where g = "\<lambda>k s. if k = d then f s else s"] option.map_ident split: option.splits)

lemma count_of_add_forwarded:
  "count_of (add_forwarded nh n s) nh' = count_of s nh' + (if nh' = nh then n else 0)"
  by (auto simp: count_of_def add_forwarded_def Let_def
      map_of_map_snd [where g = "\<lambda>k c. if k = nh then c + n else c"] split: option.splits)

lemma count_of_default [simp]: "count_of channel_stats_default nh = 0"
  by (simp add: count_of_def channel_stats_default_def)

lemma add_dropped_count [simp]: "count_of (add_dropped n s) nh = count_of s nh"
  by (simp add: count_of_def add_dropped_def)

lemma add_forwarded_dropped [simp]: "packets_dropped (add_forwarded nh n s) = packets_dropped s"
  by (simp add: add_forwarded_def Let_def)


lemma dropped_add_dropped [simp]: "packets_dropped (add_dropped n s) = packets_dropped s + n"
  by (simp add: add_dropped_def)

lemma dropped_default [simp]: "packets_dropped channel_stats_default = 0"
  by (simp add: channel_stats_default_def)

lemma forwarded_in_update:
  assumes "\<And>s. count_of (f s) nh = count_of s nh + n"
  shows "forwarded_in (update_stats d f stats) d' nh = forwarded_in stats d' nh + (if d' = d then n else 0)"
  using assms by (auto simp: forwarded_in_def map_of_update_stats split: option.splits)

lemma dropped_in_update:
  assumes "\<And>s. packets_dropped (f s) = packets_dropped s + n"
  shows "dropped_in (update_stats d f stats) d' = dropped_in stats d' + (if d' = d then n else 0)"
  using assms by (auto simp: dropped_in_def map_of_update_stats split: option.splits)

definition sum_for :: "'k \<Rightarrow> ('k \<times> u64) list \<Rightarrow> u64" where
  "sum_for k xs = sum_list (map (\<lambda>(k', n). if k = k' then n else 0) xs)"

definition sum_forwarded :: "node_id \<Rightarrow> node_id \<Rightarrow> (node_id \<times> (node_id \<times> u64) list) list \<Rightarrow> u64" where
  "sum_forwarded d nh fw = sum_list (map (\<lambda>(d', by_nh). if d = d' then sum_for nh by_nh else 0) fw)"

lemma sum_for_simps [simp]:
  "sum_for k [] = 0" "sum_for k ((k', n) # xs) = (if k = k' then n else 0) + sum_for k xs"
  by (simp_all add: sum_for_def)

lemma sum_forwarded_simps [simp]:
  "sum_forwarded d nh [] = 0"
  "sum_forwarded d nh ((d', b) # fw) = (if d = d' then sum_for nh b else 0) + sum_forwarded d nh fw"
  by (simp_all add: sum_forwarded_def)

lemma fold_add_forwarded:
  "count_of (fold (\<lambda>(nh, n). add_forwarded nh n) b s) nh = count_of s nh + sum_for nh b"
  "packets_dropped (fold (\<lambda>(nh, n). add_forwarded nh n) b s) = packets_dropped s"
  by (induction b arbitrary: s) (auto simp: count_of_add_forwarded)

lemma fold_batch_forwarded:
  "forwarded_in (fold (\<lambda>(d, b) st. update_stats d (fold (\<lambda>(nh, n). add_forwarded nh n) b) st) fw stats) d nh
   = forwarded_in stats d nh + sum_forwarded d nh fw"
  "dropped_in (fold (\<lambda>(d, b) st. update_stats d (fold (\<lambda>(nh, n). add_forwarded nh n) b) st) fw stats) d
   = dropped_in stats d"
  by (induction fw arbitrary: stats)
    (auto simp: forwarded_in_update [OF fold_add_forwarded(1)] dropped_in_update [where n = 0] fold_add_forwarded)

lemma fold_batch_dropped:
  "forwarded_in (fold (\<lambda>(d, n) st. update_stats d (add_dropped n) st) dr stats) d nh = forwarded_in stats d nh"
  "dropped_in (fold (\<lambda>(d, n) st. update_stats d (add_dropped n) st) dr stats) d
   = dropped_in stats d + sum_for d dr"
  by (induction dr arbitrary: stats)
    (auto simp: forwarded_in_update [where n = 0] dropped_in_update)

subsection \<open>Properties\<close>

text \<open>Applying a batch of statistics adds, for every destination and next hop and modulo
  \<open>2 ^ 64\<close>, exactly the counts the batch holds for them, creates missing counters at zero and
  changes no other counter; counting packets one at a time with \<open>inc_channel_forwarded\<close> and
  \<open>inc_channel_dropped\<close> adds the same.\<close>

theorem batch_stats_add_up:
  "forwarded_in (mcr_channel_stats (apply_mcr_batch_stats fw dr t)) d nh =
     forwarded_in (mcr_channel_stats t) d nh + sum_forwarded d nh fw
   \<and> dropped_in (mcr_channel_stats (apply_mcr_batch_stats fw dr t)) d =
     dropped_in (mcr_channel_stats t) d + sum_for d dr
   \<and> forwarded_in (mcr_channel_stats (inc_channel_forwarded d' nh' t)) d nh =
     forwarded_in (mcr_channel_stats t) d nh + sum_forwarded d nh [(d', [(nh', 1)])]
   \<and> dropped_in (mcr_channel_stats (inc_channel_dropped d' t)) d =
     dropped_in (mcr_channel_stats t) d + sum_for d [(d', 1)]"
  by (auto simp: apply_mcr_batch_stats_def fold_batch_forwarded fold_batch_dropped inc_channel_forwarded_def
      inc_channel_dropped_def forwarded_in_update [OF count_of_add_forwarded] dropped_in_update [where n = 1])

fun table_run :: "(nat \<times> route_entry + node_id) list \<Rightarrow> table \<times> u64 \<Rightarrow> table \<times> u64" where
  "table_run [] te = te"
| "table_run (Inl (now, e) # ops) te = table_run ops (update_route now e te)"
| "table_run (Inr d # ops) te = table_run ops (remove_route d te)"

lemma table_wf_run: "table_wf (fst te) \<Longrightarrow> table_wf (fst (table_run ops te))"
proof (induction ops te rule: table_run.induct)
  case (2 now e ops te)
  then show ?case using table_wf_update(1) [of "fst te" now e "snd te"] by (metis prod.collapse table_run.simps(2))
next
  case (3 d ops te)
  then show ?case using table_wf_remove(1) [of "fst te" d "snd te"] by (metis prod.collapse table_run.simps(3))
qed simp

text \<open>The three representations of the routes stay in step: after any sequence of updates
  and removals on a fresh table, the shards hold exactly the routes of the sorted map, which
  is ordered by destination, and the predictive list is its next hops in that order.\<close>

theorem route_indexes_agree:
  "shard_get (fast_shards (fst (table_run ops (table_new, ep)))) = map_of (entries (fst (table_run ops (table_new, ep))))
   \<and> sorted_wrt (<) (map fst (entries (fst (table_run ops (table_new, ep)))))
   \<and> predictive_next_hops (fst (table_run ops (table_new, ep))) =
       map (next_hop_id \<circ> snd) (entries (fst (table_run ops (table_new, ep))))"
  using table_wf_run [of "(table_new, ep)" ops] table_wf_new
  by (simp add: table_wf_def routes_of_def btree_wf_def split_def comp_def)

end
