(* ===== verification/Route_Lookup.thy ===== *)
theory Route_Lookup
  imports Route_Table
begin

text \<open>
  The lookups of \<open>routing/src/lib.rs\<close>: the exact lookup with its per-thread cache, the
  spraying lookups over a route's channels (\<open>lookup_spray_buf\<close>, \<open>lookup_spray\<close>,
  \<open>lookup_spray_primary\<close> with its cache, \<open>lookup_spray_single\<close>) and the predictive fallback.
  The two caches are the thread-local statics \<open>THREAD_CACHE\<close> and \<open>SPRAY_CACHE\<close> of the
  calling thread, passed and returned; the epoch is the global counter that every table
  shares. The interface \<open>hop_service\<close> is what a client of a cached lookup relies on: the
  cache may change, the answer may not depend on it.
\<close>

subsection \<open>Caches\<close>

record thread_cache =
  epochs :: "u64 list"
  dest_ids :: "node_id list"
  next_hops :: "node_id list"

record spray_cache = thread_cache +
  flow_labels :: "u32 list"

definition thread_cache_init :: thread_cache where
  "thread_cache_init = \<lparr>epochs = replicate HOT_CACHE_SIZE 0,
     dest_ids = replicate HOT_CACHE_SIZE (fill_arr 0), next_hops = replicate HOT_CACHE_SIZE (fill_arr 0)\<rparr>"

definition spray_cache_init :: spray_cache where
  "spray_cache_init = \<lparr>epochs = replicate HOT_CACHE_SIZE 0,
     dest_ids = replicate HOT_CACHE_SIZE (fill_arr 0), next_hops = replicate HOT_CACHE_SIZE (fill_arr 0),
     flow_labels = replicate HOT_CACHE_SIZE 0\<rparr>"

subsection \<open>Exact lookup\<close>

definition lookup_next_hop ::
    "table \<Rightarrow> u64 \<Rightarrow> thread_cache \<Rightarrow> node_id \<Rightarrow> u32 \<Rightarrow> node_id option \<times> thread_cache" where
  "lookup_next_hop t cur_epoch cache dst flow =
     (let val_64 = prefix64 dst; idx = simple_cache_index val_64 in
      if epochs cache ! idx = cur_epoch \<and> prefix64 (dest_ids cache ! idx) = val_64
         \<and> dest_ids cache ! idx = dst
      then (Some (next_hops cache ! idx), cache)
      else case (fast_shards t ! shard_for_val val_64) dst of
             Some e \<Rightarrow>
               let nh = next_hop_id e in
               (Some nh, cache\<lparr>epochs := (epochs cache)[idx := cur_epoch],
                               dest_ids := (dest_ids cache)[idx := dst],
                               next_hops := (next_hops cache)[idx := nh]\<rparr>)
           | None \<Rightarrow> (None, cache))"

subsection \<open>Spraying over the channels of a route\<close>

definition channels :: "route_entry \<Rightarrow> node_id list" where
  "channels e = next_hop_id e # alternate_channels e"

definition channel_at :: "route_entry \<Rightarrow> nat \<Rightarrow> node_id" where
  "channel_at e idx = (if idx = 0 then next_hop_id e else alternate_channels e ! (idx - 1))"

text \<open>\<open>total\<close> is positive, so the remainder of the code cannot divide by zero.\<close>

definition lookup_spray_buf ::
    "table \<Rightarrow> node_id \<Rightarrow> u32 \<Rightarrow> (node_id \<times> bool) list \<Rightarrow> nat \<times> (node_id \<times> bool) list" where
  "lookup_spray_buf t dst flow buf =
     (case (fast_shards t ! shard_for_dest dst) dst of
        None \<Rightarrow> (0, buf)
      | Some e \<Rightarrow>
          (let total = 1 + length (alternate_channels e); count = min total (length buf) in
           if count = 0 then (0, buf)
           else if total = 1 then (1, buf[0 := (next_hop_id e, True)])
           else
             let idx = mask_or_mod (unat flow) total;
                 buf = buf[0 := (channel_at e idx, True)];
                 buf = fold (\<lambda>i b. b[i := (if i = idx then next_hop_id e
                                          else alternate_channels e ! (i - 1), False)]) [1..<count] buf
             in (count, buf)))"

definition lookup_spray :: "table \<Rightarrow> node_id \<Rightarrow> u32 \<Rightarrow> (node_id \<times> bool) list" where
  "lookup_spray t dst flow =
     (let stack_buf = replicate 16 (fill_arr 0, False);
          (count, stack_buf) = lookup_spray_buf t dst flow stack_buf
      in take count stack_buf)"

definition lookup_spray_primary ::
    "table \<Rightarrow> u64 \<Rightarrow> spray_cache \<Rightarrow> node_id \<Rightarrow> u32 \<Rightarrow> node_id option \<times> spray_cache" where
  "lookup_spray_primary t cur_epoch cache dst flow =
     (let val_64 = prefix64 dst; idx = spray_cache_index val_64 flow in
      if epochs cache ! idx = cur_epoch \<and> flow_labels cache ! idx = flow
         \<and> prefix64 (dest_ids cache ! idx) = val_64 \<and> dest_ids cache ! idx = dst
      then (Some (next_hops cache ! idx), cache)
      else case (fast_shards t ! shard_for_val val_64) dst of
             Some e \<Rightarrow>
               let nh = (if alternate_channels e = [] then next_hop_id e
                         else channel_at e (mask_or_mod (unat flow) (1 + length (alternate_channels e))))
               in (Some nh, cache\<lparr>epochs := (epochs cache)[idx := cur_epoch],
                                  dest_ids := (dest_ids cache)[idx := dst],
                                  flow_labels := (flow_labels cache)[idx := flow],
                                  next_hops := (next_hops cache)[idx := nh]\<rparr>)
           | None \<Rightarrow> (None, cache))"

definition lookup_spray_single :: "table \<Rightarrow> node_id \<Rightarrow> u32 \<Rightarrow> nat \<Rightarrow> node_id option" where
  "lookup_spray_single t dst flow channel_idx =
     (case (fast_shards t ! shard_for_dest dst) dst of
        None \<Rightarrow> None
      | Some e \<Rightarrow>
          (let count = 1 + length (alternate_channels e);
               flow_idx = (if 1 < count then mask_or_mod (unat flow) count else 0);
               target_idx = mask_or_mod channel_idx count
           in Some (if target_idx = 0 then channel_at e flow_idx
                    else if target_idx = flow_idx then next_hop_id e
                    else alternate_channels e ! (target_idx - 1))))"

subsection \<open>Predictive fallback\<close>

definition lookup_predictive_fallback :: "table \<Rightarrow> node_id \<Rightarrow> node_id \<Rightarrow> u32 \<Rightarrow> node_id option" where
  "lookup_predictive_fallback t src dst flow =
     (let hops = predictive_next_hops t; n = length hops in
      if n = 0 then None
      else if n = 1 then Some (hops ! 0)
      else
        let hash = fast_flow_hash src dst flow;
            pred_idx = (if is_power_of_two n then unat hash AND (n - 1)
                        else unat (drop_bit 64 ((ucast hash :: 128 word) * of_nat n)))
        in Some (hops ! pred_idx))"

definition lookup_or_predict ::
    "table \<Rightarrow> u64 \<Rightarrow> thread_cache \<Rightarrow> node_id \<Rightarrow> node_id \<Rightarrow> u32 \<Rightarrow> node_id option \<times> thread_cache" where
  "lookup_or_predict t cur_epoch cache src dst flow =
     (case lookup_next_hop t cur_epoch cache dst flow of
        (Some nh, cache') \<Rightarrow> (Some nh, cache')
      | (None, cache') \<Rightarrow> (lookup_predictive_fallback t src dst flow, cache'))"

definition predictive_next_hop ::
    "table \<Rightarrow> u64 \<Rightarrow> thread_cache \<Rightarrow> node_id \<Rightarrow> node_id \<Rightarrow> u32 \<Rightarrow> node_id option \<times> thread_cache" where
  "predictive_next_hop t cur_epoch cache src dst flow = lookup_or_predict t cur_epoch cache src dst flow"

subsection \<open>What the spraying lookups return\<close>

text \<open>The channel order of a flow: the channels with position \<open>idx\<close> swapped to the front.\<close>

definition spray_order :: "route_entry \<Rightarrow> u32 \<Rightarrow> node_id list" where
  "spray_order e flow =
     (let cs = channels e; idx = unat flow mod length cs in cs[0 := cs ! idx, idx := cs ! 0])"

lemma length_channels [simp]: "length (channels e) = 1 + length (alternate_channels e)"
  by (simp add: channels_def)

lemma channel_at_nth: "idx < length (channels e) \<Longrightarrow> channel_at e idx = channels e ! idx"
  by (cases idx) (simp_all add: channel_at_def channels_def)

lemma length_spray_order [simp]: "length (spray_order e flow) = length (channels e)"
  by (simp add: spray_order_def Let_def)

lemma mset_spray_order: "mset (spray_order e flow) = mset (channels e)"
proof -
  have "unat flow mod length (channels e) < length (channels e)" by (simp del: length_channels add: channels_def)
  then show ?thesis
    unfolding spray_order_def Let_def by (intro mset_swap) (simp_all add: channels_def)
qed

lemma nth_spray_order:
  assumes "i < length (channels e)"
  shows "spray_order e flow ! i =
    (if i = 0 then channels e ! (unat flow mod length (channels e))
     else if i = unat flow mod length (channels e) then channels e ! 0 else channels e ! i)"
  using assms by (auto simp: spray_order_def Let_def nth_list_update)

lemma length_fold_update [simp]: "length (fold (\<lambda>i b. b[i := f i]) is buf) = length buf"
  by (induction "is" arbitrary: buf) auto

lemma fold_update_nth:
  assumes "j < length buf"
  shows "fold (\<lambda>i b. b[i := f i]) [m..<n] buf ! j = (if m \<le> j \<and> j < n then f j else buf ! j)"
proof (induction n)
  case (Suc n)
  show ?case
  proof (cases "m \<le> n")
    case True
    then have "fold (\<lambda>i b. b[i := f i]) [m..<Suc n] buf = (fold (\<lambda>i b. b[i := f i]) [m..<n] buf)[n := f n]"
      by simp
    with Suc True assms show ?thesis
      by (cases "j = n") (auto simp del: upt_Suc)
  qed (use assms in auto)
qed (use assms in simp)

lemma lookup_spray_buf_Some:
  fixes flow :: u32 and buf :: "(node_id \<times> bool) list"
  assumes "routes_of t dst = Some e"
  defines "r \<equiv> lookup_spray_buf t dst flow buf"
  shows "fst r = min (length (channels e)) (length buf)"
    and "length (snd r) = length buf"
    and "i < fst r \<Longrightarrow> snd r ! i = (spray_order e flow ! i, i = 0)"
    and "fst r \<le> i \<Longrightarrow> i < length buf \<Longrightarrow> snd r ! i = buf ! i"
proof -
  from assms(1) have e: "(fast_shards t ! shard_for_dest dst) dst = Some e"
    by (simp add: routes_of_def shard_get_def)
  let ?total = "1 + length (alternate_channels e)"
  show "fst r = min (length (channels e)) (length buf)"
    by (auto simp: r_def lookup_spray_buf_def e Let_def min_def Suc_le_eq)
  show "length (snd r) = length buf"
    by (auto simp: r_def lookup_spray_buf_def e Let_def)
  have idx: "unat flow mod ?total < length (channels e)" by simp
  have fst0: "fst r = 0 \<longleftrightarrow> buf = []"
    by (cases buf) (auto simp: r_def lookup_spray_buf_def e Let_def)
  show "snd r ! i = (spray_order e flow ! i, i = 0)" if i: "i < fst r"
  proof -
    have buf: "0 < length buf" using fst0 i by auto
    then have nz: "min (Suc k) (length buf) \<noteq> 0" for k by simp
    show ?thesis
    proof (cases "alternate_channels e = []")
      case True
      with i buf show ?thesis
        by (cases buf) (simp_all add: r_def lookup_spray_buf_def e Let_def nth_spray_order channels_def)
    next
      case False
      have il: "i < length buf" "i < 1 + length (alternate_channels e)"
        using i False by (auto simp: r_def lookup_spray_buf_def e Let_def split: if_splits)
      have "snd r ! i = (if i = 0 then (channel_at e (unat flow mod ?total), True)
          else (if i = unat flow mod ?total then next_hop_id e else alternate_channels e ! (i - 1), False))"
        using il False buf
        by (auto simp: nz r_def lookup_spray_buf_def e Let_def mask_or_mod_eq fold_update_nth nth_list_update)
      with il idx show ?thesis
        by (auto simp: nth_spray_order channel_at_nth) (auto simp: channels_def nth_Cons')
    qed
  qed
  show "snd r ! i = buf ! i" if i: "fst r \<le> i" "i < length buf"
  proof (cases "alternate_channels e = []")
    case True
    with i show ?thesis
      by (cases buf) (auto simp: r_def lookup_spray_buf_def e Let_def)
  next
    case False
    have nz: "min (Suc k) (length buf) \<noteq> 0" for k using i by auto
    with i False show ?thesis
      by (auto simp: r_def lookup_spray_buf_def e Let_def fold_update_nth nth_list_update)
  qed
qed

lemma lookup_spray_buf_None:
  "routes_of t dst = None \<Longrightarrow> lookup_spray_buf t dst flow buf = (0, buf)"
  by (simp add: lookup_spray_buf_def routes_of_def shard_get_def)

lemma lookup_spray_eq:
  assumes "routes_of t dst = Some e"
  shows "lookup_spray t dst flow =
    map (\<lambda>i. (spray_order e flow ! i, i = 0)) [0..<min (length (channels e)) 16]"
proof -
  obtain n b where r: "lookup_spray_buf t dst flow (replicate 16 (fill_arr 0, False)) = (n, b)"
    by fastforce
  define m where "m = min (length (channels e)) 16"
  from lookup_spray_buf_Some(1,2) [OF assms, where flow = flow and buf = "replicate 16 (fill_arr 0, False)",
      unfolded r]
  have n: "n = m" "length b = 16" "m \<le> 16" by (simp_all add: m_def)
  moreover have "b ! i = (spray_order e flow ! i, i = 0)" if "i < n" for i
    using lookup_spray_buf_Some(3) [OF assms, where flow = flow and buf = "replicate 16 (fill_arr 0, False)"
        and i = i, unfolded r] that by simp
  ultimately have "take n b = map (\<lambda>i. (spray_order e flow ! i, i = 0)) [0..<m]"
    by (intro nth_equalityI) simp_all
  then show ?thesis
    by (simp add: lookup_spray_def r m_def)
qed

lemma lookup_spray_None: "routes_of t dst = None \<Longrightarrow> lookup_spray t dst flow = []"
  by (simp add: lookup_spray_def lookup_spray_buf_None)

lemma lookup_spray_single_None: "routes_of t dst = None \<Longrightarrow> lookup_spray_single t dst flow k = None"
  by (simp add: lookup_spray_single_def routes_of_def shard_get_def)

lemma lookup_spray_single_eq:
  assumes "routes_of t dst = Some e"
  shows "lookup_spray_single t dst flow k = Some (spray_order e flow ! (k mod length (channels e)))"
proof -
  from assms have e: "(fast_shards t ! shard_for_dest dst) dst = Some e"
    by (simp add: routes_of_def shard_get_def)
  have "k mod length (channels e) < length (channels e)" "unat flow mod length (channels e) < length (channels e)"
    by (simp_all add: channels_def)
  then show ?thesis
    by (auto simp: lookup_spray_single_def e Let_def mask_or_mod_eq nth_spray_order channel_at_nth)
      (auto simp: channels_def nth_Cons')
qed

subsection \<open>The predictive index\<close>

definition predict_pick :: "node_id list \<Rightarrow> u64 \<Rightarrow> node_id option" where
  "predict_pick hops hash =
     (let n = length hops in
      if n = 0 then None
      else Some (hops ! (if is_power_of_two n then unat hash mod n else unat hash * n div 2 ^ 64)))"

lemma lemire_index:
  assumes "n < 2 ^ 64"
  shows "unat (drop_bit 64 ((ucast (h :: u64) :: 128 word) * of_nat n)) = unat h * n div 2 ^ 64"
proof -
  have "unat h < 2 ^ 64" using unsigned_less [of h] by simp
  then have lt: "unat h * n < 2 ^ 128"
    using assms mult_strict_mono' [of "unat h" "2 ^ 64" n "2 ^ 64"] by simp
  have "(ucast h :: 128 word) = of_nat (unat h)" by simp
  then have "(ucast h :: 128 word) * of_nat n = of_nat (unat h * n)"
    by (simp only: of_nat_mult)
  then have "unat ((ucast h :: 128 word) * of_nat n) = unat h * n"
    using lt by (simp only: unat_of_nat take_bit_eq_mod) simp
  then show ?thesis
    unfolding unsigned_drop_bit_eq unfolding drop_bit_eq_div take_bit_eq_mod using lt by simp
qed

lemma lemire_less: "0 < n \<Longrightarrow> unat (h :: u64) * n div 2 ^ 64 < n"
proof -
  assume "0 < n"
  with unsigned_less [of h] have "unat h * n < n * 2 ^ 64" by simp
  then show ?thesis by (simp add: less_mult_imp_div_less)
qed

lemma predict_pick_in: "hops \<noteq> [] \<Longrightarrow> \<exists>nh. predict_pick hops h = Some nh \<and> nh \<in> set hops"
  using lemire_less [of "length hops" h] by (auto simp: predict_pick_def Let_def simp del: One_nat_def)

lemma predictive_fallback_eq:
  assumes "length (predictive_next_hops t) < 2 ^ 64"
  shows "lookup_predictive_fallback t src dst flow =
    predict_pick (predictive_next_hops t) (fast_flow_hash src dst flow)"
proof -
  have one: "is_power_of_two (Suc 0)" by (simp add: is_power_of_two.simps)
  have m: "is_power_of_two n \<Longrightarrow> unat h AND (n - Suc 0) = unat h mod n" for n :: nat and h :: u64
    using and_mask_mod [of n "unat h"] by simp
  show ?thesis
    using assms
    by (auto simp: lookup_predictive_fallback_def predict_pick_def Let_def lemire_index m one)
qed

end
