(* ===== verification/Route_World.thy ===== *)
theory Route_World
  imports Route_Lookup
begin

text \<open>
  A routing table in use. The interface \<open>hop_service\<close> states what a client of a cached
  lookup relies on: the answer is the one of the specification and the cache stays
  coherent, so any sequence of lookups answers as if there were no cache. Both cached
  lookups of the code provide it. The world of this theory is one table, the global epoch
  and the two caches of every thread; the operations of \<open>routing/src/lib.rs\<close> run on it one
  after the other, on any thread, and refine a plain sorted map with no epoch, no shards
  and no caches.
\<close>

subsection \<open>Cached lookups\<close>

locale hop_service =
  fixes look :: "'c \<Rightarrow> node_id \<Rightarrow> u32 \<Rightarrow> node_id option \<times> 'c"
    and spec :: "node_id \<Rightarrow> u32 \<Rightarrow> node_id option"
    and inv :: "'c \<Rightarrow> bool"
  assumes look_spec: "inv c \<Longrightarrow> fst (look c d f) = spec d f"
    and look_inv: "inv c \<Longrightarrow> inv (snd (look c d f))"
begin

fun look_all :: "'c \<Rightarrow> (node_id \<times> u32) list \<Rightarrow> node_id option list" where
  "look_all c [] = []"
| "look_all c ((d, f) # qs) = fst (look c d f) # look_all (snd (look c d f)) qs"

lemma look_all_spec: "inv c \<Longrightarrow> look_all c qs = map (\<lambda>(d, f). spec d f) qs"
  by (induction c qs rule: look_all.induct) (auto simp: look_spec look_inv)

lemma look_cases:
  assumes "inv c"
  obtains c' where "look c d f = (spec d f, c')" "inv c'"
  using look_spec [OF assms, of d f] look_inv [OF assms, of d f] by (metis prod.collapse)

end

definition hop_of :: "table \<Rightarrow> node_id \<Rightarrow> node_id option" where
  "hop_of t d = map_option next_hop_id (routes_of t d)"

definition spray_hop_of :: "table \<Rightarrow> node_id \<Rightarrow> u32 \<Rightarrow> node_id option" where
  "spray_hop_of t d f = map_option (\<lambda>e. spray_order e f ! 0) (routes_of t d)"

text \<open>A cache is coherent with a table at an epoch when every slot of that epoch holds what
  the table answers, and no slot is from a later epoch.\<close>

definition cache_ok :: "table \<Rightarrow> u64 \<Rightarrow> thread_cache \<Rightarrow> bool" where
  "cache_ok t ep c \<longleftrightarrow>
     length (epochs c) = HOT_CACHE_SIZE \<and> length (dest_ids c) = HOT_CACHE_SIZE
     \<and> length (next_hops c) = HOT_CACHE_SIZE
     \<and> (\<forall>i < HOT_CACHE_SIZE. epochs c ! i \<le> ep
          \<and> (epochs c ! i = ep \<longrightarrow> hop_of t (dest_ids c ! i) = Some (next_hops c ! i)))"

definition spray_ok :: "table \<Rightarrow> u64 \<Rightarrow> spray_cache \<Rightarrow> bool" where
  "spray_ok t ep c \<longleftrightarrow>
     length (epochs c) = HOT_CACHE_SIZE \<and> length (dest_ids c) = HOT_CACHE_SIZE
     \<and> length (next_hops c) = HOT_CACHE_SIZE \<and> length (flow_labels c) = HOT_CACHE_SIZE
     \<and> (\<forall>i < HOT_CACHE_SIZE. epochs c ! i \<le> ep
          \<and> (epochs c ! i = ep \<longrightarrow> spray_hop_of t (dest_ids c ! i) (flow_labels c ! i) = Some (next_hops c ! i)))"

lemma lookup_next_hop_alt:
  "lookup_next_hop t ep c d f =
     (let idx = simple_cache_index (prefix64 d) in
      if epochs c ! idx = ep \<and> dest_ids c ! idx = d then (Some (next_hops c ! idx), c)
      else case hop_of t d of
             Some nh \<Rightarrow> (Some nh, c\<lparr>epochs := (epochs c)[idx := ep], dest_ids := (dest_ids c)[idx := d],
                                     next_hops := (next_hops c)[idx := nh]\<rparr>)
           | None \<Rightarrow> (None, c))"
  by (auto simp: lookup_next_hop_def hop_of_def routes_of_def shard_get_def shard_for_dest_def Let_def
      split: option.splits)

lemma cache_ok_store:
  assumes "cache_ok t ep c" "hop_of t d = Some nh" "idx < HOT_CACHE_SIZE"
  shows "cache_ok t ep (c\<lparr>epochs := (epochs c)[idx := ep], dest_ids := (dest_ids c)[idx := d],
                          next_hops := (next_hops c)[idx := nh]\<rparr>)"
  using assms by (simp add: cache_ok_def nth_list_update)

lemma lookup_next_hop_ok:
  assumes "cache_ok t ep c"
  shows "fst (lookup_next_hop t ep c d f) = hop_of t d" "cache_ok t ep (snd (lookup_next_hop t ep c d f))"
proof -
  have i: "simple_cache_index (prefix64 d) < HOT_CACHE_SIZE" by simp
  with assms have "epochs c ! simple_cache_index (prefix64 d) = ep \<Longrightarrow>
      hop_of t (dest_ids c ! simple_cache_index (prefix64 d)) = Some (next_hops c ! simple_cache_index (prefix64 d))"
    by (simp add: cache_ok_def)
  then show "fst (lookup_next_hop t ep c d f) = hop_of t d"
    by (auto simp: lookup_next_hop_alt Let_def split: option.splits)
  show "cache_ok t ep (snd (lookup_next_hop t ep c d f))"
    using assms cache_ok_store [OF assms _ i]
    by (auto simp: lookup_next_hop_alt Let_def split: option.splits)
qed

lemma spray_first:
  "spray_order e f ! 0 = (if alternate_channels e = [] then next_hop_id e
     else channel_at e (mask_or_mod (unat f) (1 + length (alternate_channels e))))"
proof -
  have "unat f mod length (channels e) < length (channels e)" by (simp add: channels_def)
  then show ?thesis
    by (auto simp: nth_spray_order mask_or_mod_eq channel_at_nth) (auto simp: channels_def)
qed

lemma lookup_spray_primary_alt:
  "lookup_spray_primary t ep c d f =
     (let idx = spray_cache_index (prefix64 d) f in
      if epochs c ! idx = ep \<and> flow_labels c ! idx = f \<and> dest_ids c ! idx = d
      then (Some (next_hops c ! idx), c)
      else case spray_hop_of t d f of
             Some nh \<Rightarrow> (Some nh, c\<lparr>epochs := (epochs c)[idx := ep], dest_ids := (dest_ids c)[idx := d],
                                     flow_labels := (flow_labels c)[idx := f], next_hops := (next_hops c)[idx := nh]\<rparr>)
           | None \<Rightarrow> (None, c))"
  by (cases "routes_of t d")
    (auto simp: lookup_spray_primary_def spray_hop_of_def spray_first routes_of_def shard_get_def
      shard_for_dest_def Let_def)

lemma spray_ok_store:
  assumes "spray_ok t ep c" "spray_hop_of t d f = Some nh" "idx < HOT_CACHE_SIZE"
  shows "spray_ok t ep (c\<lparr>epochs := (epochs c)[idx := ep], dest_ids := (dest_ids c)[idx := d],
                          flow_labels := (flow_labels c)[idx := f], next_hops := (next_hops c)[idx := nh]\<rparr>)"
  using assms by (simp add: spray_ok_def nth_list_update)

lemma lookup_spray_primary_ok:
  assumes "spray_ok t ep c"
  shows "fst (lookup_spray_primary t ep c d f) = spray_hop_of t d f"
    "spray_ok t ep (snd (lookup_spray_primary t ep c d f))"
proof -
  let ?i = "spray_cache_index (prefix64 d) f"
  have i: "?i < HOT_CACHE_SIZE" by simp
  with assms have "epochs c ! ?i = ep \<Longrightarrow>
      spray_hop_of t (dest_ids c ! ?i) (flow_labels c ! ?i) = Some (next_hops c ! ?i)"
    by (simp add: spray_ok_def)
  then show "fst (lookup_spray_primary t ep c d f) = spray_hop_of t d f"
    by (auto simp: lookup_spray_primary_alt Let_def split: option.splits)
  show "spray_ok t ep (snd (lookup_spray_primary t ep c d f))"
    using assms spray_ok_store [OF assms _ i]
    by (auto simp: lookup_spray_primary_alt Let_def split: option.splits)
qed

interpretation next_hop: hop_service "lookup_next_hop t ep" "\<lambda>d _. hop_of t d" "cache_ok t ep" for t ep
  by unfold_locales (simp_all add: lookup_next_hop_ok)

interpretation spray_primary: hop_service "lookup_spray_primary t ep" "spray_hop_of t" "spray_ok t ep" for t ep
  by unfold_locales (simp_all add: lookup_spray_primary_ok)

text \<open>A cache belongs to its thread and not to a table: what one table has answered, any other table
  answers on the same thread until the epoch moves.\<close>

lemma shared_cache_answers_other_table:
  assumes "cache_ok t ep c" "hop_of t d = Some nh" "lookup_next_hop t ep c d f = (Some nh, c')"
  shows "fst (lookup_next_hop t' ep c' d f') = Some nh"
proof -
  have i: "simple_cache_index (prefix64 d) < HOT_CACHE_SIZE" by simp
  with assms show ?thesis
    by (auto simp: lookup_next_hop_alt Let_def cache_ok_def split: if_splits)
qed

text \<open>A bump of the epoch makes every slot stale, whatever happened to the table.\<close>

lemma less_bump: "unat ep < 2 ^ 64 - 1 \<Longrightarrow> (a :: u64) \<le> ep \<Longrightarrow> a < ep + 1"
proof -
  assume lt: "unat ep < 2 ^ 64 - 1" and le: "a \<le> ep"
  from lt have "unat (ep + 1) = unat ep + 1"
    by (simp add: unat_word_ariths)
  with le show "a < ep + 1" by (simp add: word_less_nat_alt word_le_nat_alt)
qed

lemma cache_ok_bump: "cache_ok t ep c \<Longrightarrow> unat ep < 2 ^ 64 - 1 \<Longrightarrow> cache_ok t' (ep + 1) c"
  using less_bump [of ep] by (force simp: cache_ok_def)

lemma spray_ok_bump: "spray_ok t ep c \<Longrightarrow> unat ep < 2 ^ 64 - 1 \<Longrightarrow> spray_ok t' (ep + 1) c"
  using less_bump [of ep] by (force simp: spray_ok_def)

lemma cache_ok_init: "0 < ep \<Longrightarrow> cache_ok t ep thread_cache_init"
  and spray_ok_init: "0 < ep \<Longrightarrow> spray_ok t ep spray_cache_init"
  by (auto simp: cache_ok_def spray_ok_def thread_cache_init_def spray_cache_init_def)


subsection \<open>Running operations on a table\<close>

text \<open>Operations of any thread, in the order they take effect. \<open>now\<close> is the clock reading of
  \<open>update_route\<close>.\<close>

datatype rt_op =
    UpdateRoute nat route_entry
  | RemoveRoute node_id
  | LookupNextHop nat node_id u32
  | LookupOrPredict nat node_id node_id u32
  | LookupSprayPrimary nat node_id u32
  | LookupSpray node_id u32
  | LookupSpraySingle node_id u32 nat

datatype rt_out = Done | Hop "node_id option" | Hops "(node_id \<times> bool) list"

record route_world =
  rtable :: table
  repoch :: u64
  rcache :: "nat \<Rightarrow> thread_cache"
  rspray :: "nat \<Rightarrow> spray_cache"

definition world_new :: route_world where
  "world_new = \<lparr>rtable = table_new, repoch = 1, rcache = (\<lambda>_. thread_cache_init),
                rspray = (\<lambda>_. spray_cache_init)\<rparr>"

fun rt_step :: "route_world \<Rightarrow> rt_op \<Rightarrow> rt_out \<times> route_world" where
  "rt_step w (UpdateRoute now e) =
     (let (t, ep) = update_route now e (rtable w, repoch w) in (Done, w\<lparr>rtable := t, repoch := ep\<rparr>))"
| "rt_step w (RemoveRoute d) =
     (let (t, ep) = remove_route d (rtable w, repoch w) in (Done, w\<lparr>rtable := t, repoch := ep\<rparr>))"
| "rt_step w (LookupNextHop th d f) =
     (let (r, c) = lookup_next_hop (rtable w) (repoch w) (rcache w th) d f
      in (Hop r, w\<lparr>rcache := (rcache w)(th := c)\<rparr>))"
| "rt_step w (LookupOrPredict th s d f) =
     (let (r, c) = lookup_or_predict (rtable w) (repoch w) (rcache w th) s d f
      in (Hop r, w\<lparr>rcache := (rcache w)(th := c)\<rparr>))"
| "rt_step w (LookupSprayPrimary th d f) =
     (let (r, c) = lookup_spray_primary (rtable w) (repoch w) (rspray w th) d f
      in (Hop r, w\<lparr>rspray := (rspray w)(th := c)\<rparr>))"
| "rt_step w (LookupSpray d f) = (Hops (lookup_spray (rtable w) d f), w)"
| "rt_step w (LookupSpraySingle d f k) = (Hop (lookup_spray_single (rtable w) d f k), w)"

fun rt_run :: "route_world \<Rightarrow> rt_op list \<Rightarrow> rt_out list" where
  "rt_run w [] = []"
| "rt_run w (op # ops) = (let (r, w') = rt_step w op in r # rt_run w' ops)"

text \<open>The specification: the sorted list of routes alone.\<close>

fun spec_step :: "(node_id \<times> route_entry) list \<Rightarrow> rt_op \<Rightarrow> rt_out \<times> (node_id \<times> route_entry) list" where
  "spec_step m (UpdateRoute now e) = (Done, btree_insert (dest_id e) (e\<lparr>last_seen := now\<rparr>) m)"
| "spec_step m (RemoveRoute d) = (Done, btree_remove d m)"
| "spec_step m (LookupNextHop th d f) = (Hop (map_option next_hop_id (map_of m d)), m)"
| "spec_step m (LookupOrPredict th s d f) =
     (Hop (case map_of m d of
             Some e \<Rightarrow> Some (next_hop_id e)
           | None \<Rightarrow> predict_pick (map (next_hop_id \<circ> snd) m) (fast_flow_hash s d f)), m)"
| "spec_step m (LookupSprayPrimary th d f) = (Hop (map_option (\<lambda>e. spray_order e f ! 0) (map_of m d)), m)"
| "spec_step m (LookupSpray d f) =
     (Hops (case map_of m d of
              None \<Rightarrow> []
            | Some e \<Rightarrow> map (\<lambda>i. (spray_order e f ! i, i = 0)) [0..<min (length (channels e)) 16]), m)"
| "spec_step m (LookupSpraySingle d f k) =
     (Hop (map_option (\<lambda>e. spray_order e f ! (k mod length (channels e))) (map_of m d)), m)"

fun spec_run :: "(node_id \<times> route_entry) list \<Rightarrow> rt_op list \<Rightarrow> rt_out list" where
  "spec_run m [] = []"
| "spec_run m (op # ops) = (let (r, m') = spec_step m op in r # spec_run m' ops)"

text \<open>The refinement invariant. \<open>k\<close> operations may still follow: the epoch must not wrap and
  the list of next hops must fit a \<open>usize\<close>.\<close>

definition world_ok :: "nat \<Rightarrow> route_world \<Rightarrow> bool" where
  "world_ok k w \<longleftrightarrow> table_wf (rtable w)
     \<and> 0 < repoch w \<and> unat (repoch w) + k < 2 ^ 64
     \<and> length (entries (rtable w)) + k < 2 ^ 64
     \<and> (\<forall>th. cache_ok (rtable w) (repoch w) (rcache w th))
     \<and> (\<forall>th. spray_ok (rtable w) (repoch w) (rspray w th))"

lemma length_btree_insert: "length (btree_insert k v xs) \<le> Suc (length xs)"
  by (induction k v xs rule: btree_insert.induct) auto

lemma world_ok_bump:
  assumes "world_ok (Suc k) w" "table_wf t" "length (entries t) \<le> Suc (length (entries (rtable w)))"
  shows "world_ok k (w\<lparr>rtable := t, repoch := repoch w + 1\<rparr>)"
proof -
  have lt: "unat (repoch w) < 2 ^ 64 - 1" using assms(1) by (simp add: world_ok_def)
  then have u: "unat (repoch w + 1) = unat (repoch w) + 1" by (simp add: unat_word_ariths)
  then have "0 < repoch w + 1" by (simp add: word_less_nat_alt)
  with assms u lt show ?thesis
    by (auto simp: world_ok_def intro!: cache_ok_bump [of "rtable w"] spray_ok_bump [of "rtable w"])
qed

lemma world_ok_cache:
  assumes "world_ok (Suc k) w" "cache_ok (rtable w) (repoch w) c"
  shows "world_ok k (w\<lparr>rcache := (rcache w)(th := c)\<rparr>)"
  using assms by (simp add: world_ok_def)

lemma world_ok_spray:
  assumes "world_ok (Suc k) w" "spray_ok (rtable w) (repoch w) c"
  shows "world_ok k (w\<lparr>rspray := (rspray w)(th := c)\<rparr>)"
  using assms by (simp add: world_ok_def)

lemma world_ok_weaken: "world_ok (Suc k) w \<Longrightarrow> world_ok k w"
  by (simp add: world_ok_def)

lemma lookup_or_predict_ok:
  assumes "world_ok (Suc k) w"
  shows "fst (lookup_or_predict (rtable w) (repoch w) (rcache w th) s d f) =
     (case routes_of (rtable w) d of
        Some e \<Rightarrow> Some (next_hop_id e)
      | None \<Rightarrow> predict_pick (predictive_next_hops (rtable w)) (fast_flow_hash s d f))"
    and "cache_ok (rtable w) (repoch w) (snd (lookup_or_predict (rtable w) (repoch w) (rcache w th) s d f))"
proof -
  from assms have c: "cache_ok (rtable w) (repoch w) (rcache w th)"
    and n: "length (predictive_next_hops (rtable w)) < 2 ^ 64"
    by (simp_all add: world_ok_def table_wf_def)
  from c obtain c' where l: "lookup_next_hop (rtable w) (repoch w) (rcache w th) d f = (hop_of (rtable w) d, c')"
    "cache_ok (rtable w) (repoch w) c'" by (rule next_hop.look_cases)
  show "fst (lookup_or_predict (rtable w) (repoch w) (rcache w th) s d f) =
     (case routes_of (rtable w) d of
        Some e \<Rightarrow> Some (next_hop_id e)
      | None \<Rightarrow> predict_pick (predictive_next_hops (rtable w)) (fast_flow_hash s d f))"
    using l(1) predictive_fallback_eq [OF n]
    by (auto simp: lookup_or_predict_def hop_of_def split: option.splits)
  show "cache_ok (rtable w) (repoch w) (snd (lookup_or_predict (rtable w) (repoch w) (rcache w th) s d f))"
    using l by (auto simp: lookup_or_predict_def split: option.splits)
qed

lemma rt_step_refines:
  assumes "world_ok (Suc k) w"
  shows "fst (rt_step w op) = fst (spec_step (entries (rtable w)) op)"
    and "entries (rtable (snd (rt_step w op))) = snd (spec_step (entries (rtable w)) op)"
    and "world_ok k (snd (rt_step w op))"
proof -
  from assms have wf: "table_wf (rtable w)"
    and m: "map_of (entries (rtable w)) = routes_of (rtable w)"
    and ps: "predictive_next_hops (rtable w) = map (next_hop_id \<circ> snd) (entries (rtable w))"
    and c: "\<And>th. cache_ok (rtable w) (repoch w) (rcache w th)"
    and sp: "\<And>th. spray_ok (rtable w) (repoch w) (rspray w th)"
    by (auto simp: world_ok_def table_wf_def comp_def split_def)
  have "fst (rt_step w op) = fst (spec_step (entries (rtable w)) op)
    \<and> entries (rtable (snd (rt_step w op))) = snd (spec_step (entries (rtable w)) op)
    \<and> world_ok k (snd (rt_step w op))"
  proof (cases op)
    case (UpdateRoute now e)
    obtain t ep where u: "update_route now e (rtable w, repoch w) = (t, ep)" by fastforce
    from table_wf_update [OF wf u] have "table_wf t" "ep = repoch w + 1" by auto
    moreover from u have e: "entries t = btree_insert (dest_id e) (e\<lparr>last_seen := now\<rparr>) (entries (rtable w))"
      by (auto simp: update_route_def Let_def rebuild_predictive_entries_def)
    ultimately show ?thesis
      using UpdateRoute u world_ok_bump [OF assms, of t] by (simp add: length_btree_insert)
  next
    case (RemoveRoute d)
    obtain t ep where u: "remove_route d (rtable w, repoch w) = (t, ep)" by fastforce
    from table_wf_remove [OF wf u] have "table_wf t" "ep = repoch w + 1" by auto
    moreover from u have e: "entries t = btree_remove d (entries (rtable w))"
      by (auto simp: remove_route_def Let_def rebuild_predictive_entries_def)
    ultimately show ?thesis
      using RemoveRoute u world_ok_bump [OF assms, of t] by (simp add: btree_remove_def le_SucI)
  next
    case (LookupNextHop th d f)
    then show ?thesis
      using next_hop.look_spec [OF c, of th d f] next_hop.look_inv [OF c, of th d f] world_ok_cache [OF assms]
      by (simp add: split_def m hop_of_def)
  next
    case (LookupOrPredict th s d f)
    then show ?thesis
      using lookup_or_predict_ok [OF assms, of th s d f] world_ok_cache [OF assms]
      by (simp add: split_def m ps split: option.splits)
  next
    case (LookupSprayPrimary th d f)
    then show ?thesis
      using spray_primary.look_spec [OF sp, of th d f] spray_primary.look_inv [OF sp, of th d f]
        world_ok_spray [OF assms]
      by (simp add: split_def m spray_hop_of_def)
  next
    case (LookupSpray d f)
    then show ?thesis
      using world_ok_weaken [OF assms] by (simp add: m lookup_spray_eq lookup_spray_None split: option.splits)
  next
    case (LookupSpraySingle d f i)
    then show ?thesis
      using world_ok_weaken [OF assms]
      by (cases "routes_of (rtable w) d")
        (simp_all add: m lookup_spray_single_eq lookup_spray_single_None)
  qed
  then show "fst (rt_step w op) = fst (spec_step (entries (rtable w)) op)"
    "entries (rtable (snd (rt_step w op))) = snd (spec_step (entries (rtable w)) op)"
    "world_ok k (snd (rt_step w op))" by auto
qed

lemma rt_run_refines:
  "world_ok (length ops) w \<Longrightarrow> rt_run w ops = spec_run (entries (rtable w)) ops"
proof (induction ops arbitrary: w)
  case (Cons op ops)
  then have w: "world_ok (Suc (length ops)) w" by simp
  from rt_step_refines [OF w, of op] Cons.IH show ?case
    by (auto simp: split_def Let_def)
qed simp

lemma world_ok_new: "k < 2 ^ 64 - 1 \<Longrightarrow> world_ok k world_new"
  by (simp add: world_ok_def world_new_def table_wf_new cache_ok_init spray_ok_init) (simp add: table_new_def)

subsection \<open>Properties\<close>

text \<open>C9. The routing table refines a plain sorted map. Any sequence of fewer than \<open>2 ^ 64 - 1\<close>
  updates, removals and lookups on a fresh table, the lookups on any threads with their own
  caches, returns exactly what the same sequence returns on the sorted list of routes: the
  shards, the caches, the epoch and the predictive array are invisible.\<close>

theorem routing_refines_sorted_map:
  assumes "length ops < 2 ^ 64 - 1"
  shows "rt_run world_new ops = spec_run [] ops"
  using rt_run_refines [OF world_ok_new [OF assms]] by (simp add: world_new_def table_new_def)

definition example_route :: route_entry where
  "example_route = \<lparr>dest_id = fill_arr 1, next_hop_id = fill_arr 2, metric = 1, last_seen = 0,
     channel_count = 2, alternate_channels = [fill_arr 3], mcr_epoch = 0\<rparr>"

theorem routing_refines_sorted_map_witness:
  "rt_run world_new [UpdateRoute 5 example_route, LookupNextHop 0 (fill_arr 1) 7, LookupSpray (fill_arr 1) 7,
      LookupNextHop 0 (fill_arr 1) 7, RemoveRoute (fill_arr 1), LookupNextHop 0 (fill_arr 1) 7] =
   [Done, Hop (Some (fill_arr 2)), Hops [(fill_arr 3, True), (fill_arr 2, False)], Hop (Some (fill_arr 2)),
    Done, Hop None]"
  by (subst routing_refines_sorted_map)
    (simp_all add: example_route_def spray_order_def channels_def btree_remove_def upt_rec Let_def numeral_2_eq_2 [symmetric])

text \<open>C11. The channels of a destination in the order of a flow are all its channels, none lost or
  repeated, with the one the flow label selects swapped to the front. \<open>lookup_spray\<close> returns the first
  16 of them, the front one marked primary: all of them unless the destination has more than 16
  channels. \<open>lookup_spray_single\<close> returns the one at any index, modulo their number, and
  \<open>lookup_spray_primary\<close>, on coherent caches, the front one.\<close>

theorem spray_is_permutation:
  fixes flow :: u32 and e :: route_entry
  assumes "routes_of t dst = Some e" and "spray_ok t ep cache"
  defines "idx \<equiv> unat flow mod length (channels e)"
  defines "order \<equiv> (channels e)[0 := channels e ! idx, idx := channels e ! 0]"
  shows "mset order = mset (channels e)
    \<and> map fst (lookup_spray t dst flow) = take 16 order
    \<and> map snd (lookup_spray t dst flow) = True # replicate (min (length (channels e)) 16 - 1) False
    \<and> (length (channels e) \<le> 16 \<longrightarrow> mset (map fst (lookup_spray t dst flow)) = mset (channels e))
    \<and> lookup_spray_single t dst flow k = Some (order ! (k mod length (channels e)))
    \<and> fst (lookup_spray_primary t ep cache dst flow) = Some (channels e ! idx)"
proof -
  let ?n = "length (channels e)" and ?m = "min (length (channels e)) 16"
  have n: "0 < ?n" "0 < ?m" by (simp_all add: channels_def)
  have o: "order = spray_order e flow" by (simp add: order_def idx_def spray_order_def Let_def)
  have l: "lookup_spray t dst flow = map (\<lambda>i. (spray_order e flow ! i, i = 0)) [0..<?m]"
    by (rule lookup_spray_eq [OF assms(1)])
  have fst_l: "map fst (lookup_spray t dst flow) = take 16 order"
    unfolding l o by (intro nth_equalityI) (simp_all del: length_channels)
  have "map snd (lookup_spray t dst flow) = map (\<lambda>i. i = 0) [0..<Suc (?m - 1)]" using n(2) by (simp add: l)
  also have "\<dots> = True # replicate (?m - 1) False"
    by (intro nth_equalityI) (auto simp: nth_Cons simp del: upt_Suc split: nat.split)
  finally have snd_l: "map snd (lookup_spray t dst flow) = True # replicate (?m - 1) False" .
  have "fst (lookup_spray_primary t ep cache dst flow) = Some (spray_order e flow ! 0)"
    using spray_primary.look_spec [OF assms(2)] assms(1) by (simp add: spray_hop_of_def)
  moreover have "spray_order e flow ! 0 = channels e ! idx"
    using n(1) by (simp add: nth_spray_order idx_def del: length_channels)
  ultimately show ?thesis
    using fst_l snd_l mset_spray_order [of e flow] lookup_spray_single_eq [OF assms(1)]
    by (simp add: o del: length_channels)
qed

definition example_table :: table where
  "example_table = fst (update_route 5 example_route (table_new, 1))"

lemma example_table_wf: "table_wf example_table"
  and routes_of_example: "routes_of example_table = [fill_arr 1 \<mapsto> example_route\<lparr>last_seen := 5\<rparr>]"
  and entries_example: "entries example_table = [(fill_arr 1, example_route\<lparr>last_seen := 5\<rparr>)]"
proof -
  obtain ep where u: "update_route 5 example_route (table_new, 1) = (example_table, ep)"
    unfolding example_table_def by (metis prod.collapse)
  show "table_wf example_table" "routes_of example_table = [fill_arr 1 \<mapsto> example_route\<lparr>last_seen := 5\<rparr>]"
    using table_wf_update [OF table_wf_new u] by (simp_all add: routes_of_new) (simp add: example_route_def)
  show "entries example_table = [(fill_arr 1, example_route\<lparr>last_seen := 5\<rparr>)]"
    by (simp add: example_table_def update_route_def rebuild_predictive_entries_def table_new_def Let_def)
      (simp add: example_route_def)
qed

theorem spray_is_permutation_witness:
  "mset (map fst (lookup_spray example_table (fill_arr 1) 9)) = {#fill_arr 2, fill_arr 3#}
   \<and> map fst (lookup_spray example_table (fill_arr 1) 9) = [fill_arr 3, fill_arr 2]
   \<and> fst (lookup_spray_primary example_table 2 spray_cache_init (fill_arr 1) 9) = Some (fill_arr 3)"
proof -
  let ?e = "example_route\<lparr>last_seen := 5\<rparr>"
  have c: "channels ?e = [fill_arr 2, fill_arr 3]" by (simp add: channels_def) (simp add: example_route_def)
  have "unat (9 :: u32) mod length (channels ?e) = 1" unfolding c by (simp add: numeral_2_eq_2 [symmetric])
  with spray_is_permutation [of example_table "fill_arr 1" ?e 2 spray_cache_init 9] c show ?thesis
    by (simp add: routes_of_example spray_ok_init)
qed

text \<open>Without a route, the predictive fallback picks one of the configured next hops, by the
  flow hash, and never indexes outside them; it fails only on an empty table.\<close>

theorem predictive_fallback_total:
  assumes "table_wf t" and "length (entries t) < 2 ^ 64"
  shows "lookup_predictive_fallback t src dst flow =
      predict_pick (map (next_hop_id \<circ> snd) (entries t)) (fast_flow_hash src dst flow)
    \<and> (lookup_predictive_fallback t src dst flow = None \<longleftrightarrow> entries t = [])
    \<and> (\<forall>nh. lookup_predictive_fallback t src dst flow = Some nh \<longrightarrow>
         (\<exists>d e. routes_of t d = Some e \<and> next_hop_id e = nh))"
proof -
  let ?hops = "map (next_hop_id \<circ> snd) (entries t)"
  have p: "predictive_next_hops t = ?hops" and m: "map_of (entries t) = routes_of t" and bt: "btree_wf (entries t)"
    using assms(1) by (auto simp: table_wf_def split_def)
  with assms(2) have eq: "lookup_predictive_fallback t src dst flow = predict_pick ?hops (fast_flow_hash src dst flow)"
    using predictive_fallback_eq [of t src dst flow] by simp
  have dist: "distinct (map fst (entries t))"
    using bt strict_sorted_iff by (auto simp: btree_wf_def)
  have "\<exists>d e. routes_of t d = Some e \<and> next_hop_id e = nh" if "nh \<in> set ?hops" for nh
  proof -
    from that obtain d e where "(d, e) \<in> set (entries t)" "next_hop_id e = nh" by auto
    then show ?thesis using map_of_is_SomeI [OF dist] m by metis
  qed
  moreover have "predict_pick ?hops h = None \<longleftrightarrow> entries t = []" for h
    using predict_pick_in [of ?hops h] by (cases "entries t") (auto simp: predict_pick_def)
  moreover have "nh \<in> set ?hops" if "predict_pick ?hops h = Some nh" for nh h
    using predict_pick_in [of ?hops h] that by (cases "entries t") (auto simp: predict_pick_def)
  ultimately show ?thesis using eq by metis
qed

theorem predictive_fallback_total_witness:
  "lookup_predictive_fallback example_table (fill_arr 8) (fill_arr 9) 3 = Some (fill_arr 2)"
  using predictive_fallback_total [OF example_table_wf, of "fill_arr 8" "fill_arr 9" 3]
  by (simp add: entries_example predict_pick_def is_power_of_two.simps) (simp add: example_route_def)

end
