(* ===== verification/Route_Race.thy ===== *)
theory Route_Race
  imports Route_World
begin

text \<open>
  Updates, removals and cached lookups of one route table (\<open>routing/src/lib.rs\<close>) interleaved at
  the grain of the code's locks: \<open>update_route\<close> and \<open>remove_route\<close> take three locks one after
  the other and then bump the epoch, a lookup loads the epoch and then answers from its own
  cache or from the shard. Any number of threads run; a step of any of them is a step of the
  relation \<open>race_step\<close>. Memory is sequentially consistent: effects of weaker orderings are not
  modelled.
\<close>

subsection \<open>Threads and steps\<close>

text \<open>The critical sections of an update and of a removal, in order.\<close>

datatype micro =
    ShardPut route_entry | ShardDel node_id
  | MainPut route_entry | MainDel node_id
  | StatsAdd node_id | StatsDel node_id
  | Bump

fun exec_micro :: "micro \<Rightarrow> table \<times> u64 \<Rightarrow> table \<times> u64" where
  "exec_micro (ShardPut e) (t, ep) = (t\<lparr>fast_shards := shard_insert (dest_id e) e (fast_shards t)\<rparr>, ep)"
| "exec_micro (ShardDel d) (t, ep) = (t\<lparr>fast_shards := shard_remove d (fast_shards t)\<rparr>, ep)"
| "exec_micro (MainPut e) (t, ep) = (rebuild_predictive_entries (t\<lparr>entries := btree_insert (dest_id e) e (entries t)\<rparr>), ep)"
| "exec_micro (MainDel d) (t, ep) = (rebuild_predictive_entries (t\<lparr>entries := btree_remove d (entries t)\<rparr>), ep)"
| "exec_micro (StatsAdd d) (t, ep) = (t\<lparr>mcr_channel_stats := stats_entry_or_default d (mcr_channel_stats t)\<rparr>, ep)"
| "exec_micro (StatsDel d) (t, ep) = (t\<lparr>mcr_channel_stats := btree_remove d (mcr_channel_stats t)\<rparr>, ep)"
| "exec_micro Bump (t, ep) = (t, ep + 1)"

definition update_micros :: "route_entry \<Rightarrow> micro list" where
  "update_micros e = [ShardPut e, MainPut e, StatsAdd (dest_id e), Bump]"

definition remove_micros :: "node_id \<Rightarrow> micro list" where
  "remove_micros d = [ShardDel d, MainDel d, StatsDel d, Bump]"

text \<open>What a thread is doing. \<open>Looking d f ep b\<close> has loaded the epoch \<open>ep\<close>; \<open>b\<close> is a history variable:
  it says that an update of \<open>d\<close> has overlapped the lookup.\<close>

datatype activity = Idle | Writing node_id "micro list" | Looking node_id u32 u64 bool

record race =
  r_table :: table
  r_epoch :: u64
  r_cache :: "nat \<Rightarrow> thread_cache"
  r_act :: "nat \<Rightarrow> activity"

definition race_new :: race where
  "race_new = \<lparr>r_table = table_new, r_epoch = 1, r_cache = (\<lambda>_. thread_cache_init), r_act = (\<lambda>_. Idle)\<rparr>"

text \<open>A destination whose shard entry has been written and whose epoch bump is still to come.\<close>

definition dirty :: "race \<Rightarrow> node_id \<Rightarrow> bool" where
  "dirty w d \<longleftrightarrow> (\<exists>th ms. r_act w th = Writing d ms \<and> 0 < length ms \<and> length ms < 4)"

fun touch :: "node_id \<Rightarrow> activity \<Rightarrow> activity" where
  "touch d (Looking d' f ep b) = Looking d' f ep (b \<or> d' = d)"
| "touch d a = a"

definition after_micro :: "race \<Rightarrow> nat \<Rightarrow> node_id \<Rightarrow> micro list \<Rightarrow> nat \<Rightarrow> activity" where
  "after_micro w th d ms = (\<lambda>th'.
     if th' = th then (if ms = [] then Idle else Writing d ms)
     else if length ms = 3 then touch d (r_act w th') else r_act w th')"

text \<open>The number is how often the step bumps the epoch.\<close>

inductive race_step :: "nat \<Rightarrow> race \<Rightarrow> race \<Rightarrow> bool" where
  begin_update: "r_act w th = Idle \<Longrightarrow> race_step 0 w (w\<lparr>r_act := (r_act w)(th := Writing (dest_id e) (update_micros e))\<rparr>)"
| begin_remove: "r_act w th = Idle \<Longrightarrow> race_step 0 w (w\<lparr>r_act := (r_act w)(th := Writing d (remove_micros d))\<rparr>)"
| run_micro: "r_act w th = Writing d (m # ms) \<Longrightarrow> exec_micro m (r_table w, r_epoch w) = (t, ep) \<Longrightarrow>
    race_step (if m = Bump then 1 else 0) w (w\<lparr>r_table := t, r_epoch := ep, r_act := after_micro w th d ms\<rparr>)"
| load_epoch: "r_act w th = Idle \<Longrightarrow>
    race_step 0 w (w\<lparr>r_act := (r_act w)(th := Looking d f (r_epoch w) (dirty w d))\<rparr>)"
| answer: "r_act w th = Looking d f ep b \<Longrightarrow> lookup_next_hop (r_table w) ep (r_cache w th) d f = (res, c) \<Longrightarrow>
    race_step 0 w (w\<lparr>r_cache := (r_cache w)(th := c), r_act := (r_act w)(th := Idle)\<rparr>)"

inductive race_reach :: "nat \<Rightarrow> race \<Rightarrow> bool" where
  start: "race_reach 0 race_new"
| more: "race_reach n w \<Longrightarrow> race_step k w w' \<Longrightarrow> race_reach (n + k) w'"

text \<open>Run without interruption, the critical sections are the operations of the table.\<close>

lemma update_micros_route: "fold exec_micro (update_micros (e\<lparr>last_seen := now\<rparr>)) (t, ep) = update_route now e (t, ep)"
  by (simp add: update_micros_def update_route_def Let_def)

lemma remove_micros_route: "fold exec_micro (remove_micros d) (t, ep) = remove_route d (t, ep)"
  by (simp add: remove_micros_def remove_route_def Let_def)

subsection \<open>The invariant\<close>

definition slot_of :: "node_id \<Rightarrow> nat" where "slot_of d = simple_cache_index (prefix64 d)"

definition writing_ok :: "activity \<Rightarrow> bool" where
  "writing_ok a \<longleftrightarrow> (case a of
     Writing d ms \<Rightarrow> \<exists>k < 4. (\<exists>e. dest_id e = d \<and> ms = drop k (update_micros e)) \<or> ms = drop k (remove_micros d)
   | _ \<Rightarrow> True)"

definition cache_fresh :: "race \<Rightarrow> thread_cache \<Rightarrow> bool" where
  "cache_fresh w c \<longleftrightarrow> length (epochs c) = HOT_CACHE_SIZE \<and> length (dest_ids c) = HOT_CACHE_SIZE
     \<and> length (next_hops c) = HOT_CACHE_SIZE
     \<and> (\<forall>i < HOT_CACHE_SIZE. epochs c ! i \<le> r_epoch w
          \<and> (epochs c ! i = r_epoch w \<longrightarrow>
               hop_of (r_table w) (dest_ids c ! i) = Some (next_hops c ! i) \<or> dirty w (dest_ids c ! i)))"

definition looking_ok :: "race \<Rightarrow> nat \<Rightarrow> bool" where
  "looking_ok w th \<longleftrightarrow> (case r_act w th of
     Looking d f ep b \<Rightarrow> ep \<le> r_epoch w
       \<and> (\<not> b \<longrightarrow> epochs (r_cache w th) ! slot_of d = ep \<longrightarrow> dest_ids (r_cache w th) ! slot_of d = d \<longrightarrow>
            hop_of (r_table w) d = Some (next_hops (r_cache w th) ! slot_of d))
   | _ \<Rightarrow> True)"

definition race_inv :: "nat \<Rightarrow> race \<Rightarrow> bool" where
  "race_inv n w \<longleftrightarrow> unat (r_epoch w) = n + 1 \<and> shards_wf (fast_shards (r_table w))
     \<and> (\<forall>th. writing_ok (r_act w th) \<and> cache_fresh w (r_cache w th) \<and> looking_ok w th)"

lemma micros_length [simp]: "length (update_micros e) = 4" "length (remove_micros d) = 4"
  by (simp_all add: update_micros_def remove_micros_def)

lemma slot_less [simp]: "slot_of d < HOT_CACHE_SIZE"
  by (simp add: slot_of_def)

lemma race_inv_new: "race_inv 0 race_new"
  by (auto simp: race_inv_def race_new_def writing_ok_def looking_ok_def cache_fresh_def thread_cache_init_def
      table_new_def shards_wf_def)

lemma looking_ok_cong:
  "r_act w' th = r_act w th \<Longrightarrow> r_cache w' th = r_cache w th \<Longrightarrow> r_table w' = r_table w \<Longrightarrow> r_epoch w' = r_epoch w \<Longrightarrow>
   looking_ok w' th = looking_ok w th"
  by (cases "r_act w th") (simp_all add: looking_ok_def)

lemma looking_ok_other: "(\<And>d f ep b. r_act w th \<noteq> Looking d f ep b) \<Longrightarrow> looking_ok w th"
  unfolding looking_ok_def by (cases "r_act w th") auto

text \<open>A new activity of an idle thread: no destination becomes clean.\<close>

lemma begin_inv:
  assumes "race_inv n w" "r_act w th = Idle" "writing_ok a" "w' = w\<lparr>r_act := (r_act w)(th := a)\<rparr>"
    and "looking_ok w' th"
  shows "race_inv n w'"
proof -
  have dirty: "dirty w' d" if "dirty w d" for d
  proof -
    from that obtain th2 ms where a: "r_act w th2 = Writing d ms" "0 < length ms" "length ms < 4"
      unfolding dirty_def by blast
    with assms(2) have "th2 \<noteq> th" by auto
    with a show ?thesis unfolding dirty_def assms(4) by (intro exI [of _ th2] exI [of _ ms]) simp
  qed
  have c: "cache_fresh w' c" if "cache_fresh w c" for c
    using that dirty unfolding cache_fresh_def assms(4) by (simp del: One_nat_def) blast
  have l: "looking_ok w' th'" for th'
    using assms(1,5) looking_ok_cong [of w' th' w] by (cases "th' = th") (simp_all add: race_inv_def assms(4))
  show ?thesis using assms(1,3) c l by (simp add: race_inv_def assms(4))
qed

text \<open>What a critical section does to the shards and to the epoch.\<close>

lemma exec_micro_effect:
  assumes "writing_ok (Writing d (m # ms))" "exec_micro m (t, ep) = (t', ep')" "shards_wf (fast_shards t)"
  shows "shards_wf (fast_shards t')"
    and "d' \<noteq> d \<or> length ms \<noteq> 3 \<Longrightarrow> hop_of t' d' = hop_of t d'"
    and "ep' = (if ms = [] then ep + 1 else ep)"
    and "(m = Bump) = (ms = [])"
    and "writing_ok (if ms = [] then Idle else Writing d ms)"
    and "length ms < 4"
proof -
  have four: "k < (4 :: nat) \<longleftrightarrow> k = 0 \<or> k = 1 \<or> k = 2 \<or> k = 3" for k by arith
  from assms(1) obtain e where
    ms: "(m, ms) \<in> {(ShardPut e, [MainPut e, StatsAdd d, Bump]), (MainPut e, [StatsAdd d, Bump]),
                    (StatsAdd d, [Bump]), (Bump, []), (ShardDel d, [MainDel d, StatsDel d, Bump]),
                    (MainDel d, [StatsDel d, Bump]), (StatsDel d, [Bump])} \<and> (m = ShardPut e \<longrightarrow> dest_id e = d)"
    by (auto simp: writing_ok_def update_micros_def remove_micros_def four)
  then show "(m = Bump) = (ms = [])" "length ms < 4" by auto
  from ms assms(2,3) show "shards_wf (fast_shards t')" "ep' = (if ms = [] then ep + 1 else ep)"
    by (auto simp: shards_wf_insert shards_wf_remove rebuild_predictive_entries_def)
  from ms assms(2,3) show "d' \<noteq> d \<or> length ms \<noteq> 3 \<Longrightarrow> hop_of t' d' = hop_of t d'"
    by (auto simp: hop_of_def routes_of_def shard_get_insert shard_get_remove rebuild_predictive_entries_def)
  from assms(1) obtain k e where k: "k < 4" "(dest_id e = d \<and> m # ms = drop k (update_micros e)) \<or> m # ms = drop k (remove_micros d)"
    by (auto simp: writing_ok_def)
  then have s: "(dest_id e = d \<and> ms = drop (Suc k) (update_micros e)) \<or> ms = drop (Suc k) (remove_micros d)"
    by (metis drop_Suc list.sel(3) tl_drop)
  show "writing_ok (if ms = [] then Idle else Writing d ms)"
  proof (cases "ms = []")
    case False
    with s k(1) have "Suc k < 4" by (auto simp: four)
    with s have "\<exists>k < 4. (\<exists>e. dest_id e = d \<and> ms = drop k (update_micros e)) \<or> ms = drop k (remove_micros d)"
      by blast
    with False show ?thesis by (simp add: writing_ok_def)
  qed (simp add: writing_ok_def)
qed


lemma run_micro_inv:
  assumes "race_inv n w" "r_act w th = Writing d (m # ms)" "exec_micro m (r_table w, r_epoch w) = (t, ep)"
    and "n + (if m = Bump then 1 else 0) < 2 ^ 64 - 1" "w' = w\<lparr>r_table := t, r_epoch := ep, r_act := after_micro w th d ms\<rparr>"
  shows "race_inv (n + (if m = Bump then 1 else 0)) w'"
proof -
  have wr: "writing_ok (Writing d (m # ms))" and wf: "shards_wf (fast_shards (r_table w))"
    and u: "unat (r_epoch w) = n + 1" and oks: "\<And>th'. writing_ok (r_act w th')" "\<And>th'. looking_ok w th'"
    and fresh: "\<And>th'. cache_fresh w (r_cache w th')"
    using assms(1,2) by (auto simp: race_inv_def) metis
  note eff = exec_micro_effect [OF wr assms(3) wf]
  have less: "a \<le> r_epoch w \<Longrightarrow> ms = [] \<Longrightarrow> a < ep" for a
    using less_bump [of "r_epoch w" a] u assms(4) eff(3,4) by simp
  have u': "unat ep = n + (if m = Bump then 1 else 0) + 1"
    using u assms(4) eff(3,4) by (cases "ms = []") (simp_all add: unat_word_ariths)
  have dirty: "dirty w' d'" if "dirty w d' \<or> (d' = d \<and> length ms = 3)" "ms \<noteq> []" for d'
  proof (cases "d' = d")
    case True
    then show ?thesis unfolding dirty_def assms(5) using that(2) eff(6)
      by (intro exI [of _ th] exI [of _ ms]) (simp add: after_micro_def)
  next
    case False
    with that obtain th2 ms2 where a: "r_act w th2 = Writing d' ms2" "0 < length ms2" "length ms2 < 4"
      unfolding dirty_def by blast
    with assms(2) False have "th2 \<noteq> th" by auto
    with a show ?thesis unfolding dirty_def assms(5)
      by (intro exI [of _ th2] exI [of _ ms2]) (simp add: after_micro_def)
  qed
  have c: "cache_fresh w' c" if "cache_fresh w c" for c
  proof (cases "ms = []")
    case True
    with that less show ?thesis unfolding cache_fresh_def assms(5) by (auto intro: less_imp_le) 
  next
    case False
    have "hop_of t d' = Some h \<or> dirty w' d'" if "hop_of (r_table w) d' = Some h \<or> dirty w d'" for d' h
      using that eff(2) [of d'] dirty [of d'] False by metis
    with that False eff(3) show ?thesis unfolding cache_fresh_def by (simp add: assms(5))
  qed
  have l: "looking_ok w' th'" for th'
  proof (cases "th' = th")
    case True
    then show ?thesis by (simp add: looking_ok_def assms(5) after_micro_def)
  next
    case False
    have le: "a \<le> r_epoch w \<Longrightarrow> a \<le> ep" for a using less eff(3) by (auto intro: less_imp_le)
    show ?thesis
    proof (cases "r_act w th'")
      case (Looking d' f e b)
      with oks(2) [of th'] False le eff(2) [of d'] show ?thesis
        by (auto simp: looking_ok_def assms(5) after_micro_def)
    qed (use False in \<open>simp_all add: looking_ok_def assms(5) after_micro_def\<close>)
  qed
  have "writing_ok (r_act w' th')" for th'
  proof (cases "th' = th")
    case True
    then show ?thesis using eff(5) by (simp add: assms(5) after_micro_def)
  next
    case False
    then show ?thesis using oks(1) [of th']
      by (cases "r_act w th'") (auto simp: assms(5) after_micro_def writing_ok_def)
  qed
  then show ?thesis using eff(1) u' c fresh l by (simp add: race_inv_def assms(5))
qed

lemma answer_inv:
  assumes "race_inv n w" "r_act w th = Looking d f ep b" "lookup_next_hop (r_table w) ep (r_cache w th) d f = (res, c)"
    and "w' = w\<lparr>r_cache := (r_cache w)(th := c), r_act := (r_act w)(th := Idle)\<rparr>"
  shows "race_inv n w'"
proof -
  from assms(1,2) have fr: "cache_fresh w (r_cache w th)" and le: "ep \<le> r_epoch w"
    by (force simp: race_inv_def looking_ok_def split: activity.splits)+
  have dirty: "dirty w' d' = dirty w d'" for d'
    using assms(2) by (auto simp: dirty_def assms(4)) (metis activity.distinct(5))
  have same: "cache_fresh w' = cache_fresh w"
    by (simp add: cache_fresh_def dirty fun_eq_iff) (simp add: assms(4))
  have c: "cache_fresh w c"
    using assms(3) fr le unfolding lookup_next_hop_alt Let_def
    by (auto simp: cache_fresh_def nth_list_update split: if_splits option.splits)
  have "looking_ok w' th'" for th'
    using assms(1) looking_ok_cong [of w' th' w] looking_ok_other [of w' th']
    by (cases "th' = th") (simp_all add: race_inv_def assms(4))
  then show ?thesis using assms(1) c same by (auto simp: race_inv_def assms(4) writing_ok_def)
qed

lemma load_inv:
  assumes "race_inv n w" "r_act w th = Idle"
    and "w' = w\<lparr>r_act := (r_act w)(th := Looking d f (r_epoch w) (dirty w d))\<rparr>"
  shows "race_inv n w'"
proof -
  have fr: "cache_fresh w (r_cache w th)" using assms(1) by (simp add: race_inv_def)
  have "looking_ok w' th"
  proof -
    have "hop_of (r_table w) d = Some (next_hops (r_cache w th) ! slot_of d)"
      if "\<not> dirty w d" "epochs (r_cache w th) ! slot_of d = r_epoch w" "dest_ids (r_cache w th) ! slot_of d = d"
      using fr that slot_less [of d] unfolding cache_fresh_def by metis
    then show ?thesis by (simp add: looking_ok_def assms(3))
  qed
  with begin_inv [OF assms(1,2) _ assms(3)] show ?thesis by (simp add: writing_ok_def)
qed

lemma race_step_inv:
  assumes "race_step k w w'" "race_inv n w" "n + k < 2 ^ 64 - 1"
  shows "race_inv (n + k) w'"
  using assms
proof (cases rule: race_step.cases)
  case (begin_update th e)
  then have "writing_ok (Writing (dest_id e) (update_micros e))"
    by (force simp: writing_ok_def intro: exI [of _ "0 :: nat"])
  with begin_update begin_inv [OF assms(2) _ _ begin_update(2)] show ?thesis by (simp add: looking_ok_other)
next
  case (begin_remove th d)
  then have "writing_ok (Writing d (remove_micros d))"
    by (force simp: writing_ok_def intro: exI [of _ "0 :: nat"])
  with begin_remove begin_inv [OF assms(2) _ _ begin_remove(2)] show ?thesis by (simp add: looking_ok_other)
next
  case (run_micro th d m ms t ep)
  with run_micro_inv [OF assms(2) run_micro(3,4) _ run_micro(2)] assms(3) show ?thesis by simp
next
  case (load_epoch th d f)
  with load_inv [OF assms(2) load_epoch(3) load_epoch(2)] show ?thesis by simp
next
  case (answer th d f ep b res c)
  with answer_inv [OF assms(2) answer(3,4,2)] show ?thesis by simp
qed

lemma race_reach_inv: "race_reach n w \<Longrightarrow> n < 2 ^ 64 - 1 \<Longrightarrow> race_inv n w"
  by (induction rule: race_reach.induct) (simp_all add: race_inv_new race_step_inv)

subsection \<open>Schedules\<close>

text \<open>A schedule names the threads that run their next critical section, one after the other.\<close>

definition play :: "nat \<Rightarrow> race \<Rightarrow> race" where
  "play th w = (case r_act w th of
     Writing d (m # ms) \<Rightarrow>
       let (t, ep) = exec_micro m (r_table w, r_epoch w) in
       w\<lparr>r_table := t, r_epoch := ep, r_act := after_micro w th d ms\<rparr>
   | _ \<Rightarrow> w)"

lemma play_reach: "race_reach n w \<Longrightarrow> \<exists>n'. race_reach n' (play th w)"
proof -
  assume r: "race_reach n w"
  show ?thesis
  proof (cases "\<exists>d m ms. r_act w th = Writing d (m # ms)")
    case True
    then obtain d m ms t ep where "r_act w th = Writing d (m # ms)" "exec_micro m (r_table w, r_epoch w) = (t, ep)"
      by fastforce
    with more [OF r run_micro [of w th d m ms t ep]] show ?thesis by (auto simp: play_def)
  next
    case False
    with r show ?thesis by (auto simp: play_def split: activity.split list.split)
  qed
qed

lemma plays_reach: "race_reach n w \<Longrightarrow> \<exists>n'. race_reach n' (fold play ths w)"
proof (induction ths arbitrary: n w)
  case (Cons th ths)
  from play_reach [OF Cons.prems] Cons.IH show ?case by auto
qed auto

definition two_writers :: "node_id \<Rightarrow> micro list \<Rightarrow> micro list \<Rightarrow> race" where
  "two_writers d ms ms' = race_new\<lparr>r_act := (\<lambda>_. Idle)(0 := Writing d ms, 1 := Writing d ms')\<rparr>"

lemma two_writers_reach:
  assumes "dest_id e = d" "ms' = remove_micros d \<or> (\<exists>e'. dest_id e' = d \<and> ms' = update_micros e')"
  shows "race_reach 0 (two_writers d (update_micros e) ms')"
proof -
  have r: "race_reach 0 (race_new\<lparr>r_act := (\<lambda>_. Idle)(0 := Writing d (update_micros e))\<rparr>)"
    using more [OF start begin_update [of race_new 0 e]] assms(1) by (simp add: race_new_def)
  from assms(2) show ?thesis
  proof
    assume "ms' = remove_micros d"
    with more [OF r begin_remove [of _ 1 d]] show ?thesis
      by (simp add: two_writers_def race_new_def)
  next
    assume "\<exists>e'. dest_id e' = d \<and> ms' = update_micros e'"
    then obtain e' where "dest_id e' = d" "ms' = update_micros e'" by blast
    with more [OF r begin_update [of _ 1 e']] show ?thesis
      by (auto simp: two_writers_def race_new_def)
  qed
qed

subsection \<open>Properties\<close>

text \<open>C10. A cached lookup that no update or removal of its destination overlaps returns the route the
  shards hold, however the threads interleave: in every reachable state in which fewer than
  \<open>2 ^ 64 - 1\<close> epoch bumps have happened, on every thread, whatever is in its cache.\<close>

theorem undisturbed_lookup_current:
  assumes "race_reach n w" and "n < 2 ^ 64 - 1" and "r_act w th = Looking d f ep False"
  shows "fst (lookup_next_hop (r_table w) ep (r_cache w th) d f) = hop_of (r_table w) d"
proof -
  have "looking_ok w th" using race_reach_inv [OF assms(1,2)] by (simp add: race_inv_def)
  with assms(3) show ?thesis
    by (auto simp: looking_ok_def slot_of_def lookup_next_hop_alt Let_def split: option.splits)
qed

theorem undisturbed_lookup_current_witness:
  "\<exists>w. race_reach 0 w \<and> r_act w 0 = Looking (fill_arr 1) 7 1 False
     \<and> fst (lookup_next_hop (r_table w) 1 (r_cache w 0) (fill_arr 1) 7) = hop_of (r_table w) (fill_arr 1)"
proof -
  let ?w = "race_new\<lparr>r_act := (\<lambda>_. Idle)(0 := Looking (fill_arr 1) 7 1 False)\<rparr>"
  have "race_reach 0 ?w"
    using more [OF start load_epoch [of race_new 0 "fill_arr 1" 7]] by (simp add: race_new_def dirty_def)
  with undisturbed_lookup_current [of 0 ?w 0 "fill_arr 1" 7 1] show ?thesis by (intro exI [of _ ?w]) simp
qed

text \<open>The shard and the sorted map are written under separate locks, so two writers of one
  destination can leave them apart for good. After two interleaved updates the shard, which
  answers every lookup, holds one route and the map, from which the predictive fallback is
  built, the other; after an update and a removal the shard holds a route the map has not.
  In both final states all threads are idle.\<close>

theorem interleaved_writers_diverge:
  assumes "dest_id e1 = d" and "dest_id e2 = d"
  shows "(\<exists>n w. race_reach n w \<and> (\<forall>th. r_act w th = Idle)
      \<and> routes_of (r_table w) d = Some e2 \<and> entries (r_table w) = [(d, e1)]
      \<and> predictive_next_hops (r_table w) = [next_hop_id e1])
    \<and> (\<exists>n w. race_reach n w \<and> (\<forall>th. r_act w th = Idle)
      \<and> routes_of (r_table w) d = Some e1 \<and> entries (r_table w) = [])"
proof -
  let ?u = "fold play [0, 1, 1, 0, 0, 0, 1, 1] (two_writers d (update_micros e1) (update_micros e2))"
  let ?r = "fold play [1, 0, 0, 1, 0, 0, 1, 1] (two_writers d (update_micros e1) (remove_micros d))"
  note defs = play_def two_writers_def update_micros_def remove_micros_def race_new_def after_micro_def
    rebuild_predictive_entries_def table_new_def assms
  have wf: "shards_wf (replicate FAST_SHARDS (\<lambda>x. None))" by (simp add: shards_wf_def)
  note shards = wf shard_get_insert shard_get_remove shards_wf_insert shards_wf_remove
  have u: "(\<forall>th. r_act ?u th = Idle) \<and> routes_of (r_table ?u) d = Some e2 \<and> entries (r_table ?u) = [(d, e1)]
      \<and> predictive_next_hops (r_table ?u) = [next_hop_id e1]"
    by (simp add: defs routes_of_def shards)
  have r: "(\<forall>th. r_act ?r th = Idle) \<and> routes_of (r_table ?r) d = Some e1 \<and> entries (r_table ?r) = []"
    by (simp add: defs routes_of_def btree_remove_def shards)
  show ?thesis
    using u r plays_reach [OF two_writers_reach [OF assms(1)], of "update_micros e2"]
      plays_reach [OF two_writers_reach [OF assms(1)], of "remove_micros d"] assms(2) by blast
qed

theorem interleaved_writers_diverge_witness:
  "\<exists>n w. race_reach n w \<and> (\<forall>th. r_act w th = Idle)
      \<and> routes_of (r_table w) (fill_arr 1) = Some (example_route\<lparr>metric := 2\<rparr>)
      \<and> entries (r_table w) = [(fill_arr 1, example_route)]
      \<and> predictive_next_hops (r_table w) = [next_hop_id example_route]"
proof -
  have "dest_id example_route = fill_arr 1" "dest_id (example_route\<lparr>metric := 2\<rparr>) = fill_arr 1"
    by (simp_all add: example_route_def)
  from conjunct1 [OF interleaved_writers_diverge [OF this]] show ?thesis .
qed

end
