(* ===== verification/Route_Policy.thy ===== *)
theory Route_Policy
  imports Route_Table
begin

text \<open>
  The policy map of \<open>routing/src/lib.rs\<close>: \<open>RoutePolicy\<close> and \<open>Router\<close>, whose map from
  64-bit flow keys to policies is seeded with a default policy under key 0. The flow key is
  the XOR fold \<open>fast_flow_hash\<close> of both identifiers and the label, so two flows with the
  same fold share one policy slot; the properties are stated with that key.
\<close>

record route_policy =
  next_hop :: node_id
  queue_id :: "32 word"
  priority :: "32 word"

type_synonym router = "u64 \<rightharpoonup> route_policy"

datatype policy_error = NoPolicyAvailable

definition seed_default_policies :: "router \<Rightarrow> router" where
  "seed_default_policies m = m(0 \<mapsto> \<lparr>next_hop = fill_arr 0, queue_id = 0, priority = 10\<rparr>)"

definition router_new :: router where
  "router_new = seed_default_policies Map.empty"

definition compute_flow_key :: "node_id \<Rightarrow> node_id \<Rightarrow> u32 \<Rightarrow> u64" where
  "compute_flow_key src dst flow = fast_flow_hash src dst flow"

definition lookup_policy :: "router \<Rightarrow> node_id \<Rightarrow> node_id \<Rightarrow> u32 \<Rightarrow> policy_error + route_policy" where
  "lookup_policy m src dst flow =
     (case m (compute_flow_key src dst flow) of
        Some p \<Rightarrow> Inr p
      | None \<Rightarrow> (case m 0 of Some p \<Rightarrow> Inr p | None \<Rightarrow> Inl NoPolicyAvailable))"

definition update_policy :: "router \<Rightarrow> node_id \<Rightarrow> node_id \<Rightarrow> u32 \<Rightarrow> node_id \<Rightarrow> 32 word \<Rightarrow> router" where
  "update_policy m src dst flow nh q =
     m(compute_flow_key src dst flow \<mapsto> \<lparr>next_hop = nh, queue_id = q, priority = 1\<rparr>)"

record policy_update =
  pu_src :: node_id
  pu_dst :: node_id
  pu_flow :: u32
  pu_hop :: node_id
  pu_queue :: "32 word"

definition apply_update :: "policy_update \<Rightarrow> router \<Rightarrow> router" where
  "apply_update u m = update_policy m (pu_src u) (pu_dst u) (pu_flow u) (pu_hop u) (pu_queue u)"

definition key_of :: "policy_update \<Rightarrow> u64" where
  "key_of u = compute_flow_key (pu_src u) (pu_dst u) (pu_flow u)"

definition policy_of :: "policy_update \<Rightarrow> route_policy" where
  "policy_of u = \<lparr>next_hop = pu_hop u, queue_id = pu_queue u, priority = 1\<rparr>"

definition default_policy :: route_policy where
  "default_policy = \<lparr>next_hop = fill_arr 0, queue_id = 0, priority = 10\<rparr>"

lemma fold_updates:
  "fold apply_update us m k =
     (case find (\<lambda>u. key_of u = k) (rev us) of Some u \<Rightarrow> Some (policy_of u) | None \<Rightarrow> m k)"
proof (induction us rule: rev_induct)
  case (snoc u us)
  then show ?case
    by (simp add: apply_update_def update_policy_def key_of_def policy_of_def)
qed simp

lemma key_diagonal: "compute_flow_key d d f = ucast f"
proof -
  have "a XOR b XOR c XOR e XOR a XOR b XOR c XOR e XOR g = g" for a b c e g :: u64
    by (rule bit_word_eqI) (auto simp: bit_xor_iff)
  then show ?thesis by (simp add: compute_flow_key_def fast_flow_hash_def Let_def)
qed

lemma key_symmetric: "compute_flow_key s d f = compute_flow_key d s f"
  by (simp add: compute_flow_key_def fast_flow_hash_def Let_def xor.assoc xor.left_commute xor.commute)

subsection \<open>Properties\<close>

text \<open>After any history of policy updates, \<open>lookup_policy\<close> returns the latest policy set
  under the flow's key; when there is none, the latest one set under key 0; when there is
  none of these either, the seeded default. It never fails.\<close>

theorem policy_lookup_after_updates:
  "lookup_policy (fold apply_update us router_new) src dst flow =
     Inr (case find (\<lambda>u. key_of u = compute_flow_key src dst flow) (rev us) of
            Some u \<Rightarrow> policy_of u
          | None \<Rightarrow> (case find (\<lambda>u. key_of u = 0) (rev us) of
                       Some u \<Rightarrow> policy_of u
                     | None \<Rightarrow> default_policy))"
  by (auto simp: lookup_policy_def fold_updates router_new_def seed_default_policies_def default_policy_def
      split: option.splits)

text \<open>The flow key does not separate flows: a flow and its reverse always share one policy,
  and setting the policy of a flow from an identifier to itself with label 0 replaces the
  default of every flow that has no policy of its own.\<close>

theorem policy_key_collisions:
  "lookup_policy (update_policy m src dst flow nh q) dst src flow =
     Inr \<lparr>next_hop = nh, queue_id = q, priority = 1\<rparr>
   \<and> (m (compute_flow_key a b f) = None \<longrightarrow> compute_flow_key a b f \<noteq> 0 \<longrightarrow>
      lookup_policy (update_policy m src src 0 nh q) a b f = Inr \<lparr>next_hop = nh, queue_id = q, priority = 1\<rparr>)"
  by (simp add: lookup_policy_def update_policy_def key_symmetric [of src] key_diagonal)

theorem policy_key_collisions_witness:
  "lookup_policy (update_policy router_new (fill_arr 7) (fill_arr 7) 0 (fill_arr 9) 3) (fill_arr 7) (fill_arr 7) 5 =
     Inr \<lparr>next_hop = fill_arr 9, queue_id = 3, priority = 1\<rparr>"
  using policy_key_collisions [of router_new "fill_arr 7" "fill_arr 7" 0 "fill_arr 9" 3 "fill_arr 7" "fill_arr 7" 5]
  by (simp add: key_diagonal router_new_def seed_default_policies_def)

end
