(* ===== verification/Session.thy ===== *)
theory Session
  imports Prelude
begin

text \<open>
  The encrypted session of \<open>crypto/src/session.rs\<close>: deriving the key and the nonce base from a
  combined secret, the process-wide cache of derived material, and the encrypt and decrypt
  variants of \<open>HybridSession\<close>. AES-256-GCM, HKDF-SHA256 and AHash are crates outside the
  repository: a \<open>crypto_lib\<close> is a parameter of every definition that calls them, and what
  the code relies on is the hypothesis \<open>lib_ok\<close>. The interface \<open>sealed_channel\<close> is what the
  users of a session rely on: what one side seals the other opens.
\<close>

subsection \<open>The cryptographic libraries\<close>

text \<open>\<open>ahash s i\<close> is the hash after the writes \<open>s\<close> and \<open>i\<close>; \<open>hkdf_expand s info n\<close> is
  \<open>Hkdf::new(None, s).expand(info, buf)\<close> for a buffer of \<open>n\<close> bytes; \<open>seal\<close> and \<open>unseal\<close> are the
  detached AEAD operations with empty associated data. \<open>encrypt_in_place\<close> and \<open>encrypt\<close> of
  the crate append the tag to the ciphertext, and their inverses take it off the end.\<close>

record crypto_lib =
  ahash :: "bytes \<Rightarrow> bytes \<Rightarrow> u64"
  hkdf_expand :: "bytes \<Rightarrow> bytes \<Rightarrow> nat \<Rightarrow> bytes option"
  seal :: "32 barr \<Rightarrow> 12 barr \<Rightarrow> bytes \<Rightarrow> (bytes \<times> 16 barr) option"
  unseal :: "32 barr \<Rightarrow> 12 barr \<Rightarrow> bytes \<Rightarrow> 16 barr \<Rightarrow> bytes option"

definition GCM_MAX :: nat where "GCM_MAX = 2 ^ 36"
definition HKDF_MAX :: nat where "HKDF_MAX = 255 * 32"

definition lib_ok :: "crypto_lib \<Rightarrow> bool" where
  "lib_ok L \<longleftrightarrow>
     (\<forall>k n p. length p \<le> GCM_MAX \<longrightarrow> seal L k n p \<noteq> None)
     \<and> (\<forall>k n p c t. seal L k n p = Some (c, t) \<longrightarrow> length c = length p \<and> unseal L k n c t = Some p)
     \<and> (\<forall>s i n. n \<le> HKDF_MAX \<longrightarrow> (\<exists>bs. hkdf_expand L s i n = Some bs \<and> length bs = n))"

lemma lib_ok_seal:
  assumes "lib_ok L" "length p \<le> GCM_MAX"
  obtains c t where "seal L k n p = Some (c, t)" "length c = length p" "unseal L k n c t = Some p"
  using assms unfolding lib_ok_def by (metis option.exhaust surj_pair)

lemma lib_ok_hkdf:
  assumes "lib_ok L" "n \<le> HKDF_MAX"
  obtains bs where "hkdf_expand L s i n = Some bs" "length bs = n"
  using assms unfolding lib_ok_def by blast

definition aead_encrypt :: "crypto_lib \<Rightarrow> 32 barr \<Rightarrow> 12 barr \<Rightarrow> bytes \<Rightarrow> bytes option" where
  "aead_encrypt L k n p = map_option (\<lambda>(c, t). c @ bytes_of t) (seal L k n p)"

definition aead_decrypt :: "crypto_lib \<Rightarrow> 32 barr \<Rightarrow> 12 barr \<Rightarrow> bytes \<Rightarrow> bytes option" where
  "aead_decrypt L k n c =
     (if length c < 16 then None
      else unseal L k n (take (length c - 16) c) (arr (drop (length c - 16) c)))"

subsection \<open>Errors and constants\<close>

definition TAG_SIZE :: nat where "TAG_SIZE = 16"
definition KEY_SIZE :: nat where "KEY_SIZE = 32"
definition NONCE_SIZE :: nat where "NONCE_SIZE = 12"
definition PAYLOAD_LIMIT :: nat where "PAYLOAD_LIMIT = 2 ^ 24"

datatype session_error =
    BufferTooSmall | PayloadTooLarge | InsufficientCapacity | CiphertextTooShort
  | AeadError | AuthenticationFailed

subsection \<open>Deriving session material\<close>

record cache_entry =
  ekey :: "32 barr"
  enonce_prefix :: "4 barr"
  enonce_xor :: u64

type_synonym hkdf_cache = "u64 \<rightharpoonup> cache_entry"

definition ascii :: "string \<Rightarrow> bytes" where "ascii s = map of_char s"

definition derive_cache_key :: "crypto_lib \<Rightarrow> bytes \<Rightarrow> bytes \<Rightarrow> u64" where
  "derive_cache_key L combined_secret session_info = ahash L combined_secret session_info"

definition session_label :: bytes where "session_label = ascii ''smip-mwp-session-v1''"

text \<open>The \<open>info_slice\<close> built in the 256-byte stack buffer.\<close>

definition info_slice :: "bytes \<Rightarrow> bytes" where
  "info_slice session_info =
     (let info = replicate 256 0; llen = length session_label;
          slen = min (length session_info) (length info - llen);
          info = overwrite 0 session_label info;
          info = overwrite llen (take slen session_info) info
      in take (llen + slen) info)"

definition derive_session_material :: "crypto_lib \<Rightarrow> bytes \<Rightarrow> bytes \<Rightarrow> session_error + cache_entry" where
  "derive_session_material L combined_secret session_info =
     (case hkdf_expand L combined_secret (info_slice session_info) KEY_SIZE of
        None \<Rightarrow> Inl AeadError
      | Some key \<Rightarrow>
     (case hkdf_expand L key (ascii ''nonce'') NONCE_SIZE of
        None \<Rightarrow> Inl AeadError
      | Some nonce_base \<Rightarrow>
     (case hkdf_expand L key (ascii ''mask'') 8 of
        None \<Rightarrow> Inl AeadError
      | Some mask_bytes \<Rightarrow>
          let nonce_prefix = subslice 0 4 nonce_base;
              existing = be_val (subslice 4 8 nonce_base);
              seq_mask = be_val mask_bytes;
              nonce_xor = existing XOR seq_mask
          in Inr \<lparr>ekey = arr key, enonce_prefix = arr nonce_prefix, enonce_xor = nonce_xor\<rparr>)))"

definition prederive_session ::
    "crypto_lib \<Rightarrow> bytes \<Rightarrow> bytes \<Rightarrow> hkdf_cache \<Rightarrow> (session_error + unit) \<times> hkdf_cache" where
  "prederive_session L combined_secret session_info cache =
     (if combined_secret = [] \<or> session_info = [] then (Inl BufferTooSmall, cache)
      else
        let cache_key = derive_cache_key L combined_secret session_info in
        if cache cache_key \<noteq> None then (Inr (), cache)
        else case derive_session_material L combined_secret session_info of
               Inl err \<Rightarrow> (Inl err, cache)
             | Inr entry \<Rightarrow> (Inr (), cache(cache_key \<mapsto> entry)))"

subsection \<open>Sessions\<close>

record session =
  aead :: "32 barr"
  nonce_prefix :: "4 barr"
  nonce_xor :: u64

definition session_of :: "cache_entry \<Rightarrow> session" where
  "session_of entry = \<lparr>aead = ekey entry, nonce_prefix = enonce_prefix entry, nonce_xor = enonce_xor entry\<rparr>"

text \<open>A 32-byte key is always accepted by \<open>Aes256Gcm::new_from_slice\<close>.\<close>

definition HybridSession_new ::
    "crypto_lib \<Rightarrow> bytes \<Rightarrow> bytes \<Rightarrow> hkdf_cache \<Rightarrow> (session_error + session) \<times> hkdf_cache" where
  "HybridSession_new L combined_secret session_info cache =
     (let cache_key = derive_cache_key L combined_secret session_info in
      case cache cache_key of
        Some entry \<Rightarrow> (Inr (session_of entry), cache)
      | None \<Rightarrow>
          (case derive_session_material L combined_secret session_info of
             Inl err \<Rightarrow> (Inl err, cache)
           | Inr entry \<Rightarrow> (Inr (session_of entry), cache(cache_key \<mapsto> entry))))"

definition build_nonce :: "session \<Rightarrow> u64 \<Rightarrow> 12 barr" where
  "build_nonce s seq =
     (let mixed = nonce_xor s XOR seq in arr (bytes_of (nonce_prefix s) @ be_bytes mixed))"

text \<open>\<open>encrypt_in_place\<close> returns the new contents of the payload buffer; on an error the
  caller's buffer is not used any more by the callers of the repository.\<close>

definition encrypt_in_place :: "crypto_lib \<Rightarrow> session \<Rightarrow> bytes \<Rightarrow> u64 \<Rightarrow> session_error + bytes" where
  "encrypt_in_place L s payload seq =
     (if PAYLOAD_LIMIT < length payload then Inl PayloadTooLarge
      else case aead_encrypt L (aead s) (build_nonce s seq) payload of
             None \<Rightarrow> Inl AuthenticationFailed
           | Some ct \<Rightarrow> Inr ct)"

definition encrypt_into_slice :: "crypto_lib \<Rightarrow> session \<Rightarrow> bytes \<Rightarrow> u64 \<Rightarrow> session_error + bytes \<times> 16 barr" where
  "encrypt_into_slice L s payload seq =
     (if PAYLOAD_LIMIT < length payload then Inl PayloadTooLarge
      else case seal L (aead s) (build_nonce s seq) payload of
             None \<Rightarrow> Inl AuthenticationFailed
           | Some (ct, tag) \<Rightarrow> Inr (ct, tag))"

text \<open>\<open>cap\<close> is the capacity of the destination vector, whose old contents are cleared.\<close>

definition encrypt_to :: "crypto_lib \<Rightarrow> session \<Rightarrow> nat \<Rightarrow> bytes \<Rightarrow> u64 \<Rightarrow> session_error + bytes" where
  "encrypt_to L s cap plaintext seq =
     (if cap < length plaintext + TAG_SIZE then Inl InsufficientCapacity
      else case aead_encrypt L (aead s) (build_nonce s seq) plaintext of
             None \<Rightarrow> Inl AuthenticationFailed
           | Some ct \<Rightarrow> Inr ct)"

definition decrypt_in_place :: "crypto_lib \<Rightarrow> session \<Rightarrow> bytes \<Rightarrow> u64 \<Rightarrow> session_error + bytes" where
  "decrypt_in_place L s payload seq =
     (if length payload < TAG_SIZE then Inl CiphertextTooShort
      else case aead_decrypt L (aead s) (build_nonce s seq) payload of
             None \<Rightarrow> Inl AuthenticationFailed
           | Some pt \<Rightarrow> Inr pt)"

definition session_encrypt :: "crypto_lib \<Rightarrow> session \<Rightarrow> bytes \<Rightarrow> u64 \<Rightarrow> session_error + bytes" where
  "session_encrypt L s plaintext seq =
     (if PAYLOAD_LIMIT < length plaintext then Inl PayloadTooLarge
      else case aead_encrypt L (aead s) (build_nonce s seq) plaintext of
             None \<Rightarrow> Inl AuthenticationFailed
           | Some ct \<Rightarrow> Inr ct)"

definition session_decrypt :: "crypto_lib \<Rightarrow> session \<Rightarrow> bytes \<Rightarrow> u64 \<Rightarrow> session_error + bytes" where
  "session_decrypt L s ciphertext seq =
     (if length ciphertext < TAG_SIZE then Inl CiphertextTooShort
      else case aead_decrypt L (aead s) (build_nonce s seq) ciphertext of
             None \<Rightarrow> Inl AuthenticationFailed
           | Some pt \<Rightarrow> Inr pt)"


subsection \<open>The channel a session provides\<close>

text \<open>\<open>ok\<close> is what the provider assumes of its own libraries, \<open>fits\<close> the payloads it takes.\<close>

fun seal_all :: "('q \<Rightarrow> bytes \<Rightarrow> 'e + bytes) \<Rightarrow> ('q \<times> bytes) list \<Rightarrow> 'e + bytes list" where
  "seal_all enc [] = Inr []"
| "seal_all enc ((q, p) # ps) =
     (case enc q p of Inl e \<Rightarrow> Inl e
      | Inr c \<Rightarrow> (case seal_all enc ps of Inl e \<Rightarrow> Inl e | Inr cs \<Rightarrow> Inr (c # cs)))"

locale sealed_channel =
  fixes enc :: "'q \<Rightarrow> bytes \<Rightarrow> 'e + bytes" and dec :: "'q \<Rightarrow> bytes \<Rightarrow> 'd + bytes"
    and ok :: bool and fits :: "bytes \<Rightarrow> bool" and overhead :: nat
  assumes sealed: "ok \<Longrightarrow> fits p \<Longrightarrow>
      \<exists>c. enc q p = Inr c \<and> length c = length p + overhead \<and> dec q c = Inr p"
begin

lemma enc_total:
  assumes ok "fits p"
  obtains c where "enc q p = Inr c" "length c = length p + overhead" "dec q c = Inr p"
  using sealed [OF assms, of q] by blast

lemma dec_enc: "ok \<Longrightarrow> fits p \<Longrightarrow> enc q p = Inr c \<Longrightarrow> dec q c = Inr p \<and> length c = length p + overhead"
  using sealed [of p q] by auto

lemma seal_all_opens:
  assumes ok "list_all (\<lambda>(q, p). fits p) ps"
  shows "\<exists>cs. seal_all enc ps = Inr cs \<and> seal_all dec (zip (map fst ps) cs) = Inr (map snd ps)
     \<and> map length cs = map (\<lambda>(q, p). length p + overhead) ps"
  using assms(2)
proof (induction ps)
  case (Cons qp ps)
  obtain q p where qp: "qp = (q, p)" by fastforce
  with Cons.prems have "fits p" by simp
  with assms(1) obtain c where "enc q p = Inr c" "length c = length p + overhead" "dec q c = Inr p"
    by (rule enc_total)
  with Cons qp show ?case by auto
qed simp

end

lemma aead_roundtrip:
  assumes "lib_ok L" "length p \<le> GCM_MAX"
  shows "\<exists>c. aead_encrypt L k n p = Some c \<and> length c = length p + 16 \<and> aead_decrypt L k n c = Some p"
proof -
  obtain c t where "seal L k n p = Some (c, t)" "length c = length p" "unseal L k n c t = Some p"
    using lib_ok_seal [OF assms] by blast
  then show ?thesis
    by (intro exI [of _ "c @ bytes_of t"]) (simp add: aead_encrypt_def aead_decrypt_def)
qed

lemma limit_le_gcm: "length p \<le> PAYLOAD_LIMIT \<Longrightarrow> length p \<le> GCM_MAX"
  by (simp add: PAYLOAD_LIMIT_def GCM_MAX_def)

interpretation session_channel: sealed_channel
  "\<lambda>q p. session_encrypt L s p q" "\<lambda>q c. session_decrypt L s c q" "lib_ok L"
  "\<lambda>p. length p \<le> PAYLOAD_LIMIT" 16 for L s
proof unfold_locales
  fix p :: bytes and q assume "lib_ok L" "length p \<le> PAYLOAD_LIMIT"
  then obtain c where "aead_encrypt L (aead s) (build_nonce s q) p = Some c" "length c = length p + 16"
      "aead_decrypt L (aead s) (build_nonce s q) c = Some p"
    using aead_roundtrip limit_le_gcm by metis
  with \<open>length p \<le> PAYLOAD_LIMIT\<close>
  show "\<exists>c. session_encrypt L s p q = Inr c \<and> length c = length p + 16 \<and> session_decrypt L s c q = Inr p"
    by (simp add: session_encrypt_def session_decrypt_def TAG_SIZE_def)
qed

lemma in_place_eq: "encrypt_in_place L s p q = session_encrypt L s p q"
  and decrypt_in_place_eq: "decrypt_in_place L s c q = session_decrypt L s c q"
  by (simp_all add: encrypt_in_place_def session_encrypt_def decrypt_in_place_def session_decrypt_def)

lemma into_slice_eq:
  "session_encrypt L s p q =
     (case encrypt_into_slice L s p q of Inl e \<Rightarrow> Inl e | Inr (c, t) \<Rightarrow> Inr (c @ bytes_of t))"
  by (auto simp: session_encrypt_def encrypt_into_slice_def aead_encrypt_def split: option.splits)

subsection \<open>The cache of derived material\<close>

datatype session_op = Prederive bytes bytes | NewSession bytes bytes

fun op_key :: "session_op \<Rightarrow> bytes \<times> bytes" where
  "op_key (Prederive s i) = (s, i)"
| "op_key (NewSession s i) = (s, i)"

fun session_op_run :: "crypto_lib \<Rightarrow> hkdf_cache \<Rightarrow> session_op \<Rightarrow> hkdf_cache" where
  "session_op_run L cache (Prederive s i) = snd (prederive_session L s i cache)"
| "session_op_run L cache (NewSession s i) = snd (HybridSession_new L s i cache)"

text \<open>Every entry was derived from one of the requests \<open>U\<close> and stands under its hash.\<close>

definition cache_from :: "crypto_lib \<Rightarrow> (bytes \<times> bytes) set \<Rightarrow> hkdf_cache \<Rightarrow> bool" where
  "cache_from L U cache \<longleftrightarrow>
     (\<forall>h e. cache h = Some e \<longrightarrow>
        (\<exists>(s, i) \<in> U. h = derive_cache_key L s i \<and> derive_session_material L s i = Inr e))"

lemma cache_from_op:
  assumes "cache_from L U cache"
  shows "cache_from L (insert (op_key op) U) (session_op_run L cache op)"
  using assms
  by (cases op)
    (auto simp: cache_from_def prederive_session_def HybridSession_new_def Let_def
      split: option.splits sum.splits if_splits; blast)+

lemma cache_from_ops:
  "cache_from L U cache \<Longrightarrow> cache_from L (U \<union> op_key ` set ops) (fold (\<lambda>op c. session_op_run L c op) ops cache)"
proof (induction ops arbitrary: U cache)
  case (Cons op ops)
  from Cons.IH [OF cache_from_op [OF Cons.prems, of op]] show ?case by simp
qed simp

lemma HybridSession_new_from:
  assumes "cache_from L U cache" "inj_on (\<lambda>(s, i). derive_cache_key L s i) (insert (s, i) U)"
  shows "fst (HybridSession_new L s i cache) = map_sum id session_of (derive_session_material L s i)"
proof (cases "cache (derive_cache_key L s i)")
  case None
  then show ?thesis
    by (auto simp: HybridSession_new_def split: sum.splits)
next
  case (Some e)
  with assms(1) obtain s' i' where U: "(s', i') \<in> U" "derive_cache_key L s i = derive_cache_key L s' i'"
    "derive_session_material L s' i' = Inr e"
    by (fastforce simp: cache_from_def)
  with assms(2) have "(s, i) = (s', i')" by (auto dest!: inj_onD)
  with U Some show ?thesis by (simp add: HybridSession_new_def)
qed

lemma derive_total:
  assumes "lib_ok L"
  shows "\<exists>e. derive_session_material L s i = Inr e"
proof -
  have H: "\<exists>bs. hkdf_expand L a b n = Some bs" if "n \<le> HKDF_MAX" for a b n
    using assms that unfolding lib_ok_def by blast
  obtain k where "hkdf_expand L s (info_slice i) KEY_SIZE = Some k"
    using H [of KEY_SIZE] by (auto simp: KEY_SIZE_def HKDF_MAX_def)
  moreover obtain n where "hkdf_expand L k (ascii ''nonce'') NONCE_SIZE = Some n"
    using H [of NONCE_SIZE] by (auto simp: NONCE_SIZE_def HKDF_MAX_def)
  moreover obtain m where "hkdf_expand L k (ascii ''mask'') 8 = Some m"
    using H [of 8] by (auto simp: HKDF_MAX_def)
  ultimately show ?thesis by (simp add: derive_session_material_def)
qed

lemma length_label: "length session_label = 19"
  by (simp add: session_label_def ascii_def)

lemma info_slice_eq: "info_slice i = session_label @ take 237 i"
  by (simp add: info_slice_def Let_def length_label overwrite_def min_def)


subsection \<open>A concrete library\<close>

text \<open>A library that meets \<open>lib_ok\<close> and can be evaluated; it has the laws of the real ones and
  none of their strength.\<close>

definition toy_lib :: crypto_lib where
  "toy_lib = \<lparr>ahash = (\<lambda>s i. of_nat (sum_list (map unat s) + 256 * sum_list (map unat i))),
     hkdf_expand = (\<lambda>s i n. if n \<le> HKDF_MAX then Some (take n (s @ i @ replicate n 0)) else None),
     seal = (\<lambda>k n p. if length p \<le> GCM_MAX
        then Some (map (\<lambda>b. b XOR (bytes_of k ! 0)) p, arr (bytes_of n @ replicate 4 0)) else None),
     unseal = (\<lambda>k n c t. if t = arr (bytes_of n @ replicate 4 0)
        then Some (map (\<lambda>b. b XOR (bytes_of k ! 0)) c) else None)\<rparr>"

lemma toy_lib_ok: "lib_ok toy_lib"
  by (auto simp: lib_ok_def toy_lib_def xor.assoc comp_def)

definition toy_session :: session where
  "toy_session = \<lparr>aead = fill_arr 5, nonce_prefix = fill_arr 1, nonce_xor = 9\<rparr>"

subsection \<open>Properties\<close>

text \<open>C31. Every payload within the per-packet limit is sealed by every variant into the same
  ciphertext, \<open>TAG_SIZE\<close> bytes longer, and both decrypt variants give the payload back under
  the same sequence number.\<close>

theorem session_variants_roundtrip:
  assumes "lib_ok L" and "length p \<le> PAYLOAD_LIMIT"
  shows "\<exists>c. session_encrypt L s p q = Inr c \<and> length c = length p + TAG_SIZE
    \<and> session_decrypt L s c q = Inr p \<and> decrypt_in_place L s c q = Inr p
    \<and> encrypt_in_place L s p q = Inr c
    \<and> (\<exists>ct tag. encrypt_into_slice L s p q = Inr (ct, tag) \<and> c = ct @ bytes_of tag)
    \<and> (\<forall>cap. encrypt_to L s cap p q =
          (if cap < length p + TAG_SIZE then Inl InsufficientCapacity else Inr c))"
proof -
  obtain c where c: "session_encrypt L s p q = Inr c" "length c = length p + 16" "session_decrypt L s c q = Inr p"
    using session_channel.enc_total [OF assms] by metis
  then have "aead_encrypt L (aead s) (build_nonce s q) p = Some c"
    by (auto simp: session_encrypt_def split: if_splits option.splits)
  moreover obtain ct tag where "encrypt_into_slice L s p q = Inr (ct, tag)" "c = ct @ bytes_of tag"
    using c(1) into_slice_eq [of L s p q] by (auto split: sum.splits)
  ultimately show ?thesis
    using c by (auto simp: in_place_eq decrypt_in_place_eq encrypt_to_def TAG_SIZE_def)
qed

theorem session_variants_roundtrip_witness:
  "\<exists>c. session_encrypt toy_lib toy_session [1, 2, 3] 7 = Inr c \<and> length c = 19"
  using session_variants_roundtrip [OF toy_lib_ok, of "[1, 2, 3]" toy_session 7]
  by (auto simp: PAYLOAD_LIMIT_def TAG_SIZE_def)

text \<open>A batch of payloads sealed one by one, each under its own sequence number, opens to
  the same batch.\<close>

theorem session_batch_opens:
  assumes "lib_ok L" and "list_all (\<lambda>(q, p). length p \<le> PAYLOAD_LIMIT) ps"
  shows "\<exists>cs. seal_all (\<lambda>q p. session_encrypt L s p q) ps = Inr cs
    \<and> seal_all (\<lambda>q c. session_decrypt L s c q) (zip (map fst ps) cs) = Inr (map snd ps)
    \<and> map length cs = map (\<lambda>(q, p). length p + 16) ps"
  by (rule session_channel.seal_all_opens [OF assms])

theorem session_batch_opens_witness:
  "\<exists>cs. seal_all (\<lambda>q p. session_encrypt toy_lib toy_session p q) [(1, [4]), (2, [])] = Inr cs
     \<and> map length cs = [17, 16]"
  using session_batch_opens [OF toy_lib_ok, of "[(1, [4]), (2, [])]" toy_session]
  by (auto simp: PAYLOAD_LIMIT_def)

text \<open>Two packets of a session have the same nonce exactly when they carry the same
  sequence number.\<close>

theorem nonce_unique_per_sequence:
  "build_nonce s q = build_nonce s q' \<longleftrightarrow> q = q'"
proof
  assume "build_nonce s q = build_nonce s q'"
  then have "bytes_of (build_nonce s q) = bytes_of (build_nonce s q')" by simp
  then have "be_bytes (nonce_xor s XOR q) = be_bytes (nonce_xor s XOR q')"
    by (simp add: build_nonce_def Let_def)
  then have "nonce_xor s XOR q = nonce_xor s XOR q'" by (simp add: be_bytes_inj)
  then have "nonce_xor s XOR (nonce_xor s XOR q) = nonce_xor s XOR (nonce_xor s XOR q')" by simp
  then show "q = q'" by (simp add: xor.assoc [symmetric])
qed simp

text \<open>C33. The cache of derived material is transparent as long as the 64-bit hash separates the
  requests made so far: after any history of \<open>prederive_session\<close> and \<open>HybridSession::new\<close>
  calls, a new session gets the material derived from its own secret and info.\<close>

theorem session_cache_transparent:
  assumes "inj_on (\<lambda>(s, i). derive_cache_key L s i) (insert (s, i) (op_key ` set ops))"
  shows "fst (HybridSession_new L s i (fold (\<lambda>op c. session_op_run L c op) ops Map.empty)) =
    map_sum id session_of (derive_session_material L s i)"
proof -
  have "cache_from L {} Map.empty" by (simp add: cache_from_def)
  from cache_from_ops [OF this, of ops] assms show ?thesis
    by (intro HybridSession_new_from) auto
qed

theorem session_cache_transparent_witness:
  "fst (HybridSession_new toy_lib [7] [8]
     (fold (\<lambda>op c. session_op_run toy_lib c op) [Prederive [1] [2], NewSession [7] [8]] Map.empty)) =
   map_sum id session_of (derive_session_material toy_lib [7] [8])"
  by (rule session_cache_transparent)
    (simp add: inj_on_def derive_cache_key_def toy_lib_def)

text \<open>Without that separation the cache hands out another session's key: when two requests
  have the same 64-bit hash, the second is given the material derived from the first secret.\<close>

theorem session_confusion_on_collision:
  assumes "s \<noteq> []" and "i \<noteq> []" and "derive_cache_key L s i = derive_cache_key L s' i'"
    and "derive_session_material L s i = Inr e"
  shows "fst (HybridSession_new L s' i' (snd (prederive_session L s i Map.empty))) = Inr (session_of e)"
  using assms by (simp add: HybridSession_new_def prederive_session_def Let_def)

theorem session_confusion_on_collision_witness:
  "\<exists>e. fst (HybridSession_new toy_lib [2, 1] [8] (snd (prederive_session toy_lib [1, 2] [8] Map.empty))) =
     Inr (session_of e)"
proof -
  obtain e where "derive_session_material toy_lib [1, 2] [8] = Inr e"
    using derive_total [OF toy_lib_ok] by blast
  then show ?thesis
    using session_confusion_on_collision [of "[1, 2]" "[8]" toy_lib "[2, 1]" "[8]" e]
    by (auto simp: derive_cache_key_def toy_lib_def)
qed

text \<open>Deriving material never fails on a library that keeps its documented bounds, and it
  reads at most the first 237 bytes of the session info.\<close>

theorem session_material_reads_prefix:
  assumes "lib_ok L"
  shows "(\<exists>e. derive_session_material L s i = Inr e)
    \<and> derive_session_material L s i = derive_session_material L s (take 237 i)"
  using derive_total [OF assms] by (simp add: derive_session_material_def info_slice_eq)

theorem session_material_reads_prefix_witness:
  "derive_session_material toy_lib [1] (replicate 240 2) = derive_session_material toy_lib [1] (replicate 237 2)"
  using session_material_reads_prefix [OF toy_lib_ok, of "[1]" "replicate 240 2"] by simp

end
