(* ===== verification/Kex.thy ===== *)
theory Kex
  imports Session
begin

text \<open>
  The two-phase hybrid key exchange of \<open>crypto/src/kex.rs\<close>: an X25519 exchange and an ML-KEM-768
  encapsulation, combined by HKDF under the transcript hash. The primitives are crates
  outside the repository and a \<open>kex_lib\<close> is a parameter; \<open>kex_ok\<close> states their documented
  correctness. Randomness drawn from \<open>OsRng\<close> is an argument. The interface \<open>one_shot\<close> is
  the contract of the ephemeral private key, which \<open>Option::take\<close> hands out once.
\<close>

definition MLKEM768_EK_LEN :: nat where "MLKEM768_EK_LEN = 1184"
definition MLKEM768_CT_LEN :: nat where "MLKEM768_CT_LEN = 1088"
definition INITIATOR_PUB_LEN :: nat where "INITIATOR_PUB_LEN = 32 + MLKEM768_EK_LEN"
definition RESPONDER_MSG_LEN :: nat where "RESPONDER_MSG_LEN = 32 + MLKEM768_CT_LEN"
definition SESSION_SECRET_LEN :: nat where "SESSION_SECRET_LEN = 64"

datatype kex_error =
    KeyGenFailed | BadInitiatorPub | BadResponderMsg | EncapsulateFailed | DecapsulateFailed
  | HkdfExpandFailed | BadPublicKey string

subsection \<open>The primitives\<close>

record kex_lib =
  x25519_public :: "32 barr \<Rightarrow> 32 barr"
  diffie_hellman :: "32 barr \<Rightarrow> 32 barr \<Rightarrow> 32 barr"
  mlkem_generate :: "bytes \<Rightarrow> bytes \<times> 1184 barr"
  encapsulate :: "bytes \<Rightarrow> 1184 barr \<Rightarrow> (1088 barr \<times> 32 barr) option"
  decapsulate :: "bytes \<Rightarrow> 1088 barr \<Rightarrow> 32 barr option"
  sha256 :: "bytes \<Rightarrow> 32 barr"
  hkdf_extract :: "bytes \<Rightarrow> bytes \<Rightarrow> 32 barr"
  prk_expand :: "32 barr \<Rightarrow> bytes \<Rightarrow> nat \<Rightarrow> bytes option"

definition kex_ok :: "kex_lib \<Rightarrow> bool" where
  "kex_ok K \<longleftrightarrow>
     (\<forall>a b. diffie_hellman K a (x25519_public K b) = diffie_hellman K b (x25519_public K a))
     \<and> (\<forall>g r. \<exists>ct ss. encapsulate K r (snd (mlkem_generate K g)) = Some (ct, ss)
          \<and> decapsulate K (fst (mlkem_generate K g)) ct = Some ss)
     \<and> (\<forall>prk info n. n \<le> HKDF_MAX \<longrightarrow> (\<exists>bs. prk_expand K prk info n = Some bs \<and> length bs = n))"

subsection \<open>The exchange\<close>

record hybrid_kex =
  x25519_priv :: "32 barr option"
  x25519_pub :: "32 barr"
  mlkem_dk :: bytes
  mlkem_ek :: "1184 barr"

definition HybridKEX_new :: "kex_lib \<Rightarrow> 32 barr \<Rightarrow> bytes \<Rightarrow> kex_error + hybrid_kex" where
  "HybridKEX_new K rng_x rng_m =
     (let (dk, ek) = mlkem_generate K rng_m
      in Inr \<lparr>x25519_priv = Some rng_x, x25519_pub = x25519_public K rng_x, mlkem_dk = dk, mlkem_ek = ek\<rparr>)"

definition public_key :: "hybrid_kex \<Rightarrow> bytes" where
  "public_key kex =
     (let out = replicate INITIATOR_PUB_LEN 0;
          out = overwrite 0 (bytes_of (x25519_pub kex)) out
      in overwrite 32 (bytes_of (mlkem_ek kex)) out)"

definition build_transcript :: "kex_lib \<Rightarrow> bytes \<Rightarrow> bytes \<Rightarrow> bytes \<Rightarrow> bytes \<Rightarrow> 32 barr" where
  "build_transcript K x25519_init_pub x25519_resp_pub mlkem_init_pub mlkem_ct =
     sha256 K (x25519_init_pub @ x25519_resp_pub @ mlkem_init_pub @ mlkem_ct)"

definition derive_session_secret ::
    "kex_lib \<Rightarrow> 32 barr \<Rightarrow> 32 barr \<Rightarrow> 32 barr \<Rightarrow> kex_error + 64 barr" where
  "derive_session_secret K x25519_ss mlkem_ss transcript =
     (let prk_classical = hkdf_extract K (bytes_of transcript) (bytes_of x25519_ss);
          prk_pqc = hkdf_extract K (bytes_of transcript) (bytes_of mlkem_ss);
          combined = bytes_of prk_classical @ bytes_of prk_pqc;
          prk_combined = hkdf_extract K (bytes_of transcript) combined
      in case prk_expand K prk_combined (ascii ''smip-mwp-kex-v1'') SESSION_SECRET_LEN of
           None \<Rightarrow> Inl HkdfExpandFailed
         | Some session_secret \<Rightarrow> Inr (arr session_secret))"

definition respond ::
    "kex_lib \<Rightarrow> bytes \<Rightarrow> bytes \<Rightarrow> hybrid_kex \<Rightarrow> (kex_error + bytes \<times> 64 barr) \<times> hybrid_kex" where
  "respond K rng initiator_pub kex =
     (if length initiator_pub < INITIATOR_PUB_LEN then (Inl BadInitiatorPub, kex)
      else
        let peer_x25519 = arr (subslice 0 32 initiator_pub) in
        case x25519_priv kex of
          None \<Rightarrow> (Inl KeyGenFailed, kex)
        | Some priv \<Rightarrow>
            let kex = kex\<lparr>x25519_priv := None\<rparr>;
                x25519_ss = diffie_hellman K priv peer_x25519;
                init_mlkem_pub = subslice 32 MLKEM768_EK_LEN initiator_pub
            in case encapsulate K rng (arr init_mlkem_pub) of
                 None \<Rightarrow> (Inl EncapsulateFailed, kex)
               | Some (ct, mlkem_ss) \<Rightarrow>
                   let msg = bytes_of (x25519_pub kex) @ bytes_of ct;
                       transcript = build_transcript K (bytes_of peer_x25519) (bytes_of (x25519_pub kex))
                         init_mlkem_pub (bytes_of ct)
                   in case derive_session_secret K x25519_ss mlkem_ss transcript of
                        Inl e \<Rightarrow> (Inl e, kex)
                      | Inr ss \<Rightarrow> (Inr (msg, ss), kex))"

definition finish :: "kex_lib \<Rightarrow> bytes \<Rightarrow> hybrid_kex \<Rightarrow> (kex_error + 64 barr) \<times> hybrid_kex" where
  "finish K responder_msg kex =
     (if length responder_msg < RESPONDER_MSG_LEN then (Inl BadResponderMsg, kex)
      else
        let resp_x25519 = arr (subslice 0 32 responder_msg) in
        case x25519_priv kex of
          None \<Rightarrow> (Inl KeyGenFailed, kex)
        | Some priv \<Rightarrow>
            let kex = kex\<lparr>x25519_priv := None\<rparr>;
                x25519_ss = diffie_hellman K priv resp_x25519;
                ct_bytes = subslice 32 MLKEM768_CT_LEN responder_msg
            in case decapsulate K (mlkem_dk kex) (arr ct_bytes) of
                 None \<Rightarrow> (Inl DecapsulateFailed, kex)
               | Some mlkem_ss \<Rightarrow>
                   let transcript = build_transcript K (bytes_of (x25519_pub kex)) (bytes_of resp_x25519)
                         (bytes_of (mlkem_ek kex)) ct_bytes
                   in case derive_session_secret K x25519_ss mlkem_ss transcript of
                        Inl e \<Rightarrow> (Inl e, kex)
                      | Inr ss \<Rightarrow> (Inr ss, kex))"

lemma public_key_eq: "public_key kex = bytes_of (x25519_pub kex) @ bytes_of (mlkem_ek kex)"
  by (simp add: public_key_def Let_def overwrite_def INITIATOR_PUB_LEN_def MLKEM768_EK_LEN_def)

lemma derive_total_kex:
  assumes "kex_ok K"
  shows "\<exists>ss. derive_session_secret K x m t = Inr ss"
proof -
  have "\<exists>bs. prk_expand K prk info SESSION_SECRET_LEN = Some bs" for prk info
  proof -
    have "SESSION_SECRET_LEN \<le> HKDF_MAX" by (simp add: SESSION_SECRET_LEN_def HKDF_MAX_def)
    then show ?thesis using assms unfolding kex_ok_def by blast
  qed
  then show ?thesis by (auto simp: derive_session_secret_def Let_def split: option.splits)
qed

subsection \<open>Keys that are used once\<close>

locale one_shot =
  fixes step :: "'s \<Rightarrow> 'op \<Rightarrow> bool \<times> 's" and armed :: "'s \<Rightarrow> bool"
  assumes success: "fst (step s x) \<Longrightarrow> armed s \<and> \<not> armed (snd (step s x))"
    and spent: "\<not> armed s \<Longrightarrow> \<not> armed (snd (step s x))"
begin

fun successes :: "'s \<Rightarrow> 'op list \<Rightarrow> nat" where
  "successes s [] = 0"
| "successes s (x # xs) = (if fst (step s x) then 1 else 0) + successes (snd (step s x)) xs"

lemma successes_spent: "\<not> armed s \<Longrightarrow> successes s xs = 0"
proof (induction xs arbitrary: s)
  case (Cons x xs)
  then show ?case using success [of s x] spent [of s x] by auto
qed simp

lemma successes_le_1: "successes s xs \<le> 1"
proof (induction xs arbitrary: s)
  case (Cons x xs)
  then show ?case using success [of s x] successes_spent [of "snd (step s x)" xs] by auto
qed simp

end

datatype kex_op = Respond bytes bytes | Finish bytes

definition is_ok :: "'e + 'a \<Rightarrow> bool" where
  "is_ok r = (case r of Inl _ \<Rightarrow> False | Inr _ \<Rightarrow> True)"

fun kex_step :: "kex_lib \<Rightarrow> hybrid_kex \<Rightarrow> kex_op \<Rightarrow> bool \<times> hybrid_kex" where
  "kex_step K kex (Respond rng pk) = (let (r, kex') = respond K rng pk kex in (is_ok r, kex'))"
| "kex_step K kex (Finish msg) = (let (r, kex') = finish K msg kex in (is_ok r, kex'))"

fun kex_successes :: "kex_lib \<Rightarrow> hybrid_kex \<Rightarrow> kex_op list \<Rightarrow> nat" where
  "kex_successes K kex [] = 0"
| "kex_successes K kex (x # xs) =
     (if fst (kex_step K kex x) then 1 else 0) + kex_successes K (snd (kex_step K kex x)) xs"

lemma respond_priv:
  "is_ok (fst (respond K rng pk kex)) \<Longrightarrow> x25519_priv kex \<noteq> None \<and> x25519_priv (snd (respond K rng pk kex)) = None"
  "x25519_priv kex = None \<Longrightarrow> x25519_priv (snd (respond K rng pk kex)) = None"
  by (auto simp: respond_def is_ok_def Let_def split: if_splits option.splits sum.splits)

lemma finish_priv:
  "is_ok (fst (finish K msg kex)) \<Longrightarrow> x25519_priv kex \<noteq> None \<and> x25519_priv (snd (finish K msg kex)) = None"
  "x25519_priv kex = None \<Longrightarrow> x25519_priv (snd (finish K msg kex)) = None"
  by (auto simp: finish_def is_ok_def Let_def split: if_splits option.splits sum.splits)

interpretation kex_key: one_shot "kex_step K" "\<lambda>kex :: hybrid_kex. x25519_priv kex \<noteq> None" for K
proof unfold_locales
  fix s :: hybrid_kex and x assume "fst (kex_step K s x)"
  then show "x25519_priv s \<noteq> None \<and> \<not> x25519_priv (snd (kex_step K s x)) \<noteq> None"
    by (cases x) (auto simp: split_def Let_def dest: respond_priv(1) finish_priv(1))
next
  fix s :: hybrid_kex and x assume "\<not> x25519_priv s \<noteq> None"
  then show "\<not> x25519_priv (snd (kex_step K s x)) \<noteq> None"
    by (cases x) (auto simp: split_def Let_def dest: respond_priv(2) finish_priv(2))
qed

lemma kex_successes_eq: "kex_successes K kex xs = kex_key.successes K kex xs"
  by (induction K kex xs rule: kex_successes.induct) (simp_all add: kex_key.successes.simps)

subsection \<open>A concrete library\<close>

text \<open>Group exponentiation is replaced by XOR with a constant base, the KEM by sending the
  randomness; the laws of \<open>kex_ok\<close> hold and everything can be evaluated.\<close>

definition xor_arr :: "'n::len barr \<Rightarrow> 'n barr \<Rightarrow> 'n barr" where
  "xor_arr a b = arr (map2 (XOR) (bytes_of a) (bytes_of b))"

definition toy_kex :: kex_lib where
  "toy_kex = \<lparr>x25519_public = (\<lambda>a. a), diffie_hellman = xor_arr,
     mlkem_generate = (\<lambda>g. (take 8 g, arr (take 8 g))),
     encapsulate = (\<lambda>r ek. Some (arr r, arr (take 32 r))),
     decapsulate = (\<lambda>dk ct. Some (arr (take 32 (bytes_of ct)))),
     sha256 = (\<lambda>bs. arr bs), hkdf_extract = (\<lambda>salt ikm. arr (ikm @ salt)),
     prk_expand = (\<lambda>prk info n. if n \<le> HKDF_MAX then Some (take n (bytes_of prk @ info @ replicate n 0)) else None)\<rparr>"

lemma xor_arr_commute: "xor_arr a b = xor_arr b a"
proof -
  have "map2 (XOR) (bytes_of a) (bytes_of b) = map2 (XOR) (bytes_of b) (bytes_of a)"
    by (intro nth_equalityI) (simp_all add: xor.commute)
  then show ?thesis by (simp add: xor_arr_def)
qed

lemma toy_kex_ok: "kex_ok toy_kex"
proof -
  have "(arr (take 32 (bytes_of (arr r :: 1088 barr))) :: 32 barr) = arr (take 32 r)" for r
    by (simp add: barr_eq_iff bytes_of_arr_code min_def take_append)
  then show ?thesis
    by (auto simp: kex_ok_def toy_kex_def xor_arr_commute)
qed

subsection \<open>Agreement\<close>

lemma exchange_agrees:
  assumes "kex_ok K" and "HybridKEX_new K xi gi = Inr init" and "HybridKEX_new K xr gr = Inr resp"
  shows "\<exists>msg ss. respond K rng (public_key init) resp = (Inr (msg, ss), resp\<lparr>x25519_priv := None\<rparr>)
    \<and> length msg = RESPONDER_MSG_LEN
    \<and> finish K msg init = (Inr ss, init\<lparr>x25519_priv := None\<rparr>)"
proof -
  obtain ct kss where kem: "encapsulate K rng (snd (mlkem_generate K gi)) = Some (ct, kss)"
    "decapsulate K (fst (mlkem_generate K gi)) ct = Some kss"
    using assms(1) unfolding kex_ok_def by meson
  have dh: "diffie_hellman K xr (x25519_public K xi) = diffie_hellman K xi (x25519_public K xr)"
    using assms(1) unfolding kex_ok_def by blast
  have i: "init = \<lparr>x25519_priv = Some xi, x25519_pub = x25519_public K xi,
      mlkem_dk = fst (mlkem_generate K gi), mlkem_ek = snd (mlkem_generate K gi)\<rparr>"
    using assms(2) by (auto simp: HybridKEX_new_def split: prod.splits)
  have r: "resp = \<lparr>x25519_priv = Some xr, x25519_pub = x25519_public K xr,
      mlkem_dk = fst (mlkem_generate K gr), mlkem_ek = snd (mlkem_generate K gr)\<rparr>"
    using assms(3) by (auto simp: HybridKEX_new_def split: prod.splits)
  let ?t = "build_transcript K (bytes_of (x25519_public K xi)) (bytes_of (x25519_public K xr))
      (bytes_of (snd (mlkem_generate K gi))) (bytes_of ct)"
  obtain ss where ss: "derive_session_secret K (diffie_hellman K xi (x25519_public K xr)) kss ?t = Inr ss"
    using derive_total_kex [OF assms(1)] by blast
  show ?thesis
    using kem ss
    by (simp add: respond_def finish_def public_key_eq i r dh Let_def subslice_def INITIATOR_PUB_LEN_def
        RESPONDER_MSG_LEN_def MLKEM768_EK_LEN_def MLKEM768_CT_LEN_def)
qed

subsection \<open>Properties\<close>

text \<open>C34. The exchange agrees: with correct primitives, the responder always answers a fresh
  initiator's public key with a message of \<open>RESPONDER_MSG_LEN\<close> bytes, the initiator
  finishes on it with the same session secret, and both private keys are gone.\<close>

theorem kex_agreement:
  assumes "kex_ok K" and "HybridKEX_new K xi gi = Inr init" and "HybridKEX_new K xr gr = Inr resp"
  shows "\<exists>msg ss. respond K rng (public_key init) resp = (Inr (msg, ss), resp\<lparr>x25519_priv := None\<rparr>)
    \<and> length msg = RESPONDER_MSG_LEN
    \<and> finish K msg init = (Inr ss, init\<lparr>x25519_priv := None\<rparr>)"
  using exchange_agrees [OF assms] .

theorem kex_agreement_witness:
  "\<exists>init resp msg ss. HybridKEX_new toy_kex (fill_arr 3) [1, 2] = Inr init
     \<and> HybridKEX_new toy_kex (fill_arr 4) [5] = Inr resp
     \<and> fst (respond toy_kex [6] (public_key init) resp) = Inr (msg, ss)
     \<and> fst (finish toy_kex msg init) = Inr ss"
proof -
  obtain init resp where new: "HybridKEX_new toy_kex (fill_arr 3) [1, 2] = Inr init"
    "HybridKEX_new toy_kex (fill_arr 4) [5] = Inr resp"
    unfolding HybridKEX_new_def Let_def split_def by blast
  from kex_agreement [OF toy_kex_ok new, of "[6]"] new show ?thesis by force
qed

text \<open>The ephemeral key is used once: whatever \<open>respond\<close> and \<open>finish\<close> calls are made on an
  exchange, with any messages and in any order, at most one of them succeeds.\<close>

theorem kex_key_used_once:
  "kex_successes K kex ops \<le> 1"
  using kex_key.successes_le_1 [of K kex ops] by (simp add: kex_successes_eq)

text \<open>C35. What is rejected before the key is taken: a message is refused with its length error
  exactly when it is too short, and with \<open>KeyGenFailed\<close> exactly when it is long enough and the
  key is spent; only these two outcomes leave the private key in place, every other call
  takes it, even when it fails.\<close>

theorem kex_rejections:
  "(fst (respond K rng pk kex) = Inl BadInitiatorPub \<longleftrightarrow> length pk < INITIATOR_PUB_LEN)
   \<and> (fst (respond K rng pk kex) = Inl KeyGenFailed \<longleftrightarrow> INITIATOR_PUB_LEN \<le> length pk \<and> x25519_priv kex = None)
   \<and> (fst (finish K msg kex) = Inl BadResponderMsg \<longleftrightarrow> length msg < RESPONDER_MSG_LEN)
   \<and> (fst (finish K msg kex) = Inl KeyGenFailed \<longleftrightarrow> RESPONDER_MSG_LEN \<le> length msg \<and> x25519_priv kex = None)
   \<and> (fst (respond K rng pk kex) \<in> {Inl BadInitiatorPub, Inl KeyGenFailed} \<longleftrightarrow>
        x25519_priv (snd (respond K rng pk kex)) = x25519_priv kex)
   \<and> (fst (finish K msg kex) \<in> {Inl BadResponderMsg, Inl KeyGenFailed} \<longleftrightarrow>
        x25519_priv (snd (finish K msg kex)) = x25519_priv kex)"
  by (auto simp: respond_def finish_def Let_def derive_session_secret_def
      split: option.splits sum.splits if_splits)

end
