(* ===== verification/Hardening.thy ===== *)
theory Hardening
  imports Prelude
begin

text \<open>
  The handshake hardening of \<open>crypto/src/security_hardening.rs\<close>: the sliding window of
  sequence numbers, the handshake timeout, the retry limit and the packet throttle. Times
  are arguments: a \<open>SystemTime\<close> is its distance to the Unix epoch in nanoseconds. The
  window is the 64-slot array of the code with its length, and every index that Rust
  checks is checked here, with \<open>Panic\<close> as the outcome of a failed check.
\<close>

subsection \<open>State\<close>

definition MAX_REPLAY_WINDOW :: nat where "MAX_REPLAY_WINDOW = 64"
definition HANDSHAKE_TIMEOUT :: nat where "HANDSHAKE_TIMEOUT = 30 * 10 ^ 9"

datatype hardening_error = HandshakeTimeout | ReplayDetected | RetryLimitExceeded | Panic

record security_config =
  max_replay_window :: nat
  handshake_timeout :: nat
  rate_limit_per_sec :: int

definition DEFAULT_SECURITY_CONFIG :: security_config where
  "DEFAULT_SECURITY_CONFIG = \<lparr>max_replay_window = MAX_REPLAY_WINDOW,
     handshake_timeout = HANDSHAKE_TIMEOUT, rate_limit_per_sec = 10000000\<rparr>"

record kex_state =
  hs_session_id :: "16 barr"
  kex_started :: nat
  timeout :: nat
  retry_count :: nat
  handshake_done :: bool
  seq_counter :: u64
  seq_window :: "u64 list"
  seq_window_len :: nat

definition HybridKEXState_new :: "nat \<Rightarrow> 16 barr \<Rightarrow> kex_state" where
  "HybridKEXState_new now sid = \<lparr>hs_session_id = sid, kex_started = now, timeout = now + HANDSHAKE_TIMEOUT,
     retry_count = 0, handshake_done = False, seq_counter = 0,
     seq_window = replicate MAX_REPLAY_WINDOW 0, seq_window_len = 0\<rparr>"

definition check_sequence_number_overflow :: "u64 \<Rightarrow> u64 \<Rightarrow> bool" where
  "check_sequence_number_overflow seq max_seq = (if max_seq = 0 then False else max_seq \<le> seq)"

text \<open>The new value of the counter and the number handed out.\<close>

definition increment_global_seq :: "u64 \<Rightarrow> u64 \<times> u64" where
  "increment_global_seq counter = (counter + 1, counter + 1)"

definition check_timeout :: "nat \<Rightarrow> kex_state \<Rightarrow> (hardening_error + unit) \<times> kex_state" where
  "check_timeout now st =
     (if handshake_done st then (Inr (), st)
      else if timeout st < now then (Inl HandshakeTimeout, st)
      else (Inr (), st\<lparr>timeout := now + HANDSHAKE_TIMEOUT\<rparr>))"

definition check_retries :: "kex_state \<Rightarrow> (hardening_error + unit) \<times> kex_state" where
  "check_retries st =
     (if 3 \<le> retry_count st then (Inl RetryLimitExceeded, st)
      else (Inr (), st\<lparr>retry_count := retry_count st + 1\<rparr>))"

definition reset_retry :: "kex_state \<Rightarrow> kex_state" where
  "reset_retry st = st\<lparr>retry_count := 0\<rparr>"

definition cleanup :: "kex_state \<Rightarrow> kex_state" where
  "cleanup st = st\<lparr>kex_started := 0, timeout := 0\<rparr>"

subsection \<open>The sequence window\<close>

text \<open>\<open>copy_within(a..b, dest)\<close>, with its range checks.\<close>

definition copy_within :: "nat \<Rightarrow> nat \<Rightarrow> nat \<Rightarrow> 'a list \<Rightarrow> 'a list option" where
  "copy_within a b dest xs =
     (if a \<le> b \<and> b \<le> length xs \<and> dest + (b - a) \<le> length xs
      then Some (overwrite dest (subslice a (b - a) xs) xs) else None)"

definition set_at :: "nat \<Rightarrow> 'a \<Rightarrow> 'a list \<Rightarrow> 'a list option" where
  "set_at i v xs = (if i < length xs then Some (xs[i := v]) else None)"

text \<open>\<open>binary_search\<close> on a sorted slice: where the value is, or where it belongs.\<close>

definition binary_search :: "'a::linorder list \<Rightarrow> 'a \<Rightarrow> nat + nat" where
  "binary_search xs x =
     (let i = length (takeWhile (\<lambda>y. y < x) xs)
      in if i < length xs \<and> xs ! i = x then Inr i else Inl i)"

definition sat_succ :: "u64 \<Rightarrow> u64" where
  "sat_succ c = (if c = - 1 then c else c + 1)"

definition window_append :: "u64 \<Rightarrow> kex_state \<Rightarrow> (hardening_error + u64) \<times> kex_state" where
  "window_append seq st =
     (if MAX_REPLAY_WINDOW \<le> seq_window_len st
      then (case copy_within 1 (seq_window_len st) 0 (seq_window st) of
              None \<Rightarrow> (Inl Panic, st)
            | Some w \<Rightarrow>
           (case set_at (seq_window_len st - 1) seq w of
              None \<Rightarrow> (Inl Panic, st)
            | Some w \<Rightarrow> (Inr seq, st\<lparr>seq_window := w\<rparr>)))
      else (case set_at (seq_window_len st) seq (seq_window st) of
              None \<Rightarrow> (Inl Panic, st)
            | Some w \<Rightarrow> (Inr seq, st\<lparr>seq_window := w, seq_window_len := seq_window_len st + 1\<rparr>)))"

definition window_insert :: "nat \<Rightarrow> u64 \<Rightarrow> kex_state \<Rightarrow> (hardening_error + u64) \<times> kex_state" where
  "window_insert insert_idx seq st =
     (let full = MAX_REPLAY_WINDOW \<le> seq_window_len st;
          evicted = (if full then copy_within 1 (seq_window_len st) 0 (seq_window st) else Some (seq_window st));
          len = (if full then seq_window_len st - 1 else seq_window_len st);
          idx = (if full then insert_idx - 1 else insert_idx)
      in case evicted of
           None \<Rightarrow> (Inl Panic, st)
         | Some w \<Rightarrow>
        (case (if idx < len then copy_within idx len (idx + 1) w else Some w) of
           None \<Rightarrow> (Inl Panic, st)
         | Some w \<Rightarrow>
        (case set_at idx seq w of
           None \<Rightarrow> (Inl Panic, st)
         | Some w \<Rightarrow> (Inr seq, st\<lparr>seq_window := w, seq_window_len := len + 1\<rparr>))))"

definition increment_seq_counter :: "kex_state \<Rightarrow> (hardening_error + u64) \<times> kex_state" where
  "increment_seq_counter st =
     (let st = st\<lparr>seq_counter := sat_succ (seq_counter st)\<rparr>;
          seq = seq_counter st; len = seq_window_len st; w = seq_window st
      in if length w < len then (Inl Panic, st)
         else if len = 0 \<or> w ! (len - 1) < seq then window_append seq st
         else case binary_search (take len w) seq of
                Inr _ \<Rightarrow> (Inl ReplayDetected, st)
              | Inl idx \<Rightarrow> window_insert idx seq st)"

subsection \<open>The throttle\<close>

definition i64_max :: int where "i64_max = 2 ^ 63 - 1"
definition i64_min :: int where "i64_min = - (2 ^ 63)"

definition sat_sub :: "int \<Rightarrow> int \<Rightarrow> int" where
  "sat_sub a b = max i64_min (min i64_max (a - b))"

record throttle =
  last_packet_time :: int
  rate_limit_ns :: int

definition DoSThrottle_new :: "int \<Rightarrow> throttle" where
  "DoSThrottle_new rate_per_sec =
     (let safe_rate = max rate_per_sec 1; window_ns = 1000000000
      in \<lparr>last_packet_time = 0, rate_limit_ns = min (1000000000 div safe_rate) window_ns\<rparr>)"

text \<open>\<open>now\<close> is the clock in nanoseconds as an \<open>i64\<close>.\<close>

definition allow_packet :: "int \<Rightarrow> throttle \<Rightarrow> bool \<times> throttle" where
  "allow_packet now th =
     (let last_seen = last_packet_time th; elapsed = sat_sub now last_seen
      in if last_seen = 0 \<or> rate_limit_ns th \<le> elapsed then (True, th\<lparr>last_packet_time := now\<rparr>)
         else (False, th))"

subsection \<open>The window as a sorted list\<close>

definition window :: "kex_state \<Rightarrow> u64 list" where
  "window st = take (seq_window_len st) (seq_window st)"

definition window_ok :: "kex_state \<Rightarrow> bool" where
  "window_ok st \<longleftrightarrow> length (seq_window st) = MAX_REPLAY_WINDOW \<and> seq_window_len st \<le> MAX_REPLAY_WINDOW
     \<and> sorted_wrt (<) (window st)"

definition evict_oldest :: "u64 list \<Rightarrow> u64 list" where
  "evict_oldest W = (if MAX_REPLAY_WINDOW \<le> length W then tl W else W)"

lemma insort_takeWhile: "insort x xs = takeWhile (\<lambda>y. y < x) xs @ x # dropWhile (\<lambda>y. y < x) xs"
  by (induction xs) (auto simp: not_less)

lemma strict_le_last: "sorted_wrt (<) (xs :: 'a::linorder list) \<Longrightarrow> y \<in> set xs \<Longrightarrow> y \<le> last xs"
  by (induction xs) (auto simp: less_imp_le)

lemma insort_last:
  assumes "sorted_wrt (<) (xs :: 'a::linorder list)" "xs = [] \<or> last xs < x"
  shows "insort x xs = xs @ [x]"
proof -
  have "y < x" if "y \<in> set xs" for y
    using strict_le_last [OF assms(1) that] assms(2) that by fastforce
  then have "takeWhile (\<lambda>y. y < x) xs = xs" "dropWhile (\<lambda>y. y < x) xs = []" by simp_all
  then show ?thesis by (simp add: insort_takeWhile)
qed

lemma takeWhile_drop_len: "dropWhile P xs = drop (length (takeWhile P xs)) xs"
  by (simp add: dropWhile_eq_drop)

lemma binary_search_sorted:
  assumes "sorted_wrt (<) (xs :: 'a::linorder list)"
  shows "binary_search xs x = (if x \<in> set xs then Inr (length (takeWhile (\<lambda>y. y < x) xs))
                               else Inl (length (takeWhile (\<lambda>y. y < x) xs)))"
proof -
  have "x \<in> set xs \<longleftrightarrow> length (takeWhile (\<lambda>y. y < x) xs) < length xs
      \<and> xs ! length (takeWhile (\<lambda>y. y < x) xs) = x"
    using assms
  proof (induction xs)
    case (Cons y ys)
    then show ?case by (cases "y < x") auto
  qed simp
  then show ?thesis by (simp add: binary_search_def Let_def)
qed

lemma copy_left:
  assumes "len \<le> length w" "0 < len"
  shows "\<exists>w'. copy_within 1 len 0 w = Some w' \<and> length w' = length w \<and> take (len - 1) w' = tl (take len w)"
proof (intro exI conjI)
  show "copy_within 1 len 0 w = Some (overwrite 0 (subslice 1 (len - 1) w) w)"
    using assms by (simp add: copy_within_def)
  show "length (overwrite 0 (subslice 1 (len - 1) w) w) = length w"
    using assms by (simp add: slice_simps)
  show "take (len - 1) (overwrite 0 (subslice 1 (len - 1) w) w) = tl (take len w)"
    using assms by (simp add: overwrite_def subslice_def drop_Suc tl_take)
qed

lemma insert_shift:
  assumes "idx \<le> len" "len < length w"
  shows "\<exists>w' w''. (if idx < len then copy_within idx len (idx + 1) w else Some w) = Some w'
    \<and> set_at idx x w' = Some w'' \<and> length w'' = length w
    \<and> take (len + 1) w'' = take idx w @ x # drop idx (take len w)"
proof -
  define w' where "w' = (if idx < len then overwrite (idx + 1) (subslice idx (len - idx) w) w else w)"
  have l: "length w' = length w" using assms by (simp add: w'_def slice_simps)
  have c: "(if idx < len then copy_within idx len (idx + 1) w else Some w) = Some w'"
    using assms by (simp add: copy_within_def w'_def)
  have nth: "w' ! i = (if idx < i \<and> i \<le> len then w ! (i - 1) else w ! i)" if "i < length w" for i
    using that assms by (auto simp: w'_def nth_overwrite slice_simps) (auto simp: subslice_def)
  have "take (len + 1) (w'[idx := x]) = take idx w @ x # drop idx (take len w)"
  proof (rule nth_equalityI)
    show "length (take (len + 1) (w'[idx := x])) = length (take idx w @ x # drop idx (take len w))"
      using assms l by simp
    fix i assume "i < length (take (len + 1) (w'[idx := x]))"
    then have "i < len + 1" by simp
    then show "take (len + 1) (w'[idx := x]) ! i = (take idx w @ x # drop idx (take len w)) ! i"
      using assms l nth [of i] by (auto simp: nth_append nth_Cons' nth_list_update min_def)
  qed
  then show ?thesis using c l assms by (auto simp: set_at_def)
qed

lemma sorted_evict: "sorted_wrt (<) W \<Longrightarrow> sorted_wrt (<) (evict_oldest W)"
  by (cases W) (auto simp: evict_oldest_def)

lemma sorted_insort_strict: "sorted_wrt (<) W \<Longrightarrow> x \<notin> set W \<Longrightarrow> sorted_wrt (<) (insort x W)"
  by (simp add: strict_sorted_iff sorted_insort distinct_insort)

lemma takeWhile_tl: "length (takeWhile P (tl xs)) = (if xs \<noteq> [] \<and> P (hd xs) then length (takeWhile P xs) - 1 else length (takeWhile P (tl xs)))"
  by (cases xs) auto

lemma window_append_ok:
  assumes "window_ok st" "window st = [] \<or> last (window st) < seq"
  shows "\<exists>st'. window_append seq st = (Inr seq, st') \<and> window st' = evict_oldest (window st) @ [seq]
    \<and> length (seq_window st') = MAX_REPLAY_WINDOW \<and> seq_window_len st' \<le> MAX_REPLAY_WINDOW
    \<and> seq_counter st' = seq_counter st"
proof -
  from assms(1) have l: "length (seq_window st) = 64" "seq_window_len st \<le> 64"
    by (simp_all add: window_ok_def MAX_REPLAY_WINDOW_def)
  show ?thesis
  proof (cases "seq_window_len st = 64")
    case True
    obtain w where w: "copy_within 1 64 0 (seq_window st) = Some w" "length w = 64"
      "take 63 w = tl (take 64 (seq_window st))"
      using copy_left [of 64 "seq_window st"] l by auto
    have "w[63 := seq] = take 63 w @ [seq]"
      using w(2) by (simp add: upd_conv_take_nth_drop)
    with True w l show ?thesis
      by (simp add: window_append_def MAX_REPLAY_WINDOW_def set_at_def window_def evict_oldest_def)
  next
    case False
    with l have lt: "seq_window_len st < 64" by simp
    then have "take (Suc (seq_window_len st)) ((seq_window st)[seq_window_len st := seq])
        = take (seq_window_len st) (seq_window st) @ [seq]"
      using l by (simp add: take_Suc_conv_app_nth)
    with lt l show ?thesis
      by (simp add: window_append_def MAX_REPLAY_WINDOW_def set_at_def window_def evict_oldest_def min_def)
  qed
qed

lemma insort_take_drop: "insort x xs = take (length (takeWhile (\<lambda>y. y < x) xs)) xs @ x # drop (length (takeWhile (\<lambda>y. y < x) xs)) xs"
  by (metis insort_takeWhile takeWhile_drop_len takeWhile_eq_take)

lemma evict_index:
  assumes "sorted_wrt (<) W" "MAX_REPLAY_WINDOW \<le> length W"
  shows "length (takeWhile (\<lambda>y. y < x) W) - 1 = length (takeWhile (\<lambda>y. y < x) (evict_oldest W))"
proof (cases W)
  case (Cons a W')
  then show ?thesis
  proof (cases "a < x")
    case False
    have "\<not> hd W' < x" if "W' \<noteq> []"
      using assms(1) Cons False that by (cases W') auto
    then have "takeWhile (\<lambda>y. y < x) W' = []" by (cases W') auto
    with assms Cons False show ?thesis by (simp add: evict_oldest_def)
  qed (use assms Cons in \<open>simp add: evict_oldest_def\<close>)
qed (use assms in \<open>simp add: MAX_REPLAY_WINDOW_def\<close>)

lemma window_insert_ok:
  fixes seq :: u64
  assumes ok: "window_ok st"
  defines "W \<equiv> window st"
  defines "idx \<equiv> length (takeWhile (\<lambda>y. y < seq) W)"
  shows "\<exists>st'. window_insert idx seq st = (Inr seq, st') \<and> window st' = insort seq (evict_oldest W)
    \<and> length (seq_window st') = MAX_REPLAY_WINDOW \<and> seq_window_len st' \<le> MAX_REPLAY_WINDOW
    \<and> seq_counter st' = seq_counter st"
proof -
  let ?len = "seq_window_len st"
  from ok have l: "length (seq_window st) = 64" "?len \<le> 64" and W: "length W = ?len" "sorted_wrt (<) W"
    by (simp_all add: window_ok_def MAX_REPLAY_WINDOW_def W_def window_def)
  define full where "full = (64 \<le> ?len)"
  define len where "len = (if full then ?len - 1 else ?len)"
  obtain w where w: "(if full then copy_within 1 ?len 0 (seq_window st) else Some (seq_window st)) = Some w"
    "length w = 64" "take len w = evict_oldest W"
    using copy_left [of ?len "seq_window st"] l W(1)
    by (cases full) (auto simp: full_def len_def evict_oldest_def MAX_REPLAY_WINDOW_def W_def window_def)
  define i where "i = (if full then idx - 1 else idx)"
  have i: "i = length (takeWhile (\<lambda>y. y < seq) (evict_oldest W))"
    using evict_index [OF W(2)] W(1)
    by (cases full) (auto simp: i_def full_def idx_def evict_oldest_def MAX_REPLAY_WINDOW_def)
  have le: "len < 64" "length (evict_oldest W) = len"
    using l W(1) by (auto simp: len_def full_def evict_oldest_def MAX_REPLAY_WINDOW_def)
  then have "i \<le> len" using i by (metis length_takeWhile_le)
  from insert_shift [OF this, of w seq] w(2) le obtain w' w'' where
    w': "(if i < len then copy_within i len (i + 1) w else Some w) = Some w'" "set_at i seq w' = Some w''"
      "length w'' = 64" "take (len + 1) w'' = take i w @ seq # drop i (take len w)"
    by auto
  have "take i w = take i (take len w)" using \<open>i \<le> len\<close> by (simp add: min_def)
  then have "take (len + 1) w'' = insort seq (evict_oldest W)"
    using w'(4) w(3) i by (simp add: insort_take_drop)
  moreover have "window_insert idx seq st = (Inr seq, st\<lparr>seq_window := w'', seq_window_len := len + 1\<rparr>)"
    unfolding window_insert_def Let_def MAX_REPLAY_WINDOW_def full_def [symmetric] len_def [symmetric] i_def [symmetric]
    by (simp only: w(1) w'(1,2) option.case)
  ultimately show ?thesis
    using w'(3) le(1) by (simp add: window_def MAX_REPLAY_WINDOW_def)
qed

lemma nth_last_window:
  assumes "window_ok st" "0 < seq_window_len st"
  shows "seq_window st ! (seq_window_len st - 1) = last (window st)"
proof -
  have "window st \<noteq> []" "length (window st) = seq_window_len st"
    using assms by (auto simp: window_ok_def window_def MAX_REPLAY_WINDOW_def)
  then show ?thesis using assms(2) by (simp add: last_conv_nth) (simp add: window_def)
qed

lemma window_ok_counter: "window_ok (st\<lparr>seq_counter := c\<rparr>) = window_ok st"
  and window_counter: "window (st\<lparr>seq_counter := c\<rparr>) = window st"
  by (simp_all add: window_ok_def window_def)

lemma increment_refines:
  assumes ok: "window_ok st"
  defines "seq \<equiv> sat_succ (seq_counter st)"
  shows "\<exists>st'. increment_seq_counter st = (if seq \<in> set (window st) then Inl ReplayDetected else Inr seq, st')
    \<and> window st' = (if seq \<in> set (window st) then window st else insort seq (evict_oldest (window st)))
    \<and> window_ok st' \<and> seq_counter st' = seq"
proof -
  define st1 where "st1 = st\<lparr>seq_counter := seq\<rparr>"
  have ok1: "window_ok st1" and W: "window st1 = window st" and c: "seq_counter st1 = seq"
    using ok by (simp_all add: st1_def window_ok_counter window_counter)
  let ?W = "window st"
  have sw: "sorted_wrt (<) ?W" using ok by (simp add: window_ok_def)
  have l: "length (seq_window st) = 64" "seq_window_len st \<le> 64" "(?W = []) = (seq_window_len st = 0)"
    using ok by (auto simp: window_ok_def MAX_REPLAY_WINDOW_def window_def)
  have new: "window_ok st'" if "window st' = insort seq (evict_oldest ?W)" "seq \<notin> set ?W"
      "length (seq_window st') = MAX_REPLAY_WINDOW" "seq_window_len st' \<le> MAX_REPLAY_WINDOW" for st'
  proof -
    have "seq \<notin> set (evict_oldest ?W)" using that(2) by (cases ?W) (auto simp: evict_oldest_def)
    then show ?thesis using that sw by (simp add: window_ok_def sorted_evict sorted_insort_strict)
  qed
  show ?thesis
  proof (cases "?W = [] \<or> last ?W < seq")
    case True
    then have notin: "seq \<notin> set ?W" using strict_le_last [OF sw, of seq] by auto
    from True W obtain st' where st': "window_append seq st1 = (Inr seq, st')"
      "window st' = evict_oldest ?W @ [seq]" "length (seq_window st') = MAX_REPLAY_WINDOW"
      "seq_window_len st' \<le> MAX_REPLAY_WINDOW" "seq_counter st' = seq"
      using window_append_ok [OF ok1] c by auto
    have "evict_oldest ?W = [] \<or> last (evict_oldest ?W) < seq"
      using True by (cases ?W) (auto simp: evict_oldest_def split: if_splits)
    then have "evict_oldest ?W @ [seq] = insort seq (evict_oldest ?W)"
      using insort_last [OF sorted_evict [OF sw]] by simp
    moreover have "increment_seq_counter st = window_append seq st1"
      using l True nth_last_window [OF ok]
      by (auto simp: increment_seq_counter_def Let_def seq_def [symmetric] st1_def)
    ultimately show ?thesis using st' notin new by auto
  next
    case False
    then have ne: "seq_window_len st \<noteq> 0" "\<not> last ?W < seq" using l by auto
    have inc: "increment_seq_counter st = (if seq \<in> set ?W then (Inl ReplayDetected, st1)
        else window_insert (length (takeWhile (\<lambda>y. y < seq) ?W)) seq st1)"
      using l ne nth_last_window [OF ok] binary_search_sorted [OF sw, of seq]
      by (simp add: increment_seq_counter_def Let_def seq_def [symmetric] st1_def [symmetric] c)
        (simp add: st1_def window_def)
    obtain st' where "window_insert (length (takeWhile (\<lambda>y. y < seq) ?W)) seq st1 = (Inr seq, st')"
      "window st' = insort seq (evict_oldest ?W)" "length (seq_window st') = MAX_REPLAY_WINDOW"
      "seq_window_len st' \<le> MAX_REPLAY_WINDOW" "seq_counter st' = seq"
      using window_insert_ok [OF ok1, of seq] W c by auto
    then show ?thesis using inc W ok1 c new by auto
  qed
qed

lemma window_ok_new: "window_ok (HybridKEXState_new now sid)" "window (HybridKEXState_new now sid) = []"
  by (simp_all add: window_ok_def HybridKEXState_new_def window_def)

subsection \<open>Reachable states\<close>

text \<open>Everything the methods and the public fields of \<open>HybridKEXState\<close> allow.\<close>

inductive hs_reach :: "kex_state \<Rightarrow> bool" where
  start: "hs_reach (HybridKEXState_new now sid)"
| increment: "hs_reach st \<Longrightarrow> hs_reach (snd (increment_seq_counter st))"
| timed: "hs_reach st \<Longrightarrow> hs_reach (snd (check_timeout now st))"
| retried: "hs_reach st \<Longrightarrow> hs_reach (snd (check_retries st))"
| reset: "hs_reach st \<Longrightarrow> hs_reach (reset_retry st)"
| cleaned: "hs_reach st \<Longrightarrow> hs_reach (cleanup st)"
| fields: "hs_reach st \<Longrightarrow> hs_reach (st\<lparr>hs_session_id := sid, kex_started := a, timeout := b,
      retry_count := r, handshake_done := d, seq_counter := c\<rparr>)"

lemma hs_reach_window: "hs_reach st \<Longrightarrow> window_ok st"
proof (induction rule: hs_reach.induct)
  case (increment st)
  then show ?case using increment_refines [of st] by auto
next
  case (timed st now)
  then show ?case by (simp add: check_timeout_def window_ok_def window_def)
next
  case (retried st)
  then show ?case by (simp add: check_retries_def window_ok_def window_def)
next
  case (start now sid)
  then show ?case by (rule window_ok_new(1))
qed (simp_all add: reset_retry_def cleanup_def window_ok_def window_def)

fun take_seqs :: "nat \<Rightarrow> kex_state \<Rightarrow> (hardening_error + u64) list \<times> kex_state" where
  "take_seqs 0 st = ([], st)"
| "take_seqs (Suc n) st =
     (let (r, st1) = increment_seq_counter st; (rs, st2) = take_seqs n st1 in (r # rs, st2))"

text \<open>The state after \<open>k\<close> calls on a fresh state.\<close>

definition counted :: "nat \<Rightarrow> kex_state \<Rightarrow> bool" where
  "counted k st \<longleftrightarrow> window_ok st \<and> seq_counter st = of_nat (min k (2 ^ 64 - 1))
     \<and> (\<forall>x \<in> set (window st). x \<le> seq_counter st)
     \<and> (0 < k \<longrightarrow> seq_counter st \<in> set (window st)) \<and> (k = 0 \<longrightarrow> window st = [])"

lemma max64: "(of_nat (2 ^ 64 - 1) :: u64) = - 1"
  by simp

lemma of_nat_less64: "a < 2 ^ 64 \<Longrightarrow> b < 2 ^ 64 \<Longrightarrow> (of_nat a :: u64) < of_nat b \<longleftrightarrow> a < b"
  by (simp add: word_less_nat_alt unat_of_nat take_bit_eq_mod)

lemma sat_succ_of_nat: "sat_succ (of_nat (min k (2 ^ 64 - 1))) = of_nat (min (Suc k) (2 ^ 64 - 1))"
proof (cases "k < 2 ^ 64 - 1")
  case True
  then have "(of_nat k :: u64) \<noteq> - 1"
    using of_nat_less64 [of k "2 ^ 64 - 1"] unfolding max64 by auto
  with True show ?thesis by (simp add: sat_succ_def min_def)
next
  case False
  then show ?thesis by (simp add: sat_succ_def min_def)
qed

lemma counted_step:
  assumes "counted k st"
  shows "fst (increment_seq_counter st) = (if Suc k < 2 ^ 64 then Inr (of_nat (Suc k)) else Inl ReplayDetected)
    \<and> counted (Suc k) (snd (increment_seq_counter st))"
proof -
  let ?seq = "of_nat (min (Suc k) (2 ^ 64 - 1)) :: u64"
  from assms have ok: "window_ok st" and c: "seq_counter st = of_nat (min k (2 ^ 64 - 1))"
    and le: "\<And>x. x \<in> set (window st) \<Longrightarrow> x \<le> seq_counter st"
    unfolding counted_def by blast+
  have s: "sat_succ (seq_counter st) = ?seq" by (simp only: c sat_succ_of_nat)
  from increment_refines [OF ok, unfolded s] obtain st' where st':
    "increment_seq_counter st = (if ?seq \<in> set (window st) then Inl ReplayDetected else Inr ?seq, st')"
    "window st' = (if ?seq \<in> set (window st) then window st else insort ?seq (evict_oldest (window st)))"
    "window_ok st'" "seq_counter st' = ?seq" by blast
  show ?thesis
  proof (cases "Suc k < 2 ^ 64")
    case True
    then have "seq_counter st < ?seq"
      unfolding c by (subst of_nat_less64) auto
    then have "?seq \<notin> set (window st)" "\<forall>x \<in> set (window st). x \<le> ?seq"
      using le by (auto dest!: le)
    moreover have "set (evict_oldest (window st)) \<subseteq> set (window st)"
      by (cases "window st") (auto simp: evict_oldest_def)
    moreover have "min (Suc k) (2 ^ 64 - 1) = Suc k" using True by simp
    ultimately show ?thesis
      using st' True by (auto simp: counted_def set_insort_key)
  next
    case False
    then have eq: "?seq = seq_counter st" and k: "0 < k" unfolding c by (auto simp: min_def)
    with assms have "?seq \<in> set (window st)" by (auto simp: counted_def)
    with st' False eq le show ?thesis by (auto simp: counted_def)
  qed
qed

lemma take_seqs_counted:
  "counted k st \<Longrightarrow> fst (take_seqs n st) =
     map (\<lambda>i. if i < 2 ^ 64 then Inr (of_nat i) else Inl ReplayDetected) [Suc k..<Suc k + n]"
proof (induction n arbitrary: k st)
  case (Suc n)
  from counted_step [OF Suc.prems] Suc.IH [of "Suc k" "snd (increment_seq_counter st)"]
  show ?case by (simp add: split_def Let_def upt_conv_Cons del: upt_Suc)
qed simp

subsection \<open>Retries, timeouts and throttling over time\<close>

datatype retry_op = Check | Reset

fun retry_step :: "retry_op \<Rightarrow> kex_state \<Rightarrow> kex_state" where
  "retry_step Check st = snd (check_retries st)"
| "retry_step Reset st = reset_retry st"

fun checks_since_reset :: "retry_op list \<Rightarrow> nat \<Rightarrow> nat" where
  "checks_since_reset [] n = n"
| "checks_since_reset (Check # ops) n = checks_since_reset ops (Suc n)"
| "checks_since_reset (Reset # ops) n = checks_since_reset ops 0"

lemma retry_count_run:
  "retry_count st = min 3 n \<Longrightarrow> retry_count (fold retry_step ops st) = min 3 (checks_since_reset ops n)"
  by (induction ops n arbitrary: st rule: checks_since_reset.induct)
    (auto simp: check_retries_def reset_retry_def)

fun timeouts_pass :: "nat list \<Rightarrow> kex_state \<Rightarrow> bool" where
  "timeouts_pass [] st = True"
| "timeouts_pass (now # ts) st =
     (case check_timeout now st of (Inl _, _) \<Rightarrow> False | (Inr _, st') \<Rightarrow> timeouts_pass ts st')"

lemma timeouts_pass_iff:
  assumes "\<not> handshake_done st" "timeout st = t + HANDSHAKE_TIMEOUT"
  shows "timeouts_pass ts st \<longleftrightarrow> successively (\<lambda>a b. b \<le> a + HANDSHAKE_TIMEOUT) (t # ts)"
  using assms
proof (induction ts arbitrary: st t)
  case (Cons now ts)
  then show ?case by (auto simp: check_timeout_def not_less)
qed simp

fun allowed_times :: "throttle \<Rightarrow> int list \<Rightarrow> int list" where
  "allowed_times th [] = []"
| "allowed_times th (now # ts) =
     (let (ok, th') = allow_packet now th in (if ok then [now] else []) @ allowed_times th' ts)"

lemma allowed_spaced:
  assumes "\<forall>t \<in> set ts. 0 < t \<and> t \<le> i64_max" "0 \<le> last_packet_time th" "last_packet_time th \<le> i64_max"
  shows "successively (\<lambda>a b. rate_limit_ns th \<le> b - a)
     ((if last_packet_time th = 0 then [] else [last_packet_time th]) @ allowed_times th ts)"
  using assms
proof (induction ts arbitrary: th)
  case (Cons now ts)
  let ?th = "th\<lparr>last_packet_time := now\<rparr>"
  have n: "0 < now" "now \<le> i64_max" using Cons.prems by auto
  show ?case
  proof (cases "fst (allow_packet now th)")
    case True
    then have a: "allow_packet now th = (True, ?th)"
      by (auto simp: allow_packet_def Let_def split: if_splits)
    from True have "last_packet_time th = 0 \<or> rate_limit_ns th \<le> now - last_packet_time th"
      using n Cons.prems by (auto simp: allow_packet_def Let_def sat_sub_def i64_max_def i64_min_def split: if_splits)
    with Cons.IH [of ?th] Cons.prems a n show ?thesis by (auto simp: Let_def)
  next
    case False
    then have "allow_packet now th = (False, th)"
      by (auto simp: allow_packet_def Let_def split: if_splits)
    with Cons.IH [of th] Cons.prems show ?thesis by (auto simp: Let_def)
  qed
qed simp

text \<open>What the throttle remembers is the last packet it allowed.\<close>

lemma allowed_append:
  "allowed_times th (ts @ us) = allowed_times th ts @ allowed_times (fold (\<lambda>now th. snd (allow_packet now th)) ts th) us"
  by (induction ts arbitrary: th) (simp_all add: Let_def split_def)

lemma throttle_after:
  assumes "\<forall>t \<in> set ts. 0 < t"
  shows "rate_limit_ns (fold (\<lambda>now th. snd (allow_packet now th)) ts th) = rate_limit_ns th"
    "last_packet_time (fold (\<lambda>now th. snd (allow_packet now th)) ts th) =
       (if allowed_times th ts = [] then last_packet_time th else last (allowed_times th ts))"
  by (induction ts arbitrary: th) (auto simp: allow_packet_def Let_def split: if_splits)

lemma allowed_positive: "t \<in> set (allowed_times th ts) \<Longrightarrow> t \<in> set ts"
  by (induction ts arbitrary: th) (auto simp: Let_def split_def split: if_splits)

lemma allowed_one:
  assumes "\<forall>t \<in> set (ts @ [now]). 0 < t \<and> t \<le> i64_max" "last_packet_time th = 0"
  shows "allowed_times th (ts @ [now]) = allowed_times th ts @
    (if allowed_times th ts = [] \<or> rate_limit_ns th \<le> now - last (allowed_times th ts) then [now] else [])"
proof (cases "allowed_times th ts = []")
  case True
  then show ?thesis
    using throttle_after(2) [of ts th] assms by (simp add: allowed_append allow_packet_def Let_def)
next
  case False
  let ?l = "last (allowed_times th ts)"
  have l: "0 < ?l" "?l \<le> i64_max" using allowed_positive [OF last_in_set [OF False]] assms(1) by auto
  then have "sat_sub now ?l = now - ?l" using assms(1) by (auto simp: sat_sub_def i64_max_def i64_min_def)
  with l False show ?thesis
    using throttle_after [of ts th] assms(1) by (simp add: allowed_append allow_packet_def Let_def)
qed

lemma rate_limit_bounds:
  "0 \<le> rate_limit_ns (DoSThrottle_new rate)" "rate_limit_ns (DoSThrottle_new rate) \<le> 1000000000"
  "rate_limit_ns (DoSThrottle_new rate) = 0 \<longleftrightarrow> 1000000000 < rate"
proof -
  have r: "0 < max rate 1" by simp
  have pos: "0 \<le> 1000000000 div max rate 1" using r by (simp add: pos_imp_zdiv_nonneg_iff)
  moreover have "0 < 1000000000 div max rate 1 \<longleftrightarrow> max rate 1 \<le> 1000000000"
    by (rule pos_imp_zdiv_pos_iff [OF r])
  ultimately show "0 \<le> rate_limit_ns (DoSThrottle_new rate)" "rate_limit_ns (DoSThrottle_new rate) \<le> 1000000000"
    "rate_limit_ns (DoSThrottle_new rate) = 0 \<longleftrightarrow> 1000000000 < rate"
    by (auto simp: DoSThrottle_new_def Let_def)
qed

subsection \<open>Properties\<close>

text \<open>C36. In every reachable state the sequence window behaves as a bounded sorted set: a call of
  \<open>increment_seq_counter\<close> never fails an index check, reports a replay exactly when the new
  number is in the window (and then leaves the window alone), and otherwise hands the number
  out and inserts it in order, evicting the smallest number of a full window.\<close>

theorem replay_window_refines_sorted_set:
  assumes "hs_reach st"
  shows "\<exists>st'. increment_seq_counter st =
      (if sat_succ (seq_counter st) \<in> set (window st) then Inl ReplayDetected
       else Inr (sat_succ (seq_counter st)), st')
    \<and> window st' = (if sat_succ (seq_counter st) \<in> set (window st) then window st
                   else insort (sat_succ (seq_counter st)) (evict_oldest (window st)))
    \<and> sorted_wrt (<) (window st') \<and> length (window st') \<le> MAX_REPLAY_WINDOW"
  using increment_refines [OF hs_reach_window [OF assms]]
  by (force simp: window_ok_def window_def)

theorem replay_window_refines_sorted_set_witness:
  "\<exists>st'. increment_seq_counter (HybridKEXState_new 0 (fill_arr 1)) = (Inr 1, st') \<and> window st' = [1]"
  using replay_window_refines_sorted_set [OF hs_reach.start [of 0 "fill_arr 1"]]
  by (auto simp: HybridKEXState_new_def window_def sat_succ_def evict_oldest_def MAX_REPLAY_WINDOW_def)

text \<open>A fresh handshake hands out the numbers 1, 2, 3, ... in order, each once; when the
  64-bit counter saturates no number is repeated, every further call is a replay error.\<close>

theorem sequence_numbers_fresh:
  "fst (take_seqs n (HybridKEXState_new now sid)) =
     map (\<lambda>i. if i < 2 ^ 64 then Inr (of_nat i) else Inl ReplayDetected) [1..<Suc n]"
proof -
  have "counted 0 (HybridKEXState_new now sid)"
    by (simp add: counted_def window_ok_new) (simp add: HybridKEXState_new_def)
  from take_seqs_counted [OF this] show ?thesis by simp
qed

text \<open>A retry is allowed exactly when fewer than three have been made since the last reset,
  whatever the history of retries and resets.\<close>

theorem retry_limit:
  "fst (check_retries (fold retry_step ops (HybridKEXState_new now sid))) =
     (if checks_since_reset ops 0 < 3 then Inr () else Inl RetryLimitExceeded)"
proof -
  have "retry_count (HybridKEXState_new now sid) = min 3 0" by (simp add: HybridKEXState_new_def)
  from retry_count_run [OF this, of ops] show ?thesis by (simp add: check_retries_def)
qed

text \<open>The handshake timeout is an inactivity limit: a history of timeout checks passes exactly
  when no check comes more than \<open>HANDSHAKE_TIMEOUT\<close> after the one before it, however long the
  handshake lasts in total.\<close>

theorem timeout_is_inactivity:
  "timeouts_pass ts (HybridKEXState_new t0 sid) \<longleftrightarrow>
     successively (\<lambda>a b. b \<le> a + HANDSHAKE_TIMEOUT) (t0 # ts)"
  by (rule timeouts_pass_iff) (simp_all add: HybridKEXState_new_def)

text \<open>C37. The throttle spaces packets, when its calls come one after another. On any sequence of clock
  readings, in order or not, every two packets allowed in succession are at least
  \<open>rate_limit_ns\<close> apart; and no packet is refused without need: whatever calls came before, a packet
  is allowed exactly when it is the first or comes at least that long after the last one allowed.
  The spacing is at most a second, and zero exactly for a rate above \<open>10 ^ 9\<close>. Calls of several threads
  at once are the subject of \<open>Throttle_Race\<close>, where the spacing is lost.\<close>

theorem throttle_spacing:
  fixes rate :: int and ts :: "int list"
  assumes "\<forall>t \<in> set ts. 0 < t \<and> t \<le> i64_max"
  defines "allowed \<equiv> allowed_times (DoSThrottle_new rate)" and "d \<equiv> rate_limit_ns (DoSThrottle_new rate)"
  shows "successively (\<lambda>a b. d \<le> b - a) (allowed ts)
    \<and> (\<forall>pre now post. ts = pre @ now # post \<longrightarrow>
         allowed (pre @ [now]) = allowed pre @ (if allowed pre = [] \<or> d \<le> now - last (allowed pre) then [now] else []))
    \<and> 0 \<le> d \<and> d \<le> 1000000000 \<and> (d = 0 \<longleftrightarrow> 1000000000 < rate)"
proof -
  have new: "last_packet_time (DoSThrottle_new rate) = 0" by (simp add: DoSThrottle_new_def Let_def)
  have "successively (\<lambda>a b. d \<le> b - a) (allowed ts)"
    using allowed_spaced [OF assms(1), of "DoSThrottle_new rate"] new by (simp add: allowed_def d_def i64_max_def)
  moreover have "allowed (pre @ [now]) = allowed pre @ (if allowed pre = [] \<or> d \<le> now - last (allowed pre) then [now] else [])"
    if "ts = pre @ now # post" for pre now post
    using allowed_one [OF _ new, of pre now] assms(1) that by (simp add: allowed_def d_def)
  ultimately show ?thesis using rate_limit_bounds [of rate] by (simp add: d_def)
qed

theorem throttle_spacing_witness:
  "rate_limit_ns (DoSThrottle_new 10000000) \<le> 100
   \<and> allowed_times (DoSThrottle_new 10000000) [5, 50, 105, 300] =
       allowed_times (DoSThrottle_new 10000000) [5, 50, 105] @ [300]"
proof -
  have a: "allowed_times (DoSThrottle_new 10000000) [5, 50, 105] = [5, 105]"
    by (simp add: DoSThrottle_new_def allow_packet_def sat_sub_def i64_max_def i64_min_def Let_def)
  have d: "rate_limit_ns (DoSThrottle_new 10000000) = 100" by (simp add: DoSThrottle_new_def Let_def)
  from throttle_spacing [of "[5, 50, 105, 300]" 10000000]
  have "\<forall>pre now post. [5, 50, 105, 300] = pre @ now # post \<longrightarrow>
      allowed_times (DoSThrottle_new 10000000) (pre @ [now]) = allowed_times (DoSThrottle_new 10000000) pre @
        (if allowed_times (DoSThrottle_new 10000000) pre = [] \<or>
            rate_limit_ns (DoSThrottle_new 10000000) \<le> now - last (allowed_times (DoSThrottle_new 10000000) pre) then [now] else [])"
    by (simp add: i64_max_def)
  from this [rule_format, of "[5, 50, 105]" 300 "[]"] a d show ?thesis by simp
qed

end
