(* ===== verification/Throttle_Race.thy ===== *)
theory Throttle_Race
  imports Hardening
begin

text \<open>
  The packet throttle shared by threads (\<open>allow_packet\<close> of \<open>crypto/src/security_hardening.rs\<close>): a
  call reads the clock, loads the time of the last packet and, when enough time has passed,
  stores its own. The load and the store are two atomic accesses, so calls interleave between
  them; memory is sequentially consistent.
\<close>

subsection \<open>Threads and steps\<close>

datatype thr_act = Resting | Timed int | Loaded int int

record thr_world =
  tw_throttle :: throttle
  tw_clock :: int
  tw_act :: "nat \<Rightarrow> thr_act"
  tw_log :: "(nat \<times> int) list"

definition thr_new :: "int \<Rightarrow> thr_world" where
  "thr_new rate = \<lparr>tw_throttle = DoSThrottle_new rate, tw_clock = 0, tw_act = (\<lambda>_. Resting), tw_log = []\<rparr>"

text \<open>\<open>tw_log\<close> records which thread was allowed a packet, and the time it had read.\<close>

inductive thr_step :: "thr_world \<Rightarrow> thr_world \<Rightarrow> bool" where
  time_passes: "tw_clock w \<le> t \<Longrightarrow> t \<le> i64_max \<Longrightarrow> thr_step w (w\<lparr>tw_clock := t\<rparr>)"
| read_clock: "tw_act w th = Resting \<Longrightarrow> thr_step w (w\<lparr>tw_act := (tw_act w)(th := Timed (tw_clock w))\<rparr>)"
| load_last: "tw_act w th = Timed now \<Longrightarrow>
    thr_step w (w\<lparr>tw_act := (tw_act w)(th := Loaded now (last_packet_time (tw_throttle w)))\<rparr>)"
| admit: "tw_act w th = Loaded now seen \<Longrightarrow> seen = 0 \<or> rate_limit_ns (tw_throttle w) \<le> sat_sub now seen \<Longrightarrow>
    thr_step w (w\<lparr>tw_throttle := (tw_throttle w)\<lparr>last_packet_time := now\<rparr>, tw_act := (tw_act w)(th := Resting),
      tw_log := tw_log w @ [(th, now)]\<rparr>)"
| refuse: "tw_act w th = Loaded now seen \<Longrightarrow> \<not> (seen = 0 \<or> rate_limit_ns (tw_throttle w) \<le> sat_sub now seen) \<Longrightarrow>
    thr_step w (w\<lparr>tw_act := (tw_act w)(th := Resting)\<rparr>)"

inductive thr_reach :: "int \<Rightarrow> thr_world \<Rightarrow> bool" for rate where
  thr_start: "thr_reach rate (thr_new rate)"
| thr_more: "thr_reach rate w \<Longrightarrow> thr_step w w' \<Longrightarrow> thr_reach rate w'"

lemmas thr_steps = thr_more [OF _ time_passes] thr_more [OF _ read_clock] thr_more [OF _ load_last] thr_more [OF _ admit]
  thr_more [OF _ refuse]

text \<open>A call that is not interrupted is \<open>allow_packet\<close>.\<close>

lemma whole_call:
  assumes "thr_reach rate w" "tw_act w th = Resting"
  shows "thr_reach rate (case allow_packet (tw_clock w) (tw_throttle w) of (ok, t) \<Rightarrow>
    w\<lparr>tw_throttle := t, tw_log := tw_log w @ (if ok then [(th, tw_clock w)] else [])\<rparr>)"
proof -
  let ?t = "tw_clock w" and ?seen = "last_packet_time (tw_throttle w)"
  let ?w1 = "w\<lparr>tw_act := (tw_act w)(th := Timed ?t)\<rparr>" and ?w2 = "w\<lparr>tw_act := (tw_act w)(th := Loaded ?t ?seen)\<rparr>"
  have "thr_reach rate ?w1" using assms by (rule thr_steps(2))
  from thr_steps(3) [OF this, of th ?t] have w2: "thr_reach rate ?w2" by simp
  have resting: "(tw_act w)(th := Resting) = tw_act w" using assms(2) by (metis fun_upd_triv)
  show ?thesis
  proof (cases "?seen = 0 \<or> rate_limit_ns (tw_throttle w) \<le> sat_sub ?t ?seen")
    case True
    with thr_steps(4) [OF w2, of th ?t ?seen] show ?thesis by (simp add: allow_packet_def Let_def resting)
  next
    case False
    with thr_steps(5) [OF w2, of th ?t ?seen] show ?thesis by (simp add: allow_packet_def Let_def resting)
  qed
qed

subsection \<open>All at once\<close>

definition all_loaded :: "int \<Rightarrow> int \<Rightarrow> nat \<Rightarrow> nat \<Rightarrow> thr_world" where
  "all_loaded rate t k n = \<lparr>tw_throttle = (DoSThrottle_new rate)\<lparr>last_packet_time := if k = 0 then 0 else t\<rparr>, tw_clock = t,
     tw_act = (\<lambda>th. if k \<le> th \<and> th < n then Loaded t 0 else Resting), tw_log = map (\<lambda>th. (th, t)) [0..<k]\<rparr>"

lemma last_new: "last_packet_time (DoSThrottle_new rate) = 0"
  by (simp add: DoSThrottle_new_def Let_def)

lemma load_all:
  assumes "0 < t" "t \<le> i64_max"
  shows "thr_reach rate (all_loaded rate t 0 n)"
proof (induction n)
  case 0
  have "(DoSThrottle_new rate)\<lparr>last_packet_time := 0\<rparr> = DoSThrottle_new rate"
    by (simp add: DoSThrottle_new_def Let_def)
  with thr_steps(1) [OF thr_start, of rate t] assms show ?case
    by (simp add: thr_new_def all_loaded_def)
next
  case (Suc n)
  let ?w = "all_loaded rate t 0 n"
  let ?w1 = "?w\<lparr>tw_act := (tw_act ?w)(n := Timed t)\<rparr>"
  have "thr_reach rate ?w1" using thr_steps(2) [OF Suc, of n] by (simp add: all_loaded_def)
  from thr_steps(3) [OF this, of n t] have "thr_reach rate (?w\<lparr>tw_act := (tw_act ?w)(n := Loaded t 0)\<rparr>)"
    by (simp add: all_loaded_def)
  moreover have "?w\<lparr>tw_act := (tw_act ?w)(n := Loaded t 0)\<rparr> = all_loaded rate t 0 (Suc n)"
    by (auto simp: all_loaded_def fun_eq_iff)
  ultimately show ?case by simp
qed

lemma admit_all:
  assumes "0 < t" "t \<le> i64_max"
  shows "k \<le> n \<Longrightarrow> thr_reach rate (all_loaded rate t k n)"
proof (induction k)
  case 0
  show ?case by (rule load_all [OF assms])
next
  case (Suc k)
  then have r: "thr_reach rate (all_loaded rate t k n)" by simp
  let ?w = "all_loaded rate t k n"
  have a: "tw_act ?w k = Loaded t 0" using Suc.prems by (simp add: all_loaded_def)
  from thr_steps(4) [OF r a] have "thr_reach rate (?w\<lparr>tw_throttle := (tw_throttle ?w)\<lparr>last_packet_time := t\<rparr>,
      tw_act := (tw_act ?w)(k := Resting), tw_log := tw_log ?w @ [(k, t)]\<rparr>)" by simp
  moreover have "?w\<lparr>tw_throttle := (tw_throttle ?w)\<lparr>last_packet_time := t\<rparr>,
      tw_act := (tw_act ?w)(k := Resting), tw_log := tw_log ?w @ [(k, t)]\<rparr> = all_loaded rate t (Suc k) n"
    using Suc.prems by (auto simp: all_loaded_def fun_eq_iff)
  ultimately show ?case by simp
qed

subsection \<open>Properties\<close>

text \<open>The throttle limits nothing across threads: whatever the rate, any number of threads can be
  allowed a packet at one and the same instant, since each of them may load the time of the last
  packet before any of them has stored its own.\<close>

theorem throttle_race_admits_all:
  assumes "0 < t" and "t \<le> i64_max"
  shows "\<exists>w. thr_reach rate w \<and> tw_log w = map (\<lambda>th. (th, t)) [0..<n] \<and> (\<forall>th. tw_act w th = Resting)"
proof -
  from admit_all [OF assms, of n n rate] show ?thesis
    by (intro exI [of _ "all_loaded rate t n n"]) (simp add: all_loaded_def)
qed

theorem throttle_race_admits_all_witness:
  "\<exists>w. thr_reach 1 w \<and> tw_log w = [(0, 5), (1, 5), (2, 5)] \<and> (\<forall>th. tw_act w th = Resting)"
  using throttle_race_admits_all [of 5 1 3] by (simp add: i64_max_def upt_rec numeral_2_eq_2)

end
