(* ===== verification/Throttle_Copies.thy ===== *)
theory Throttle_Copies
  imports Hardening
begin

text \<open>
  The second copy of the hardening code, \<open>crypto/security_hardening.rs\<close>, which no crate
  includes: its configuration, its throttle with unsigned times, and how it relates to the module
  in use. Its two functions on sequence numbers are those of the module.
\<close>

definition COPY_SECURITY_CONFIG :: security_config where
  "COPY_SECURITY_CONFIG = \<lparr>max_replay_window = 1024, handshake_timeout = 5 * 10 ^ 9, rate_limit_per_sec = 10000000\<rparr>"

definition copy_check_overflow :: "u64 \<Rightarrow> u64 \<Rightarrow> bool" where
  "copy_check_overflow seq max_seq = (if max_seq = 0 then False else max_seq \<le> seq)"

definition copy_increment_seq :: "u64 \<Rightarrow> u64 \<times> u64" where
  "copy_increment_seq counter = (counter + 1, counter + 1)"

record dos_throttle =
  dos_last :: u64
  dos_rate_ns :: u64

text \<open>\<open>rate_per_sec as u64\<close> extends the sign; a rate of zero divides by zero.\<close>

definition DosThrottle_new :: "int \<Rightarrow> hardening_error + dos_throttle" where
  "DosThrottle_new rate_per_sec =
     (let r = of_int rate_per_sec :: u64
      in if r = 0 then Inl Panic else Inr \<lparr>dos_last = 0, dos_rate_ns = 1000000000 div r\<rparr>)"

text \<open>\<open>checked_sub(..).unwrap_or(u64::MAX)\<close>: a clock that went back counts as a long time.\<close>

definition dos_allow :: "u64 \<Rightarrow> dos_throttle \<Rightarrow> bool \<times> dos_throttle" where
  "dos_allow now th =
     (let last_seen = dos_last th; elapsed = (if last_seen \<le> now then now - last_seen else - 1)
      in if last_seen = 0 \<or> dos_rate_ns th \<le> elapsed then (True, th\<lparr>dos_last := now\<rparr>)
         else (False, th))"

fun answers :: "('t \<Rightarrow> 's \<Rightarrow> bool \<times> 's) \<Rightarrow> 's \<Rightarrow> 't list \<Rightarrow> bool list" where
  "answers allow th [] = []"
| "answers allow th (now # ts) = (let (ok, th) = allow now th in ok # answers allow th ts)"

lemma copy_step:
  assumes "last_packet_time th = uint (dos_last d)" "rate_limit_ns th = uint (dos_rate_ns d)" "dos_rate_ns d \<le> 1000000000"
    and "0 \<le> now" "now \<le> i64_max" "last_packet_time th \<le> now"
  shows "\<exists>ok th' d'. allow_packet now th = (ok, th') \<and> dos_allow (of_int now) d = (ok, d')
    \<and> last_packet_time th' = uint (dos_last d') \<and> rate_limit_ns th' = uint (dos_rate_ns d') \<and> dos_rate_ns d' = dos_rate_ns d
    \<and> last_packet_time th' \<le> now"
proof -
  have n: "uint (of_int now :: u64) = now" using assms(4,5) by (simp add: i64_max_def uint_word_of_int_eq take_bit_int_eq_self)
  have le: "dos_last d \<le> of_int now" using assms(1,6) n by (simp add: word_le_def)
  have sub: "uint (of_int now - dos_last d) = now - last_packet_time th" 
    using n assms(1) le by (simp add: uint_sub_lem [THEN iffD1] word_le_def)
  have nonneg: "0 \<le> last_packet_time th" using assms(1) by simp
  have sat: "sat_sub now (last_packet_time th) = now - last_packet_time th"
    using assms(4-6) nonneg by (simp add: sat_sub_def i64_max_def i64_min_def)
  have z: "last_packet_time th = 0 \<longleftrightarrow> dos_last d = 0" using assms(1) by (simp add: uint_0_iff)
  have r: "rate_limit_ns th \<le> now - last_packet_time th \<longleftrightarrow> dos_rate_ns d \<le> of_int now - dos_last d"
    using assms(2) sub by (simp add: word_le_def)
  let ?ok = "dos_last d = 0 \<or> dos_rate_ns d \<le> of_int now - dos_last d"
  have "allow_packet now th = (if ?ok then (True, th\<lparr>last_packet_time := now\<rparr>) else (False, th))"
    unfolding allow_packet_def Let_def sat z r ..
  moreover have "dos_allow (of_int now) d = (if ?ok then (True, d\<lparr>dos_last := of_int now\<rparr>) else (False, d))"
    unfolding dos_allow_def Let_def if_P [OF le] ..
  ultimately show ?thesis using assms(1,2,6) n by (cases ?ok) auto
qed

text \<open>The two throttles answer alike for every positive rate while the clock does not go back.\<close>

theorem throttle_copies_agree:
  assumes "0 < rate" "rate < 2 ^ 31" "sorted ts" "\<forall>t \<in> set ts. 0 \<le> t \<and> t \<le> i64_max"
  shows "\<exists>d. DosThrottle_new rate = Inr d \<and> answers dos_allow d (map of_int ts) = answers allow_packet (DoSThrottle_new rate) ts"
proof -
  have run: "last_packet_time th = uint (dos_last d) \<Longrightarrow> rate_limit_ns th = uint (dos_rate_ns d) \<Longrightarrow> dos_rate_ns d \<le> 1000000000 \<Longrightarrow>
      \<forall>t \<in> set ts. last_packet_time th \<le> t \<Longrightarrow> sorted ts \<Longrightarrow> \<forall>t \<in> set ts. 0 \<le> t \<and> t \<le> i64_max \<Longrightarrow>
      answers dos_allow d (map of_int ts) = answers allow_packet th ts" for th d
  proof (induction ts arbitrary: th d)
    case (Cons now ts)
    from Cons.prems copy_step [of th d now] obtain ok th' d' where
      s: "allow_packet now th = (ok, th')" "dos_allow (of_int now) d = (ok, d')" "last_packet_time th' = uint (dos_last d')"
      "rate_limit_ns th' = uint (dos_rate_ns d')" "dos_rate_ns d' = dos_rate_ns d" "last_packet_time th' \<le> now" by auto
    then have "\<forall>t \<in> set ts. last_packet_time th' \<le> t" using Cons.prems(5) by auto
    with Cons.IH [OF s(3,4)] Cons.prems s show ?case by simp
  qed simp
  have u: "uint (of_int rate :: u64) = rate" using assms(1,2) by (simp add: uint_word_of_int_eq take_bit_int_eq_self)
  then have nz: "(of_int rate :: u64) \<noteq> 0" using assms(1) by (metis uint_0_iff less_irrefl)
  have q: "uint (1000000000 div (of_int rate :: u64)) = 1000000000 div rate" by (simp add: uint_div u)
  have le: "1000000000 div rate \<le> 1000000000" using assms(1) 
    using zdiv_mono2 [of 1000000000 1 rate] by simp
  let ?d = "\<lparr>dos_last = 0, dos_rate_ns = 1000000000 div (of_int rate :: u64)\<rparr>"
  have "answers dos_allow ?d (map of_int ts) = answers allow_packet (DoSThrottle_new rate) ts"
    by (rule run) (use assms q le in \<open>auto simp: DoSThrottle_new_def Let_def word_le_def\<close>)
  with nz show ?thesis by (simp add: DosThrottle_new_def Let_def)
qed

text \<open>Where they differ: the copy panics at the rate 0, never refuses at a negative rate, and
  allows a packet whenever the clock went back; the module clamps the rate to 1 and refuses.\<close>

lemma throttle_copies_differ:
  "DosThrottle_new 0 = Inl Panic"
  "dos_rate_ns (projr (DosThrottle_new (-1))) = 0" "rate_limit_ns (DoSThrottle_new (-1)) = 1000000000"
  "answers dos_allow (projr (DosThrottle_new 1)) [100, 50] = [True, True]"
  "answers allow_packet (DoSThrottle_new 1) [100, 50] = [True, False]"
  by (simp_all add: DosThrottle_new_def DoSThrottle_new_def dos_allow_def allow_packet_def sat_sub_def i64_max_def i64_min_def Let_def word_div_def unsigned_minus_1_eq_mask mask_eq_exp_minus_1)

end
