(* ===== verification/Arena.thy ===== *)
theory Arena
  imports Prelude
begin

text \<open>
  The memory of the datapath (\<open>datapath/src/lib.rs\<close>): \<open>AlignedBuffer\<close>, the growable output
  arena whose unchecked appends are the unsafe part of the packet loop, and \<open>SliceRing\<close>, the
  flat receive ring. An arena is its initialised bytes and its capacity; an unchecked
  write past the capacity is the fault \<open>OobWrite\<close>, a failed check of the code \<open>Panicked\<close>.
  Allocation itself is assumed to succeed (the code aborts when it does not).
\<close>

datatype fault = OobWrite | Panicked

definition bindr :: "'e + 'a \<Rightarrow> ('a \<Rightarrow> 'e + 'b) \<Rightarrow> 'e + 'b" where
  "bindr m f = (case m of Inl e \<Rightarrow> Inl e | Inr x \<Rightarrow> f x)"

lemma bindr_simps [simp]: "bindr (Inl e) f = Inl e" "bindr (Inr x) f = f x"
  by (simp_all add: bindr_def)

subsection \<open>The arena\<close>

definition ALIGNMENT :: nat where "ALIGNMENT = 256"

text \<open>\<open>Layout::from_size_align\<close> refuses sizes that overflow \<open>isize\<close> when rounded up.\<close>

definition LAYOUT_MAX :: nat where "LAYOUT_MAX = 2 ^ 63 - ALIGNMENT"

record arena =
  content :: bytes
  cap :: nat

definition arena_len :: "arena \<Rightarrow> nat" where "arena_len a = length (content a)"

definition with_capacity :: "nat \<Rightarrow> fault + arena" where
  "with_capacity capacity =
     (let c = max capacity 1 in if LAYOUT_MAX < c then Inl Panicked else Inr \<lparr>content = [], cap = c\<rparr>)"

definition arena_clear :: "arena \<Rightarrow> arena" where "arena_clear a = a\<lparr>content := []\<rparr>"

definition arena_truncate :: "nat \<Rightarrow> arena \<Rightarrow> arena" where
  "arena_truncate n a = a\<lparr>content := take (min (arena_len a) n) (content a)\<rparr>"

text \<open>\<open>next_power_of_two\<close> overflows above \<open>2 ^ 63\<close>, which a checked build turns into a panic.\<close>

definition arena_reserve :: "nat \<Rightarrow> arena \<Rightarrow> fault + arena" where
  "arena_reserve additional a =
     (let required = min (arena_len a + additional) usize_max in
      if required \<le> cap a then Inr a
      else if 2 ^ 63 < required then Inl Panicked
      else let new_cap = max (next_power_of_two required) (min (2 * cap a) usize_max) in
           if LAYOUT_MAX < new_cap then Inl Panicked else Inr (a\<lparr>cap := new_cap\<rparr>))"

definition extend_unchecked :: "bytes \<Rightarrow> arena \<Rightarrow> fault + arena" where
  "extend_unchecked src a =
     (if cap a < arena_len a + length src then Inl OobWrite else Inr (a\<lparr>content := content a @ src\<rparr>))"

definition extend_from_slice :: "bytes \<Rightarrow> arena \<Rightarrow> fault + arena" where
  "extend_from_slice src a = bindr (arena_reserve (length src) a) (extend_unchecked src)"

definition extend_from_tag_unchecked :: "16 barr \<Rightarrow> arena \<Rightarrow> fault + arena" where
  "extend_from_tag_unchecked tag a = extend_unchecked (bytes_of tag) a"

text \<open>A write through a raw pointer or an unchecked slice, at an offset of the arena. The code
  only writes below \<open>len\<close>; a write that is not is counted as out of bounds.\<close>

definition poke :: "nat \<Rightarrow> bytes \<Rightarrow> arena \<Rightarrow> fault + arena" where
  "poke off src a =
     (if arena_len a < off + length src then Inl OobWrite else Inr (a\<lparr>content := overwrite off src (content a)\<rparr>))"

definition slice_at_unchecked :: "nat \<Rightarrow> nat \<Rightarrow> arena \<Rightarrow> bytes" where
  "slice_at_unchecked start n a = subslice start n (content a)"

lemma arena_reserve_ok:
  assumes "arena_len a + n \<le> 2 ^ 61" "cap a \<le> 2 ^ 61"
  shows "\<exists>a'. arena_reserve n a = Inr a' \<and> content a' = content a \<and> arena_len a + n \<le> cap a'
    \<and> cap a \<le> cap a' \<and> cap a' \<le> max (cap a) (max (2 * (arena_len a + n)) (2 * cap a))"
proof -
  let ?r = "arena_len a + n"
  have r: "min ?r usize_max = ?r" using assms by simp
  have np: "?r \<le> next_power_of_two ?r" "next_power_of_two ?r \<le> max 1 (2 * ?r)"
    by (rule next_power_of_two_ge next_power_of_two_le)+
  have c: "min (2 * cap a) usize_max = 2 * cap a" using assms by simp
  have "\<not> LAYOUT_MAX < max (next_power_of_two ?r) (2 * cap a)"
    using assms np by (simp add: LAYOUT_MAX_def ALIGNMENT_def)
  then show ?thesis
    using assms np unfolding arena_reserve_def Let_def r c by (auto simp: max_def split: if_splits)
qed

lemma extend_ok [simp]:
  "arena_len a + length src \<le> cap a \<Longrightarrow> extend_unchecked src a = Inr (a\<lparr>content := content a @ src\<rparr>)"
  by (simp add: extend_unchecked_def)

lemma extend_oob [simp]: "cap a < arena_len a + length src \<Longrightarrow> extend_unchecked src a = Inl OobWrite"
  by (simp add: extend_unchecked_def)

lemma arena_update_simps [simp]:
  "arena_len (a\<lparr>content := xs\<rparr>) = length xs"
  "content (a\<lparr>content := xs\<rparr>) = xs" "cap (a\<lparr>content := xs\<rparr>) = cap a"
  by (simp_all add: arena_len_def)

lemma truncate_extended [simp]:
  "arena_truncate (arena_len a) (a\<lparr>content := content a @ xs\<rparr>) = a"
  by (simp add: arena_truncate_def arena_len_def)

lemma poke_extended:
  "off + length src \<le> length xs \<Longrightarrow>
   poke (arena_len a + off) src (a\<lparr>content := content a @ xs\<rparr>) = Inr (a\<lparr>content := content a @ overwrite off src xs\<rparr>)"
  by (simp add: poke_def arena_len_def slice_simps)

lemma slice_extended:
  "slice_at_unchecked (arena_len a + off) n (a\<lparr>content := content a @ xs\<rparr>) = subslice off n xs"
  by (simp add: slice_at_unchecked_def arena_len_def slice_simps)

subsection \<open>The receive ring\<close>

record slice_ring =
  backing :: bytes
  slot_size :: nat
  lens :: "nat list"
  active :: "nat list"

definition SliceRing_new :: "nat \<Rightarrow> nat \<Rightarrow> slice_ring" where
  "SliceRing_new slot_count stride = \<lparr>backing = replicate (slot_count * stride) 0, slot_size = stride,
     lens = replicate slot_count 0, active = []\<rparr>"

definition ring_clear :: "slice_ring \<Rightarrow> slice_ring" where "ring_clear r = r\<lparr>active := []\<rparr>"

definition claim :: "slice_ring \<Rightarrow> fault + nat" where
  "claim r = (let idx = length (active r) in if idx < length (lens r) then Inr idx else Inl Panicked)"

text \<open>A write into \<open>slot_mut(idx)\<close> at its beginning.\<close>

definition slot_write :: "nat \<Rightarrow> bytes \<Rightarrow> slice_ring \<Rightarrow> fault + slice_ring" where
  "slot_write idx src r =
     (let start = idx * slot_size r in
      if length (backing r) < start + slot_size r \<or> slot_size r < length src then Inl Panicked
      else Inr (r\<lparr>backing := overwrite start src (backing r)\<rparr>))"

definition set_len :: "nat \<Rightarrow> nat \<Rightarrow> slice_ring \<Rightarrow> fault + slice_ring" where
  "set_len idx n r =
     (if idx < length (lens r) then Inr (r\<lparr>lens := (lens r)[idx := min n (slot_size r)]\<rparr>) else Inl Panicked)"

definition slot_len :: "slice_ring \<Rightarrow> nat \<Rightarrow> nat" where "slot_len r idx = lens r ! idx"

definition slot :: "slice_ring \<Rightarrow> nat \<Rightarrow> bytes" where
  "slot r idx = subslice (idx * slot_size r) (lens r ! idx) (backing r)"

definition ring_capacity :: "slice_ring \<Rightarrow> nat" where "ring_capacity r = length (lens r)"

text \<open>One frame of the default \<open>poll_slices\<close>, and the whole of it for the frames that \<open>poll\<close>
  returned.\<close>

definition poll_slice :: "bytes \<Rightarrow> slice_ring \<Rightarrow> fault + slice_ring" where
  "poll_slice frame r =
     bindr (claim r) (\<lambda>idx.
       let n = min (length frame) (slot_size r) in
       bindr (slot_write idx (take n frame) r) (\<lambda>r.
       bindr (set_len idx n r) (\<lambda>r. Inr (r\<lparr>active := active r @ [idx]\<rparr>))))"

definition poll_slices :: "bytes list \<Rightarrow> slice_ring \<Rightarrow> fault + slice_ring" where
  "poll_slices frames r = loop_r (\<lambda>r frame. poll_slice frame r) (ring_clear r) frames"

definition ring_ok :: "slice_ring \<Rightarrow> bool" where
  "ring_ok r \<longleftrightarrow> length (backing r) = length (lens r) * slot_size r
     \<and> active r = [0..<length (active r)] \<and> length (active r) \<le> length (lens r)
     \<and> (\<forall>i < length (lens r). lens r ! i \<le> slot_size r)"

lemma ring_ok_new: "ring_ok (SliceRing_new c s)"
  by (simp add: ring_ok_def SliceRing_new_def)

lemma ring_ok_clear: "ring_ok r \<Longrightarrow> ring_ok (ring_clear r)"
  by (simp add: ring_ok_def ring_clear_def)

lemma slot_end: "i < n \<Longrightarrow> i * s + s \<le> n * (s :: nat)"
proof -
  assume "i < n"
  then have "Suc i * s \<le> n * s" by (intro mult_right_mono) auto
  then show ?thesis by simp
qed

lemma poll_slice_ok:
  assumes "ring_ok r" "length (active r) < length (lens r)"
  shows "\<exists>r'. poll_slice frame r = Inr r' \<and> ring_ok r' \<and> lens r' \<noteq> [] \<and> length (lens r') = length (lens r)
    \<and> slot_size r' = slot_size r \<and> active r' = active r @ [length (active r)]
    \<and> slot r' (length (active r)) = take (slot_size r) frame
    \<and> (\<forall>i < length (active r). slot r' i = slot r i)"
proof -
  let ?i = "length (active r)" and ?s = "slot_size r"
  let ?n = "min (length frame) ?s"
  define b where "b = overwrite (?i * ?s) (take ?n frame) (backing r)"
  have fit: "?i * ?s + ?s \<le> length (backing r)"
    using assms slot_end [of ?i "length (lens r)" ?s] by (simp add: ring_ok_def)
  define r' where "r' = r\<lparr>backing := b, lens := (lens r)[?i := ?n], active := active r @ [?i]\<rparr>"
  have p: "poll_slice frame r = Inr r'"
    using assms fit
    by (simp add: poll_slice_def claim_def slot_write_def set_len_def Let_def r'_def b_def not_less)
  have lb: "length b = length (backing r)"
    using fit by (simp add: b_def slice_simps)
  have "ring_ok r'"
  proof -
    have "lens r' ! i \<le> ?s" if "i < length (lens r)" for i
      using assms that by (simp add: r'_def ring_ok_def nth_list_update)
    then show ?thesis using assms lb by (simp add: r'_def ring_ok_def)
  qed
  moreover have "slot r' ?i = take ?s frame"
  proof -
    have "subslice (?i * ?s) ?n b = take ?n frame"
      unfolding b_def using fit by (intro slice_overwrite_same) auto
    then show ?thesis using assms by (simp add: slot_def r'_def) (simp add: min_def)
  qed
  moreover have "slot r' i = slot r i" if "i < ?i" for i
  proof -
    have li: "lens r ! i \<le> ?s" using assms that by (auto simp: ring_ok_def)
    have ie: "i * ?s + ?s \<le> ?i * ?s" using slot_end [OF that] .
    have "subslice (i * ?s) (lens r ! i) b = subslice (i * ?s) (lens r ! i) (backing r)"
      unfolding b_def using fit li ie by (intro slice_overwrite_disjoint) auto
    then show ?thesis using that by (simp add: slot_def r'_def)
  qed
  ultimately show ?thesis using p assms by (auto simp: r'_def)
qed

lemma poll_loop:
  assumes "ring_ok r"
  shows "(length (active r) + length frames \<le> length (lens r) \<longrightarrow>
      (\<exists>r'. loop_r (\<lambda>r frame. poll_slice frame r) r frames = Inr r' \<and> ring_ok r'
        \<and> length (lens r') = length (lens r) \<and> slot_size r' = slot_size r
        \<and> active r' = [0..<length (active r) + length frames]
        \<and> map (slot r') (active r') = map (slot r) (active r) @ map (take (slot_size r)) frames))
    \<and> (length (lens r) < length (active r) + length frames \<longrightarrow>
      loop_r (\<lambda>r frame. poll_slice frame r) r frames = Inl Panicked)"
  using assms
proof (induction frames arbitrary: r)
  case Nil
  then show ?case by (auto simp: ring_ok_def)
next
  case (Cons frame frames)
  show ?case
  proof (cases "length (active r) < length (lens r)")
    case True
    from poll_slice_ok [OF Cons.prems True, of frame] obtain r1 where r1:
      "poll_slice frame r = Inr r1" "ring_ok r1" "length (lens r1) = length (lens r)"
      "slot_size r1 = slot_size r" "active r1 = active r @ [length (active r)]"
      "slot r1 (length (active r)) = take (slot_size r) frame"
      "\<forall>i < length (active r). slot r1 i = slot r i" by blast
    have "map (slot r1) (active r) = map (slot r) (active r)"
      using r1(7) Cons.prems by (metis (no_types, lifting) atLeastLessThan_iff map_cong ring_ok_def set_upt)
    with Cons.IH [OF r1(2)] r1 show ?thesis by (auto simp: ring_ok_def)
  next
    case False
    then have "poll_slice frame r = Inl Panicked" by (simp add: poll_slice_def claim_def)
    with False show ?thesis by simp
  qed
qed

lemma poll_slices_exact:
  assumes "ring_ok r"
  shows "if length frames \<le> ring_capacity r
    then \<exists>r'. poll_slices frames r = Inr r' \<and> ring_ok r' \<and> active r' = [0..<length frames]
      \<and> map (slot r') (active r') = map (take (slot_size r)) frames
      \<and> map (slot_len r') (active r') = map (\<lambda>f. min (slot_size r) (length f)) frames
    else poll_slices frames r = Inl Panicked"
proof -
  have c: "ring_ok (ring_clear r)" "length (lens (ring_clear r)) = ring_capacity r"
    "slot_size (ring_clear r) = slot_size r" "active (ring_clear r) = []"
    using ring_ok_clear [OF assms] by (simp_all add: ring_clear_def ring_capacity_def)
  show ?thesis
  proof (cases "length frames \<le> ring_capacity r")
    case True
    with poll_loop [OF c(1), of frames] c obtain r' where r': "poll_slices frames r = Inr r'" "ring_ok r'"
      "active r' = [0..<length frames]" "map (slot r') (active r') = map (take (slot_size r)) frames"
      "length (lens r') = ring_capacity r" "slot_size r' = slot_size r"
      by (auto simp: poll_slices_def)
    have "length (slot r' i) = slot_len r' i" if "i < length frames" for i
    proof -
      have "i < length (lens r')" "lens r' ! i \<le> slot_size r'" using that True r' by (auto simp: ring_ok_def)
      moreover have "i * slot_size r' + slot_size r' \<le> length (backing r')"
        using slot_end [OF calculation(1), of "slot_size r'"] r'(2) by (simp add: ring_ok_def)
      ultimately show ?thesis by (simp add: slot_def slot_len_def length_slice)
    qed
    then have "map (slot_len r') (active r') = map length (map (slot r') (active r'))"
      using r'(3) by simp
    then have "map (slot_len r') (active r') = map (\<lambda>f. min (slot_size r) (length f)) frames"
      unfolding r'(4) by (simp add: comp_def min.commute)
    with r' True show ?thesis by auto
  next
    case False
    with poll_loop [OF c(1), of frames] c show ?thesis by (simp add: poll_slices_def)
  qed
qed

end
