(* ===== verification/Forward.thy ===== *)
theory Forward
  imports Arena Wire Session Route_World
begin

text \<open>
  The packet path of \<open>datapath/src/lib.rs\<close>: the state of a forwarder and of the process around it,
  the configuration of \<open>mcr_config.rs\<close>, \<open>handle_packet\<close> and the body of the serial loops, and the
  owned variants the parallel paths use. A loop threads a \<open>batch\<close>: the arena and offsets of
  the forwarder, the counters, and the caches of the thread. Clock readings and the
  nanosecond counters made of them are left out.
\<close>

subsection \<open>State\<close>

record fw_stats =
  received :: nat
  forwarded :: nat
  encrypted :: nat
  route_misses :: nat

definition stats_of :: "nat \<Rightarrow> fw_stats" where
  "stats_of n = \<lparr>received = n, forwarded = 0, encrypted = 0, route_misses = 0\<rparr>"

record local_metrics =
  handle_count :: nat
  encrypt_count :: nat
  lookup_calls :: nat
  lookup_hits :: nat
  predict_calls :: nat
  predict_hits :: nat

definition metrics_zero :: local_metrics where
  "metrics_zero = \<lparr>handle_count = 0, encrypt_count = 0, lookup_calls = 0, lookup_hits = 0,
     predict_calls = 0, predict_hits = 0\<rparr>"

record profiler =
  p_handle_count :: u64
  p_encrypt_count :: u64
  p_append_count :: u64
  p_lookup_calls :: u64
  p_lookup_hits :: u64
  p_predict_calls :: u64
  p_predict_hits :: u64

definition metrics_apply :: "local_metrics \<Rightarrow> profiler \<Rightarrow> profiler" where
  "metrics_apply m p =
     (let p = (if 0 < handle_count m then p\<lparr>p_handle_count := p_handle_count p + of_nat (handle_count m)\<rparr> else p);
          p = (if 0 < encrypt_count m then p\<lparr>p_encrypt_count := p_encrypt_count p + of_nat (encrypt_count m)\<rparr> else p);
          p = (if 0 < lookup_calls m then p\<lparr>p_lookup_calls := p_lookup_calls p + of_nat (lookup_calls m)\<rparr> else p);
          p = (if 0 < lookup_hits m then p\<lparr>p_lookup_hits := p_lookup_hits p + of_nat (lookup_hits m)\<rparr> else p);
          p = (if 0 < predict_calls m then p\<lparr>p_predict_calls := p_predict_calls p + of_nat (predict_calls m)\<rparr> else p);
          p = (if 0 < predict_hits m then p\<lparr>p_predict_hits := p_predict_hits p + of_nat (predict_hits m)\<rparr> else p)
      in p)"

record forwarder =
  routes :: table
  fsession :: "session option"
  arena :: arena
  offsets :: "(nat \<times> nat) list"
  mcr_forwarded :: u64
  mcr_dropped :: u64
  mcr_enabled :: bool
  mcr_spray_mode :: string
  profile_enabled :: bool

text \<open>The process: the table epoch, the caches of every thread, the profiler and
  \<open>PACKETS_PROCESSED\<close>. Thread 0 runs the batch functions.\<close>

record process =
  epoch :: u64
  tcaches :: "nat \<Rightarrow> thread_cache"
  scaches :: "nat \<Rightarrow> spray_cache"
  prof :: profiler
  packets_processed :: u64

subsection \<open>Configuration\<close>

definition get_mcr_enabled :: "(string \<Rightarrow> string option) \<Rightarrow> bool" where
  "get_mcr_enabled env =
     (case env ''MOHAWK_MCR_ENABLED'' of Some v \<Rightarrow> v \<in> {''1'', ''true'', ''yes''} | None \<Rightarrow> True)"

definition get_mcr_spray_mode :: "(string \<Rightarrow> string option) \<Rightarrow> string" where
  "get_mcr_spray_mode env = (case env ''MOHAWK_MCR_SPRAY_MODE'' of Some v \<Rightarrow> v | None \<Rightarrow> ''primary'')"

definition get_profile_enabled :: "(string \<Rightarrow> string option) \<Rightarrow> bool" where
  "get_profile_enabled env =
     (case env ''MOHAWK_PROFILE'' of Some v \<Rightarrow> v \<in> {''1'', ''true'', ''yes''} | None \<Rightarrow> False)"

definition ARENA_INIT :: nat where "ARENA_INIT = 262144"

text \<open>A session that cannot be made is \<open>None\<close>, and the forwarder then sends in the clear.\<close>

definition forwarder_with_session ::
    "crypto_lib \<Rightarrow> (string \<Rightarrow> string option) \<Rightarrow> table \<Rightarrow> bytes \<Rightarrow> bytes \<Rightarrow> hkdf_cache \<Rightarrow> forwarder \<times> hkdf_cache" where
  "forwarder_with_session L env t secret info kc =
     (let (s, kc) = HybridSession_new L secret info kc in
      (\<lparr>routes = t, fsession = (case s of Inl _ \<Rightarrow> None | Inr s \<Rightarrow> Some s),
        arena = \<lparr>content = [], cap = ARENA_INIT\<rparr>, offsets = [], mcr_forwarded = 0, mcr_dropped = 0,
        mcr_enabled = get_mcr_enabled env, mcr_spray_mode = get_mcr_spray_mode env,
        profile_enabled = get_profile_enabled env\<rparr>, kc))"

definition forwarder_new ::
    "crypto_lib \<Rightarrow> (string \<Rightarrow> string option) \<Rightarrow> table \<Rightarrow> hkdf_cache \<Rightarrow> forwarder \<times> hkdf_cache" where
  "forwarder_new L env t kc =
     forwarder_with_session L env t (replicate 32 0x42) (ascii ''datapath-default'') kc"

definition ensure_arena_capacity :: "nat \<Rightarrow> forwarder \<Rightarrow> fault + forwarder" where
  "ensure_arena_capacity n f = bindr (arena_reserve n (arena f)) (\<lambda>a. Inr (f\<lparr>arena := a\<rparr>))"

subsection \<open>One packet\<close>

record batch =
  b_arena :: arena
  b_offsets :: "(nat \<times> nat) list"
  b_stats :: fw_stats
  b_metrics :: local_metrics
  b_cache :: thread_cache
  b_scache :: spray_cache

definition push_offset :: "nat \<Rightarrow> batch \<Rightarrow> batch" where
  "push_offset start b = b\<lparr>b_offsets := b_offsets b @ [(start, arena_len (b_arena b) - start)]\<rparr>"

definition inc_forwarded :: "fw_stats \<Rightarrow> fw_stats" where "inc_forwarded s = s\<lparr>forwarded := forwarded s + 1\<rparr>"
definition inc_encrypted :: "fw_stats \<Rightarrow> fw_stats" where "inc_encrypted s = s\<lparr>encrypted := encrypted s + 1\<rparr>"
definition inc_misses :: "fw_stats \<Rightarrow> fw_stats" where "inc_misses s = s\<lparr>route_misses := route_misses s + 1\<rparr>"

text \<open>The route check: exact lookup first, then the predictive fallback, with their counters.\<close>

definition route_check :: "table \<Rightarrow> u64 \<Rightarrow> bytes \<Rightarrow> batch \<Rightarrow> bool \<times> batch" where
  "route_check t ep h b =
     (let b = b\<lparr>b_metrics := (b_metrics b)\<lparr>lookup_calls := lookup_calls (b_metrics b) + 1\<rparr>\<rparr>;
          (nh, c) = lookup_next_hop t ep (b_cache b) (ref_dst_id h) (ref_flow_label h);
          b = b\<lparr>b_cache := c\<rparr>
      in if nh \<noteq> None
         then (True, b\<lparr>b_metrics := (b_metrics b)\<lparr>lookup_hits := lookup_hits (b_metrics b) + 1\<rparr>\<rparr>)
         else let b = b\<lparr>b_metrics := (b_metrics b)\<lparr>predict_calls := predict_calls (b_metrics b) + 1\<rparr>\<rparr>
              in if lookup_predictive_fallback t (ref_src_id h) (ref_dst_id h) (ref_flow_label h) \<noteq> None
                 then (True, b\<lparr>b_metrics := (b_metrics b)\<lparr>predict_hits := predict_hits (b_metrics b) + 1\<rparr>\<rparr>)
                 else (False, b\<lparr>b_stats := inc_misses (b_stats b)\<rparr>))"

definition handle_packet ::
    "crypto_lib \<Rightarrow> table \<Rightarrow> u64 \<Rightarrow> session option \<Rightarrow> bytes \<Rightarrow> batch \<Rightarrow> fault + bool \<times> batch" where
  "handle_packet L t ep sess pkt b =
     (case HeaderViewRef_new pkt of
        Inl _ \<Rightarrow> Inr (False, b)
      | Inr h \<Rightarrow>
          let (is_hit, b) = route_check t ep h b in
          if \<not> is_hit then Inr (False, b)
          else case sess of
                 None \<Rightarrow> Inr (False, b)
               | Some s \<Rightarrow>
                   let seq = ref_seq_num h; payload_len = unat (ref_length h) in
                   if HEADER_SIZE + payload_len \<le> length pkt \<and> 0 < payload_len then
                     let start = arena_len (b_arena b) in
                     bindr (extend_unchecked (take (HEADER_SIZE + payload_len) pkt) (b_arena b)) (\<lambda>a.
                     let payload_start = start + HEADER_SIZE in
                     (case encrypt_into_slice L s (slice_at_unchecked payload_start payload_len a) seq of
                        Inr (ct, tag) \<Rightarrow>
                          bindr (poke payload_start ct a) (\<lambda>a.
                          bindr (extend_from_tag_unchecked tag a) (\<lambda>a.
                          Inr (True, push_offset start
                            (b\<lparr>b_arena := a, b_stats := inc_encrypted (b_stats b),
                               b_metrics := (b_metrics b)\<lparr>encrypt_count := encrypt_count (b_metrics b) + 1\<rparr>\<rparr>))))
                      | Inl _ \<Rightarrow>
                          Inr (False, b\<lparr>b_arena := arena_truncate start a, b_stats := inc_misses (b_stats b)\<rparr>)))
                   else if 0 < payload_len then Inr (False, b\<lparr>b_stats := inc_misses (b_stats b)\<rparr>)
                   else Inr (False, b))"

text \<open>The body of the serial loops: a packet that was not handled is appended as it is.\<close>

definition append_whole :: "bytes \<Rightarrow> batch \<Rightarrow> fault + batch" where
  "append_whole pkt b =
     (let start = arena_len (b_arena b) in
      bindr (extend_unchecked pkt (b_arena b)) (\<lambda>a.
      Inr (push_offset start (b\<lparr>b_arena := a, b_stats := inc_forwarded (b_stats b)\<rparr>))))"

definition plain_step ::
    "crypto_lib \<Rightarrow> table \<Rightarrow> u64 \<Rightarrow> session option \<Rightarrow> batch \<Rightarrow> bytes \<Rightarrow> fault + batch" where
  "plain_step L t ep sess b pkt =
     bindr (handle_packet L t ep sess pkt b) (\<lambda>(ok, b). if ok then Inr b else append_whole pkt b)"

subsection \<open>Owned packets\<close>

record packet_output =
  out_bytes :: bytes
  out_encrypted :: bool
  out_route_miss :: bool

text \<open>\<open>pkt.resize(target_len, 0)\<close>, done only when the packet is shorter.\<close>

definition resize_up :: "nat \<Rightarrow> bytes \<Rightarrow> bytes" where
  "resize_up n pkt = (if length pkt < n then pkt @ replicate (n - length pkt) 0 else pkt)"

text \<open>When sealing fails the AEAD crate has not touched the buffer: it checks the length first.\<close>

definition encrypt_packet_owned ::
    "crypto_lib \<Rightarrow> bytes \<Rightarrow> u64 \<Rightarrow> nat \<Rightarrow> session option \<Rightarrow> packet_output" where
  "encrypt_packet_owned L pkt seq payload_len sess =
     (case sess of
        None \<Rightarrow> \<lparr>out_bytes = pkt, out_encrypted = False, out_route_miss = False\<rparr>
      | Some s \<Rightarrow>
          if HEADER_SIZE + payload_len \<le> length pkt \<and> 0 < payload_len then
            let target_len = HEADER_SIZE + payload_len + TAG_SIZE;
                pkt = resize_up target_len pkt
            in case encrypt_into_slice L s (subslice HEADER_SIZE payload_len pkt) seq of
                 Inr (ct, tag) \<Rightarrow>
                   \<lparr>out_bytes = overwrite (HEADER_SIZE + payload_len) (bytes_of tag) (overwrite HEADER_SIZE ct pkt),
                    out_encrypted = True, out_route_miss = False\<rparr>
               | Inl _ \<Rightarrow> \<lparr>out_bytes = pkt, out_encrypted = False, out_route_miss = True\<rparr>
          else \<lparr>out_bytes = pkt, out_encrypted = False, out_route_miss = 0 < payload_len\<rparr>)"

definition process_packet_owned ::
    "crypto_lib \<Rightarrow> table \<Rightarrow> u64 \<Rightarrow> session option \<Rightarrow> thread_cache \<Rightarrow> bytes \<Rightarrow> packet_output \<times> thread_cache" where
  "process_packet_owned L t ep sess c pkt =
     (case HeaderViewRef_new pkt of
        Inl _ \<Rightarrow> (\<lparr>out_bytes = pkt, out_encrypted = False, out_route_miss = False\<rparr>, c)
      | Inr h \<Rightarrow>
          let (nh, c) = lookup_or_predict t ep c (ref_src_id h) (ref_dst_id h) (ref_flow_label h) in
          if nh \<noteq> None
          then (encrypt_packet_owned L pkt (ref_seq_num h) (unat (ref_length h)) sess, c)
          else (\<lparr>out_bytes = pkt, out_encrypted = False, out_route_miss = True\<rparr>, c))"

text \<open>\<open>process_packet_owned_consuming\<close>, with the flags as local variables.\<close>

definition process_packet_owned_consuming ::
    "crypto_lib \<Rightarrow> table \<Rightarrow> u64 \<Rightarrow> session option \<Rightarrow> thread_cache \<Rightarrow> bytes \<Rightarrow> packet_output \<times> thread_cache" where
  "process_packet_owned_consuming L t ep sess c pkt =
     (case HeaderViewRef_new pkt of
        Inl _ \<Rightarrow> (\<lparr>out_bytes = pkt, out_encrypted = False, out_route_miss = False\<rparr>, c)
      | Inr h \<Rightarrow>
          let (nh, c) = lookup_or_predict t ep c (ref_src_id h) (ref_dst_id h) (ref_flow_label h) in
          if nh = None then (\<lparr>out_bytes = pkt, out_encrypted = False, out_route_miss = True\<rparr>, c)
          else
            let seq = ref_seq_num h; payload_len = unat (ref_length h);
                (pkt, enc, miss) =
                  (case sess of
                     None \<Rightarrow> (pkt, False, False)
                   | Some s \<Rightarrow>
                       if HEADER_SIZE + payload_len \<le> length pkt \<and> 0 < payload_len then
                         let target_len = HEADER_SIZE + payload_len + TAG_SIZE;
                             pkt = resize_up target_len pkt
                         in case encrypt_into_slice L s (subslice HEADER_SIZE payload_len pkt) seq of
                              Inr (ct, tag) \<Rightarrow>
                                (overwrite (HEADER_SIZE + payload_len) (bytes_of tag) (overwrite HEADER_SIZE ct pkt), True, False)
                            | Inl _ \<Rightarrow> (pkt, False, True)
                       else (pkt, False, 0 < payload_len))
            in (\<lparr>out_bytes = pkt, out_encrypted = enc, out_route_miss = miss\<rparr>, c))"

end
