(* ===== verification/Forward_Batch.thy ===== *)
theory Forward_Batch
  imports Forward
begin

text \<open>
  Whole batches of \<open>datapath/src/lib.rs\<close>: \<open>append_outputs\<close>, the serial and the parallel branch
  of \<open>process_batch\<close> and \<open>process_batch_slices\<close>, with their abstract specification. The rayon
  map is a schedule: which worker thread processes which packet, in which order; the
  results are collected in the order of the packets. The serial loop is an instance of the
  budget loop: the batch reserves the bytes of all packets and a tag for each, and no step
  takes more than its share.
\<close>

subsection \<open>Batches\<close>

definition PARALLEL_BATCH_THRESHOLD :: nat where "PARALLEL_BATCH_THRESHOLD = 1024"

type_synonym sent = "bytes \<times> (nat \<times> nat) list"

definition batch_start :: "forwarder \<Rightarrow> arena \<Rightarrow> process \<Rightarrow> nat \<Rightarrow> batch" where
  "batch_start f a w n = \<lparr>b_arena = a, b_offsets = [], b_stats = stats_of n, b_metrics = metrics_zero,
     b_cache = tcaches w 0, b_scache = scaches w 0\<rparr>"

definition batch_caches :: "batch \<Rightarrow> process \<Rightarrow> process" where
  "batch_caches b w = w\<lparr>tcaches := (tcaches w)(0 := b_cache b), scaches := (scaches w)(0 := b_scache b)\<rparr>"

definition count_handled :: "nat \<Rightarrow> batch \<Rightarrow> batch" where
  "count_handled n b = b\<lparr>b_metrics := (b_metrics b)\<lparr>handle_count := handle_count (b_metrics b) + n\<rparr>\<rparr>"

definition apply_metrics :: "batch \<Rightarrow> process \<Rightarrow> process" where
  "apply_metrics b w = w\<lparr>prof := metrics_apply (b_metrics b) (prof w)\<rparr>"

definition add_processed :: "nat \<Rightarrow> process \<Rightarrow> process" where
  "add_processed n w = w\<lparr>packets_processed := packets_processed w + of_nat n\<rparr>"

definition add_handle_count :: "nat \<Rightarrow> process \<Rightarrow> process" where
  "add_handle_count n w = w\<lparr>prof := (prof w)\<lparr>p_handle_count := p_handle_count (prof w) + of_nat n\<rparr>\<rparr>"

definition batch_out :: "batch \<Rightarrow> sent" where
  "batch_out b = (content (b_arena b), b_offsets b)"

definition store_batch :: "batch \<Rightarrow> forwarder \<Rightarrow> forwarder" where
  "store_batch b f = f\<lparr>arena := b_arena b, offsets := b_offsets b\<rparr>"

text \<open>Running a map in parallel. An entry \<open>(i, th)\<close> of the schedule is packet \<open>i\<close> processed on
  thread \<open>th\<close>.\<close>

fun par_run :: "('c \<Rightarrow> 'p \<Rightarrow> 'r \<times> 'c) \<Rightarrow> 'p list \<Rightarrow> (nat \<times> nat) list \<Rightarrow> (nat \<Rightarrow> 'c) \<Rightarrow> (nat \<rightharpoonup> 'r) \<Rightarrow> (nat \<rightharpoonup> 'r) \<times> (nat \<Rightarrow> 'c)" where
  "par_run f ps [] cs res = (res, cs)"
| "par_run f ps ((i, th) # sched) cs res =
     (let (r, c) = f (cs th) (ps ! i) in par_run f ps sched (cs(th := c)) (res(i \<mapsto> r)))"

definition par_map :: "('c \<Rightarrow> 'p \<Rightarrow> 'r \<times> 'c) \<Rightarrow> (nat \<times> nat) list \<Rightarrow> 'p list \<Rightarrow> (nat \<Rightarrow> 'c) \<Rightarrow> 'r list \<times> (nat \<Rightarrow> 'c)" where
  "par_map f sched ps cs =
     (let (res, cs) = par_run f ps sched cs Map.empty in (map (\<lambda>i. the (res i)) [0..<length ps], cs))"

definition valid_schedule :: "nat \<Rightarrow> (nat \<times> nat) list \<Rightarrow> bool" where
  "valid_schedule n sched \<longleftrightarrow> distinct (map fst sched) \<and> set (map fst sched) = {0..<n}"

definition append_output :: "batch \<Rightarrow> packet_output \<Rightarrow> fault + batch" where
  "append_output b out =
     (let start = arena_len (b_arena b) in
      bindr (extend_unchecked (out_bytes out) (b_arena b)) (\<lambda>a.
      let b = push_offset start (b\<lparr>b_arena := a\<rparr>);
          b = (if out_encrypted out
               then b\<lparr>b_stats := inc_encrypted (b_stats b),
                      b_metrics := (b_metrics b)\<lparr>encrypt_count := encrypt_count (b_metrics b) + 1\<rparr>\<rparr>
               else b\<lparr>b_stats := inc_forwarded (b_stats b)\<rparr>);
          b = (if out_route_miss out then b\<lparr>b_stats := inc_misses (b_stats b)\<rparr> else b)
      in Inr b))"

definition append_outputs :: "packet_output list \<Rightarrow> nat \<Rightarrow> forwarder \<Rightarrow> process \<Rightarrow> fault + batch \<times> process" where
  "append_outputs outputs n f w =
     (let w = add_handle_count n w in
      bindr (arena_reserve (sum_list (map (length \<circ> out_bytes) outputs)) (arena_clear (arena f))) (\<lambda>a.
      bindr (loop_r append_output (batch_start f a w n) outputs) (\<lambda>b.
      let w = apply_metrics b w;
          w = (if profile_enabled f
               then w\<lparr>prof := (prof w)\<lparr>p_append_count := p_append_count (prof w) + 1\<rparr>\<rparr> else w)
      in Inr (b, w))))"

text \<open>The serial branch, shared by \<open>process_batch\<close> and \<open>process_batch_slices\<close>.\<close>

definition serial_batch ::
    "crypto_lib \<Rightarrow> bytes list \<Rightarrow> forwarder \<Rightarrow> process \<Rightarrow> fault + fw_stats \<times> sent option \<times> forwarder \<times> process" where
  "serial_batch L frames f w =
     (let n = length frames in
      bindr (arena_reserve (sum_list (map length frames) + n * TAG_SIZE) (arena_clear (arena f))) (\<lambda>a.
      bindr (loop_r (plain_step L (routes f) (epoch w) (fsession f)) (batch_start f a w n) frames) (\<lambda>b.
      let b = count_handled n b;
          w = apply_metrics b (batch_caches b w);
          w = add_processed (received (b_stats b)) w
      in Inr (b_stats b, Some (batch_out b), store_batch b f, w))))"

definition parallel_batch ::
    "crypto_lib \<Rightarrow> (nat \<times> nat) list \<Rightarrow> bytes list \<Rightarrow> forwarder \<Rightarrow> process \<Rightarrow> fault + fw_stats \<times> sent option \<times> forwarder \<times> process" where
  "parallel_batch L sched frames f w =
     (let (outputs, cs) = par_map (process_packet_owned L (routes f) (epoch w) (fsession f)) sched frames (tcaches w)
      in bindr (append_outputs outputs (length frames) f (w\<lparr>tcaches := cs\<rparr>)) (\<lambda>(b, w).
         let w = add_processed (received (b_stats b)) w;
             w = add_handle_count (received (b_stats b)) w
         in Inr (b_stats b, Some (batch_out b), store_batch b f, w)))"

text \<open>\<open>process_batch\<close> with MCR disabled; \<open>threads\<close> is \<open>rayon::current_num_threads()\<close>.\<close>

definition process_batch_plain ::
    "crypto_lib \<Rightarrow> nat \<Rightarrow> (nat \<times> nat) list \<Rightarrow> bytes list \<Rightarrow> forwarder \<Rightarrow> process \<Rightarrow> fault + fw_stats \<times> sent option \<times> forwarder \<times> process" where
  "process_batch_plain L threads sched frames f w =
     (if frames = [] then Inr (stats_of 0, None, f, w)
      else if length frames < PARALLEL_BATCH_THRESHOLD \<or> threads \<le> 1 then serial_batch L frames f w
      else parallel_batch L sched frames f w)"

text \<open>\<open>process_batch_slices\<close> over the default \<open>poll_slices\<close>; the arena is cleared even for an
  empty poll.\<close>

definition process_batch_slices ::
    "crypto_lib \<Rightarrow> bytes list \<Rightarrow> slice_ring \<Rightarrow> forwarder \<Rightarrow> process \<Rightarrow>
       fault + fw_stats \<times> sent option \<times> slice_ring \<times> forwarder \<times> process" where
  "process_batch_slices L frames ring f w =
     bindr (poll_slices frames ring) (\<lambda>ring.
       let n = length (active ring) in
       if n = 0 then Inr (stats_of 0, None, ring, f\<lparr>arena := arena_clear (arena f), offsets := []\<rparr>, w)
       else
         bindr (arena_reserve (sum_list (map (slot_len ring) (active ring)) + n * TAG_SIZE) (arena_clear (arena f))) (\<lambda>a.
         bindr (loop_r (\<lambda>b idx. plain_step L (routes f) (epoch w) (fsession f) b (slot ring idx))
                 (batch_start f a w n) (active ring)) (\<lambda>b.
         let b = count_handled n b;
             w = apply_metrics b (batch_caches b w);
             w = add_processed (received (b_stats b)) w
         in Inr (b_stats b, Some (batch_out b), ring, store_batch b f, w))))"

subsection \<open>Specification of the outputs\<close>

datatype outcome = Encrypted | Plain | Missed

text \<open>Whether the table routes a packet at all.\<close>

definition route_hit :: "table \<Rightarrow> bytes \<Rightarrow> bool" where
  "route_hit t pkt \<longleftrightarrow> hop_of t (ref_dst_id pkt) \<noteq> None
     \<or> lookup_predictive_fallback t (ref_src_id pkt) (ref_dst_id pkt) (ref_flow_label pkt) \<noteq> None"

definition payload_of :: "bytes \<Rightarrow> bytes" where
  "payload_of pkt = subslice HEADER_SIZE (unat (ref_length pkt)) pkt"

definition payload_present :: "bytes \<Rightarrow> bool" where
  "payload_present pkt \<longleftrightarrow> HEADER_SIZE + unat (ref_length pkt) \<le> length pkt \<and> 0 < unat (ref_length pkt)"

definition plain_spec :: "crypto_lib \<Rightarrow> table \<Rightarrow> session option \<Rightarrow> bytes \<Rightarrow> bytes \<times> outcome" where
  "plain_spec L t sess pkt =
     (if length pkt < HEADER_SIZE then (pkt, Plain)
      else if \<not> route_hit t pkt then (pkt, Missed)
      else case sess of
             None \<Rightarrow> (pkt, Plain)
           | Some s \<Rightarrow>
               if payload_present pkt then
                 (case encrypt_into_slice L s (payload_of pkt) (ref_seq_num pkt) of
                    Inr (ct, tag) \<Rightarrow> (take HEADER_SIZE pkt @ ct @ bytes_of tag, Encrypted)
                  | Inl _ \<Rightarrow> (pkt, Missed))
               else (pkt, if 0 < unat (ref_length pkt) then Missed else Plain))"

text \<open>The owned variants keep what follows the payload, with the tag written over its beginning,
  and return the enlarged packet when sealing fails.\<close>

definition owned_spec :: "crypto_lib \<Rightarrow> table \<Rightarrow> session option \<Rightarrow> bytes \<Rightarrow> bytes \<times> outcome" where
  "owned_spec L t sess pkt =
     (if length pkt < HEADER_SIZE then (pkt, Plain)
      else if \<not> route_hit t pkt then (pkt, Missed)
      else case sess of
             None \<Rightarrow> (pkt, Plain)
           | Some s \<Rightarrow>
               if payload_present pkt then
                 (let target_len = HEADER_SIZE + unat (ref_length pkt) + TAG_SIZE in
                  case encrypt_into_slice L s (payload_of pkt) (ref_seq_num pkt) of
                    Inr (ct, tag) \<Rightarrow> (take HEADER_SIZE pkt @ ct @ bytes_of tag @ drop target_len pkt, Encrypted)
                  | Inl _ \<Rightarrow> (resize_up target_len pkt, Missed))
               else (pkt, if 0 < unat (ref_length pkt) then Missed else Plain))"

definition output_of :: "bytes \<times> outcome \<Rightarrow> packet_output" where
  "output_of r = \<lparr>out_bytes = fst r, out_encrypted = (snd r = Encrypted), out_route_miss = (snd r = Missed)\<rparr>"

definition count_outcome :: "outcome \<Rightarrow> fw_stats \<Rightarrow> fw_stats" where
  "count_outcome k s =
     (case k of Encrypted \<Rightarrow> inc_encrypted s | Plain \<Rightarrow> inc_forwarded s | Missed \<Rightarrow> inc_misses (inc_forwarded s))"

definition count_outcomes :: "outcome list \<Rightarrow> fw_stats \<Rightarrow> fw_stats" where
  "count_outcomes ks s = s\<lparr>forwarded := forwarded s + length (filter (\<lambda>k. k \<noteq> Encrypted) ks),
     encrypted := encrypted s + length (filter (\<lambda>k. k = Encrypted) ks),
     route_misses := route_misses s + length (filter (\<lambda>k. k = Missed) ks)\<rparr>"

fun offsets_from :: "nat \<Rightarrow> bytes list \<Rightarrow> (nat \<times> nat) list" where
  "offsets_from n [] = []"
| "offsets_from n (x # xs) = (n, length x) # offsets_from (n + length x) xs"

text \<open>The packets a socket takes out of what is sent.\<close>

definition sent_packets :: "sent \<Rightarrow> bytes list" where
  "sent_packets s = map (\<lambda>(start, n). subslice start n (fst s)) (snd s)"

subsection \<open>A step appends exactly what the specification says\<close>

definition emit :: "bytes \<Rightarrow> outcome \<Rightarrow> batch \<Rightarrow> batch" where
  "emit out k b = b\<lparr>b_arena := (b_arena b)\<lparr>content := content (b_arena b) @ out\<rparr>,
     b_offsets := b_offsets b @ [(arena_len (b_arena b), length out)],
     b_stats := count_outcome k (b_stats b)\<rparr>"

definition route_metrics :: "table \<Rightarrow> bytes \<Rightarrow> local_metrics \<Rightarrow> local_metrics" where
  "route_metrics t pkt m =
     (let m = m\<lparr>lookup_calls := lookup_calls m + 1\<rparr> in
      if hop_of t (ref_dst_id pkt) \<noteq> None then m\<lparr>lookup_hits := lookup_hits m + 1\<rparr>
      else m\<lparr>predict_calls := predict_calls m + 1,
             predict_hits := predict_hits m + (if route_hit t pkt then 1 else 0)\<rparr>)"

definition packet_metrics :: "table \<Rightarrow> bytes \<Rightarrow> outcome \<Rightarrow> local_metrics \<Rightarrow> local_metrics" where
  "packet_metrics t pkt k m =
     (let m = (if length pkt < HEADER_SIZE then m else route_metrics t pkt m)
      in if k = Encrypted then m\<lparr>encrypt_count := encrypt_count m + 1\<rparr> else m)"

text \<open>All that the packet path needs of the AEAD: the ciphertext is as long as the payload.\<close>

definition seal_keeps_length :: "crypto_lib \<Rightarrow> bool" where
  "seal_keeps_length L \<longleftrightarrow> (\<forall>k n p c tag. seal L k n p = Some (c, tag) \<longrightarrow> length c = length p)"

lemma lib_ok_length: "lib_ok L \<Longrightarrow> seal_keeps_length L"
  by (simp add: lib_ok_def seal_keeps_length_def)

lemma into_slice_length:
  "seal_keeps_length L \<Longrightarrow> encrypt_into_slice L s p q = Inr (ct, tag) \<Longrightarrow> length ct = length p"
  unfolding seal_keeps_length_def encrypt_into_slice_def by (force split: if_splits option.splits)

lemma route_check_ok:
  assumes "cache_ok t ep (b_cache b)"
  shows "\<exists>c. cache_ok t ep c \<and> route_check t ep pkt b =
     (route_hit t pkt, b\<lparr>b_cache := c, b_metrics := route_metrics t pkt (b_metrics b),
        b_stats := (if route_hit t pkt then b_stats b else inc_misses (b_stats b))\<rparr>)"
proof -
  obtain c where "lookup_next_hop t ep (b_cache b) (ref_dst_id pkt) (ref_flow_label pkt) = (hop_of t (ref_dst_id pkt), c)"
    "cache_ok t ep c" using assms by (rule next_hop.look_cases)
  then show ?thesis
    by (intro exI [of _ c]) (auto simp: route_check_def route_hit_def route_metrics_def Let_def)
qed

lemma append_whole_exact:
  "append_whole pkt b = (if arena_len (b_arena b) + length pkt \<le> cap (b_arena b)
     then Inr (emit pkt Plain b) else Inl OobWrite)"
  by (simp add: append_whole_def extend_unchecked_def emit_def push_offset_def count_outcome_def Let_def arena_len_def)

lemma emit_missed: "emit pkt Plain (b\<lparr>b_stats := inc_misses (b_stats b)\<rparr>) = emit pkt Missed b"
  by (simp add: emit_def count_outcome_def inc_misses_def inc_forwarded_def)

lemma emit_more [simp]:
  "emit out k (b\<lparr>b_cache := c\<rparr>) = (emit out k b)\<lparr>b_cache := c\<rparr>"
  "emit out k (b\<lparr>b_metrics := m\<rparr>) = (emit out k b)\<lparr>b_metrics := m\<rparr>"
  "emit out k (b\<lparr>b_scache := sc\<rparr>) = (emit out k b)\<lparr>b_scache := sc\<rparr>"
  by (simp_all add: emit_def)

text \<open>Copying header and payload, encrypting in place and appending the tag.\<close>

lemma encrypt_in_arena:
  assumes "length ct = n" "HEADER_SIZE + n \<le> length pkt"
  shows "bindr (extend_unchecked (take (HEADER_SIZE + n) pkt) a) (\<lambda>a'.
       bindr (poke (arena_len a + HEADER_SIZE) ct a') (extend_from_tag_unchecked tag)) =
     (if arena_len a + length (take HEADER_SIZE pkt @ ct @ bytes_of tag) \<le> cap a
      then Inr (a\<lparr>content := content a @ take HEADER_SIZE pkt @ ct @ bytes_of tag\<rparr>) else Inl OobWrite)"
proof -
  have len: "length (take (HEADER_SIZE + n) pkt) = HEADER_SIZE + n" using assms by simp
  have ow: "overwrite HEADER_SIZE ct (take (HEADER_SIZE + n) pkt) = take HEADER_SIZE pkt @ ct"
    using assms by (simp add: overwrite_def min_def)
  show ?thesis
  proof (cases "arena_len a + (HEADER_SIZE + n) \<le> cap a")
    case True
    have "poke (arena_len a + HEADER_SIZE) ct (a\<lparr>content := content a @ take (HEADER_SIZE + n) pkt\<rparr>)
        = Inr (a\<lparr>content := content a @ take HEADER_SIZE pkt @ ct\<rparr>)"
      using assms by (subst poke_extended) (simp_all add: ow)
    with True assms len show ?thesis
      by (simp add: extend_from_tag_unchecked_def extend_unchecked_def arena_len_def)
  qed (use assms len in simp)
qed

text \<open>The three ways a routed packet of a session is handled.\<close>

lemma handle_packet_exact:
  assumes "cache_ok t ep (b_cache b)" "seal_keeps_length L"
  shows "\<exists>c. cache_ok t ep c \<and>
     bindr (handle_packet L t ep sess pkt b) (\<lambda>(ok, b'). if ok then Inr b' else append_whole pkt b') =
     (if arena_len (b_arena b) + length (fst (plain_spec L t sess pkt)) \<le> cap (b_arena b)
      then Inr ((emit (fst (plain_spec L t sess pkt)) (snd (plain_spec L t sess pkt)) b)
             \<lparr>b_cache := c, b_metrics := packet_metrics t pkt (snd (plain_spec L t sess pkt)) (b_metrics b)\<rparr>)
      else Inl OobWrite)"
proof (cases "length pkt < HEADER_SIZE")
  case True
  then have "HeaderViewRef_new pkt = Inl ErrBufferTooSmall" by (simp add: HeaderViewRef_new_def)
  with True assms show ?thesis
    by (intro exI [of _ "b_cache b"])
      (simp add: handle_packet_def append_whole_exact plain_spec_def packet_metrics_def, simp add: emit_def)
next
  case long: False
  then have h: "HeaderViewRef_new pkt = Inr (take 96 pkt)" by (simp add: HeaderViewRef_new_def HEADER_SIZE_def)
  obtain c where c: "cache_ok t ep c" "route_check t ep (take 96 pkt) b =
     (route_hit t pkt, b\<lparr>b_cache := c, b_metrics := route_metrics t pkt (b_metrics b),
        b_stats := (if route_hit t pkt then b_stats b else inc_misses (b_stats b))\<rparr>)"
    using route_check_ok [OF assms(1), of "take 96 pkt"]
    by (auto simp: ref_take route_hit_def route_metrics_def)
  have ex: "\<exists>c. cache_ok t ep c \<and> P c" if "P c" for P using c(1) that by blast
  show ?thesis
  proof (cases "route_hit t pkt \<and> sess \<noteq> None \<and> payload_present pkt")
    case False
    then show ?thesis
      using long
      by (intro ex)
        (auto simp: handle_packet_def h c(2) Let_def append_whole_exact plain_spec_def packet_metrics_def
          payload_present_def ref_take emit_missed [symmetric] split: option.splits; simp add: emit_def)
  next
    case True
    then obtain s where s: "sess = Some s" "route_hit t pkt" "payload_present pkt" by auto
    let ?n = "unat (ref_length pkt)" and ?a = "b_arena b"
    have n: "HEADER_SIZE + ?n \<le> length pkt" "0 < ?n" using s(3) by (simp_all add: payload_present_def)
    let ?x = "take (HEADER_SIZE + ?n) pkt"
    have sl: "slice_at_unchecked (arena_len ?a + HEADER_SIZE) ?n (?a\<lparr>content := content ?a @ ?x\<rparr>) = payload_of pkt"
      using n by (simp add: slice_extended payload_of_def slice_take)
    show ?thesis
    proof (cases "encrypt_into_slice L s (payload_of pkt) (ref_seq_num pkt)")
      case (Inl e)
      have le: "length ?x \<le> length pkt" by simp
      show ?thesis
      proof (cases "arena_len ?a + length ?x \<le> cap ?a")
        case True
        then show ?thesis
          using long s n Inl sl
          by (intro ex) (simp add: handle_packet_def h c(2) Let_def append_whole_exact plain_spec_def packet_metrics_def
              ref_take emit_missed [symmetric], simp add: emit_def)
      next
        case False
        then show ?thesis
          using long s n Inl le
          by (intro ex) (simp add: handle_packet_def h c(2) Let_def plain_spec_def ref_take)
      qed
    next
      case (Inr r)
      obtain ct tag where r: "r = (ct, tag)" by fastforce
      have lct: "length ct = ?n"
        using into_slice_length [OF assms(2) Inr [unfolded r]] n by (simp add: payload_of_def length_slice)
      note enc = encrypt_in_arena [OF lct n(1), of ?a tag]
      show ?thesis
      proof (cases "arena_len ?a + length ?x \<le> cap ?a")
        case True
        have "bindr (poke (arena_len ?a + HEADER_SIZE) ct (?a\<lparr>content := content ?a @ ?x\<rparr>)) (extend_from_tag_unchecked tag) =
          (if arena_len ?a + length (take HEADER_SIZE pkt @ ct @ bytes_of tag) \<le> cap ?a
           then Inr (?a\<lparr>content := content ?a @ take HEADER_SIZE pkt @ ct @ bytes_of tag\<rparr>) else Inl OobWrite)"
          using enc True by simp
        then show ?thesis
          using long s n Inr r sl True
          by (intro ex) (auto simp: handle_packet_def h c(2) Let_def plain_spec_def packet_metrics_def
              ref_take bindr_def emit_def push_offset_def count_outcome_def arena_len_def
              split: sum.splits if_splits)
      next
        case False
        then show ?thesis
          using long s n Inr r lct
          by (intro ex) (simp add: handle_packet_def h c(2) Let_def plain_spec_def ref_take)
      qed
    qed
  qed
qed

lemma plain_step_exact:
  assumes "cache_ok t ep (b_cache b)" "seal_keeps_length L"
  shows "\<exists>c. cache_ok t ep c \<and> plain_step L t ep sess b pkt =
     (if arena_len (b_arena b) + length (fst (plain_spec L t sess pkt)) \<le> cap (b_arena b)
      then Inr ((emit (fst (plain_spec L t sess pkt)) (snd (plain_spec L t sess pkt)) b)
             \<lparr>b_cache := c, b_metrics := packet_metrics t pkt (snd (plain_spec L t sess pkt)) (b_metrics b)\<rparr>)
      else Inl OobWrite)"
  using handle_packet_exact [OF assms] by (simp add: plain_step_def)

subsection \<open>The serial loop as a budget loop\<close>

definition emits :: "(bytes \<times> outcome) list \<Rightarrow> batch \<Rightarrow> batch \<Rightarrow> bool" where
  "emits outs b b' \<longleftrightarrow>
     b_arena b' = (b_arena b)\<lparr>content := content (b_arena b) @ concat (map fst outs)\<rparr>
     \<and> b_offsets b' = b_offsets b @ offsets_from (arena_len (b_arena b)) (map fst outs)
     \<and> b_stats b' = count_outcomes (map snd outs) (b_stats b)"

lemma offsets_from_append:
  "offsets_from n (xs @ ys) = offsets_from n xs @ offsets_from (n + length (concat xs)) ys"
  by (induction xs arbitrary: n) (auto simp: add.assoc)

lemma sent_offsets:
  "map (\<lambda>(start, n). subslice start n (pre @ concat xs)) (offsets_from (length pre) xs) = xs"
proof (induction xs arbitrary: pre)
  case (Cons x xs)
  from Cons.IH [of "pre @ x"] show ?case by (simp add: subslice_def)
qed simp

lemma sent_packets_offsets: "sent_packets (concat xs, offsets_from 0 xs) = xs"
  using sent_offsets [of "[]" xs] by (simp add: sent_packets_def)

lemma offsets_from_bounds: "list_all (\<lambda>p. fst p + snd p \<le> n + length (concat xs)) (offsets_from n xs)"
proof (induction xs arbitrary: n)
  case (Cons x xs)
  then show ?case using Cons [of "n + length x"] by (simp add: add.assoc)
qed simp

lemma emits_Nil: "emits [] b b"
  by (simp add: emits_def count_outcomes_def)

lemma emits_trans: "emits xs b b' \<Longrightarrow> emits ys b' b'' \<Longrightarrow> emits (xs @ ys) b b''"
  by (auto simp: emits_def offsets_from_append count_outcomes_def arena_len_def)

lemma emits_emit: "emits [(out, k)] b (emit out k b)"
  by (cases k) (simp_all add: emits_def emit_def count_outcomes_def count_outcome_def
      inc_forwarded_def inc_encrypted_def inc_misses_def)

lemma emits_more [simp]:
  "emits xs b (b'\<lparr>b_cache := c\<rparr>) = emits xs b b'"
  "emits xs b (b'\<lparr>b_metrics := m\<rparr>) = emits xs b b'"
  "emits xs b (b'\<lparr>b_scache := sc\<rparr>) = emits xs b b'"
  by (simp_all add: emits_def)

lemma payload_of_length: "payload_present pkt \<Longrightarrow> length (payload_of pkt) = unat (ref_length pkt)"
  by (simp add: payload_present_def payload_of_def length_slice)

lemma plain_spec_length:
  assumes "seal_keeps_length L"
  shows "length (fst (plain_spec L t sess pkt)) \<le> length pkt + TAG_SIZE"
proof -
  have "HEADER_SIZE + length (payload_of pkt) \<le> length pkt" if "payload_present pkt"
    using payload_of_length [OF that] that by (simp add: payload_present_def)
  then show ?thesis
    using into_slice_length [OF assms] by (fastforce simp: plain_spec_def TAG_SIZE_def split: option.splits sum.splits)
qed

definition room :: "batch \<Rightarrow> nat" where "room b = cap (b_arena b) - arena_len (b_arena b)"

definition plain_inv :: "crypto_lib \<Rightarrow> table \<Rightarrow> u64 \<Rightarrow> batch \<Rightarrow> bool" where
  "plain_inv L t ep b \<longleftrightarrow> seal_keeps_length L \<and> cache_ok t ep (b_cache b) \<and> arena_len (b_arena b) \<le> cap (b_arena b)"

definition plain_rel :: "crypto_lib \<Rightarrow> table \<Rightarrow> session option \<Rightarrow> batch \<Rightarrow> bytes list \<Rightarrow> batch \<Rightarrow> bool" where
  "plain_rel L t sess b ps b' \<longleftrightarrow> emits (map (plain_spec L t sess) ps) b b' \<and> b_scache b' = b_scache b
     \<and> b_metrics b' = fold (\<lambda>p. packet_metrics t p (snd (plain_spec L t sess p))) ps (b_metrics b)"

lemma emit_arena [simp]:
  "arena_len (b_arena (emit out k b)) = arena_len (b_arena b) + length out"
  "cap (b_arena (emit out k b)) = cap (b_arena b)"
  "b_cache (emit out k b) = b_cache b" "b_scache (emit out k b) = b_scache b" "b_metrics (emit out k b) = b_metrics b"
  by (simp_all add: emit_def arena_len_def)

interpretation plain_loop: budget_loop "plain_step L t ep sess" room "\<lambda>p. length p + TAG_SIZE"
  "plain_inv L t ep" "plain_rel L t sess" for L t ep sess
proof unfold_locales
  fix b and p :: bytes assume inv: "plain_inv L t ep b" and le: "length p + TAG_SIZE \<le> room b"
  then have "seal_keeps_length L" "cache_ok t ep (b_cache b)" by (simp_all add: plain_inv_def)
  from plain_step_exact [OF this(2,1), of sess p] plain_spec_length [OF this(1), of t sess p] inv le
  show "\<exists>b'. plain_step L t ep sess b p = Inr b' \<and> plain_inv L t ep b' \<and> room b \<le> room b' + (length p + TAG_SIZE)
      \<and> plain_rel L t sess b [p] b'"
    using emits_emit [of "fst (plain_spec L t sess p)" "snd (plain_spec L t sess p)" b]
    by (auto simp: plain_inv_def room_def plain_rel_def)
next
  fix b show "plain_rel L t sess b [] b" by (simp add: plain_rel_def emits_Nil)
next
  fix b ps b' qs b'' assume "plain_rel L t sess b ps b'" "plain_rel L t sess b' qs b''"
  then show "plain_rel L t sess b (ps @ qs) b''" by (auto simp: plain_rel_def intro: emits_trans)
qed

definition proc_ok :: "table \<Rightarrow> process \<Rightarrow> bool" where
  "proc_ok t w \<longleftrightarrow> (\<forall>th. cache_ok t (epoch w) (tcaches w th)) \<and> (\<forall>th. spray_ok t (epoch w) (scaches w th))"

definition arena_fits :: "nat \<Rightarrow> arena \<Rightarrow> bool" where
  "arena_fits n a \<longleftrightarrow> n \<le> 2 ^ 61 \<and> cap a \<le> 2 ^ 61"

lemma reserve_cleared:
  assumes "arena_fits n a"
  shows "\<exists>a'. arena_reserve n (arena_clear a) = Inr a' \<and> content a' = [] \<and> n \<le> cap a'"
  using arena_reserve_ok [of "arena_clear a" n] assms
  by (auto simp: arena_clear_def arena_len_def arena_fits_def)

lemma sum_list_plus: "sum_list (map (\<lambda>x. f x + (c :: nat)) xs) = sum_list (map f xs) + length xs * c"
  by (induction xs) auto

lemma count_received [simp]: "received (count_outcomes ks s) = received s"
  by (simp add: count_outcomes_def)

lemma received_stats_of [simp]: "received (stats_of n) = n"
  by (simp add: stats_of_def)

text \<open>A batch of a process that starts from an empty arena and emits \<open>outs\<close>.\<close>

lemma emits_sent:
  assumes "emits outs (batch_start f a w n) b" "content a = []"
  shows "batch_out b = (concat (map fst outs), offsets_from 0 (map fst outs))"
    and "b_stats b = count_outcomes (map snd outs) (stats_of n)" and "cap (b_arena b) = cap a"
  using assms by (simp_all add: emits_def batch_start_def batch_out_def arena_len_def)

lemma proc_ok_batch:
  assumes "proc_ok t w" "cache_ok t (epoch w) (b_cache b)" "spray_ok t (epoch w) (b_scache b)"
  shows "proc_ok t (batch_caches b w)"
  using assms by (simp add: proc_ok_def batch_caches_def)

lemma proc_more [simp]:
  "proc_ok t (apply_metrics b w) = proc_ok t w" "proc_ok t (add_processed n w) = proc_ok t w"
  "proc_ok t (add_handle_count n w) = proc_ok t w" "proc_ok t (w\<lparr>prof := p\<rparr>) = proc_ok t w"
  "packets_processed (add_processed n w) = packets_processed w + of_nat n"
  "packets_processed (apply_metrics b w) = packets_processed w"
  "packets_processed (batch_caches b w) = packets_processed w"
  "packets_processed (add_handle_count n w) = packets_processed w"
  by (simp_all add: proc_ok_def apply_metrics_def add_processed_def add_handle_count_def batch_caches_def)

text \<open>What a batch function promises: it returns, sends exactly \<open>outs\<close>, counts them, and
  leaves the process coherent.\<close>

definition batch_result ::
    "table \<Rightarrow> (bytes \<times> outcome) list \<Rightarrow> nat \<Rightarrow> process \<Rightarrow> fault + fw_stats \<times> sent option \<times> forwarder \<times> process \<Rightarrow> bool" where
  "batch_result t outs n w r \<longleftrightarrow>
     (\<exists>sent f' w'. r = Inr (count_outcomes (map snd outs) (stats_of n), Some sent, f', w')
        \<and> sent_packets sent = map fst outs \<and> fst sent = concat (map fst outs) \<and> snd sent = offsets_from 0 (map fst outs)
        \<and> sent = (content (arena f'), offsets f') \<and> routes f' = t
        \<and> proc_ok t w' \<and> packets_processed w' = packets_processed w + of_nat n)"

lemma serial_batch_result:
  assumes "seal_keeps_length L" "proc_ok (routes f) w"
    and "arena_fits (sum_list (map length frames) + length frames * TAG_SIZE) (arena f)"
  shows "batch_result (routes f) (map (plain_spec L (routes f) (fsession f)) frames) (length frames) w
    (serial_batch L frames f w)"
proof -
  let ?t = "routes f" and ?n = "length frames"
  obtain a where a: "arena_reserve (sum_list (map length frames) + ?n * TAG_SIZE) (arena_clear (arena f)) = Inr a"
    "content a = []" "sum_list (map length frames) + ?n * TAG_SIZE \<le> cap a"
    using reserve_cleared [OF assms(3)] by blast
  let ?b0 = "batch_start f a w ?n"
  have "plain_inv L ?t (epoch w) ?b0" "sum_list (map (\<lambda>p. length p + TAG_SIZE) frames) \<le> room ?b0"
    using assms a by (simp_all add: plain_inv_def batch_start_def proc_ok_def arena_len_def room_def sum_list_plus)
  from plain_loop.loop_ok [OF this, of "fsession f"] obtain b where b:
    "loop_r (plain_step L ?t (epoch w) (fsession f)) ?b0 frames = Inr b"
    "plain_inv L ?t (epoch w) b" "plain_rel L ?t (fsession f) ?b0 frames b" by blast
  from b(3) have em: "emits (map (plain_spec L ?t (fsession f)) frames) ?b0 b" and sc: "b_scache b = scaches w 0"
    by (simp_all add: plain_rel_def batch_start_def)
  note out = emits_sent [OF em a(2)]
  have "proc_ok ?t (batch_caches (count_handled ?n b) w)"
    using b(2) assms(2) sc by (intro proc_ok_batch) (simp_all add: plain_inv_def count_handled_def proc_ok_def)
  then show ?thesis
    using a(1) b(1) out
    by (simp add: serial_batch_def Let_def batch_result_def sent_packets_offsets comp_def)
      (simp add: count_handled_def store_batch_def batch_out_def comp_def sent_packets_offsets)
qed

subsection \<open>The parallel path\<close>

text \<open>A worker with a cache whose answers do not depend on it: run on any threads in any order,
  it computes the plain map.\<close>

locale cached_worker =
  fixes work :: "'c \<Rightarrow> 'p \<Rightarrow> 'r \<times> 'c" and spec :: "'p \<Rightarrow> 'r" and inv :: "'c \<Rightarrow> bool"
  assumes work_spec: "inv c \<Longrightarrow> fst (work c p) = spec p"
    and work_inv: "inv c \<Longrightarrow> inv (snd (work c p))"
begin

lemma par_run_spec:
  assumes "\<forall>th. inv (cs th)"
  shows "(\<forall>th. inv (snd (par_run work ps sched cs res) th))
    \<and> (distinct (map fst sched) \<longrightarrow> (\<forall>i. fst (par_run work ps sched cs res) i =
         (if i \<in> set (map fst sched) then Some (spec (ps ! i)) else res i)))"
  using assms
proof (induction sched arbitrary: cs res)
  case (Cons x sched)
  obtain i th where x: "x = (i, th)" by fastforce
  define cs' where "cs' = cs(th := snd (work (cs th) (ps ! i)))"
  define res' where "res' = res(i \<mapsto> spec (ps ! i))"
  have step: "par_run work ps (x # sched) cs res = par_run work ps sched cs' res'"
    using Cons.prems work_spec by (simp add: x split_def Let_def cs'_def res'_def)
  have "\<forall>th. inv (cs' th)" using Cons.prems work_inv by (simp add: cs'_def)
  from Cons.IH [OF this, of res']
  have IH: "\<forall>th. inv (snd (par_run work ps sched cs' res') th)"
    "distinct (map fst sched) \<Longrightarrow> fst (par_run work ps sched cs' res') j =
       (if j \<in> set (map fst sched) then Some (spec (ps ! j)) else res' j)" for j by auto
  have res': "res' j = (if j = i then Some (spec (ps ! i)) else res j)" for j by (simp add: res'_def)
  show ?case
    unfolding step using IH by (auto simp: x res' image_iff)
qed simp

lemma par_map_spec:
  assumes "valid_schedule (length ps) sched" "\<forall>th. inv (cs th)"
  shows "fst (par_map work sched ps cs) = map spec ps" "\<forall>th. inv (snd (par_map work sched ps cs) th)"
proof -
  note p = par_run_spec [OF assms(2), of ps sched Map.empty]
  then show "\<forall>th. inv (snd (par_map work sched ps cs) th)" by (simp add: par_map_def split_def Let_def)
  from p assms(1) show "fst (par_map work sched ps cs) = map spec ps"
    by (intro nth_equalityI) (simp_all add: par_map_def split_def Let_def valid_schedule_def)
qed

end

lemma or_predict_hit:
  assumes "cache_ok t ep c"
  shows "(fst (lookup_or_predict t ep c (ref_src_id pkt) (ref_dst_id pkt) (ref_flow_label pkt)) \<noteq> None) = route_hit t pkt"
    and "cache_ok t ep (snd (lookup_or_predict t ep c s d f))"
proof -
  obtain c' where "lookup_next_hop t ep c (ref_dst_id pkt) (ref_flow_label pkt) = (hop_of t (ref_dst_id pkt), c')"
    using assms by (rule next_hop.look_cases)
  then show "(fst (lookup_or_predict t ep c (ref_src_id pkt) (ref_dst_id pkt) (ref_flow_label pkt)) \<noteq> None) = route_hit t pkt"
    by (auto simp: lookup_or_predict_def route_hit_def split: option.splits)
  obtain c'' where "lookup_next_hop t ep c d f = (hop_of t d, c'')" "cache_ok t ep c''"
    using assms by (rule next_hop.look_cases)
  then show "cache_ok t ep (snd (lookup_or_predict t ep c s d f))"
    by (auto simp: lookup_or_predict_def split: option.splits)
qed

lemma resize_up_slice:
  "HEADER_SIZE + n \<le> length pkt \<Longrightarrow> subslice HEADER_SIZE n (resize_up m pkt) = subslice HEADER_SIZE n pkt"
  by (simp add: resize_up_def slice_append1)

lemma owned_bytes:
  assumes "length ct = n" "HEADER_SIZE + n \<le> length pkt"
  shows "overwrite (HEADER_SIZE + n) (bytes_of (tag :: 16 barr))
      (overwrite HEADER_SIZE ct (resize_up (HEADER_SIZE + n + TAG_SIZE) pkt)) =
    take HEADER_SIZE pkt @ ct @ bytes_of tag @ drop (HEADER_SIZE + n + TAG_SIZE) pkt"
  using assms by (auto simp: overwrite_def resize_up_def min_def TAG_SIZE_def ac_simps)

lemma encrypt_owned_eq:
  assumes "seal_keeps_length L" "HEADER_SIZE \<le> length pkt" "route_hit t pkt"
  shows "encrypt_packet_owned L pkt (ref_seq_num pkt) (unat (ref_length pkt)) sess = output_of (owned_spec L t sess pkt)"
proof (cases "sess \<noteq> None \<and> payload_present pkt")
  case True
  then obtain s where s: "sess = Some s" "payload_present pkt" by auto
  then have n: "HEADER_SIZE + unat (ref_length pkt) \<le> length pkt" "0 < unat (ref_length pkt)"
    by (simp_all add: payload_present_def)
  have "length ct = unat (ref_length pkt)"
    if "encrypt_into_slice L s (payload_of pkt) (ref_seq_num pkt) = Inr (ct, tag)" for ct tag
    using into_slice_length [OF assms(1) that] s(2) by (simp add: payload_of_length)
  then show ?thesis
    using s n assms(2,3)
    by (auto simp: encrypt_packet_owned_def owned_spec_def output_of_def Let_def resize_up_slice payload_of_def [symmetric]
        owned_bytes split: sum.splits)
qed (use assms in \<open>auto simp: encrypt_packet_owned_def owned_spec_def output_of_def payload_present_def split: option.splits\<close>)

lemma owned_consuming_eq:
  "process_packet_owned_consuming L t ep sess c pkt = process_packet_owned L t ep sess c pkt"
  by (auto simp: process_packet_owned_consuming_def process_packet_owned_def encrypt_packet_owned_def Let_def
      split: sum.splits option.splits prod.splits)

lemma process_packet_owned_ok:
  assumes "seal_keeps_length L" "cache_ok t ep c"
  shows "fst (process_packet_owned L t ep sess c pkt) = output_of (owned_spec L t sess pkt)"
    "cache_ok t ep (snd (process_packet_owned L t ep sess c pkt))"
proof -
  note hit = or_predict_hit(1) [OF assms(2), of pkt]
  show "fst (process_packet_owned L t ep sess c pkt) = output_of (owned_spec L t sess pkt)"
  proof (cases "length pkt < HEADER_SIZE \<or> \<not> route_hit t pkt")
    case True
    then show ?thesis
      using hit by (auto simp: process_packet_owned_def HeaderViewRef_new_def HEADER_SIZE_def ref_take split_def Let_def
          owned_spec_def output_of_def)
  next
    case False
    then show ?thesis
      using hit encrypt_owned_eq [OF assms(1), of pkt t sess]
      by (auto simp: process_packet_owned_def HeaderViewRef_new_def HEADER_SIZE_def ref_take split_def Let_def)
  qed
  show "cache_ok t ep (snd (process_packet_owned L t ep sess c pkt))"
    using assms(2) or_predict_hit(2) [OF assms(2)]
    by (auto simp: process_packet_owned_def Let_def split: sum.splits prod.splits) (metis snd_conv)+
qed

interpretation owned_worker: cached_worker "process_packet_owned L t ep sess"
  "\<lambda>pkt. output_of (owned_spec L t sess pkt)" "\<lambda>c. seal_keeps_length L \<and> cache_ok t ep c" for L t ep sess
  by unfold_locales (auto simp: process_packet_owned_ok)

interpretation consuming_worker: cached_worker "process_packet_owned_consuming L t ep sess"
  "\<lambda>pkt. output_of (owned_spec L t sess pkt)" "\<lambda>c. seal_keeps_length L \<and> cache_ok t ep c" for L t ep sess
  by unfold_locales (auto simp: process_packet_owned_ok owned_consuming_eq)

subsection \<open>Collecting the outputs\<close>

definition collect_step :: "batch \<Rightarrow> bytes \<times> outcome \<Rightarrow> fault + batch" where
  "collect_step b r = append_output b (output_of r)"

lemma loop_r_map: "loop_r step s (map f xs) = loop_r (\<lambda>s x. step s (f x)) s xs"
  by (induction xs arbitrary: s) (auto split: sum.splits)

lemma collect_loop_eq: "loop_r append_output b (map output_of rs) = loop_r collect_step b rs"
  by (induction rs arbitrary: b) (simp_all add: collect_step_def split: sum.splits)

lemma collect_step_exact:
  "collect_step b (out, k) =
     (if arena_len (b_arena b) + length out \<le> cap (b_arena b)
      then Inr ((emit out k b)\<lparr>b_metrics := (b_metrics b)\<lparr>encrypt_count := encrypt_count (b_metrics b)
             + (if k = Encrypted then 1 else 0)\<rparr>\<rparr>)
      else Inl OobWrite)"
  by (cases k) (simp_all add: collect_step_def append_output_def output_of_def Let_def extend_unchecked_def
      emit_def push_offset_def count_outcome_def arena_len_def)

interpretation collect_loop: budget_loop collect_step room "\<lambda>r. length (fst r)"
  "\<lambda>b. arena_len (b_arena b) \<le> cap (b_arena b)"
  "\<lambda>b rs b'. emits rs b b' \<and> b_cache b' = b_cache b \<and> b_scache b' = b_scache b"
proof unfold_locales
  fix b and r :: "bytes \<times> outcome"
  assume "arena_len (b_arena b) \<le> cap (b_arena b)" "length (fst r) \<le> room b"
  then show "\<exists>b'. collect_step b r = Inr b' \<and> arena_len (b_arena b') \<le> cap (b_arena b')
      \<and> room b \<le> room b' + length (fst r)
      \<and> (emits [r] b b' \<and> b_cache b' = b_cache b \<and> b_scache b' = b_scache b)"
    using emits_emit [of "fst r" "snd r" b] by (cases r) (simp add: collect_step_exact room_def)
qed (auto simp: emits_Nil intro: emits_trans)

lemma owned_spec_length:
  assumes "seal_keeps_length L"
  shows "length (fst (owned_spec L t sess pkt)) \<le> length pkt + TAG_SIZE"
proof -
  have "HEADER_SIZE + length (payload_of pkt) \<le> length pkt \<and> length (payload_of pkt) = unat (ref_length pkt)"
    if "payload_present pkt"
    using payload_of_length [OF that] that by (simp add: payload_present_def)
  then show ?thesis
    using into_slice_length [OF assms]
    by (fastforce simp: owned_spec_def TAG_SIZE_def Let_def resize_up_def split: option.splits sum.splits)
qed

lemma append_outputs_ok:
  assumes "arena_fits (sum_list (map (length \<circ> fst) outs)) (arena f)"
  shows "\<exists>b w'. append_outputs (map output_of outs) n f w = Inr (b, w')
    \<and> batch_out b = (concat (map fst outs), offsets_from 0 (map fst outs))
    \<and> b_stats b = count_outcomes (map snd outs) (stats_of n)
    \<and> tcaches w' = tcaches w \<and> scaches w' = scaches w \<and> epoch w' = epoch w
    \<and> packets_processed w' = packets_processed w"
proof -
  have sum: "sum_list (map (length \<circ> out_bytes) (map output_of outs)) = sum_list (map (length \<circ> fst) outs)"
    by (simp add: output_of_def comp_def)
  obtain a where a: "arena_reserve (sum_list (map (length \<circ> fst) outs)) (arena_clear (arena f)) = Inr a"
    "content a = []" "sum_list (map (length \<circ> fst) outs) \<le> cap a"
    using reserve_cleared [OF assms] by blast
  let ?b0 = "batch_start f a (add_handle_count n w) n"
  have "arena_len (b_arena ?b0) \<le> cap (b_arena ?b0)" "sum_list (map (\<lambda>r. length (fst r)) outs) \<le> room ?b0"
    using a by (simp_all add: batch_start_def arena_len_def room_def comp_def)
  from collect_loop.loop_ok [OF this] obtain b where b: "loop_r collect_step ?b0 outs = Inr b" "emits outs ?b0 b" by blast
  have "loop_r append_output ?b0 (map output_of outs) = Inr b" using b(1) by (simp only: collect_loop_eq)
  then show ?thesis
    using a(1) sum emits_sent [OF b(2) a(2)]
    by (simp add: append_outputs_def Let_def apply_metrics_def add_handle_count_def)
qed

lemma arena_fits_mono: "arena_fits n a \<Longrightarrow> m \<le> n \<Longrightarrow> arena_fits m a"
  by (simp add: arena_fits_def)

lemma sum_list_le: "(\<And>x. x \<in> set xs \<Longrightarrow> f x \<le> g x) \<Longrightarrow> sum_list (map f xs) \<le> sum_list (map g xs)" for f g :: "'a \<Rightarrow> nat"
  by (induction xs) (auto intro: add_mono)

lemma parallel_batch_result:
  assumes "seal_keeps_length L" "proc_ok (routes f) w" "valid_schedule (length frames) sched"
    and "arena_fits (sum_list (map length frames) + length frames * TAG_SIZE) (arena f)"
  shows "batch_result (routes f) (map (owned_spec L (routes f) (fsession f)) frames) (length frames) w
    (parallel_batch L sched frames f w)"
proof -
  let ?t = "routes f" and ?outs = "map (owned_spec L (routes f) (fsession f)) frames"
  let ?work = "process_packet_owned L ?t (epoch w) (fsession f)"
  have "\<forall>th. seal_keeps_length L \<and> cache_ok ?t (epoch w) (tcaches w th)"
    using assms(1,2) by (simp add: proc_ok_def)
  note pm = owned_worker.par_map_spec [OF assms(3) this, of "fsession f"]
  obtain cs where cs: "par_map ?work sched frames (tcaches w) = (map output_of ?outs, cs)"
    "\<forall>th. cache_ok ?t (epoch w) (cs th)"
    using pm by (cases "par_map ?work sched frames (tcaches w)") (auto simp: comp_def)
  have "sum_list (map (length \<circ> fst) ?outs) \<le> sum_list (map (\<lambda>p. length p + TAG_SIZE) frames)"
    using owned_spec_length [OF assms(1)] by (simp add: comp_def sum_list_le)
  then have "arena_fits (sum_list (map (length \<circ> fst) ?outs)) (arena f)"
    using assms(4) by (auto simp: sum_list_plus intro: arena_fits_mono)
  from append_outputs_ok [OF this, of "length frames" "w\<lparr>tcaches := cs\<rparr>"] obtain b w' where b:
    "append_outputs (map output_of ?outs) (length frames) f (w\<lparr>tcaches := cs\<rparr>) = Inr (b, w')"
    "batch_out b = (concat (map fst ?outs), offsets_from 0 (map fst ?outs))"
    "b_stats b = count_outcomes (map snd ?outs) (stats_of (length frames))"
    "tcaches w' = cs" "scaches w' = scaches w" "epoch w' = epoch w" "packets_processed w' = packets_processed w"
    by auto
  have "proc_ok ?t w'" using cs(2) assms(2) b by (simp add: proc_ok_def)
  then show ?thesis
    using b cs(1) unfolding parallel_batch_def Let_def split_def
    by (simp add: batch_result_def sent_packets_offsets)
      (simp add: store_batch_def batch_out_def sent_packets_offsets)
qed

subsection \<open>A concrete process\<close>

definition example_packet :: bytes where
  "example_packet = header_bytes (header_new\<lparr>dst_id := fill_arr 1, seq_num := 7, payload_length := 2\<rparr>) @ [4, 5, 6]"

definition example_forwarder :: forwarder where
  "example_forwarder = (fst (forwarder_with_session toy_lib (\<lambda>_. None) example_table [1] [2] Map.empty))
     \<lparr>fsession := Some toy_session\<rparr>"

definition example_process :: process where
  "example_process = \<lparr>epoch = 2, tcaches = (\<lambda>_. thread_cache_init), scaches = (\<lambda>_. spray_cache_init),
     prof = \<lparr>p_handle_count = 0, p_encrypt_count = 0, p_append_count = 0, p_lookup_calls = 0, p_lookup_hits = 0,
       p_predict_calls = 0, p_predict_hits = 0\<rparr>, packets_processed = 0\<rparr>"

lemma example_forwarder_simps:
  "routes example_forwarder = example_table" "fsession example_forwarder = Some toy_session"
  "arena example_forwarder = \<lparr>content = [], cap = 262144\<rparr>" "mcr_enabled example_forwarder = True"
  "mcr_spray_mode example_forwarder = ''primary''"
  by (simp_all add: example_forwarder_def forwarder_with_session_def split_def Let_def ARENA_INIT_def
      get_mcr_enabled_def get_mcr_spray_mode_def)

lemma example_proc_ok: "proc_ok example_table example_process"
  by (simp add: proc_ok_def example_process_def cache_ok_init spray_ok_init)

lemma example_packet_fields:
  "length example_packet = 99" "ref_dst_id example_packet = fill_arr 1" "ref_length example_packet = 2"
  "ref_seq_num example_packet = 7" "ref_flow_label example_packet = 0" "payload_present example_packet"
  "payload_of example_packet = [4, 5]"
proof -
  show f: "length example_packet = 99" "ref_dst_id example_packet = fill_arr 1" "ref_length example_packet = 2"
    "ref_seq_num example_packet = 7" "ref_flow_label example_packet = 0"
    unfolding example_packet_def ref_header_bytes by (simp_all add: header_new_def)
  show "payload_present example_packet" by (simp add: payload_present_def f HEADER_SIZE_def)
  have "payload_of example_packet = subslice 96 2 example_packet" by (simp add: payload_of_def f HEADER_SIZE_def)
  also have "\<dots> = [4, 5]"
    unfolding example_packet_def using slice_append2 [of "header_bytes h" 0 2 for h] by (simp add: subslice_def)
  finally show "payload_of example_packet = [4, 5]" .
qed

lemma example_plain_spec:
  "plain_spec toy_lib example_table (Some toy_session) example_packet =
     (take 96 example_packet @ [1, 0] @ bytes_of (arr (bytes_of (build_nonce toy_session 7) @ replicate 4 0) :: 16 barr), Encrypted)"
proof -
  have hit: "route_hit example_table example_packet"
    by (simp add: route_hit_def hop_of_def example_packet_fields routes_of_example)
  show ?thesis
    by (simp add: plain_spec_def example_packet_fields hit HEADER_SIZE_def encrypt_into_slice_def PAYLOAD_LIMIT_def)
      (simp add: toy_lib_def toy_session_def GCM_MAX_def HEADER_SIZE_def)
qed

lemma short_plain_spec: "length pkt < 96 \<Longrightarrow> plain_spec L t sess pkt = (pkt, Plain)"
  by (simp add: plain_spec_def HEADER_SIZE_def)

subsection \<open>Properties\<close>

lemma plain_batch:
  assumes "seal_keeps_length L" and "proc_ok (routes f) w" and "frames \<noteq> []"
    and "valid_schedule (length frames) sched"
    and "arena_fits (sum_list (map length frames) + length frames * TAG_SIZE) (arena f)"
  shows "batch_result (routes f)
    (map ((if length frames < PARALLEL_BATCH_THRESHOLD \<or> threads \<le> 1 then plain_spec else owned_spec)
           L (routes f) (fsession f)) frames)
    (length frames) w (process_batch_plain L threads sched frames f w)"
  using assms(3) serial_batch_result [OF assms(1,2,5)] parallel_batch_result [OF assms(1,2,4,5)]
  by (simp add: process_batch_plain_def)

text \<open>C8. A batch with MCR disabled is safe and faithful. On a coherent process it never writes
  outside the arena; the packets it sends are, in order and one per input packet, what the
  specification makes of each input, laid out back to back; the statistics are their
  counts; and the caches stay coherent. Below the threshold (or on one thread) the
  specification is that of the serial loop, above it that of the owned variant, for every
  assignment of packets to worker threads and every order of processing.\<close>

theorem process_batch_refines:
  assumes "seal_keeps_length L" and "proc_ok (routes f) w" and "frames \<noteq> []"
    and "valid_schedule (length frames) sched"
    and "arena_fits (sum_list (map length frames) + length frames * TAG_SIZE) (arena f)"
  shows "batch_result (routes f)
    (map ((if length frames < PARALLEL_BATCH_THRESHOLD \<or> threads \<le> 1 then plain_spec else owned_spec)
           L (routes f) (fsession f)) frames)
    (length frames) w (process_batch_plain L threads sched frames f w)"
  by (rule plain_batch [OF assms])

theorem process_batch_refines_witness:
  "\<exists>sent f' w'. process_batch_plain toy_lib 4 [(1, 0), (0, 2)] [example_packet, [1, 2]] example_forwarder example_process =
     Inr (\<lparr>received = 2, forwarded = 1, encrypted = 1, route_misses = 0\<rparr>, Some sent, f', w')
   \<and> sent_packets sent = [fst (plain_spec toy_lib example_table (Some toy_session) example_packet), [1, 2]]"
proof -
  have "arena_fits (sum_list (map length [example_packet, [1, 2]]) + length [example_packet, [1, 2]] * TAG_SIZE)
      (arena example_forwarder)" "valid_schedule (length [example_packet, [1, 2]]) [(1, 0), (0, 2)]"
    by (auto simp: arena_fits_def example_packet_fields example_forwarder_simps TAG_SIZE_def valid_schedule_def)
  from process_batch_refines [OF lib_ok_length [OF toy_lib_ok] _ _ this(2,1), of example_process 4]
  have "batch_result example_table [plain_spec toy_lib example_table (Some toy_session) example_packet, ([1, 2], Plain)] 2
      example_process (process_batch_plain toy_lib 4 [(1, 0), (0, 2)] [example_packet, [1, 2]] example_forwarder example_process)"
    by (simp add: example_forwarder_simps example_proc_ok PARALLEL_BATCH_THRESHOLD_def short_plain_spec numeral_2_eq_2)
  moreover have "count_outcomes [Encrypted, Plain] (stats_of 2) = \<lparr>received = 2, forwarded = 1, encrypted = 1, route_misses = 0\<rparr>"
    by (simp add: count_outcomes_def stats_of_def)
  ultimately show ?thesis
    unfolding batch_result_def by (force simp: example_plain_spec)
qed

text \<open>The serial and the parallel path differ in one thing only: a packet that is encrypted
  loses the bytes after its payload on the serial path and keeps all but the first
  \<open>TAG_SIZE\<close> of them on the parallel one. On packets that end with their payload, and on all
  packets that are not encrypted, they send the same bytes and count the same.\<close>

theorem serial_parallel_difference:
  assumes "lib_ok L"
  shows "owned_spec L t sess pkt =
    (if snd (plain_spec L t sess pkt) = Encrypted
     then (fst (plain_spec L t sess pkt) @ drop (length (fst (plain_spec L t sess pkt))) pkt, Encrypted)
     else plain_spec L t sess pkt)"
proof (cases "HEADER_SIZE \<le> length pkt \<and> route_hit t pkt \<and> sess \<noteq> None \<and> payload_present pkt")
  case True
  then obtain s where s: "sess = Some s" "HEADER_SIZE \<le> length pkt" "route_hit t pkt" "payload_present pkt" by auto
  have n: "length (payload_of pkt) = unat (ref_length pkt)" using payload_of_length [OF s(4)] .
  have "unat (ref_length pkt) < 2 ^ 16" using unsigned_less [of "ref_length pkt"] by simp
  then have lim: "length (payload_of pkt) \<le> PAYLOAD_LIMIT" by (simp add: n PAYLOAD_LIMIT_def)
  obtain c tag where "seal L (aead s) (build_nonce s (ref_seq_num pkt)) (payload_of pkt) = Some (c, tag)"
    "length c = length (payload_of pkt)" using lib_ok_seal [OF assms limit_le_gcm [OF lim]] by metis
  then have "encrypt_into_slice L s (payload_of pkt) (ref_seq_num pkt) = Inr (c, tag)" "length c = unat (ref_length pkt)"
    using lim n by (simp_all add: encrypt_into_slice_def)
  then show ?thesis
    using s by (simp add: plain_spec_def owned_spec_def Let_def min_def TAG_SIZE_def add.assoc)
qed (auto simp: plain_spec_def owned_spec_def split: option.splits)

theorem serial_parallel_difference_witness:
  "fst (owned_spec toy_lib example_table (Some toy_session) example_packet) =
     fst (plain_spec toy_lib example_table (Some toy_session) example_packet)"
  using serial_parallel_difference [OF toy_lib_ok, of example_table "Some toy_session" example_packet]
  by (simp add: example_plain_spec example_packet_fields)

text \<open>The packets a batch seals: those with a route and a whole payload.\<close>

definition sealable :: "table \<Rightarrow> bytes \<Rightarrow> bool" where
  "sealable t pkt \<longleftrightarrow> HEADER_SIZE \<le> length pkt \<and> route_hit t pkt \<and> payload_present pkt"

lemma plain_spec_opens:
  assumes "lib_ok L"
  shows "if sealable t pkt
    then take HEADER_SIZE (fst (plain_spec L t (Some s) pkt)) = take HEADER_SIZE pkt
      \<and> session_decrypt L s (drop HEADER_SIZE (fst (plain_spec L t (Some s) pkt))) (ref_seq_num pkt) = Inr (payload_of pkt)
      \<and> snd (plain_spec L t (Some s) pkt) = Encrypted
    else fst (plain_spec L t (Some s) pkt) = pkt \<and> snd (plain_spec L t (Some s) pkt) \<noteq> Encrypted"
proof (cases "sealable t pkt")
  case True
  then have p: "HEADER_SIZE \<le> length pkt" "route_hit t pkt" "payload_present pkt" by (simp_all add: sealable_def)
  have "unat (ref_length pkt) < 2 ^ 16" using unsigned_less [of "ref_length pkt"] by simp
  then have lim: "length (payload_of pkt) \<le> PAYLOAD_LIMIT" by (simp add: payload_of_length [OF p(3)] PAYLOAD_LIMIT_def)
  obtain ct tag where "seal L (aead s) (build_nonce s (ref_seq_num pkt)) (payload_of pkt) = Some (ct, tag)"
    using lib_ok_seal [OF assms limit_le_gcm [OF lim]] by metis
  with lim have e: "encrypt_into_slice L s (payload_of pkt) (ref_seq_num pkt) = Inr (ct, tag)"
    by (simp add: encrypt_into_slice_def)
  then have "session_encrypt L s (payload_of pkt) (ref_seq_num pkt) = Inr (ct @ bytes_of tag)" by (simp add: into_slice_eq)
  with session_channel.dec_enc [OF assms lim] have
    "session_decrypt L s (ct @ bytes_of tag) (ref_seq_num pkt) = Inr (payload_of pkt)" by blast
  with True p e show ?thesis by (simp add: plain_spec_def HEADER_SIZE_def)
next
  case False
  then show ?thesis by (auto simp: plain_spec_def sealable_def)
qed

lemma slices_exact:
  assumes "ring_ok ring"
  shows "process_batch_slices L frames ring f w =
    (if ring_capacity ring < length frames then Inl Panicked
     else if frames = [] then
       Inr (stats_of 0, None, ring_clear ring, f\<lparr>arena := arena_clear (arena f), offsets := []\<rparr>, w)
     else case serial_batch L (map (take (slot_size ring)) frames) f w of
            Inl e \<Rightarrow> Inl e
          | Inr (stats, sent, f', w') \<Rightarrow>
              Inr (stats, sent, case poll_slices frames ring of Inr ring' \<Rightarrow> ring' | Inl _ \<Rightarrow> ring, f', w'))"
proof (cases "length frames \<le> ring_capacity ring")
  case False
  then have "poll_slices frames ring = Inl Panicked" using poll_slices_exact [OF assms, of frames] by simp
  with False show ?thesis by (simp add: process_batch_slices_def)
next
  case True
  then obtain ring' where r: "poll_slices frames ring = Inr ring'" "active ring' = [0..<length frames]"
    "map (slot ring') (active ring') = map (take (slot_size ring)) frames"
    "map (slot_len ring') (active ring') = map (\<lambda>f. min (slot_size ring) (length f)) frames"
    using poll_slices_exact [OF assms, of frames] by auto
  show ?thesis
  proof (cases "frames = []")
    case True
    then show ?thesis
      using assms by (simp add: process_batch_slices_def poll_slices_def ring_clear_def)
  next
    case False
    let ?cut = "map (take (slot_size ring)) frames"
    have loop: "loop_r (\<lambda>b idx. step b (slot ring' idx)) b0 (active ring') = loop_r step b0 ?cut" for step :: "batch \<Rightarrow> bytes \<Rightarrow> fault + batch" and b0
      using loop_r_map [of step b0 "slot ring'" "active ring'"] r(3) by simp
    have lens: "map (slot_len ring') (active ring') = map length ?cut"
      unfolding r(4) by (simp add: comp_def min.commute)
    show ?thesis
      using True False
      by (auto simp: process_batch_slices_def r(1,2) serial_batch_def Let_def bindr_def lens [unfolded r(2)]
          loop [unfolded r(2)] count_handled_def split: sum.splits)
  qed
qed

text \<open>C18. The slice ring is transparent: \<open>process_batch_slices\<close> does to the polled frames what the
  serial batch does to them cut to the slot size, and panics exactly when there are more
  frames than slots. An empty poll sends nothing and clears the arena.\<close>

theorem slices_equal_serial_batch:
  assumes "ring_ok ring"
  shows "process_batch_slices L frames ring f w =
    (if ring_capacity ring < length frames then Inl Panicked
     else if frames = [] then
       Inr (stats_of 0, None, ring_clear ring, f\<lparr>arena := arena_clear (arena f), offsets := []\<rparr>, w)
     else case serial_batch L (map (take (slot_size ring)) frames) f w of
            Inl e \<Rightarrow> Inl e
          | Inr (stats, sent, f', w') \<Rightarrow>
              Inr (stats, sent, case poll_slices frames ring of Inr ring' \<Rightarrow> ring' | Inl _ \<Rightarrow> ring, f', w'))"
  using assms by (rule slices_exact)

theorem slices_equal_serial_batch_witness:
  "map_sum id fst (process_batch_slices toy_lib [[1, 2, 3]] (SliceRing_new 4 2) example_forwarder example_process) =
     map_sum id fst (serial_batch toy_lib [[1, 2]] example_forwarder example_process)
   \<and> process_batch_slices toy_lib [[1], [2]] (SliceRing_new 1 8) example_forwarder example_process = Inl Panicked"
  using slices_equal_serial_batch [OF ring_ok_new [of 4 2], of toy_lib "[[1, 2, 3]]" example_forwarder example_process]
    slices_equal_serial_batch [OF ring_ok_new [of 1 8], of toy_lib "[[1], [2]]" example_forwarder example_process]
  by (auto simp: ring_capacity_def SliceRing_new_def split: sum.splits)

end
