(* ===== verification/Forward_MCR.thy ===== *)
theory Forward_MCR
  imports Forward_Batch
begin

text \<open>
  Multi-channel routing in \<open>datapath/src/lib.rs\<close>: \<open>process_batch_mcr\<close> with its primary mode
  (one copy per packet, sent to the flow's channel), its serial full-spray mode (one copy
  per channel, written into the arena) and its parallel full-spray mode, and the dispatch of
  \<open>process_batch\<close>. Every mode appends exactly what its specification says or runs out of the
  arena; the reservation made at the start of a batch is enough in primary mode, and in
  serial full spray it is enough for at most three channels per packet.
\<close>

subsection \<open>Copying and sealing a packet in the arena\<close>

text \<open>Append \<open>src\<close>, then overwrite the destination of the copy through the raw pointer.\<close>

definition copy_rewrite :: "bytes \<Rightarrow> node_id option \<Rightarrow> arena \<Rightarrow> fault + arena" where
  "copy_rewrite src nh a =
     bindr (extend_unchecked src a) (\<lambda>a'.
       case nh of None \<Rightarrow> Inr a' | Some d \<Rightarrow> poke (arena_len a + 32) (bytes_of d) a')"

text \<open>Encrypt the payload of the copy at \<open>start\<close> in place, append the tag and the bytes that
  follow the payload in the packet; \<open>None\<close> when sealing fails.\<close>

definition seal_copy ::
    "crypto_lib \<Rightarrow> session \<Rightarrow> u64 \<Rightarrow> nat \<Rightarrow> nat \<Rightarrow> bytes \<Rightarrow> arena \<Rightarrow> fault + arena option" where
  "seal_copy L s seq start payload_len pkt a =
     (let payload_start = start + HEADER_SIZE in
      case encrypt_into_slice L s (slice_at_unchecked payload_start payload_len a) seq of
        Inl _ \<Rightarrow> Inr None
      | Inr (ct, tag) \<Rightarrow>
          bindr (poke payload_start ct a) (\<lambda>a.
          bindr (extend_from_tag_unchecked tag a) (\<lambda>a.
          bindr (if HEADER_SIZE + payload_len < length pkt
                 then extend_unchecked (drop (HEADER_SIZE + payload_len) pkt) a else Inr a) (\<lambda>a.
          Inr (Some a)))))"

definition set_arena :: "arena \<Rightarrow> batch \<Rightarrow> batch" where "set_arena a b = b\<lparr>b_arena := a\<rparr>"

definition add_stats :: "(fw_stats \<Rightarrow> fw_stats) \<Rightarrow> batch \<Rightarrow> batch" where
  "add_stats g b = b\<lparr>b_stats := g (b_stats b)\<rparr>"

definition count_encrypt :: "batch \<Rightarrow> batch" where
  "count_encrypt b = b\<lparr>b_metrics := (b_metrics b)\<lparr>encrypt_count := encrypt_count (b_metrics b) + 1\<rparr>\<rparr>"

definition count_lookup :: "batch \<Rightarrow> batch" where
  "count_lookup b = b\<lparr>b_metrics := (b_metrics b)\<lparr>lookup_calls := lookup_calls (b_metrics b) + 1\<rparr>\<rparr>"

definition count_hit :: "batch \<Rightarrow> batch" where
  "count_hit b = b\<lparr>b_metrics := (b_metrics b)\<lparr>lookup_hits := lookup_hits (b_metrics b) + 1\<rparr>\<rparr>"

text \<open>A packet forwarded as it is and counted as a route miss.\<close>

definition append_missed :: "bytes \<Rightarrow> batch \<Rightarrow> fault + batch" where
  "append_missed pkt b =
     (let start = arena_len (b_arena b) in
      bindr (extend_unchecked pkt (b_arena b)) (\<lambda>a.
      Inr (add_stats (inc_misses \<circ> inc_forwarded) (push_offset start (set_arena a b)))))"

subsection \<open>Primary mode\<close>

definition primary_step ::
    "crypto_lib \<Rightarrow> table \<Rightarrow> u64 \<Rightarrow> session option \<Rightarrow> batch \<Rightarrow> bytes \<Rightarrow> fault + batch" where
  "primary_step L t ep sess b pkt =
     (case HeaderViewRef_new pkt of
        Inl _ \<Rightarrow> append_missed pkt b
      | Inr h \<Rightarrow>
          let b = count_lookup b;
              (nh, sc) = lookup_spray_primary t ep (b_scache b) (ref_dst_id h) (ref_flow_label h);
              b = b\<lparr>b_scache := sc\<rparr>
          in case nh of
               None \<Rightarrow> append_missed pkt b
             | Some next_hop \<Rightarrow>
                 let b = count_hit b; seq = ref_seq_num h; payload_len = unat (ref_length h);
                     start = arena_len (b_arena b)
                 in bindr
                      (if HEADER_SIZE + payload_len \<le> length pkt \<and> 0 < payload_len then
                         bindr (copy_rewrite (take (HEADER_SIZE + payload_len) pkt) (Some next_hop) (b_arena b)) (\<lambda>a.
                         case sess of
                           None \<Rightarrow> Inr (set_arena a b, False, False)
                         | Some s \<Rightarrow>
                             bindr (seal_copy L s seq start payload_len pkt a) (\<lambda>sealed.
                             case sealed of
                               Some a \<Rightarrow> Inr (count_encrypt (set_arena a b), True, False)
                             | None \<Rightarrow> Inr (set_arena a b, False, True)))
                       else
                         bindr (copy_rewrite (take HEADER_SIZE pkt) (Some next_hop) (b_arena b)) (\<lambda>a.
                         Inr (set_arena a b, False, 0 < payload_len)))
                    (\<lambda>(b, was_encrypted, was_route_miss).
                      if was_route_miss then
                        let b = add_stats inc_misses (set_arena (arena_truncate start (b_arena b)) b);
                            f_start = arena_len (b_arena b)
                        in bindr (copy_rewrite pkt (Some next_hop) (b_arena b)) (\<lambda>a.
                           Inr (add_stats inc_forwarded (push_offset f_start (set_arena a b))))
                      else
                        let b = push_offset start b
                        in Inr (add_stats (if was_encrypted then inc_encrypted else inc_forwarded) b)))"

subsection \<open>Full spray, serial\<close>

text \<open>One copy of a packet: to the channel \<open>nh\<close>, or, when the destination has no channels,
  unchanged (\<open>None\<close>). The flag says whether the copy's destination is routed.\<close>

definition spray_copy ::
    "crypto_lib \<Rightarrow> table \<Rightarrow> u64 \<Rightarrow> session option \<Rightarrow> bytes \<Rightarrow> bytes \<Rightarrow> node_id option \<Rightarrow> batch \<Rightarrow> fault + bool \<times> batch" where
  "spray_copy L t ep sess h pkt nh b =
     (let start = arena_len (b_arena b);
          dst = (case nh of None \<Rightarrow> ref_dst_id h | Some d \<Rightarrow> d);
          (r, c) = lookup_or_predict t ep (b_cache b) (ref_src_id h) dst (ref_flow_label h);
          b = b\<lparr>b_cache := c\<rparr>; route_exists = (r \<noteq> None);
          seq = ref_seq_num h; payload_len = unat (ref_length h)
      in bindr
           (if route_exists then
              (case sess of
                 Some s \<Rightarrow>
                   if HEADER_SIZE + payload_len \<le> length pkt \<and> 0 < payload_len then
                     bindr (copy_rewrite (take (HEADER_SIZE + payload_len) pkt) nh (b_arena b)) (\<lambda>a.
                     bindr (seal_copy L s seq start payload_len pkt a) (\<lambda>sealed.
                     case sealed of
                       Some a \<Rightarrow> Inr (count_encrypt (set_arena a b), True, False)
                     | None \<Rightarrow>
                         bindr (copy_rewrite pkt nh (arena_truncate start a)) (\<lambda>a. Inr (set_arena a b, False, True))))
                   else bindr (copy_rewrite pkt nh (b_arena b)) (\<lambda>a. Inr (set_arena a b, False, 0 < payload_len))
               | None \<Rightarrow> bindr (copy_rewrite pkt nh (b_arena b)) (\<lambda>a. Inr (set_arena a b, False, False)))
            else bindr (copy_rewrite pkt nh (b_arena b)) (\<lambda>a. Inr (set_arena a b, False, True)))
         (\<lambda>(b, was_encrypted, was_route_miss).
           let b = push_offset start b;
               b = add_stats (if was_encrypted then inc_encrypted else inc_forwarded) b
           in Inr (route_exists, if was_route_miss then add_stats inc_misses b else b)))"

definition channel_step ::
    "crypto_lib \<Rightarrow> table \<Rightarrow> u64 \<Rightarrow> session option \<Rightarrow> bytes \<Rightarrow> bytes \<Rightarrow> batch \<Rightarrow> node_id \<Rightarrow> fault + batch" where
  "channel_step L t ep sess h pkt b nh =
     bindr (spray_copy L t ep sess h pkt (Some nh) b) (\<lambda>(_, b). Inr b)"

definition full_step ::
    "crypto_lib \<Rightarrow> table \<Rightarrow> u64 \<Rightarrow> session option \<Rightarrow> batch \<Rightarrow> bytes \<Rightarrow> fault + batch" where
  "full_step L t ep sess b pkt =
     (case HeaderViewRef_new pkt of
        Inl _ \<Rightarrow> append_missed pkt b
      | Inr h \<Rightarrow>
          let b = count_lookup b;
              (ch_count, channels_buf) =
                lookup_spray_buf t (ref_dst_id h) (ref_flow_label h) (replicate 16 (fill_arr 0, False));
              chans = take ch_count channels_buf
          in if chans = [] then
               bindr (spray_copy L t ep sess h pkt None b) (\<lambda>(route_exists, b).
               Inr (if route_exists then count_hit b else b))
             else loop_r (channel_step L t ep sess h pkt) (count_hit b) (map fst chans))"

subsection \<open>Full spray, parallel\<close>

definition duplicate :: "table \<Rightarrow> bytes \<Rightarrow> bytes list" where
  "duplicate t pkt =
     (case HeaderViewRef_new pkt of
        Inl _ \<Rightarrow> [pkt]
      | Inr h \<Rightarrow>
          let (ch_count, channels_buf) =
                lookup_spray_buf t (ref_dst_id h) (ref_flow_label h) (replicate 16 (fill_arr 0, False));
              chans = take ch_count channels_buf
          in if chans = [] then [pkt] else map (\<lambda>(nh, _). overwrite 32 (bytes_of nh) pkt) chans)"

subsection \<open>Batches\<close>

definition add_mcr :: "fw_stats \<Rightarrow> forwarder \<Rightarrow> forwarder" where
  "add_mcr st f = f\<lparr>mcr_forwarded := mcr_forwarded f + of_nat (forwarded st),
     mcr_dropped := mcr_dropped f + of_nat (route_misses st)\<rparr>"

type_synonym batch_outcome = "fault + fw_stats \<times> sent option \<times> forwarder \<times> process"

definition mcr_primary :: "crypto_lib \<Rightarrow> bytes list \<Rightarrow> arena \<Rightarrow> forwarder \<Rightarrow> process \<Rightarrow> batch_outcome" where
  "mcr_primary L frames a f w =
     (let n = length frames in
      bindr (loop_r (primary_step L (routes f) (epoch w) (fsession f)) (batch_start f a w n) frames) (\<lambda>b.
      let b = count_handled n b;
          w = apply_metrics b (batch_caches b w);
          f = add_mcr (b_stats b) (store_batch b f);
          w = add_processed (received (b_stats b)) w
      in Inr (b_stats b, Some (batch_out b), f, w)))"

text \<open>The full-spray path counts the handled packets twice.\<close>

definition mcr_full_serial :: "crypto_lib \<Rightarrow> bytes list \<Rightarrow> arena \<Rightarrow> forwarder \<Rightarrow> process \<Rightarrow> batch_outcome" where
  "mcr_full_serial L frames a f w =
     (let n = length frames in
      bindr (loop_r (full_step L (routes f) (epoch w) (fsession f)) (batch_start f a w n) frames) (\<lambda>b.
      let b = count_handled n b;
          w = apply_metrics b (batch_caches b w);
          f = add_mcr (b_stats b) (store_batch b f);
          w = add_processed (received (b_stats b)) w;
          w = add_handle_count (received (b_stats b)) w
      in Inr (b_stats b, Some (batch_out b), f, w)))"

definition mcr_full_parallel ::
    "crypto_lib \<Rightarrow> (nat \<times> nat) list \<Rightarrow> bytes list \<Rightarrow> arena \<Rightarrow> forwarder \<Rightarrow> process \<Rightarrow> batch_outcome" where
  "mcr_full_parallel L sched frames a f w =
     (let duplicated = concat (map (duplicate (routes f)) frames);
          (outputs, cs) = par_map (process_packet_owned_consuming L (routes f) (epoch w) (fsession f))
             sched duplicated (tcaches w);
          w = w\<lparr>tcaches := cs\<rparr>
      in bindr (arena_reserve (sum_list (map (length \<circ> out_bytes) outputs)) a) (\<lambda>a.
         bindr (loop_r append_output (batch_start f a w (length frames)) outputs) (\<lambda>b.
         let w = apply_metrics b w;
             f = add_mcr (b_stats b) (store_batch b f);
             w = add_processed (received (b_stats b)) w
         in Inr (b_stats b, Some (batch_out b), f, w))))"

definition process_batch_mcr ::
    "crypto_lib \<Rightarrow> nat \<Rightarrow> (nat \<times> nat) list \<Rightarrow> bytes list \<Rightarrow> forwarder \<Rightarrow> process \<Rightarrow> batch_outcome" where
  "process_batch_mcr L threads sched frames f w =
     (if frames = [] then Inr (stats_of 0, None, f, w)
      else
        let spray_multiplier = (if mcr_spray_mode f = ''full'' then 3 else 1) in
        bindr (arena_reserve ((sum_list (map length frames) + length frames * TAG_SIZE) * spray_multiplier)
                 (arena_clear (arena f))) (\<lambda>a.
        if mcr_spray_mode f \<noteq> ''full'' then mcr_primary L frames a f w
        else if length frames < PARALLEL_BATCH_THRESHOLD \<or> threads \<le> 1 then mcr_full_serial L frames a f w
        else mcr_full_parallel L sched frames a f w))"

definition process_batch ::
    "crypto_lib \<Rightarrow> nat \<Rightarrow> (nat \<times> nat) list \<Rightarrow> bytes list \<Rightarrow> forwarder \<Rightarrow> process \<Rightarrow> batch_outcome" where
  "process_batch L threads sched frames f w =
     (if mcr_enabled f then process_batch_mcr L threads sched frames f w
      else process_batch_plain L threads sched frames f w)"

definition process_batch_spray_full ::
    "crypto_lib \<Rightarrow> nat \<Rightarrow> (nat \<times> nat) list \<Rightarrow> bytes list \<Rightarrow> forwarder \<Rightarrow> process \<Rightarrow> batch_outcome" where
  "process_batch_spray_full L threads sched frames f w = process_batch_mcr L threads sched frames f w"

subsection \<open>Specification\<close>

definition rewrite_dst :: "node_id option \<Rightarrow> bytes \<Rightarrow> bytes" where
  "rewrite_dst nh pkt = (case nh of None \<Rightarrow> pkt | Some d \<Rightarrow> overwrite 32 (bytes_of d) pkt)"

text \<open>A packet whose payload is sealed: new header, ciphertext, tag, and what followed the payload.\<close>

definition sealed_packet :: "crypto_lib \<Rightarrow> session \<Rightarrow> node_id option \<Rightarrow> bytes \<Rightarrow> bytes option" where
  "sealed_packet L s nh pkt =
     (case encrypt_into_slice L s (payload_of pkt) (ref_seq_num pkt) of
        Inl _ \<Rightarrow> None
      | Inr (ct, tag) \<Rightarrow> Some (take HEADER_SIZE (rewrite_dst nh pkt) @ ct @ bytes_of tag
          @ drop (HEADER_SIZE + unat (ref_length pkt)) pkt))"

definition primary_spec :: "crypto_lib \<Rightarrow> table \<Rightarrow> session option \<Rightarrow> bytes \<Rightarrow> bytes \<times> outcome" where
  "primary_spec L t sess pkt =
     (if length pkt < HEADER_SIZE then (pkt, Missed)
      else case spray_hop_of t (ref_dst_id pkt) (ref_flow_label pkt) of
        None \<Rightarrow> (pkt, Missed)
      | Some d \<Rightarrow>
          let rw = rewrite_dst (Some d) pkt; n = unat (ref_length pkt) in
          if payload_present pkt then
            (case sess of
               None \<Rightarrow> (take (HEADER_SIZE + n) rw, Plain)
             | Some s \<Rightarrow> (case sealed_packet L s (Some d) pkt of
                            Some out \<Rightarrow> (out, Encrypted) | None \<Rightarrow> (rw, Missed)))
          else if 0 < n then (rw, Missed) else (take HEADER_SIZE rw, Plain))"

definition copy_spec :: "crypto_lib \<Rightarrow> session option \<Rightarrow> bool \<Rightarrow> node_id option \<Rightarrow> bytes \<Rightarrow> bytes \<times> outcome" where
  "copy_spec L sess routed nh pkt =
     (let rw = rewrite_dst nh pkt in
      if \<not> routed then (rw, Missed)
      else case sess of
        None \<Rightarrow> (rw, Plain)
      | Some s \<Rightarrow>
          if payload_present pkt then
            (case sealed_packet L s nh pkt of Some out \<Rightarrow> (out, Encrypted) | None \<Rightarrow> (rw, Missed))
          else (rw, if 0 < unat (ref_length pkt) then Missed else Plain))"

definition hit_for :: "table \<Rightarrow> bytes \<Rightarrow> node_id \<Rightarrow> bool" where
  "hit_for t pkt d \<longleftrightarrow> hop_of t d \<noteq> None
     \<or> lookup_predictive_fallback t (ref_src_id pkt) d (ref_flow_label pkt) \<noteq> None"

definition channels_of :: "table \<Rightarrow> bytes \<Rightarrow> node_id list" where
  "channels_of t pkt = map fst (lookup_spray t (ref_dst_id pkt) (ref_flow_label pkt))"

definition full_spec :: "crypto_lib \<Rightarrow> table \<Rightarrow> session option \<Rightarrow> bytes \<Rightarrow> (bytes \<times> outcome) list" where
  "full_spec L t sess pkt =
     (if length pkt < HEADER_SIZE then [(pkt, Missed)]
      else if channels_of t pkt = [] then [copy_spec L sess (hit_for t pkt (ref_dst_id pkt)) None pkt]
      else map (\<lambda>d. copy_spec L sess (hit_for t pkt d) (Some d) pkt) (channels_of t pkt))"

subsection \<open>The helpers append what is specified\<close>

lemma length_rewrite [simp]: "64 \<le> length pkt \<Longrightarrow> length (rewrite_dst nh pkt) = length pkt"
  by (cases nh) (simp_all add: rewrite_dst_def slice_simps)

lemma rewrite_take: "64 \<le> k \<Longrightarrow> k \<le> length pkt \<Longrightarrow> rewrite_dst nh (take k pkt) = take k (rewrite_dst nh pkt)"
  by (cases nh) (simp_all add: rewrite_dst_def overwrite_def min_def drop_take)

lemma copy_rewrite_exact:
  assumes "64 \<le> length src"
  shows "copy_rewrite src nh a =
    (if arena_len a + length src \<le> cap a then Inr (a\<lparr>content := content a @ rewrite_dst nh src\<rparr>) else Inl OobWrite)"
  using assms poke_extended [of 32 "bytes_of d" src a for d :: node_id]
  by (cases nh) (simp_all add: copy_rewrite_def rewrite_dst_def extend_unchecked_def)

lemma payload_of_rewrite:
  "HEADER_SIZE + unat (ref_length pkt) \<le> length pkt \<Longrightarrow>
   subslice HEADER_SIZE (unat (ref_length pkt)) (take (HEADER_SIZE + unat (ref_length pkt)) (rewrite_dst nh pkt)) = payload_of pkt"
  by (cases nh) (simp_all add: rewrite_dst_def payload_of_def slice_take HEADER_SIZE_def slice_overwrite_disjoint)

lemma extend_tag_exact:
  "extend_from_tag_unchecked tag a =
    (if arena_len a + 16 \<le> cap a then Inr (a\<lparr>content := content a @ bytes_of tag\<rparr>) else Inl OobWrite)"
  by (simp add: extend_from_tag_unchecked_def extend_unchecked_def)

lemma seal_copy_exact:
  assumes "seal_keeps_length L" "payload_present pkt"
  defines "n \<equiv> unat (ref_length pkt)"
  shows "seal_copy L s (ref_seq_num pkt) (arena_len a) n pkt
      (a\<lparr>content := content a @ take (HEADER_SIZE + n) (rewrite_dst nh pkt)\<rparr>) =
    (case sealed_packet L s nh pkt of
       None \<Rightarrow> Inr None
     | Some out \<Rightarrow> if arena_len a + length out \<le> cap a
         then Inr (Some (a\<lparr>content := content a @ out\<rparr>)) else Inl OobWrite)"
proof -
  have n: "HEADER_SIZE + n \<le> length pkt" "0 < n" using assms(2) by (simp_all add: payload_present_def n_def)
  let ?x = "take (HEADER_SIZE + n) (rewrite_dst nh pkt)"
  have len: "length (rewrite_dst nh pkt) = length pkt" using n by (simp add: HEADER_SIZE_def)
  have sl: "slice_at_unchecked (arena_len a + HEADER_SIZE) n (a\<lparr>content := content a @ ?x\<rparr>) = payload_of pkt"
    using payload_of_rewrite n(1) by (simp add: slice_extended n_def)
  show ?thesis
  proof (cases "encrypt_into_slice L s (payload_of pkt) (ref_seq_num pkt)")
    case (Inl e)
    then show ?thesis by (simp add: seal_copy_def Let_def sl sealed_packet_def)
  next
    case (Inr r)
    obtain ct tag where r: "r = (ct, tag)" by fastforce
    have lct: "length ct = n"
      using into_slice_length [OF assms(1) Inr [unfolded r]] payload_of_length [OF assms(2)] by (simp add: n_def)
    have ow: "overwrite HEADER_SIZE ct ?x = take HEADER_SIZE (rewrite_dst nh pkt) @ ct"
      using lct len n by (simp add: overwrite_def min_def)
    have pk: "poke (arena_len a + HEADER_SIZE) ct (a\<lparr>content := content a @ ?x\<rparr>) =
        Inr (a\<lparr>content := content a @ take HEADER_SIZE (rewrite_dst nh pkt) @ ct\<rparr>)"
      using lct len n by (subst poke_extended) (simp_all add: ow)
    show ?thesis
      using lct len n
      by (simp add: seal_copy_def Let_def sl Inr r pk extend_tag_exact extend_unchecked_def sealed_packet_def
          n_def [symmetric]) (auto simp: arena_len_def)
  qed
qed

lemma sealed_packet_length:
  assumes "seal_keeps_length L" "payload_present pkt" "sealed_packet L s nh pkt = Some out"
  shows "length out = length pkt + TAG_SIZE"
proof -
  have n: "HEADER_SIZE + unat (ref_length pkt) \<le> length pkt" using assms(2) by (simp add: payload_present_def)
  then have "length (rewrite_dst nh pkt) = length pkt" by (simp add: HEADER_SIZE_def)
  with assms n into_slice_length [OF assms(1)] payload_of_length [OF assms(2)] show ?thesis
    by (fastforce simp: sealed_packet_def TAG_SIZE_def split: sum.splits)
qed

subsection \<open>Every step appends what is specified\<close>

definition primary_metrics :: "table \<Rightarrow> bytes \<Rightarrow> outcome \<Rightarrow> local_metrics \<Rightarrow> local_metrics" where
  "primary_metrics t pkt k m =
     (if length pkt < HEADER_SIZE then m
      else m\<lparr>lookup_calls := lookup_calls m + 1,
             lookup_hits := lookup_hits m + (if spray_hop_of t (ref_dst_id pkt) (ref_flow_label pkt) = None then 0 else 1),
             encrypt_count := encrypt_count m + (if k = Encrypted then 1 else 0)\<rparr>)"

lemma append_missed_exact:
  "append_missed pkt b = (if arena_len (b_arena b) + length pkt \<le> cap (b_arena b)
     then Inr (emit pkt Missed b) else Inl OobWrite)"
  by (simp add: append_missed_def Let_def extend_unchecked_def emit_def push_offset_def set_arena_def add_stats_def
      count_outcome_def arena_len_def)

lemma primary_step_exact:
  assumes "spray_ok t ep (b_scache b)" "seal_keeps_length L"
  shows "\<exists>sc. spray_ok t ep sc \<and> primary_step L t ep sess b pkt =
     (if arena_len (b_arena b) + length (fst (primary_spec L t sess pkt)) \<le> cap (b_arena b)
      then Inr ((emit (fst (primary_spec L t sess pkt)) (snd (primary_spec L t sess pkt)) b)
             \<lparr>b_scache := sc, b_metrics := primary_metrics t pkt (snd (primary_spec L t sess pkt)) (b_metrics b)\<rparr>)
      else Inl OobWrite)"
proof (cases "length pkt < HEADER_SIZE")
  case True
  then have "HeaderViewRef_new pkt = Inl ErrBufferTooSmall" by (simp add: HeaderViewRef_new_def)
  with True assms show ?thesis
    by (intro exI [of _ "b_scache b"])
      (simp add: primary_step_def append_missed_exact primary_spec_def primary_metrics_def; simp add: emit_def)
next
  case long: False
  then have h: "HeaderViewRef_new pkt = Inr (take 96 pkt)" by (simp add: HeaderViewRef_new_def HEADER_SIZE_def)
  let ?d = "spray_hop_of t (ref_dst_id pkt) (ref_flow_label pkt)"
  obtain sc where sc: "lookup_spray_primary t ep (b_scache b) (ref_dst_id pkt) (ref_flow_label pkt) = (?d, sc)"
    "spray_ok t ep sc" using assms(1) by (rule spray_primary.look_cases)
  have ex: "\<exists>c. spray_ok t ep c \<and> P c" if "P sc" for P using sc(2) that by blast
  have long': "64 \<le> length pkt" "\<not> length pkt < HEADER_SIZE" "HEADER_SIZE \<le> length pkt"
    using long by (simp_all add: HEADER_SIZE_def)
  show ?thesis
  proof (cases ?d)
    case None
    then show ?thesis
      using long' sc(1)
      by (intro ex) (simp add: primary_step_def h ref_take Let_def append_missed_exact primary_spec_def primary_metrics_def
          count_lookup_def; simp add: emit_def)
  next
    case (Some d)
    let ?n = "unat (ref_length pkt)" and ?rw = "rewrite_dst (Some d) pkt" and ?a = "b_arena b"
    note base = primary_step_def h ref_take Let_def primary_spec_def primary_metrics_def
      count_lookup_def count_hit_def count_encrypt_def set_arena_def add_stats_def push_offset_def sc(1) Some long'
    show ?thesis
    proof (cases "payload_present pkt")
      case False
      have fit: "length (content ?a) + length pkt \<le> cap ?a \<Longrightarrow> length (content ?a) + HEADER_SIZE \<le> cap ?a"
        using long'(3) by simp
      have np: "\<not> (HEADER_SIZE + ?n \<le> length pkt \<and> 0 < ?n)"
        using False by (simp add: payload_present_def)
      have c: "copy_rewrite (take HEADER_SIZE pkt) (Some d) ?a =
          (if arena_len ?a + HEADER_SIZE \<le> cap ?a then Inr (?a\<lparr>content := content ?a @ take HEADER_SIZE ?rw\<rparr>) else Inl OobWrite)"
        using long' by (subst copy_rewrite_exact) (simp_all add: rewrite_take HEADER_SIZE_def)
      show ?thesis
        using False long' np
        by (intro ex) (simp add: base c; auto simp: copy_rewrite_exact emit_def count_outcome_def
            inc_forwarded_def inc_misses_def arena_len_def arena_truncate_def long' dest: fit)
    next
      case True
      then have n: "HEADER_SIZE + ?n \<le> length pkt" "0 < ?n" by (simp_all add: payload_present_def)
      have c: "copy_rewrite (take (HEADER_SIZE + ?n) pkt) (Some d) ?a =
          (if arena_len ?a + (HEADER_SIZE + ?n) \<le> cap ?a
           then Inr (?a\<lparr>content := content ?a @ take (HEADER_SIZE + ?n) ?rw\<rparr>) else Inl OobWrite)"
        using n by (subst copy_rewrite_exact) (simp_all add: rewrite_take HEADER_SIZE_def)
      show ?thesis
      proof (cases sess)
        case None
        then show ?thesis
          using True n
          by (intro ex) (auto simp: base c emit_def count_outcome_def arena_len_def)
      next
        case (Some s)
        note seal = seal_copy_exact [OF assms(2) True, of s ?a "Some d"]
        have len: "length out = length pkt + TAG_SIZE" if "sealed_packet L s (Some d) pkt = Some out" for out
          by (rule sealed_packet_length [OF assms(2) True that])
        show ?thesis
        proof (cases "arena_len ?a + (HEADER_SIZE + ?n) \<le> cap ?a")
          case False
          then show ?thesis
            using True n Some len
            by (intro ex) (auto simp: base c split: option.splits)
        next
          case fits: True
          show ?thesis
          proof (cases "sealed_packet L s (Some d) pkt")
            case None
            then show ?thesis
              using True n Some fits seal
              by (intro ex) (auto simp: base c copy_rewrite_exact emit_def count_outcome_def
                  inc_forwarded_def inc_misses_def arena_len_def arena_truncate_def)
          next
            case sealed: (Some out)
            then show ?thesis
              using True n Some fits seal
              by (intro ex) (auto simp: base c emit_def count_outcome_def arena_len_def)
          qed
        qed
      qed
    qed
  qed
qed

lemma or_predict_hit_for:
  assumes "cache_ok t ep c"
  shows "(fst (lookup_or_predict t ep c (ref_src_id pkt) d (ref_flow_label pkt)) \<noteq> None) = hit_for t pkt d"
proof -
  obtain c' where "lookup_next_hop t ep c d (ref_flow_label pkt) = (hop_of t d, c')"
    using assms by (rule next_hop.look_cases)
  then show ?thesis by (auto simp: lookup_or_predict_def hit_for_def split: option.splits)
qed

definition spray_target :: "bytes \<Rightarrow> node_id option \<Rightarrow> node_id" where
  "spray_target pkt nh = (case nh of None \<Rightarrow> ref_dst_id pkt | Some d \<Rightarrow> d)"

lemma arena_of_cache: "b_arena (b\<lparr>b_cache := c\<rparr>) = b_arena b"
  by simp

lemma spray_copy_exact:
  fixes nh sess
  assumes "cache_ok t ep (b_cache b)" "seal_keeps_length L" "\<not> length pkt < HEADER_SIZE"
  defines "routed \<equiv> hit_for t pkt (spray_target pkt nh)"
  defines "r \<equiv> copy_spec L sess routed nh pkt"
  shows "\<exists>c m. cache_ok t ep c \<and> spray_copy L t ep sess (take 96 pkt) pkt nh b =
     (if arena_len (b_arena b) + length (fst r) \<le> cap (b_arena b)
      then Inr (routed, (emit (fst r) (snd r) b)\<lparr>b_cache := c, b_metrics := m\<rparr>) else Inl OobWrite)"
proof -
  obtain x c where l: "lookup_or_predict t ep (b_cache b) (ref_src_id pkt) (spray_target pkt nh) (ref_flow_label pkt) = (x, c)"
    by fastforce
  then have x: "(x \<noteq> None) = routed" and c: "cache_ok t ep c"
    using or_predict_hit_for [OF assms(1), of pkt "spray_target pkt nh"]
      or_predict_hit(2) [OF assms(1), of "ref_src_id pkt" "spray_target pkt nh" "ref_flow_label pkt"]
    by (simp_all add: routed_def)
  have ex: "\<exists>c m. cache_ok t ep c \<and> P c m" if "P c m" for P m using c that by blast
  have long: "64 \<le> length pkt" using assms(3) by (simp add: HEADER_SIZE_def)
  let ?a = "b_arena b" and ?n = "unat (ref_length pkt)"
  have base: "spray_copy L t ep sess (take 96 pkt) pkt nh b =
     bindr
       (if routed then
          (case sess of
             Some s \<Rightarrow>
               if HEADER_SIZE + ?n \<le> length pkt \<and> 0 < ?n then
                 bindr (copy_rewrite (take (HEADER_SIZE + ?n) pkt) nh ?a) (\<lambda>a.
                 bindr (seal_copy L s (ref_seq_num pkt) (arena_len ?a) ?n pkt a) (\<lambda>sealed.
                 case sealed of
                   Some a \<Rightarrow> Inr (count_encrypt (set_arena a (b\<lparr>b_cache := c\<rparr>)), True, False)
                 | None \<Rightarrow> bindr (copy_rewrite pkt nh (arena_truncate (arena_len ?a) a))
                     (\<lambda>a. Inr (set_arena a (b\<lparr>b_cache := c\<rparr>), False, True))))
               else bindr (copy_rewrite pkt nh ?a) (\<lambda>a. Inr (set_arena a (b\<lparr>b_cache := c\<rparr>), False, 0 < ?n))
           | None \<Rightarrow> bindr (copy_rewrite pkt nh ?a) (\<lambda>a. Inr (set_arena a (b\<lparr>b_cache := c\<rparr>), False, False)))
        else bindr (copy_rewrite pkt nh ?a) (\<lambda>a. Inr (set_arena a (b\<lparr>b_cache := c\<rparr>), False, True)))
     (\<lambda>(b, was_encrypted, was_route_miss).
       let b = push_offset (arena_len ?a) b;
           b = add_stats (if was_encrypted then inc_encrypted else inc_forwarded) b
       in Inr (routed, if was_route_miss then add_stats inc_misses b else b))"
    unfolding spray_copy_def Let_def ref_take spray_target_def [symmetric] l prod.case x arena_of_cache by (rule refl)
  note fin = set_arena_def add_stats_def push_offset_def count_encrypt_def emit_def count_outcome_def
    inc_forwarded_def inc_misses_def arena_len_def arena_truncate_def Let_def
  show ?thesis
  proof (cases "routed \<and> sess \<noteq> None \<and> payload_present pkt")
    case False
    then show ?thesis
      unfolding base r_def copy_spec_def Let_def
      using long
      by (intro ex [of _ "b_metrics b"])
        (auto simp: copy_rewrite_exact payload_present_def split: option.splits; auto simp: fin)
  next
    case True
    then obtain s where s: "sess = Some s" "routed" "payload_present pkt" by auto
    then have n: "HEADER_SIZE + ?n \<le> length pkt" "0 < ?n" by (simp_all add: payload_present_def)
    have c: "copy_rewrite (take (HEADER_SIZE + ?n) pkt) nh ?a =
        (if arena_len ?a + (HEADER_SIZE + ?n) \<le> cap ?a
         then Inr (?a\<lparr>content := content ?a @ take (HEADER_SIZE + ?n) (rewrite_dst nh pkt)\<rparr>) else Inl OobWrite)"
      using n by (subst copy_rewrite_exact) (simp_all add: rewrite_take HEADER_SIZE_def)
    note seal = seal_copy_exact [OF assms(2) s(3), of s ?a nh]
    show ?thesis
    proof (cases "sealed_packet L s nh pkt")
      case None
      then show ?thesis
        unfolding base r_def copy_spec_def Let_def
        using s n long seal
        by (intro ex [of _ "b_metrics b"]) (simp add: c copy_rewrite_exact; auto simp: fin)
    next
      case (Some out)
      have "length out = length pkt + TAG_SIZE" by (rule sealed_packet_length [OF assms(2) s(3) Some])
      then show ?thesis
        unfolding base r_def copy_spec_def Let_def
        using s n Some seal
        by (intro ex [of _ "(b_metrics b)\<lparr>encrypt_count := encrypt_count (b_metrics b) + 1\<rparr>"])
          (simp add: c; auto simp: fin)
    qed
  qed
qed

subsection \<open>Loops that append exactly\<close>

text \<open>A step that appends the outputs of its item when they fit and faults when they do not:
  stronger than a budget, since it also says when the loop runs out.\<close>

definition total_bytes :: "(bytes \<times> outcome) list \<Rightarrow> nat" where
  "total_bytes outs = sum_list (map (\<lambda>r. length (fst r)) outs)"

lemma total_bytes_append [simp]: "total_bytes (xs @ ys) = total_bytes xs + total_bytes ys"
  by (simp add: total_bytes_def)

lemma total_bytes_concat: "length (concat (map fst outs)) = total_bytes outs"
  by (induction outs) (simp_all add: total_bytes_def)

definition appends_exactly :: "(batch \<Rightarrow> bool) \<Rightarrow> (bytes \<times> outcome) list \<Rightarrow> batch \<Rightarrow> fault + batch \<Rightarrow> bool" where
  "appends_exactly I outs b r \<longleftrightarrow>
     (if arena_len (b_arena b) + total_bytes outs \<le> cap (b_arena b)
      then \<exists>b'. r = Inr b' \<and> I b' \<and> emits outs b b'
      else r = Inl OobWrite)"

locale exact_writer =
  fixes step :: "batch \<Rightarrow> 'p \<Rightarrow> fault + batch" and spec :: "'p \<Rightarrow> (bytes \<times> outcome) list"
    and inv :: "batch \<Rightarrow> bool"
  assumes step_exact: "inv b \<Longrightarrow> appends_exactly inv (spec p) b (step b p)"
    and inv_fits: "inv b \<Longrightarrow> arena_len (b_arena b) \<le> cap (b_arena b)"
begin

lemma loop_exact: "inv b \<Longrightarrow> appends_exactly inv (concat (map spec ps)) b (loop_r step b ps)"
proof (induction ps arbitrary: b)
  case Nil
  then show ?case using inv_fits by (auto simp: appends_exactly_def total_bytes_def emits_Nil)
next
  case (Cons p ps)
  show ?case
  proof (cases "arena_len (b_arena b) + total_bytes (spec p) \<le> cap (b_arena b)")
    case True
    with step_exact [OF Cons.prems, of p] obtain b1 where b1: "step b p = Inr b1" "inv b1" "emits (spec p) b b1"
      by (auto simp: appends_exactly_def)
    from b1(3) have a: "arena_len (b_arena b1) = arena_len (b_arena b) + total_bytes (spec p)" "cap (b_arena b1) = cap (b_arena b)"
      by (simp_all add: emits_def arena_len_def total_bytes_concat)
    have tr: "emits (concat (map spec ps)) b1 b' \<Longrightarrow> emits (spec p @ concat (map spec ps)) b b'" for b'
      by (rule emits_trans [OF b1(3)])
    from Cons.IH [OF b1(2)] show ?thesis
      by (auto simp: appends_exactly_def a b1(1) add.assoc tr)
  next
    case False
    with step_exact [OF Cons.prems, of p] show ?thesis by (simp add: appends_exactly_def)
  qed
qed

end

sublocale exact_writer \<subseteq> budget_loop step room "\<lambda>p. total_bytes (spec p)"
  "inv" "\<lambda>b ps b'. emits (concat (map spec ps)) b b'"
proof unfold_locales
  fix b p assume b: "inv b" and le: "total_bytes (spec p) \<le> room b"
  then have "arena_len (b_arena b) + total_bytes (spec p) \<le> cap (b_arena b)"
    using inv_fits [OF b] by (simp add: room_def)
  with step_exact [OF b, of p] obtain b' where b': "step b p = Inr b'" "inv b'" "emits (spec p) b b'"
    by (auto simp: appends_exactly_def)
  from b'(3) have "arena_len (b_arena b') = arena_len (b_arena b) + total_bytes (spec p)" "cap (b_arena b') = cap (b_arena b)"
    by (simp_all add: emits_def arena_len_def total_bytes_concat)
  with b' le show "\<exists>b'. step b p = Inr b' \<and> inv b' \<and> room b \<le> room b' + total_bytes (spec p)
      \<and> emits (concat (map spec [p])) b b'"
    by (auto simp: room_def)
qed (auto simp: emits_Nil intro: emits_trans)

definition mcr_inv :: "crypto_lib \<Rightarrow> table \<Rightarrow> u64 \<Rightarrow> batch \<Rightarrow> bool" where
  "mcr_inv L t ep b \<longleftrightarrow> arena_len (b_arena b) \<le> cap (b_arena b) \<and> seal_keeps_length L \<and> cache_ok t ep (b_cache b) \<and> spray_ok t ep (b_scache b)"

lemma emits_one: "emits [(out, k)] b b' \<longleftrightarrow> b' = (emit out k b)\<lparr>b_cache := b_cache b', b_scache := b_scache b', b_metrics := b_metrics b'\<rparr>"
proof
  assume "emits [(out, k)] b b'"
  then show "b' = (emit out k b)\<lparr>b_cache := b_cache b', b_scache := b_scache b', b_metrics := b_metrics b'\<rparr>"
    using emits_emit [of out k b] by (simp add: emits_def)
next
  assume "b' = (emit out k b)\<lparr>b_cache := b_cache b', b_scache := b_scache b', b_metrics := b_metrics b'\<rparr>"
  then have "emits [(out, k)] b b' = emits [(out, k)] b (emit out k b)" by (metis emits_more)
  then show "emits [(out, k)] b b'" using emits_emit by simp
qed

interpretation primary_writer: exact_writer "primary_step L t ep sess" "\<lambda>p. [primary_spec L t sess p]" "mcr_inv L t ep"
  for L t ep sess
proof unfold_locales
  fix b p assume inv: "mcr_inv L t ep b"
  let ?r = "primary_spec L t sess p"
  from inv have "spray_ok t ep (b_scache b)" "seal_keeps_length L" by (simp_all add: mcr_inv_def)
  from primary_step_exact [OF this, of sess p] obtain sc m where sc: "spray_ok t ep sc"
    "primary_step L t ep sess b p = (if arena_len (b_arena b) + length (fst ?r) \<le> cap (b_arena b)
      then Inr ((emit (fst ?r) (snd ?r) b)\<lparr>b_scache := sc, b_metrics := m\<rparr>) else Inl OobWrite)" by blast
  then show "appends_exactly (mcr_inv L t ep) [?r] b (primary_step L t ep sess b p)"
    using inv emits_emit [of "fst ?r" "snd ?r" b] by (simp add: appends_exactly_def total_bytes_def mcr_inv_def)
qed (simp add: mcr_inv_def)

definition copies_spec :: "crypto_lib \<Rightarrow> table \<Rightarrow> session option \<Rightarrow> bytes \<Rightarrow> node_id option \<Rightarrow> bytes \<times> outcome" where
  "copies_spec L t sess pkt nh = copy_spec L sess (hit_for t pkt (spray_target pkt nh)) nh pkt"

lemma spray_copy_appends:
  assumes "mcr_inv L t ep b" "\<not> length pkt < HEADER_SIZE"
  shows "appends_exactly (mcr_inv L t ep) [copies_spec L t sess pkt nh] b
     (bindr (spray_copy L t ep sess (take 96 pkt) pkt nh b) (\<lambda>(r, b). Inr (if f r then count_hit b else b)))"
proof -
  let ?r = "copies_spec L t sess pkt nh" and ?h = "hit_for t pkt (spray_target pkt nh)"
  from assms(1) have "cache_ok t ep (b_cache b)" "seal_keeps_length L" by (simp_all add: mcr_inv_def)
  from spray_copy_exact [OF this assms(2), where nh = nh and sess = sess] obtain c m where c: "cache_ok t ep c"
    "spray_copy L t ep sess (take 96 pkt) pkt nh b = (if arena_len (b_arena b) + length (fst ?r) \<le> cap (b_arena b)
      then Inr (?h, (emit (fst ?r) (snd ?r) b)\<lparr>b_cache := c, b_metrics := m\<rparr>) else Inl OobWrite)"
    unfolding copies_spec_def by blast
  then show ?thesis
    using assms(1) emits_emit [of "fst ?r" "snd ?r" b]
    by (simp add: appends_exactly_def total_bytes_def mcr_inv_def count_hit_def)
qed

interpretation channel_writer: exact_writer "channel_step L t ep sess (take 96 pkt) pkt"
  "\<lambda>d. [copies_spec L t sess pkt (Some d)]" "\<lambda>b. mcr_inv L t ep b \<and> \<not> length pkt < HEADER_SIZE" for L t ep sess pkt
proof unfold_locales
  fix b d assume "mcr_inv L t ep b \<and> \<not> length pkt < HEADER_SIZE"
  then show "appends_exactly (\<lambda>b. mcr_inv L t ep b \<and> \<not> length pkt < HEADER_SIZE)
      [copies_spec L t sess pkt (Some d)] b (channel_step L t ep sess (take 96 pkt) pkt b d)"
    using spray_copy_appends [of L t ep b pkt sess "Some d" "\<lambda>_. False"]
    by (simp add: channel_step_def appends_exactly_def split_def)
qed (simp add: mcr_inv_def)

lemma spray_buf_channels:
  "(case lookup_spray_buf t (ref_dst_id pkt) (ref_flow_label pkt) (replicate 16 (fill_arr 0, False)) of
      (n, buf) \<Rightarrow> take n buf) = lookup_spray t (ref_dst_id pkt) (ref_flow_label pkt)"
  by (simp add: lookup_spray_def)

lemma full_spec_channels:
  "\<not> length pkt < HEADER_SIZE \<Longrightarrow> channels_of t pkt \<noteq> [] \<Longrightarrow>
   full_spec L t sess pkt = concat (map (\<lambda>d. [copies_spec L t sess pkt (Some d)]) (channels_of t pkt))"
  by (simp add: full_spec_def copies_spec_def spray_target_def)

interpretation full_writer: exact_writer "full_step L t ep sess" "full_spec L t sess" "mcr_inv L t ep" for L t ep sess
proof unfold_locales
  fix b p assume inv: "mcr_inv L t ep b"
  show "appends_exactly (mcr_inv L t ep) (full_spec L t sess p) b (full_step L t ep sess b p)"
  proof (cases "length p < HEADER_SIZE")
    case True
    then have "HeaderViewRef_new p = Inl ErrBufferTooSmall" by (simp add: HeaderViewRef_new_def)
    then show ?thesis
      using True inv emits_emit [of p Missed b]
      by (simp add: full_step_def append_missed_exact full_spec_def appends_exactly_def total_bytes_def mcr_inv_def)
  next
    case long: False
    then have h: "HeaderViewRef_new p = Inr (take 96 p)" by (simp add: HeaderViewRef_new_def HEADER_SIZE_def)
    have eq: "full_step L t ep sess b p =
      (if channels_of t p = [] then
         bindr (spray_copy L t ep sess (take 96 p) p None (count_lookup b)) (\<lambda>(r, b). Inr (if r then count_hit b else b))
       else loop_r (channel_step L t ep sess (take 96 p) p) (count_hit (count_lookup b)) (channels_of t p))"
    proof -
      obtain n buf where nb: "lookup_spray_buf t (ref_dst_id p) (ref_flow_label p) (replicate 16 (fill_arr 0, False)) = (n, buf)"
        by fastforce
      then have "channels_of t p = map fst (take n buf)"
        using spray_buf_channels [of t p] by (simp add: channels_of_def)
      then show ?thesis by (simp add: full_step_def h ref_take Let_def nb)
    qed
    have inv': "mcr_inv L t ep (count_lookup b)" "mcr_inv L t ep (count_hit (count_lookup b))"
      using inv by (simp_all add: mcr_inv_def count_lookup_def count_hit_def)
    have ap: "appends_exactly I outs (count_lookup b) r = appends_exactly I outs b r"
      "appends_exactly I outs (count_hit (count_lookup b)) r = appends_exactly I outs b r" for I outs r
      by (simp_all add: appends_exactly_def count_lookup_def count_hit_def emits_def)
    show ?thesis
    proof (cases "channels_of t p = []")
      case True
      then have "full_spec L t sess p = [copies_spec L t sess p None]"
        using long by (simp add: full_spec_def copies_spec_def spray_target_def)
      with spray_copy_appends [OF inv'(1) long, of sess None "\<lambda>r. r"] True show ?thesis
        by (simp add: eq ap)
    next
      case False
      from channel_writer.loop_exact [of L t ep "count_hit (count_lookup b)" p sess "channels_of t p"] inv'(2) long
      have "appends_exactly (\<lambda>b. mcr_inv L t ep b \<and> \<not> length p < HEADER_SIZE) (full_spec L t sess p) b
          (loop_r (channel_step L t ep sess (take 96 p) p) (count_hit (count_lookup b)) (channels_of t p))"
        by (simp only: ap full_spec_channels [OF long False] simp_thms)
      then show ?thesis
        using False by (auto simp: eq appends_exactly_def split: if_splits)
    qed
  qed
qed (simp add: mcr_inv_def)

subsection \<open>Results of the batches\<close>

definition mcr_result ::
    "table \<Rightarrow> (bytes \<times> outcome) list \<Rightarrow> nat \<Rightarrow> forwarder \<Rightarrow> process \<Rightarrow> batch_outcome \<Rightarrow> bool" where
  "mcr_result t outs n f w r \<longleftrightarrow> batch_result t outs n w r
     \<and> (\<forall>st sent f' w'. r = Inr (st, sent, f', w') \<longrightarrow>
          mcr_forwarded f' = mcr_forwarded f + of_nat (forwarded st)
          \<and> mcr_dropped f' = mcr_dropped f + of_nat (route_misses st))"

lemma mcr_inv_start:
  assumes "seal_keeps_length L" "proc_ok (routes f) w" "content a = []"
  shows "mcr_inv L (routes f) (epoch w) (batch_start f a w n)" "arena_len (b_arena (batch_start f a w n)) = 0"
    "cap (b_arena (batch_start f a w n)) = cap a"
  using assms by (simp_all add: mcr_inv_def batch_start_def proc_ok_def arena_len_def)

lemma batch_parts [simp]:
  "b_stats (count_handled n b) = b_stats b" "b_arena (count_handled n b) = b_arena b"
  "b_offsets (count_handled n b) = b_offsets b" "b_cache (count_handled n b) = b_cache b"
  "b_scache (count_handled n b) = b_scache b" "batch_out (count_handled n b) = batch_out b"
  by (simp_all add: count_handled_def batch_out_def)

text \<open>Both serial modes end in the same way; \<open>extra\<close> is what they do to the profiler.\<close>

lemma finish_batch:
  assumes "seal_keeps_length L" "proc_ok (routes f) w" "content a = []"
    and "emits outs (batch_start f a w n) b" "mcr_inv L (routes f) (epoch w) b"
    and "\<And>w. proc_ok (routes f) (extra w) = proc_ok (routes f) w" "\<And>w. packets_processed (extra w) = packets_processed w"
  shows "mcr_result (routes f) outs n f w
    (Inr (b_stats b, Some (batch_out b), add_mcr (b_stats b) (store_batch b f),
      extra (add_processed (received (b_stats b)) (apply_metrics (count_handled n b) (batch_caches b w)))))"
proof -
  note out = emits_sent [OF assms(4,3)]
  have "proc_ok (routes f) (batch_caches b w)"
    using assms(2,5) by (intro proc_ok_batch) (simp_all add: mcr_inv_def)
  then show ?thesis
    using out assms(6,7)
    by (simp add: mcr_result_def batch_result_def sent_packets_offsets)
      (simp add: add_mcr_def store_batch_def batch_out_def sent_packets_offsets)
qed

lemma primary_loop:
  assumes "seal_keeps_length L" "proc_ok (routes f) w" "content a = []"
    and "sum_list (map length frames) + length frames * TAG_SIZE \<le> cap a"
  obtains b where "loop_r (primary_step L (routes f) (epoch w) (fsession f)) (batch_start f a w (length frames)) frames = Inr b"
    "mcr_inv L (routes f) (epoch w) b"
    "emits (map (primary_spec L (routes f) (fsession f)) frames) (batch_start f a w (length frames)) b"
proof -
  let ?t = "routes f" and ?b0 = "batch_start f a w (length frames)"
  let ?outs = "map (primary_spec L ?t (fsession f)) frames"
  have len: "length (fst (primary_spec L ?t (fsession f) p)) \<le> length p + TAG_SIZE" for p
    using sealed_packet_length [OF assms(1), of p]
    by (auto simp: primary_spec_def Let_def HEADER_SIZE_def split: option.splits)
  have cc: "concat (map (\<lambda>p. [primary_spec L ?t (fsession f) p]) frames) = ?outs" by (induction frames) auto
  have "total_bytes ?outs \<le> sum_list (map (\<lambda>p. length p + TAG_SIZE) frames)"
    using len by (simp add: total_bytes_def comp_def sum_list_le)
  then have "total_bytes ?outs \<le> cap a" using assms(4) by (simp add: sum_list_plus)
  moreover note primary_writer.loop_exact [OF mcr_inv_start(1) [OF assms(1-3)], of "fsession f" frames "length frames"]
  ultimately show ?thesis
    using that by (auto simp: appends_exactly_def cc mcr_inv_start(2,3) [OF assms(1-3)])
qed

lemma mcr_primary_result:
  assumes "seal_keeps_length L" "proc_ok (routes f) w" "content a = []"
    and "sum_list (map length frames) + length frames * TAG_SIZE \<le> cap a"
  shows "mcr_result (routes f) (map (primary_spec L (routes f) (fsession f)) frames) (length frames) f w
    (mcr_primary L frames a f w)"
proof -
  obtain b where b: "loop_r (primary_step L (routes f) (epoch w) (fsession f)) (batch_start f a w (length frames)) frames = Inr b"
    "mcr_inv L (routes f) (epoch w) b"
    "emits (map (primary_spec L (routes f) (fsession f)) frames) (batch_start f a w (length frames)) b"
    by (rule primary_loop [OF assms])
  from finish_batch [OF assms(1-3) b(3,2), of "\<lambda>w. w"] show ?thesis
    by (simp add: mcr_primary_def Let_def b(1)) (simp add: batch_caches_def count_handled_def store_batch_def)
qed

text \<open>What a batch leaves as it is.\<close>

lemma mcr_primary_keeps:
  assumes "seal_keeps_length L" "proc_ok (routes f) w" "content a = []"
    and "sum_list (map length frames) + length frames * TAG_SIZE \<le> cap a"
  shows "\<exists>st sent f' w'. mcr_primary L frames a f w = Inr (st, sent, f', w') \<and> fsession f' = fsession f
    \<and> mcr_enabled f' = mcr_enabled f \<and> mcr_spray_mode f' = mcr_spray_mode f \<and> cap (arena f') = cap a \<and> epoch w' = epoch w"
proof -
  obtain b where b: "loop_r (primary_step L (routes f) (epoch w) (fsession f)) (batch_start f a w (length frames)) frames = Inr b"
    "emits (map (primary_spec L (routes f) (fsession f)) frames) (batch_start f a w (length frames)) b"
    by (rule primary_loop [OF assms])
  from emits_sent(3) [OF b(2) assms(3)] show ?thesis
    by (simp add: mcr_primary_def Let_def b(1) add_mcr_def store_batch_def batch_caches_def apply_metrics_def add_processed_def)
qed

lemma mcr_full_serial_result:
  fixes frames
  assumes "seal_keeps_length L" "proc_ok (routes f) w" "content a = []"
  defines "outs \<equiv> concat (map (full_spec L (routes f) (fsession f)) frames)"
  shows "if total_bytes outs \<le> cap a then mcr_result (routes f) outs (length frames) f w (mcr_full_serial L frames a f w)
    else mcr_full_serial L frames a f w = Inl OobWrite"
proof -
  let ?t = "routes f" and ?b0 = "batch_start f a w (length frames)"
  note loop = full_writer.loop_exact [OF mcr_inv_start(1) [OF assms(1-3)], of "fsession f" frames "length frames",
      folded outs_def]
  show ?thesis
  proof (cases "total_bytes outs \<le> cap a")
    case True
    with loop obtain b where b: "loop_r (full_step L ?t (epoch w) (fsession f)) ?b0 frames = Inr b"
      "mcr_inv L ?t (epoch w) b" "emits outs ?b0 b"
      by (auto simp: appends_exactly_def mcr_inv_start(2,3) [OF assms(1-3)])
    from finish_batch [OF assms(1-3) b(3,2), of "add_handle_count (received (b_stats b))"] True show ?thesis
      by (simp add: mcr_full_serial_def Let_def b(1)) (simp add: batch_caches_def count_handled_def store_batch_def)
  next
    case False
    with loop show ?thesis
      by (simp add: appends_exactly_def mcr_full_serial_def Let_def mcr_inv_start(2,3) [OF assms(1-3)])
  qed
qed

lemma full_spec_bound:
  assumes "seal_keeps_length L"
  shows "total_bytes (full_spec L t sess pkt) \<le> max 1 (length (channels_of t pkt)) * (length pkt + TAG_SIZE)"
proof -
  have len: "length (fst (copy_spec L sess r nh pkt)) \<le> length pkt + TAG_SIZE" if "\<not> length pkt < HEADER_SIZE" for r nh
  proof -
    have "length (rewrite_dst nh pkt) = length pkt" using that by (simp add: HEADER_SIZE_def)
    then show ?thesis
      using sealed_packet_length [OF assms] by (auto simp: copy_spec_def Let_def split: option.splits)
  qed
  have "sum_list (map (\<lambda>d. length (fst (copy_spec L sess (hit_for t pkt d) (Some d) pkt))) ds) \<le> length ds * (length pkt + TAG_SIZE)"
    if "\<not> length pkt < HEADER_SIZE" for ds
    using len [OF that] by (induction ds) (auto intro: add_mono)
  moreover have "x \<le> max 1 k * (x + TAG_SIZE)" for x k :: nat
    using mult_le_mono [of 1 "max 1 k" x "x + TAG_SIZE"] by simp
  ultimately show ?thesis
    using len [where nh = None] by (cases "length pkt < HEADER_SIZE")
      (simp add: full_spec_def total_bytes_def, auto simp: full_spec_def total_bytes_def comp_def Suc_le_eq max_def)
qed

lemma mcr_full_parallel_result:
  fixes frames
  defines "dups \<equiv> \<lambda>f. concat (map (duplicate (routes f)) frames)"
  assumes "seal_keeps_length L" "proc_ok (routes f) w" "content a = []"
    and "valid_schedule (length (dups f)) sched"
    and "arena_fits (sum_list (map length (dups f)) + length (dups f) * TAG_SIZE) a"
  shows "mcr_result (routes f) (map (owned_spec L (routes f) (fsession f)) (dups f)) (length frames) f w
    (mcr_full_parallel L sched frames a f w)"
proof -
  let ?t = "routes f" and ?ps = "dups f" and ?n = "length frames"
  let ?outs = "map (owned_spec L ?t (fsession f)) ?ps"
  let ?work = "process_packet_owned_consuming L ?t (epoch w) (fsession f)"
  have "\<forall>th. seal_keeps_length L \<and> cache_ok ?t (epoch w) (tcaches w th)"
    using assms(2,3) by (simp add: proc_ok_def)
  note pm = consuming_worker.par_map_spec [OF assms(5) this, of "fsession f"]
  obtain cs where cs: "par_map ?work sched ?ps (tcaches w) = (map output_of ?outs, cs)"
    "\<forall>th. cache_ok ?t (epoch w) (cs th)"
    using pm by (cases "par_map ?work sched ?ps (tcaches w)") (auto simp: comp_def)
  let ?w = "w\<lparr>tcaches := cs\<rparr>"
  have pw: "proc_ok ?t ?w" using cs(2) assms(3) by (simp add: proc_ok_def)
  have le: "sum_list (map (length \<circ> fst) ?outs) \<le> sum_list (map (\<lambda>p. length p + TAG_SIZE) ?ps)"
    using owned_spec_length [OF assms(2)] by (simp add: comp_def sum_list_le)
  have len: "arena_len a = 0" using assms(4) by (simp add: arena_len_def)
  obtain a' where a': "arena_reserve (sum_list (map (length \<circ> fst) ?outs)) a = Inr a'" "content a' = []"
    "sum_list (map (length \<circ> fst) ?outs) \<le> cap a'"
    using arena_reserve_ok [of a "sum_list (map (length \<circ> fst) ?outs)"] assms(4,6) le len
    by (auto simp: arena_fits_def sum_list_plus)
  let ?b0 = "batch_start f a' ?w ?n"
  have "arena_len (b_arena ?b0) \<le> cap (b_arena ?b0)" "sum_list (map (\<lambda>r. length (fst r)) ?outs) \<le> room ?b0"
    using a' by (simp_all add: batch_start_def arena_len_def room_def comp_def)
  from collect_loop.loop_ok [OF this] obtain b where b: "loop_r collect_step ?b0 ?outs = Inr b" "emits ?outs ?b0 b"
    by blast
  have loop: "loop_r append_output ?b0 (map output_of ?outs) = Inr b" using b(1) by (simp only: collect_loop_eq)
  have sum: "sum_list (map (length \<circ> out_bytes) (map output_of ?outs)) = sum_list (map (length \<circ> fst) ?outs)"
    by (simp add: output_of_def comp_def)
  have eq: "mcr_full_parallel L sched frames a f w =
    Inr (b_stats b, Some (batch_out b), add_mcr (b_stats b) (store_batch b f),
      add_processed (received (b_stats b)) (apply_metrics b ?w))"
    using cs(1) loop sum a'(1) unfolding mcr_full_parallel_def Let_def assms(1) by simp
  show ?thesis
    unfolding eq using emits_sent [OF b(2) a'(2)] pw
    by (simp add: mcr_result_def batch_result_def sent_packets_offsets)
      (simp add: add_mcr_def store_batch_def batch_out_def sent_packets_offsets)
qed

end
