(* ===== verification/Forward_Spray.thy ===== *)
theory Forward_Spray
  imports Forward_MCR
begin

text \<open>
  What the multi-channel batches of \<open>datapath/src/lib.rs\<close> guarantee, and what they do not: the
  reservation at the start of \<open>process_batch_mcr\<close> counts three copies of a packet in full
  spray, while a route may have up to sixteen channels, and the writes that follow are
  unchecked. The serial and the parallel spray are compared on whole batches; what primary
  mode and the batches without MCR send is read by a receiver, who parses and opens it. Each
  theorem is applied to a concrete forwarder.
\<close>

subsection \<open>Duplicates\<close>

lemma duplicate_eq:
  "duplicate t pkt = (if length pkt < HEADER_SIZE \<or> channels_of t pkt = [] then [pkt]
     else map (\<lambda>d. rewrite_dst (Some d) pkt) (channels_of t pkt))"
proof (cases "length pkt < HEADER_SIZE")
  case True
  then show ?thesis by (simp add: duplicate_def HeaderViewRef_new_def)
next
  case False
  then have h: "HeaderViewRef_new pkt = Inr (take 96 pkt)" by (simp add: HeaderViewRef_new_def HEADER_SIZE_def)
  obtain n buf where nb: "lookup_spray_buf t (ref_dst_id pkt) (ref_flow_label pkt) (replicate 16 (fill_arr 0, False)) = (n, buf)"
    by fastforce
  with spray_buf_channels [of t pkt] have "lookup_spray t (ref_dst_id pkt) (ref_flow_label pkt) = take n buf" by simp
  with False show ?thesis
    by (simp add: duplicate_def h ref_take nb channels_of_def rewrite_dst_def split_def comp_def)
qed

lemma duplicate_bound:
  "length (duplicate t pkt) \<le> 16" "x \<in> set (duplicate t pkt) \<Longrightarrow> length x = length pkt"
proof -
  have "length (channels_of t pkt) \<le> 16"
    by (cases "routes_of t (ref_dst_id pkt)") (simp_all add: channels_of_def lookup_spray_None lookup_spray_eq)
  then show "length (duplicate t pkt) \<le> 16" by (simp add: duplicate_eq)
  show "x \<in> set (duplicate t pkt) \<Longrightarrow> length x = length pkt"
    by (auto simp: duplicate_eq HEADER_SIZE_def split: if_splits)
qed

lemma duplicates_size:
  "sum_list (map length (concat (map (duplicate t) frames))) + length (concat (map (duplicate t) frames)) * TAG_SIZE
    \<le> 16 * (sum_list (map length frames) + length frames * TAG_SIZE)"
proof (induction frames)
  case (Cons p ps)
  have "map length (duplicate t p) = replicate (length (duplicate t p)) (length p)"
    by (rule replicate_eqI) (auto simp: duplicate_bound(2))
  then have "sum_list (map length (duplicate t p)) = length (duplicate t p) * length p" by (simp add: sum_list_replicate)
  moreover have "length (duplicate t p) * (length p + TAG_SIZE) \<le> 16 * (length p + TAG_SIZE)"
    using duplicate_bound(1) by (rule mult_right_mono) simp
  ultimately show ?case using Cons.IH by (simp add: algebra_simps)
qed simp

text \<open>Rewriting the destination leaves every other field and the payload alone.\<close>

lemma rewritten_fields:
  assumes "HEADER_SIZE \<le> length pkt"
  shows "ref_dst_id (rewrite_dst (Some d) pkt) = d" "ref_src_id (rewrite_dst nh pkt) = ref_src_id pkt"
    "ref_flow_label (rewrite_dst nh pkt) = ref_flow_label pkt" "ref_seq_num (rewrite_dst nh pkt) = ref_seq_num pkt"
    "ref_length (rewrite_dst nh pkt) = ref_length pkt"
    "HEADER_SIZE + unat (ref_length pkt) \<le> length pkt \<Longrightarrow> payload_of (rewrite_dst nh pkt) = payload_of pkt"
proof -
  note off = SRC_OFFSET_def DST_OFFSET_def FLOW_OFFSET_def SEQ_OFFSET_def LEN_OFFSET_def
  show "ref_dst_id (rewrite_dst (Some d) pkt) = d"
    using assms by (simp add: rewrite_dst_def ref_defs off slice_simps HEADER_SIZE_def)
  show "ref_src_id (rewrite_dst nh pkt) = ref_src_id pkt"
    "ref_flow_label (rewrite_dst nh pkt) = ref_flow_label pkt" "ref_seq_num (rewrite_dst nh pkt) = ref_seq_num pkt"
    and len: "ref_length (rewrite_dst nh pkt) = ref_length pkt"
    using assms by (cases nh; simp add: rewrite_dst_def ref_defs off slice_simps HEADER_SIZE_def)+
  show "payload_of (rewrite_dst nh pkt) = payload_of pkt" if "HEADER_SIZE + unat (ref_length pkt) \<le> length pkt"
    using assms that len
    by (cases nh) (simp_all add: payload_of_def rewrite_dst_def HEADER_SIZE_def slice_overwrite_disjoint)
qed

lemma owned_spec_rewritten:
  assumes "lib_ok L" "HEADER_SIZE \<le> length pkt" "payload_present pkt \<longrightarrow> length pkt = HEADER_SIZE + unat (ref_length pkt)"
  shows "owned_spec L t sess (rewrite_dst nh pkt) = copies_spec L t sess pkt nh"
proof -
  let ?rw = "rewrite_dst nh pkt"
  note f = rewritten_fields(2-) [OF assms(2), of nh]
  have len: "length ?rw = length pkt" using assms(2) by (simp add: HEADER_SIZE_def)
  have dst: "ref_dst_id ?rw = spray_target pkt nh"
    using rewritten_fields(1) [OF assms(2)] by (cases nh) (simp_all add: spray_target_def rewrite_dst_def)
  have hit: "route_hit t ?rw = hit_for t pkt (spray_target pkt nh)" by (simp add: route_hit_def hit_for_def f dst)
  have pp: "payload_present ?rw = payload_present pkt" by (simp add: payload_present_def f len)
  show ?thesis
  proof (cases "hit_for t pkt (spray_target pkt nh) \<and> sess \<noteq> None \<and> payload_present pkt")
    case True
    then obtain s where s: "sess = Some s" "payload_present pkt" "hit_for t pkt (spray_target pkt nh)" by auto
    have n: "length pkt = HEADER_SIZE + unat (ref_length pkt)" using assms(3) s(2) by blast
    have "unat (ref_length pkt) < 2 ^ 16" using unsigned_less [of "ref_length pkt"] by simp
    then have lim: "length (payload_of pkt) \<le> PAYLOAD_LIMIT" using payload_of_length [OF s(2)] by (simp add: PAYLOAD_LIMIT_def)
    obtain c tag where "seal L (aead s) (build_nonce s (ref_seq_num pkt)) (payload_of pkt) = Some (c, tag)"
      using lib_ok_seal [OF assms(1) limit_le_gcm [OF lim]] by metis
    then have e: "encrypt_into_slice L s (payload_of pkt) (ref_seq_num pkt) = Inr (c, tag)"
      using lim by (simp add: encrypt_into_slice_def)
    have pay: "payload_of ?rw = payload_of pkt" using f(5) n by simp
    have "owned_spec L t sess ?rw = (take HEADER_SIZE ?rw @ c @ bytes_of tag, Encrypted)"
      using s assms(2) by (simp add: owned_spec_def len hit pp f(3,4) pay e n)
    moreover have "copies_spec L t sess pkt nh = (take HEADER_SIZE ?rw @ c @ bytes_of tag, Encrypted)"
      using s by (simp add: copies_spec_def copy_spec_def sealed_packet_def e n)
    ultimately show ?thesis by simp
  next
    case False
    then show ?thesis
      using assms(2) by (auto simp: owned_spec_def copies_spec_def copy_spec_def len hit pp f Let_def split: option.splits)
  qed
qed

subsection \<open>Concrete forwarders\<close>

text \<open>A route with sixteen channels, and a packet of 20,000 bytes with no payload to seal.\<close>

definition wide_route :: route_entry where
  "wide_route = example_route\<lparr>alternate_channels := replicate 15 (fill_arr 3)\<rparr>"

definition wide_table :: table where
  "wide_table = fst (update_route 5 wide_route (table_new, 1))"

definition large_packet :: bytes where
  "large_packet = header_bytes (header_new\<lparr>dst_id := fill_arr 1\<rparr>) @ replicate 19904 0"

definition full_forwarder :: "table \<Rightarrow> forwarder" where
  "full_forwarder t = example_forwarder\<lparr>routes := t, mcr_spray_mode := ''full''\<rparr>"

lemma full_forwarder_simps [simp]:
  "routes (full_forwarder t) = t" "fsession (full_forwarder t) = Some toy_session"
  "arena (full_forwarder t) = \<lparr>content = [], cap = 262144\<rparr>" "mcr_enabled (full_forwarder t) = True"
  "mcr_spray_mode (full_forwarder t) = ''full''"
  by (simp_all add: full_forwarder_def example_forwarder_simps)

lemma proc_ok_example: "proc_ok t example_process"
  by (simp add: proc_ok_def example_process_def cache_ok_init spray_ok_init)

lemma routes_of_wide: "routes_of wide_table = [fill_arr 1 \<mapsto> wide_route\<lparr>last_seen := 5\<rparr>]"
proof -
  obtain ep where u: "update_route 5 wide_route (table_new, 1) = (wide_table, ep)"
    unfolding wide_table_def by (metis prod.collapse)
  then show ?thesis
    using table_wf_update(2) [OF table_wf_new u] by (simp add: routes_of_new) (simp add: wide_route_def example_route_def)
qed

lemma large_packet_fields:
  "length large_packet = 20000" "ref_dst_id large_packet = fill_arr 1" "ref_length large_packet = 0"
  "\<not> payload_present large_packet"
proof -
  show f: "length large_packet = 20000" "ref_dst_id large_packet = fill_arr 1" "ref_length large_packet = 0"
    unfolding large_packet_def ref_header_bytes by (simp_all add: header_new_def)
  show "\<not> payload_present large_packet" by (simp add: payload_present_def f)
qed

lemma wide_channels: "length (channels_of wide_table large_packet) = 16"
  by (simp add: channels_of_def large_packet_fields lookup_spray_eq [of wide_table "fill_arr 1"] routes_of_wide)
    (simp add: wide_route_def)

lemma wide_copies:
  "map (length \<circ> fst) (full_spec L wide_table sess large_packet) = replicate 16 20000"
proof -
  have c: "length (fst (copy_spec L sess r nh large_packet)) = 20000" for r nh
    by (auto simp: copy_spec_def Let_def large_packet_fields split: option.splits)
  have "channels_of wide_table large_packet \<noteq> []" using wide_channels by auto
  moreover have "map (\<lambda>_. k) xs = replicate (length xs) k" for k :: nat and xs :: "node_id list" by (induction xs) auto
  ultimately show ?thesis
    by (simp add: full_spec_def large_packet_fields HEADER_SIZE_def comp_def c wide_channels)
qed

lemma example_channels: "channels_of example_table example_packet = [fill_arr 2, fill_arr 3]"
  by (simp add: channels_of_def example_packet_fields lookup_spray_eq [of example_table "fill_arr 1"] routes_of_example)
    (simp add: example_route_def spray_order_def channels_def upt_rec Let_def)

text \<open>A batch in primary mode never writes outside the arena: it sends one packet per input,
  in order and back to back, each what \<open>primary_spec\<close> makes of it (the destination rewritten to
  the flow's channel, the payload sealed), and the statistics, the MCR counters and the
  packet counter are the counts of these packets.\<close>

lemma primary_batch:
  assumes "seal_keeps_length L" and "proc_ok (routes f) w" and "frames \<noteq> []"
    and "mcr_enabled f" and "mcr_spray_mode f \<noteq> ''full''"
    and "arena_fits (sum_list (map length frames) + length frames * TAG_SIZE) (arena f)"
  shows "mcr_result (routes f) (map (primary_spec L (routes f) (fsession f)) frames) (length frames) f w
    (process_batch L threads sched frames f w)"
proof -
  obtain a where a: "arena_reserve (sum_list (map length frames) + length frames * TAG_SIZE) (arena_clear (arena f)) = Inr a"
    "content a = []" "sum_list (map length frames) + length frames * TAG_SIZE \<le> cap a"
    using reserve_cleared [OF assms(6)] by blast
  from mcr_primary_result [OF assms(1,2) a(2,3)] a(1) assms(3-5) show ?thesis
    by (simp add: process_batch_def process_batch_mcr_def)
qed

text \<open>One packet that is sealed and one that is too short to be a packet.\<close>

lemma primary_batch_example:
  "\<exists>sent f' w'. process_batch toy_lib 4 [] [example_packet, [1, 2]] example_forwarder example_process =
     Inr (\<lparr>received = 2, forwarded = 1, encrypted = 1, route_misses = 1\<rparr>, Some sent, f', w')
   \<and> mcr_dropped f' = 1
   \<and> sent_packets sent = [take 32 example_packet @ bytes_of (fill_arr 2 :: node_id) @ drop 64 (take 96 example_packet)
       @ [1, 0] @ bytes_of (arr (bytes_of (build_nonce toy_session 7) @ replicate 4 0) :: 16 barr) @ [6], [1, 2]]"
proof -
  have "primary_spec toy_lib example_table (Some toy_session) [1, 2] = ([1, 2], Missed)"
    by (simp add: primary_spec_def HEADER_SIZE_def)
  moreover have "primary_spec toy_lib example_table (Some toy_session) example_packet =
      (take 32 example_packet @ bytes_of (fill_arr 2 :: node_id) @ drop 64 (take 96 example_packet)
       @ [1, 0] @ bytes_of (arr (bytes_of (build_nonce toy_session 7) @ replicate 4 0) :: 16 barr) @ [6], Encrypted)"
  proof -
    have d: "drop 98 example_packet = [6]" by (simp add: example_packet_def)
    have hop: "spray_hop_of example_table (fill_arr 1) 0 = Some (fill_arr 2)"
      by (simp add: spray_hop_of_def routes_of_example) (simp add: example_route_def spray_order_def channels_def Let_def)
    show ?thesis
      by (simp add: primary_spec_def example_packet_fields hop HEADER_SIZE_def sealed_packet_def d
          encrypt_into_slice_def PAYLOAD_LIMIT_def rewrite_dst_def overwrite_def)
        (simp add: toy_lib_def toy_session_def GCM_MAX_def example_packet_fields rewrite_dst_def overwrite_def
          HEADER_SIZE_def d drop_take)
  qed
  moreover have "count_outcomes [Encrypted, Missed] (stats_of 2) = \<lparr>received = 2, forwarded = 1, encrypted = 1, route_misses = 1\<rparr>"
    by (simp add: count_outcomes_def stats_of_def)
  moreover have "arena_fits (sum_list (map length [example_packet, [1, 2]]) + length [example_packet, [1, 2]] * TAG_SIZE)
      (arena example_forwarder)"
    by (simp add: arena_fits_def example_packet_fields example_forwarder_simps TAG_SIZE_def)
  moreover have "mcr_dropped example_forwarder = 0"
    by (simp add: example_forwarder_def forwarder_with_session_def split_def Let_def)
  ultimately show ?thesis
    using primary_batch [OF lib_ok_length [OF toy_lib_ok], of example_forwarder example_process "[example_packet, [1, 2]]" 4 "[]"]
    unfolding mcr_result_def batch_result_def
    by (force simp: example_forwarder_simps proc_ok_example numeral_2_eq_2 [symmetric])
qed

subsection \<open>Properties\<close>

text \<open>C12. What a batch with MCR disabled sends, below the threshold or on one thread, is what the
  receiver gets: one packet comes out for each that went in, in order; a packet that has a route
  and a whole payload comes out with its header unchanged, and the rest opens, under the sequence
  number of that header, to exactly the payload the header announces; every other packet comes out
  as it was; and the statistics count the sealed ones.\<close>

theorem encrypted_output_decrypts:
  assumes "lib_ok L" and "proc_ok (routes f) w" and "frames \<noteq> []" and "fsession f = Some s" and "\<not> mcr_enabled f"
    and "length frames < PARALLEL_BATCH_THRESHOLD \<or> threads \<le> 1"
    and "arena_fits (sum_list (map length frames) + length frames * TAG_SIZE) (arena f)"
  shows "\<exists>st sent f' w'. process_batch L threads sched frames f w = Inr (st, Some sent, f', w')
    \<and> list_all2 (\<lambda>pkt out. if sealable (routes f) pkt
         then take HEADER_SIZE out = take HEADER_SIZE pkt
           \<and> session_decrypt L s (drop HEADER_SIZE out) (ref_seq_num out) = Inr (payload_of pkt)
         else out = pkt) frames (sent_packets sent)
    \<and> received st = length frames \<and> encrypted st = length (filter (sealable (routes f)) frames)"
proof -
  let ?spec = "plain_spec L (routes f) (Some s)"
  have p: "process_batch L threads sched frames f w = serial_batch L frames f w"
    using assms(3,5,6) by (auto simp: process_batch_def process_batch_plain_def)
  have seq: "ref_seq_num out = ref_seq_num pkt" if "take HEADER_SIZE out = take HEADER_SIZE pkt" for out pkt
    using that by (metis HEADER_SIZE_def ref_take(4))
  define opens where "opens = (\<lambda>pkt out. if sealable (routes f) pkt
         then take HEADER_SIZE out = take HEADER_SIZE pkt
           \<and> session_decrypt L s (drop HEADER_SIZE out) (ref_seq_num out) = Inr (payload_of pkt)
         else out = pkt)"
  have "list_all2 opens frames (map (fst \<circ> ?spec) frames)"
  proof -
    have "opens pkt (fst (?spec pkt))" for pkt
      using plain_spec_opens [OF assms(1), of "routes f" pkt s] seq [of "fst (?spec pkt)" pkt]
      by (cases "sealable (routes f) pkt") (simp_all add: opens_def)
    then show ?thesis by (simp add: list_all2_map2 list_all2_same)
  qed
  moreover have "length (filter (\<lambda>k. k = Encrypted) (map (snd \<circ> ?spec) frames)) = length (filter (sealable (routes f)) frames)"
  proof -
    have "(snd (?spec pkt) = Encrypted) = sealable (routes f) pkt" for pkt
      using plain_spec_opens [OF assms(1), of "routes f" pkt s] by (simp split: if_splits)
    then show ?thesis by (simp add: filter_map comp_def)
  qed
  ultimately show ?thesis
    using serial_batch_result [OF lib_ok_length [OF assms(1)] assms(2,7)] assms(4)
    unfolding batch_result_def p opens_def [symmetric] by (auto simp: count_outcomes_def stats_of_def comp_def)
qed

text \<open>One packet that is sealed and one that is too short to be a packet.\<close>

theorem encrypted_output_decrypts_witness:
  "\<exists>st out f' w'. process_batch toy_lib 4 [] [example_packet, [1, 2]] (example_forwarder\<lparr>mcr_enabled := False\<rparr>) example_process =
      Inr (st, Some out, f', w')
    \<and> (\<exists>o1. sent_packets out = [o1, [1, 2]] \<and> session_decrypt toy_lib toy_session (drop 96 o1) 7 = Inr [4, 5]) \<and> encrypted st = 1"
proof -
  let ?f = "example_forwarder\<lparr>mcr_enabled := False\<rparr>"
  have h: "proc_ok (routes ?f) example_process" "[example_packet, [1, 2]] \<noteq> []" "fsession ?f = Some toy_session" "\<not> mcr_enabled ?f"
    "length [example_packet, [1, 2]] < PARALLEL_BATCH_THRESHOLD \<or> 4 \<le> (1 :: nat)"
    "arena_fits (sum_list (map length [example_packet, [1, 2]]) + length [example_packet, [1, 2]] * TAG_SIZE) (arena ?f)"
    by (simp_all add: example_forwarder_simps proc_ok_example PARALLEL_BATCH_THRESHOLD_def arena_fits_def example_packet_fields TAG_SIZE_def)
  have s: "sealable example_table example_packet" "\<not> sealable example_table [1, 2]"
    using example_plain_spec plain_spec_opens [OF toy_lib_ok, of example_table example_packet toy_session]
    by (auto simp: sealable_def HEADER_SIZE_def example_packet_fields split: if_splits)
  from encrypted_output_decrypts [OF toy_lib_ok h, of "[]"] obtain st out f' w' o1 where o:
    "process_batch toy_lib 4 [] [example_packet, [1, 2]] ?f example_process = Inr (st, Some out, f', w')"
    "sent_packets out = [o1, [1, 2]]" "take HEADER_SIZE o1 = take HEADER_SIZE example_packet"
    "session_decrypt toy_lib toy_session (drop HEADER_SIZE o1) (ref_seq_num o1) = Inr [4, 5]" "encrypted st = 1"
    using s by (auto simp: list_all2_Cons1 example_packet_fields example_forwarder_simps)
  then have "ref_seq_num o1 = 7"
    using ref_take(4) [of o1] ref_take(4) [of example_packet] by (simp add: example_packet_fields HEADER_SIZE_def)
  with o show ?thesis by (auto simp: HEADER_SIZE_def)
qed

text \<open>C13. A batch in serial full-spray mode is safe exactly when the copies fit: with the
  capacity the reservation leaves, it sends exactly the specified copies of every packet when
  their total size is within the capacity, and otherwise writes past the end of the arena.\<close>

theorem full_spray_safe_iff_fits:
  assumes "seal_keeps_length L" and "proc_ok (routes f) w" and "frames \<noteq> []"
    and "mcr_enabled f" and "mcr_spray_mode f = ''full''"
    and "length frames < PARALLEL_BATCH_THRESHOLD \<or> threads \<le> 1"
    and "arena_reserve ((sum_list (map length frames) + length frames * TAG_SIZE) * 3) (arena_clear (arena f)) = Inr a"
  shows "if total_bytes (concat (map (full_spec L (routes f) (fsession f)) frames)) \<le> cap a
    then mcr_result (routes f) (concat (map (full_spec L (routes f) (fsession f)) frames)) (length frames) f w
           (process_batch L threads sched frames f w)
    else process_batch L threads sched frames f w = Inl OobWrite"
proof -
  have "content a = []" using assms(7)
    by (auto simp: arena_reserve_def arena_clear_def Let_def split: if_splits)
  from mcr_full_serial_result [OF assms(1,2) this, of frames] assms(3-7) show ?thesis
    by (auto simp: process_batch_def process_batch_mcr_def split: if_splits)
qed

theorem full_spray_safe_iff_fits_witness:
  "process_batch toy_lib 1 [] [large_packet, large_packet] (full_forwarder wide_table) example_process = Inl OobWrite"
proof -
  let ?f = "full_forwarder wide_table" and ?ps = "[large_packet, large_packet]" and ?a = "\<lparr>content = [], cap = 262144\<rparr>"
  have "arena_reserve ((sum_list (map length ?ps) + length ?ps * TAG_SIZE) * 3) (arena_clear (arena ?f)) = Inr ?a"
    by (simp add: arena_reserve_def arena_clear_def arena_len_def large_packet_fields TAG_SIZE_def)
  moreover have "total_bytes (full_spec toy_lib wide_table (Some toy_session) large_packet) = 320000"
    using wide_copies [of toy_lib "Some toy_session"] by (simp add: total_bytes_def comp_def sum_list_replicate)
  ultimately show ?thesis
    using full_spray_safe_iff_fits [OF lib_ok_length [OF toy_lib_ok], of ?f example_process ?ps 1 ?a]
    by (simp add: proc_ok_example)
qed

text \<open>Three channels are what the reservation covers: when no destination of the batch has
  more than three, serial full spray never writes outside the arena.\<close>

theorem full_spray_three_channels:
  assumes "seal_keeps_length L" and "proc_ok (routes f) w" and "frames \<noteq> []"
    and "mcr_enabled f" and "mcr_spray_mode f = ''full''"
    and "length frames < PARALLEL_BATCH_THRESHOLD \<or> threads \<le> 1"
    and "arena_fits ((sum_list (map length frames) + length frames * TAG_SIZE) * 3) (arena f)"
    and "list_all (\<lambda>p. length (channels_of (routes f) p) \<le> 3) frames"
  shows "mcr_result (routes f) (concat (map (full_spec L (routes f) (fsession f)) frames)) (length frames) f w
    (process_batch L threads sched frames f w)"
proof -
  let ?need = "(sum_list (map length frames) + length frames * TAG_SIZE) * 3"
  obtain a where a: "arena_reserve ?need (arena_clear (arena f)) = Inr a" "content a = []" "?need \<le> cap a"
    using reserve_cleared [OF assms(7)] by blast
  have one: "total_bytes (full_spec L (routes f) (fsession f) p) \<le> 3 * (length p + TAG_SIZE)"
    if "length (channels_of (routes f) p) \<le> 3" for p
  proof -
    have "max 1 (length (channels_of (routes f) p)) * (length p + TAG_SIZE) \<le> 3 * (length p + TAG_SIZE)"
      by (rule mult_right_mono) (use that in auto)
    then show ?thesis using full_spec_bound [OF assms(1), of "routes f" "fsession f" p] by simp
  qed
  have "total_bytes (concat (map (full_spec L (routes f) (fsession f)) ps)) \<le> (sum_list (map length ps) + length ps * TAG_SIZE) * 3"
    if "list_all (\<lambda>p. length (channels_of (routes f) p) \<le> 3) ps" for ps
    using that
  proof (induction ps)
    case (Cons p ps)
    then show ?case using one [of p] by simp
  qed (simp add: total_bytes_def)
  from this [OF assms(8)] a(3) have "total_bytes (concat (map (full_spec L (routes f) (fsession f)) frames)) \<le> cap a" by simp
  with mcr_full_serial_result [OF assms(1,2) a(2), of frames] a(1) assms(3-6) show ?thesis
    by (auto simp: process_batch_def process_batch_mcr_def split: if_splits)
qed

theorem full_spray_three_channels_witness:
  "\<exists>st sent f' w'. process_batch toy_lib 4 [] [example_packet] (full_forwarder example_table) example_process =
     Inr (st, Some sent, f', w') \<and> length (sent_packets sent) = 2"
proof -
  have "arena_fits ((sum_list (map length [example_packet]) + length [example_packet] * TAG_SIZE) * 3)
      (arena (full_forwarder example_table))"
    by (simp add: arena_fits_def example_packet_fields TAG_SIZE_def)
  moreover have "length (full_spec toy_lib example_table (Some toy_session) example_packet) = 2"
    by (simp add: full_spec_def example_channels example_packet_fields HEADER_SIZE_def)
  ultimately show ?thesis
    using full_spray_three_channels [OF lib_ok_length [OF toy_lib_ok], of "full_forwarder example_table" example_process
        "[example_packet]" 4 "[]"]
    unfolding mcr_result_def batch_result_def
    by (fastforce simp: proc_ok_example PARALLEL_BATCH_THRESHOLD_def example_channels)
qed

text \<open>The reservation of full spray is too small, and the writes after it are unchecked: one
  packet of 20,000 bytes to a destination with sixteen channels makes the batch write past
  the end of the arena.\<close>

theorem full_spray_heap_overflow:
  "process_batch toy_lib threads sched [large_packet] (full_forwarder wide_table) example_process = Inl OobWrite"
proof -
  let ?f = "full_forwarder wide_table" and ?a = "\<lparr>content = [], cap = 262144\<rparr>"
  have r: "arena_reserve ((sum_list (map length [large_packet]) + length [large_packet] * TAG_SIZE) * 3) (arena_clear (arena ?f)) = Inr ?a"
    by (simp add: arena_reserve_def arena_clear_def arena_len_def large_packet_fields TAG_SIZE_def)
  have "total_bytes (full_spec toy_lib wide_table (Some toy_session) large_packet) = 320000"
    using wide_copies [of toy_lib "Some toy_session"] by (simp add: total_bytes_def comp_def sum_list_replicate)
  with mcr_full_serial_result [OF lib_ok_length [OF toy_lib_ok], of ?f example_process ?a "[large_packet]"]
  have "mcr_full_serial toy_lib [large_packet] ?a ?f example_process = Inl OobWrite"
    by (simp add: proc_ok_example)
  then show ?thesis
    using r by (simp add: process_batch_def process_batch_mcr_def PARALLEL_BATCH_THRESHOLD_def)
qed

text \<open>C16. The parallel full spray is safe whatever the number of channels, since it reserves the
  bytes it collected: for every assignment of the copies to worker threads and every order
  of processing it sends, in order, what the owned packet path makes of each copy.\<close>

theorem full_spray_parallel_refines:
  assumes "seal_keeps_length L" and "proc_ok (routes f) w" and "frames \<noteq> []"
    and "mcr_enabled f" and "mcr_spray_mode f = ''full''"
    and "PARALLEL_BATCH_THRESHOLD \<le> length frames" and "1 < threads"
    and "valid_schedule (length (concat (map (duplicate (routes f)) frames))) sched"
    and "sum_list (map length frames) + length frames * TAG_SIZE \<le> 2 ^ 56" and "cap (arena f) \<le> 2 ^ 60"
  shows "mcr_result (routes f)
    (map (owned_spec L (routes f) (fsession f)) (concat (map (duplicate (routes f)) frames))) (length frames) f w
    (process_batch L threads sched frames f w)"
proof -
  let ?need = "sum_list (map length frames) + length frames * TAG_SIZE"
  obtain a where a: "arena_reserve (?need * 3) (arena_clear (arena f)) = Inr a" "content a = []" "cap a \<le> 2 ^ 61"
    using arena_reserve_ok [of "arena_clear (arena f)" "?need * 3"] assms(9,10)
    by (auto simp: arena_clear_def arena_len_def)
  have "arena_fits (sum_list (map length (concat (map (duplicate (routes f)) frames)))
      + length (concat (map (duplicate (routes f)) frames)) * TAG_SIZE) a"
    using duplicates_size [of "routes f" frames] assms(9) a(3) unfolding arena_fits_def by (intro conjI) simp_all
  from mcr_full_parallel_result [OF assms(1,2) a(2) assms(8) this] a(1) assms(3-7) show ?thesis
    by (simp add: process_batch_def process_batch_mcr_def)
qed

theorem full_spray_parallel_refines_witness:
  "\<exists>st sent f' w'. process_batch toy_lib 4 (map (\<lambda>i. (i, i mod 4)) [0..<2048]) (replicate 1024 example_packet)
      (full_forwarder example_table) example_process = Inr (st, Some sent, f', w')
    \<and> received st = 1024 \<and> length (sent_packets sent) = 2048"
proof -
  let ?ps = "replicate 1024 example_packet"
  have "length (duplicate example_table example_packet) = 2"
    by (simp add: duplicate_eq example_channels example_packet_fields HEADER_SIZE_def)
  then have n: "length (concat (map (duplicate example_table) ?ps)) = 2048"
    by (simp add: length_concat comp_def sum_list_replicate)
  have v: "valid_schedule 2048 (map (\<lambda>i. (i, i mod 4)) [0..<2048])"
    unfolding valid_schedule_def by (simp add: comp_def del: upt_rec_numeral)
  have s: "sum_list (map length ?ps) = 1024 * 99"
    by (simp add: sum_list_replicate example_packet_fields)
  have "mcr_result example_table (map (owned_spec toy_lib example_table (Some toy_session)) (concat (map (duplicate example_table) ?ps)))
      (length ?ps) (full_forwarder example_table) example_process
      (process_batch toy_lib 4 (map (\<lambda>i. (i, i mod 4)) [0..<2048]) ?ps (full_forwarder example_table) example_process)"
    using full_spray_parallel_refines [OF lib_ok_length [OF toy_lib_ok], of "full_forwarder example_table" example_process ?ps 4
        "map (\<lambda>i. (i, i mod 4)) [0..<2048]"] n v s
    by (simp add: proc_ok_example PARALLEL_BATCH_THRESHOLD_def TAG_SIZE_def del: upt_rec_numeral)
  then show ?thesis
    using n unfolding mcr_result_def batch_result_def
    by (fastforce simp del: upt_rec_numeral)
qed

text \<open>The two paths make the same copies of a packet that ends with its payload.\<close>

lemma duplicates_sealed:
  assumes "lib_ok L" and "HEADER_SIZE \<le> length pkt"
    and "payload_present pkt \<longrightarrow> length pkt = HEADER_SIZE + unat (ref_length pkt)"
  shows "map (owned_spec L t sess) (duplicate t pkt) = full_spec L t sess pkt"
proof (cases "channels_of t pkt = []")
  case True
  then show ?thesis
    using owned_spec_rewritten [OF assms, of t sess None] assms(2)
    by (simp add: duplicate_eq full_spec_def copies_spec_def spray_target_def rewrite_dst_def)
next
  case False
  then show ?thesis
    using owned_spec_rewritten [OF assms] assms(2) by (simp add: duplicate_eq full_spec_channels comp_def)
qed

text \<open>C17. Serial and parallel full spray agree: a batch large enough for the parallel path sends the same
  buffer with the same offsets, and counts the same, on one thread as on several, for every
  assignment of the copies to threads, when its packets have whole headers and end with their
  payloads and no destination has more than the three channels the serial path reserves for.\<close>

theorem full_spray_paths_agree:
  assumes "lib_ok L" and "proc_ok (routes f) w" and "mcr_enabled f" and "mcr_spray_mode f = ''full''"
    and "PARALLEL_BATCH_THRESHOLD \<le> length frames" and "1 < threads"
    and "valid_schedule (length (concat (map (duplicate (routes f)) frames))) sched"
    and "sum_list (map length frames) + length frames * TAG_SIZE \<le> 2 ^ 56" and "cap (arena f) \<le> 2 ^ 60"
    and "list_all (\<lambda>p. length (channels_of (routes f) p) \<le> 3 \<and> HEADER_SIZE \<le> length p
           \<and> (payload_present p \<longrightarrow> length p = HEADER_SIZE + unat (ref_length p))) frames"
  shows "\<exists>st sent f1 w1 f2 w2. process_batch L 1 sched1 frames f w = Inr (st, Some sent, f1, w1)
    \<and> process_batch L threads sched frames f w = Inr (st, Some sent, f2, w2)"
proof -
  let ?t = "routes f" and ?need = "sum_list (map length frames) + length frames * TAG_SIZE"
  have Ls: "seal_keeps_length L" by (rule lib_ok_length [OF assms(1)])
  have ne: "frames \<noteq> []" using assms(5) by (auto simp: PARALLEL_BATCH_THRESHOLD_def)
  have same: "map (owned_spec L ?t (fsession f)) (concat (map (duplicate ?t) frames)) = concat (map (full_spec L ?t (fsession f)) frames)"
    using assms(10) duplicates_sealed [OF assms(1)] by (simp add: map_concat comp_def list_all_iff cong: map_cong)
  have fit: "arena_fits (?need * 3) (arena f)" unfolding arena_fits_def using assms(8,9) by simp
  have three: "list_all (\<lambda>p. length (channels_of ?t p) \<le> 3) frames" using assms(10) by (simp add: list_all_iff)
  note serial = full_spray_three_channels [OF Ls assms(2) ne assms(3,4) _ fit three, of 1 sched1]
  obtain a where a: "arena_reserve (?need * 3) (arena_clear (arena f)) = Inr a" "content a = []" "cap a \<le> 2 ^ 61"
    using arena_reserve_ok [of "arena_clear (arena f)" "?need * 3"] assms(8,9)
    by (auto simp: arena_clear_def arena_len_def)
  have "arena_fits (sum_list (map length (concat (map (duplicate ?t) frames)))
      + length (concat (map (duplicate ?t) frames)) * TAG_SIZE) a"
    using duplicates_size [of ?t frames] assms(8) a(3) unfolding arena_fits_def by (intro conjI) simp_all
  from mcr_full_parallel_result [OF Ls assms(2) a(2) assms(7) this] a(1) assms(3-6) ne
  have "mcr_result ?t (concat (map (full_spec L ?t (fsession f)) frames)) (length frames) f w
      (process_batch L threads sched frames f w)"
    by (simp add: process_batch_def process_batch_mcr_def same)
  with serial show ?thesis
    unfolding mcr_result_def batch_result_def by (auto simp: prod_eq_iff)
qed

definition tidy_packet :: bytes where
  "tidy_packet = header_bytes (header_new\<lparr>dst_id := fill_arr 1, seq_num := 7, payload_length := 2\<rparr>) @ [4, 5]"

lemma tidy_packet_fields:
  "length tidy_packet = 98" "ref_dst_id tidy_packet = fill_arr 1" "ref_length tidy_packet = 2" "ref_flow_label tidy_packet = 0"
  unfolding tidy_packet_def ref_header_bytes by (simp_all add: header_new_def)

theorem full_spray_paths_agree_witness:
  "\<exists>st sent f1 w1 f2 w2. process_batch toy_lib 1 [] (replicate 1024 tidy_packet) (full_forwarder example_table) example_process
      = Inr (st, Some sent, f1, w1)
    \<and> process_batch toy_lib 4 (map (\<lambda>i. (i, i mod 4)) [0..<2048]) (replicate 1024 tidy_packet) (full_forwarder example_table) example_process
      = Inr (st, Some sent, f2, w2)"
proof -
  let ?ps = "replicate 1024 tidy_packet"
  have ch: "length (channels_of example_table tidy_packet) = 2"
    using example_channels by (simp add: channels_of_def tidy_packet_fields example_packet_fields)
  then have "length (duplicate example_table tidy_packet) = 2"
    by (auto simp: duplicate_eq tidy_packet_fields HEADER_SIZE_def)
  then have n: "length (concat (map (duplicate example_table) ?ps)) = 2048"
    by (simp add: length_concat comp_def sum_list_replicate)
  have v: "valid_schedule 2048 (map (\<lambda>i. (i, i mod 4)) [0..<2048])"
    unfolding valid_schedule_def by (simp add: comp_def del: upt_rec_numeral)
  have s: "sum_list (map length ?ps) = 1024 * 98" by (simp add: sum_list_replicate tidy_packet_fields)
  have "list_all (\<lambda>p. length (channels_of example_table p) \<le> 3 \<and> HEADER_SIZE \<le> length p
      \<and> (payload_present p \<longrightarrow> length p = HEADER_SIZE + unat (ref_length p))) ?ps"
    using ch by (simp add: list_all_iff tidy_packet_fields HEADER_SIZE_def)
  with full_spray_paths_agree [OF toy_lib_ok, of "full_forwarder example_table" example_process ?ps 4
        "map (\<lambda>i. (i, i mod 4)) [0..<2048]" "[]"] n v s
  show ?thesis by (simp add: proc_ok_example PARALLEL_BATCH_THRESHOLD_def TAG_SIZE_def del: upt_rec_numeral)
qed

subsection \<open>What goes out is a packet again\<close>

lemma rewrite_header_bytes: "rewrite_dst (Some d) (header_bytes h @ rest) = header_bytes (h\<lparr>dst_id := d\<rparr>) @ rest"
proof -
  have "overwrite 32 (bytes_of d) (header_bytes h @ rest) = overwrite 32 (bytes_of d) (header_bytes h) @ rest"
    by (simp add: overwrite_def)
  then show ?thesis using set_header_bytes(2) [of d h] by (simp add: rewrite_dst_def set_dst_id_def DST_OFFSET_def)
qed

lemma parse_prefix: "96 \<le> n \<Longrightarrow> parse (take n (header_bytes h @ rest)) = Inr h"
  by (simp add: parse_header_bytes)

text \<open>The header a packet leaves with: the destination is the flow's channel when there is a route.\<close>

definition next_header :: "table \<Rightarrow> header \<Rightarrow> header" where
  "next_header t h = (case spray_hop_of t (dst_id h) (flow_label h) of None \<Rightarrow> h | Some d \<Rightarrow> h\<lparr>dst_id := d\<rparr>)"

text \<open>An encrypted packet is longer by the tag; what is dropped of any other is at most what lies
  behind the announced payload.\<close>

lemma primary_spec_parses:
  assumes "parse pkt = Inr h" and "seal_keeps_length L"
  shows "case primary_spec L t sess pkt of (out, k) \<Rightarrow>
    parse out = Inr (next_header t h)
    \<and> (if k = Encrypted then length out = length pkt + TAG_SIZE
       else length out \<le> length pkt \<and> min (length pkt) (HEADER_SIZE + unat (payload_length h)) \<le> length out)"
proof -
  have l: "96 \<le> length pkt" using assms(1) parse_ErrBufferTooSmall [of pkt] by (auto simp: not_less [symmetric])
  obtain rest where p: "pkt = header_bytes h @ rest"
    using header_bytes_parse [OF assms(1)] append_take_drop_id [of 96 pkt] by metis
  have f: "ref_dst_id pkt = dst_id h" "ref_flow_label pkt = flow_label h" "ref_length pkt = payload_length h"
    unfolding p ref_header_bytes by simp_all
  show ?thesis
  proof (cases "spray_hop_of t (dst_id h) (flow_label h)")
    case None
    with l assms(1) show ?thesis by (simp add: primary_spec_def next_header_def f HEADER_SIZE_def)
  next
    case (Some d)
    have rw: "rewrite_dst (Some d) pkt = header_bytes (h\<lparr>dst_id := d\<rparr>) @ rest" by (simp add: p rewrite_header_bytes)
    have lp: "length pkt = 96 + length rest" by (simp add: p)
    have len: "length out = length pkt + TAG_SIZE" if "payload_present pkt" "sealed_packet L s (Some d) pkt = Some out" for s out
      using sealed_packet_length [OF assms(2) that] .
    have sealed: "parse out = Inr (h\<lparr>dst_id := d\<rparr>)" if "sealed_packet L s (Some d) pkt = Some out" for s out
      using that by (auto simp: sealed_packet_def rw HEADER_SIZE_def parse_header_bytes split: sum.splits)
    show ?thesis
      using Some l len sealed
      by (auto simp: primary_spec_def next_header_def f rw HEADER_SIZE_def parse_header_bytes parse_header_bytes [where rest = "[]", simplified] parse_prefix payload_present_def Let_def lp
          split: option.splits)
  qed
qed

text \<open>C2. Primary mode turns packets into packets, and nothing else: of a batch, one frame is sent for each
  that came in, in order, and it parses exactly when the frame it came from parses, to the same
  header, except that the destination is the flow's channel where there is a route. A frame too
  short for a header is sent on as it came.\<close>

theorem primary_output_parses:
  assumes "seal_keeps_length L" and "proc_ok (routes f) w" and "frames \<noteq> []"
    and "mcr_enabled f" and "mcr_spray_mode f \<noteq> ''full''"
    and "arena_fits (sum_list (map length frames) + length frames * TAG_SIZE) (arena f)"
  shows "\<exists>st sent f' w'. process_batch L threads sched frames f w = Inr (st, Some sent, f', w')
    \<and> map parse (sent_packets sent) = map (map_sum id (next_header (routes f)) \<circ> parse) frames
    \<and> list_all2 (\<lambda>p out. length p < HEADER_SIZE \<longrightarrow> out = p) frames (sent_packets sent)"
proof -
  let ?spec = "primary_spec L (routes f) (fsession f)"
  have one: "parse (fst (?spec p)) = map_sum id (next_header (routes f)) (parse p)" for p
  proof (cases "parse p")
    case (Inl e)
    then have "length p < HEADER_SIZE" using parse_ErrBufferTooSmall [of p] by (auto simp: HEADER_SIZE_def)
    with Inl show ?thesis by (simp add: primary_spec_def)
  next
    case (Inr h)
    with primary_spec_parses [OF Inr assms(1), of "routes f" "fsession f"] show ?thesis by (auto split: prod.splits)
  qed
  have "list_all2 (\<lambda>p out. length p < HEADER_SIZE \<longrightarrow> out = p) frames (map (fst \<circ> ?spec) frames)"
    by (simp add: list_all2_map2 list_all2_same primary_spec_def)
  with primary_batch [OF assms(1-6), of threads sched] show ?thesis
    unfolding mcr_result_def batch_result_def by (auto simp: comp_def one)
qed

theorem primary_output_parses_witness:
  "\<exists>st sent f' w'. process_batch toy_lib 4 [] [example_packet, [1, 2]] example_forwarder example_process = Inr (st, Some sent, f', w')
    \<and> map parse (sent_packets sent) =
        [Inr (header_new\<lparr>dst_id := fill_arr 2, seq_num := 7, payload_length := 2\<rparr>), Inl ErrBufferTooSmall]
    \<and> sent_packets sent ! 1 = [1, 2]"
proof -
  have p: "parse example_packet = Inr (header_new\<lparr>dst_id := fill_arr 1, seq_num := 7, payload_length := 2\<rparr>)"
    "parse [1, 2] = Inl ErrBufferTooSmall"
    unfolding example_packet_def by (simp_all add: parse_header_bytes parse_ErrBufferTooSmall)
  have d: "spray_hop_of example_table (fill_arr 1) 0 = Some (fill_arr 2)"
    by (simp add: spray_hop_of_def routes_of_example) (simp add: example_route_def spray_order_def channels_def Let_def)
  have a: "arena_fits (sum_list (map length [example_packet, [1, 2]]) + length [example_packet, [1, 2]] * TAG_SIZE) (arena example_forwarder)"
    by (simp add: arena_fits_def example_packet_fields example_forwarder_simps TAG_SIZE_def)
  from primary_output_parses [OF lib_ok_length [OF toy_lib_ok] _ _ _ _ a, of example_process 4 "[]"] show ?thesis
    by (auto simp: example_forwarder_simps proc_ok_example p d next_header_def header_new_def list_all2_Cons1 HEADER_SIZE_def)
qed

end
