(* ===== verification/Router_Run.thy ===== *)
theory Router_Run
  imports Forward_Spray
begin

text \<open>
  A forwarder in use: batches in primary mode (\<open>datapath/src/lib.rs\<close>) with updates and removals of
  routes (\<open>routing/src/lib.rs\<close>, the field \<open>routes\<close> is public) between them, for as long as it
  runs. The state that lives on between batches is the arena, which is cleared and grown, the
  caches of every thread and the epoch. The specification keeps the routes only.
\<close>

subsection \<open>Operations on a forwarder\<close>

datatype router_op =
    ForwardBatch nat "(nat \<times> nat) list" "bytes list"
  | SetRoute nat route_entry
  | DropRoute node_id

text \<open>What a batch returns and sends; nothing for a change of the routes.\<close>

type_synonym router_out = "(fw_stats \<times> bytes list) option"

fun router_step :: "crypto_lib \<Rightarrow> router_op \<Rightarrow> forwarder \<times> process \<Rightarrow> fault + router_out \<times> forwarder \<times> process" where
  "router_step L (ForwardBatch threads sched frames) (f, w) =
     bindr (process_batch L threads sched frames f w) (\<lambda>(st, sent, f, w).
       Inr (Some (st, case sent of None \<Rightarrow> [] | Some s \<Rightarrow> sent_packets s), f, w))"
| "router_step L (SetRoute now e) (f, w) =
     (let (t, ep) = update_route now e (routes f, epoch w) in Inr (None, f\<lparr>routes := t\<rparr>, w\<lparr>epoch := ep\<rparr>))"
| "router_step L (DropRoute d) (f, w) =
     (let (t, ep) = remove_route d (routes f, epoch w) in Inr (None, f\<lparr>routes := t\<rparr>, w\<lparr>epoch := ep\<rparr>))"

fun router_run :: "crypto_lib \<Rightarrow> router_op list \<Rightarrow> forwarder \<times> process \<Rightarrow> fault + router_out list \<times> forwarder \<times> process" where
  "router_run L [] fw = Inr ([], fw)"
| "router_run L (op # ops) fw =
     bindr (router_step L op fw) (\<lambda>(r, fw). bindr (router_run L ops fw) (\<lambda>(rs, fw). Inr (r # rs, fw)))"

subsection \<open>The specification\<close>

type_synonym route_map = "node_id \<rightharpoonup> route_entry"

text \<open>A packet under a map of routes: to the channel its flow selects, sealed when it has a payload.\<close>

definition forward_spec :: "crypto_lib \<Rightarrow> route_map \<Rightarrow> session option \<Rightarrow> bytes \<Rightarrow> bytes \<times> outcome" where
  "forward_spec L M sess pkt =
     (if length pkt < HEADER_SIZE then (pkt, Missed)
      else case M (ref_dst_id pkt) of
        None \<Rightarrow> (pkt, Missed)
      | Some e \<Rightarrow>
          let d = spray_order e (ref_flow_label pkt) ! 0;
              rw = rewrite_dst (Some d) pkt; n = unat (ref_length pkt) in
          if payload_present pkt then
            (case sess of
               None \<Rightarrow> (take (HEADER_SIZE + n) rw, Plain)
             | Some s \<Rightarrow> (case sealed_packet L s (Some d) pkt of
                            Some out \<Rightarrow> (out, Encrypted) | None \<Rightarrow> (rw, Missed)))
          else if 0 < n then (rw, Missed) else (take HEADER_SIZE rw, Plain))"

fun router_spec :: "crypto_lib \<Rightarrow> session option \<Rightarrow> router_op list \<Rightarrow> route_map \<Rightarrow> router_out list" where
  "router_spec L sess [] M = []"
| "router_spec L sess (ForwardBatch threads sched frames # ops) M =
     (let outs = map (forward_spec L M sess) frames
      in Some (count_outcomes (map snd outs) (stats_of (length frames)), map fst outs) # router_spec L sess ops M)"
| "router_spec L sess (SetRoute now e # ops) M = None # router_spec L sess ops (M(dest_id e \<mapsto> e\<lparr>last_seen := now\<rparr>))"
| "router_spec L sess (DropRoute d # ops) M = None # router_spec L sess ops (M(d := None))"

lemma primary_spec_routes: "primary_spec L t sess pkt = forward_spec L (routes_of t) sess pkt"
  by (cases "routes_of t (ref_dst_id pkt)")
    (simp_all add: primary_spec_def forward_spec_def spray_hop_of_def Let_def)

subsection \<open>The invariant\<close>

text \<open>\<open>k\<close> operations may still follow: the epoch must not wrap.\<close>

definition router_ok :: "nat \<Rightarrow> forwarder \<times> process \<Rightarrow> bool" where
  "router_ok k fw \<longleftrightarrow> (let (f, w) = fw in table_wf (routes f) \<and> proc_ok (routes f) w \<and> unat (epoch w) + k < 2 ^ 64
     \<and> mcr_enabled f \<and> mcr_spray_mode f \<noteq> ''full'' \<and> cap (arena f) \<le> 2 ^ 61)"

fun op_fits :: "router_op \<Rightarrow> bool" where
  "op_fits (ForwardBatch threads sched frames) = (sum_list (map length frames) + length frames * TAG_SIZE \<le> 2 ^ 60)"
| "op_fits _ = True"

lemma proc_ok_bump: "proc_ok t w \<Longrightarrow> unat (epoch w) < 2 ^ 64 - 1 \<Longrightarrow> proc_ok t' (w\<lparr>epoch := epoch w + 1\<rparr>)"
  using cache_ok_bump [of t "epoch w" _ t'] spray_ok_bump [of t "epoch w" _ t'] by (simp add: proc_ok_def)

text \<open>Changing the routes of a running forwarder.\<close>

lemma router_ok_routes:
  assumes "router_ok (Suc k) (f, w)" "table_wf t"
  shows "router_ok k (f\<lparr>routes := t\<rparr>, w\<lparr>epoch := epoch w + 1\<rparr>)"
proof -
  from assms(1) have lt: "unat (epoch w) + k < 2 ^ 64 - 1" by (simp add: router_ok_def)
  then have "unat (epoch w + 1) = unat (epoch w) + 1" by (simp add: unat_word_ariths)
  with assms lt proc_ok_bump [of "routes f" w t] show ?thesis by (simp add: router_ok_def)
qed

lemma cleared_reserve_cap:
  assumes "arena_reserve n (arena_clear a) = Inr a'" "n \<le> 2 ^ 60" "cap a \<le> 2 ^ 61"
  shows "content a' = []" "n \<le> cap a'" "cap a' \<le> 2 ^ 61"
proof -
  have fits: "arena_fits n a" using assms(2,3) by (simp add: arena_fits_def)
  from reserve_cleared [OF fits] assms(1) show "content a' = []" "n \<le> cap a'" by auto
  have np: "next_power_of_two n \<le> max 1 (2 * n)" by (rule next_power_of_two_le)
  show "cap a' \<le> 2 ^ 61"
    using assms np by (auto simp: arena_reserve_def arena_clear_def arena_len_def Let_def split: if_splits)
qed

lemma batch_keeps_router:
  assumes "seal_keeps_length L" "router_ok (Suc k) (f, w)" "op_fits (ForwardBatch threads sched frames)"
  shows "\<exists>st sent f' w'. process_batch L threads sched frames f w = Inr (st, sent, f', w') \<and> router_ok k (f', w')
    \<and> routes f' = routes f \<and> fsession f' = fsession f
    \<and> st = count_outcomes (map snd (map (primary_spec L (routes f) (fsession f)) frames)) (stats_of (length frames))
    \<and> (case sent of None \<Rightarrow> [] | Some s \<Rightarrow> sent_packets s) = map fst (map (primary_spec L (routes f) (fsession f)) frames)
    \<and> (\<forall>buf offs. sent = Some (buf, offs) \<longrightarrow> list_all (\<lambda>p. fst p + snd p \<le> length buf) offs)
    \<and> packets_processed w' = packets_processed w + of_nat (length frames)"
proof (cases "frames = []")
  case True
  with assms(2) show ?thesis
    by (simp add: process_batch_def process_batch_mcr_def router_ok_def count_outcomes_def)
next
  case False
  let ?need = "sum_list (map length frames) + length frames * TAG_SIZE"
  from assms(2) have ok: "table_wf (routes f)" "proc_ok (routes f) w" "unat (epoch w) + Suc k < 2 ^ 64" "mcr_enabled f"
    "mcr_spray_mode f \<noteq> ''full''" "cap (arena f) \<le> 2 ^ 61" by (simp_all add: router_ok_def)
  have need: "?need \<le> 2 ^ 60" using assms(3) by simp
  then have "arena_fits ?need (arena f)" using ok(6) by (simp add: arena_fits_def)
  from reserve_cleared [OF this] obtain a where r: "arena_reserve ?need (arena_clear (arena f)) = Inr a" by blast
  note a = cleared_reserve_cap [OF r need ok(6)]
  have e: "process_batch L threads sched frames f w = mcr_primary L frames a f w"
    using False r ok(4,5) by (simp add: process_batch_def process_batch_mcr_def bindr_def)
  from mcr_primary_keeps [OF assms(1) ok(2) a(1,2)] obtain st sent f' w' where
    k: "mcr_primary L frames a f w = Inr (st, sent, f', w')" "fsession f' = fsession f" "mcr_enabled f' = mcr_enabled f"
    "mcr_spray_mode f' = mcr_spray_mode f" "cap (arena f') = cap a" "epoch w' = epoch w" by blast
  from mcr_primary_result [OF assms(1) ok(2) a(1,2)] have
    "st = count_outcomes (map snd (map (primary_spec L (routes f) (fsession f)) frames)) (stats_of (length frames))"
    "\<exists>s. sent = Some s \<and> sent_packets s = map fst (map (primary_spec L (routes f) (fsession f)) frames)"
    "routes f' = routes f" "proc_ok (routes f) w'"
    "\<And>buf offs. sent = Some (buf, offs) \<Longrightarrow> list_all (\<lambda>p. fst p + snd p \<le> length buf) offs"
    "packets_processed w' = packets_processed w + of_nat (length frames)"
    unfolding mcr_result_def batch_result_def k(1)
    using offsets_from_bounds [of 0 "map fst (map (primary_spec L (routes f) (fsession f)) frames)"] by auto
  with k a(3) ok e show ?thesis by (auto simp: router_ok_def)
qed

lemma router_run_refines:
  assumes "seal_keeps_length L"
  shows "router_ok (length ops) (f, w) \<Longrightarrow> list_all op_fits ops \<Longrightarrow>
    \<exists>f' w'. router_run L ops (f, w) = Inr (router_spec L (fsession f) ops (routes_of (routes f)), f', w') \<and> router_ok 0 (f', w')"
proof (induction ops arbitrary: f w)
  case (Cons op ops)
  from Cons.prems have ok: "router_ok (Suc (length ops)) (f, w)" and fit: "list_all op_fits ops" "op_fits op" by simp_all
  from ok have wf: "table_wf (routes f)" by (simp add: router_ok_def)
  show ?case
  proof (cases op)
    case (ForwardBatch threads sched frames)
    with fit(2) batch_keeps_router [OF assms ok, of threads sched frames] obtain st sent f1 w1 where
      b: "process_batch L threads sched frames f w = Inr (st, sent, f1, w1)" "router_ok (length ops) (f1, w1)"
      "routes f1 = routes f" "fsession f1 = fsession f"
      "st = count_outcomes (map snd (map (primary_spec L (routes f) (fsession f)) frames)) (stats_of (length frames))"
      "(case sent of None \<Rightarrow> [] | Some s \<Rightarrow> sent_packets s) = map fst (map (primary_spec L (routes f) (fsession f)) frames)"
      by auto
    from Cons.IH [OF b(2) fit(1)] show ?thesis
      by (auto simp: ForwardBatch b(1,3-6) bindr_def Let_def comp_def primary_spec_routes)
  next
    case (SetRoute now e)
    obtain t ep where u: "update_route now e (routes f, epoch w) = (t, ep)" by fastforce
    note t = table_wf_update [OF wf u]
    from Cons.IH [OF router_ok_routes [OF ok t(1)] fit(1)] t(2,3) show ?thesis
      by (auto simp: SetRoute u bindr_def fun_upd_def)
  next
    case (DropRoute d)
    obtain t ep where u: "remove_route d (routes f, epoch w) = (t, ep)" by fastforce
    note t = table_wf_remove [OF wf u]
    from Cons.IH [OF router_ok_routes [OF ok t(1)] fit(1)] t(2,3) show ?thesis
      by (auto simp: DropRoute u bindr_def fun_upd_def)
  qed
qed (simp add: router_ok_def)

subsection \<open>Properties\<close>

text \<open>C1. A router in use: any sequence of batches in primary mode and changes of the routes runs
  without a fault, and every batch is forwarded by the routes as they stand at that moment. The
  state kept between batches (the arena, the caches of all threads, the shards, the epoch) never
  shows: what is returned and sent is what the specification makes of a plain map of routes.\<close>

theorem router_refines_route_map:
  assumes "seal_keeps_length L" and "table_wf (routes f)" and "proc_ok (routes f) w"
    and "mcr_enabled f" and "mcr_spray_mode f \<noteq> ''full''" and "cap (arena f) \<le> 2 ^ 61"
    and "unat (epoch w) + length ops < 2 ^ 64" and "list_all op_fits ops"
  shows "\<exists>f' w'. router_run L ops (f, w) = Inr (router_spec L (fsession f) ops (routes_of (routes f)), f', w')"
  using router_run_refines [OF assms(1), of ops f w] assms by (auto simp: router_ok_def)

theorem router_refines_route_map_witness:
  "\<exists>r st f' w'. router_run toy_lib [ForwardBatch 4 [] [example_packet], DropRoute (fill_arr 1), ForwardBatch 4 [] [example_packet]]
      (example_forwarder, example_process) = Inr ([Some r, None, Some (st, [example_packet])], f', w')
    \<and> st = \<lparr>received = 1, forwarded = 1, encrypted = 0, route_misses = 1\<rparr>"
proof -
  let ?ops = "[ForwardBatch 4 [] [example_packet], DropRoute (fill_arr 1), ForwardBatch 4 [] [example_packet]]"
  have h: "table_wf (routes example_forwarder)" "proc_ok (routes example_forwarder) example_process"
    "mcr_enabled example_forwarder" "mcr_spray_mode example_forwarder \<noteq> ''full''" "cap (arena example_forwarder) \<le> 2 ^ 61"
    by (simp_all add: example_forwarder_simps example_table_wf proc_ok_example)
  have e: "unat (epoch example_process) + length ?ops < 2 ^ 64" by (simp add: example_process_def)
  have fits: "list_all op_fits ?ops" by (simp add: example_packet_fields TAG_SIZE_def)
  from router_refines_route_map [OF lib_ok_length [OF toy_lib_ok] h e fits] show ?thesis
    by (auto simp: Let_def forward_spec_def example_packet_fields HEADER_SIZE_def count_outcomes_def stats_of_def)
qed

end
