(* ===== verification/Kernel_Rings.thy ===== *)
theory Kernel_Rings
  imports Arena
begin

text \<open>
  The rings shared with the kernel (\<open>afxdp/src/rings.rs\<close>): \<open>RingMmap\<close> over the bytes of the mapped
  region. A ring is two little-endian 32-bit counters (producer, consumer) and an array of
  64-bit descriptors; \<open>rx_pop\<close> and \<open>comp_pop\<close> are the same code at different offsets, and so
  are \<open>fill_push\<close> and \<open>tx_push\<close>, so each pair is one definition with the offsets as arguments.
  The code reads and writes through raw pointers: an access outside the mapped bytes is the
  fault \<open>OutOfRegion\<close>. On a ring whose capacity is a power of two the operations implement a
  bounded queue, also when the counters wrap around.
\<close>

datatype ring_fault = OutOfRegion | CheckFailed

subsection \<open>Raw memory\<close>

definition peek :: "nat \<Rightarrow> nat \<Rightarrow> bytes \<Rightarrow> ring_fault + bytes" where
  "peek off n mem = (if length mem < off + n then Inl OutOfRegion else Inr (subslice off n mem))"

definition put_raw :: "nat \<Rightarrow> bytes \<Rightarrow> bytes \<Rightarrow> ring_fault + bytes" where
  "put_raw off src mem = (if length mem < off + length src then Inl OutOfRegion else Inr (overwrite off src mem))"

definition peek32 :: "nat \<Rightarrow> bytes \<Rightarrow> ring_fault + u32" where
  "peek32 off mem = bindr (peek off 4 mem) (\<lambda>bs. Inr (le_val bs))"

definition put32 :: "nat \<Rightarrow> u32 \<Rightarrow> bytes \<Rightarrow> ring_fault + bytes" where
  "put32 off v mem = put_raw off (le_bytes v) mem"

text \<open>Descriptors copied in or out as raw bytes.\<close>

definition u64s_of :: "nat \<Rightarrow> bytes \<Rightarrow> u64 list" where
  "u64s_of n bs = map (\<lambda>i. le_val (subslice (8 * i) 8 bs)) [0..<n]"

definition bytes_of_u64s :: "u64 list \<Rightarrow> bytes" where
  "bytes_of_u64s xs = concat (map le_bytes xs)"

subsection \<open>The region and its four rings\<close>

record xsk_offsets =
  o_rx :: u64
  o_rx_desc :: u64
  o_tx :: u64
  o_tx_desc :: u64
  o_fill :: u64
  o_fill_desc :: u64
  o_comp :: u64
  o_comp_desc :: u64

record ring_mmap =
  map_size :: nat
  map_offsets :: xsk_offsets
  rx_mask :: nat
  tx_mask :: nat
  fill_mask :: nat
  comp_mask :: nat

text \<open>The capacities are computed from the distances of the descriptor arrays; subtraction on
  \<open>nat\<close> saturates as \<open>saturating_sub\<close> does.\<close>

definition RingMmap_new :: "nat \<Rightarrow> xsk_offsets \<Rightarrow> ring_mmap" where
  "RingMmap_new msize offs =
     (let rx_cap = max ((unat (o_tx_desc offs) - unat (o_rx_desc offs)) div 8) 1;
          tx_cap = max ((unat (o_fill_desc offs) - unat (o_tx_desc offs)) div 8) 1;
          fill_cap = max ((unat (o_comp_desc offs) - unat (o_fill_desc offs)) div 8) 1;
          comp_cap = max ((msize - unat (o_comp_desc offs)) div 8) 1
      in \<lparr>map_size = msize, map_offsets = offs, rx_mask = rx_cap - 1, tx_mask = tx_cap - 1,
          fill_mask = fill_cap - 1, comp_mask = comp_cap - 1\<rparr>)"

definition rx_capacity :: "ring_mmap \<Rightarrow> nat" where "rx_capacity r = rx_mask r + 1"
definition tx_capacity :: "ring_mmap \<Rightarrow> nat" where "tx_capacity r = tx_mask r + 1"
definition fill_capacity :: "ring_mmap \<Rightarrow> nat" where "fill_capacity r = fill_mask r + 1"
definition comp_capacity :: "ring_mmap \<Rightarrow> nat" where "comp_capacity r = comp_mask r + 1"

text \<open>The counters are widened before the subtraction, which therefore wraps at 64 bits.\<close>

definition rx_available :: "ring_mmap \<Rightarrow> bytes \<Rightarrow> ring_fault + u64" where
  "rx_available r mem =
     bindr (peek32 (unat (o_rx (map_offsets r))) mem) (\<lambda>prod.
     bindr (peek32 (unat (o_rx (map_offsets r)) + 4) mem) (\<lambda>cons.
     Inr (ucast prod - ucast cons)))"

definition ring_pop :: "nat \<Rightarrow> nat \<Rightarrow> nat \<Rightarrow> nat \<Rightarrow> bytes \<Rightarrow> ring_fault + u64 list \<times> bytes" where
  "ring_pop meta desc msk max_n mem =
     bindr (peek32 meta mem) (\<lambda>prod.
     bindr (peek32 (meta + 4) mem) (\<lambda>cons.
       let avail = unat (prod - cons) in
       if avail = 0 then Inr ([], mem)
       else
         let capacity = msk + 1; to_take = min avail max_n;
             start_idx = unat cons AND msk;
             chunk1 = min to_take (capacity - start_idx); chunk2 = to_take - chunk1
         in bindr (peek (desc + start_idx * 8) (chunk1 * 8) mem) (\<lambda>b1.
            bindr (if 0 < chunk2 then peek desc (chunk2 * 8) mem else Inr []) (\<lambda>b2.
            bindr (put32 (meta + 4) (cons + of_nat to_take) mem) (\<lambda>mem.
            Inr (u64s_of to_take (b1 @ b2), mem))))))"

definition ring_push :: "nat \<Rightarrow> nat \<Rightarrow> nat \<Rightarrow> u64 list \<Rightarrow> bytes \<Rightarrow> ring_fault + nat \<times> bytes" where
  "ring_push meta desc msk addrs mem =
     bindr (peek32 meta mem) (\<lambda>prod.
     bindr (peek32 (meta + 4) mem) (\<lambda>cons.
       let capacity = msk + 1; used = unat (prod - cons); free = capacity - used in
       if free = 0 then Inr (0, mem)
       else
         let to_push = min free (length addrs);
             start_idx = unat prod AND msk;
             chunk1 = min to_push (capacity - start_idx); chunk2 = to_push - chunk1
         in bindr (put_raw (desc + start_idx * 8) (bytes_of_u64s (take chunk1 addrs)) mem) (\<lambda>mem.
            bindr (if 0 < chunk2 then put_raw desc (bytes_of_u64s (take chunk2 (drop chunk1 addrs))) mem
                   else Inr mem) (\<lambda>mem.
            bindr (put32 meta (prod + of_nat to_push) mem) (\<lambda>mem.
            Inr (to_push, mem))))))"

definition rx_pop :: "ring_mmap \<Rightarrow> nat \<Rightarrow> bytes \<Rightarrow> ring_fault + u64 list \<times> bytes" where
  "rx_pop r max_n mem = ring_pop (unat (o_rx (map_offsets r))) (unat (o_rx_desc (map_offsets r))) (rx_mask r) max_n mem"

definition comp_pop :: "ring_mmap \<Rightarrow> nat \<Rightarrow> bytes \<Rightarrow> ring_fault + u64 list \<times> bytes" where
  "comp_pop r max_n mem = ring_pop (unat (o_comp (map_offsets r))) (unat (o_comp_desc (map_offsets r))) (comp_mask r) max_n mem"

definition fill_push :: "ring_mmap \<Rightarrow> u64 list \<Rightarrow> bytes \<Rightarrow> ring_fault + nat \<times> bytes" where
  "fill_push r addrs mem = ring_push (unat (o_fill (map_offsets r))) (unat (o_fill_desc (map_offsets r))) (fill_mask r) addrs mem"

definition tx_push :: "ring_mmap \<Rightarrow> u64 list \<Rightarrow> bytes \<Rightarrow> ring_fault + nat \<times> bytes" where
  "tx_push r addrs mem = ring_push (unat (o_tx (map_offsets r))) (unat (o_tx_desc (map_offsets r))) (tx_mask r) addrs mem"

text \<open>The checked accessors.\<close>

definition read_u32_at :: "ring_mmap \<Rightarrow> u64 \<Rightarrow> bytes \<Rightarrow> ring_fault + u32" where
  "read_u32_at r off mem = (if map_size r < unat off + 4 then Inl CheckFailed else peek32 (unat off) mem)"

definition read_u64_at :: "ring_mmap \<Rightarrow> u64 \<Rightarrow> bytes \<Rightarrow> ring_fault + u64" where
  "read_u64_at r off mem =
     (if map_size r < unat off + 8 then Inl CheckFailed else bindr (peek (unat off) 8 mem) (\<lambda>bs. Inr (le_val bs)))"

definition write_u64_at :: "ring_mmap \<Rightarrow> u64 \<Rightarrow> u64 \<Rightarrow> bytes \<Rightarrow> ring_fault + bytes" where
  "write_u64_at r off v mem = (if map_size r < unat off + 8 then Inl CheckFailed else put_raw (unat off) (le_bytes v) mem)"

definition write_u32_at :: "ring_mmap \<Rightarrow> u64 \<Rightarrow> u32 \<Rightarrow> bytes \<Rightarrow> ring_fault + bytes" where
  "write_u32_at r off v mem = (if map_size r < unat off + 4 then Inl CheckFailed else put32 (unat off) v mem)"

definition region_slice :: "ring_mmap \<Rightarrow> u64 \<Rightarrow> nat \<Rightarrow> bytes \<Rightarrow> ring_fault + bytes" where
  "region_slice r off n mem = (if map_size r < unat off + n then Inl CheckFailed else peek (unat off) n mem)"

subsection \<open>The queue contract\<close>

text \<open>A bounded queue whose operations move as many items as they can: what a client of the
  rings and of the free list relies on. An operation may fault; the contract is that on a
  well-formed state it does not.\<close>

datatype 'a queue_op = Push "'a list" | Pop nat

datatype 'a queue_ret = Pushed nat | Popped "'a list"

fun queue_run :: "nat \<Rightarrow> 'a queue_op list \<Rightarrow> 'a list \<Rightarrow> 'a queue_ret list" where
  "queue_run limit [] q = []"
| "queue_run limit (Push xs # ops) q =
     (let n = min (limit - length q) (length xs) in Pushed n # queue_run limit ops (q @ take n xs))"
| "queue_run limit (Pop k # ops) q = Popped (take k q) # queue_run limit ops (drop k q)"

fun fifo_run :: "('a list \<Rightarrow> 's \<Rightarrow> 'e + nat \<times> 's) \<Rightarrow> (nat \<Rightarrow> 's \<Rightarrow> 'e + 'a list \<times> 's) \<Rightarrow> 'a queue_op list \<Rightarrow> 's \<Rightarrow> 'e + 'a queue_ret list" where
  "fifo_run push pop [] s = Inr []"
| "fifo_run push pop (Push xs # ops) s =
     bindr (push xs s) (\<lambda>(n, s). bindr (fifo_run push pop ops s) (\<lambda>rs. Inr (Pushed n # rs)))"
| "fifo_run push pop (Pop k # ops) s =
     bindr (pop k s) (\<lambda>(xs, s). bindr (fifo_run push pop ops s) (\<lambda>rs. Inr (Popped xs # rs)))"

locale fifo =
  fixes ok :: "'s \<Rightarrow> bool" and contents :: "'s \<Rightarrow> 'a list" and limit :: "'s \<Rightarrow> nat"
    and push :: "'a list \<Rightarrow> 's \<Rightarrow> 'e + nat \<times> 's" and pop :: "nat \<Rightarrow> 's \<Rightarrow> 'e + 'a list \<times> 's"
  assumes push_ok: "ok s \<Longrightarrow> n = min (limit s - length (contents s)) (length xs) \<Longrightarrow>
      \<exists>s'. push xs s = Inr (n, s') \<and> ok s' \<and> contents s' = contents s @ take n xs \<and> limit s' = limit s"
    and pop_ok: "ok s \<Longrightarrow> \<exists>s'. pop k s = Inr (take k (contents s), s') \<and> ok s'
      \<and> contents s' = drop k (contents s) \<and> limit s' = limit s"
begin

lemma run_refines: "ok s \<Longrightarrow> fifo_run push pop ops s = Inr (queue_run (limit s) ops (contents s))"
proof (induction ops arbitrary: s)
  case (Cons op ops)
  show ?case
  proof (cases op)
    case (Push xs)
    obtain s' where s': "push xs s = Inr (min (limit s - length (contents s)) (length xs), s')" "ok s'"
      "contents s' = contents s @ take (min (limit s - length (contents s)) (length xs)) xs" "limit s' = limit s"
      using push_ok [OF Cons.prems refl, of xs] by blast
    show ?thesis using Cons.IH [OF s'(2)] s'(3,4) by (simp add: Push s'(1) Let_def)
  next
    case (Pop k)
    from pop_ok [OF Cons.prems] obtain s' where s': "pop k s = Inr (take k (contents s), s')" "ok s'"
      "contents s' = drop k (contents s)" "limit s' = limit s" by blast
    show ?thesis using Cons.IH [OF s'(2)] s'(3,4) by (simp add: Pop s'(1))
  qed
qed simp

end

subsection \<open>Descriptors as an array\<close>

definition slot_at :: "nat \<Rightarrow> bytes \<Rightarrow> nat \<Rightarrow> u64" where
  "slot_at desc mem i = le_val (subslice (desc + 8 * i) 8 mem)"

lemma length_bytes_of_u64s [simp]: "length (bytes_of_u64s xs) = 8 * length xs"
  by (induction xs) (simp_all add: bytes_of_u64s_def)

lemma bytes_of_u64s_Nil [simp]: "bytes_of_u64s [] = []"
  by (simp add: bytes_of_u64s_def)

lemma u64s_of_bytes: "u64s_of (length xs) (bytes_of_u64s xs @ rest) = xs"
proof (rule nth_equalityI)
  fix i assume "i < length (u64s_of (length xs) (bytes_of_u64s xs @ rest))"
  then have i: "i < length xs" by (simp add: u64s_of_def)
  have "subslice (8 * i) 8 (bytes_of_u64s xs @ rest) = le_bytes (xs ! i)"
  proof -
    have "bytes_of_u64s xs = bytes_of_u64s (take i xs) @ le_bytes (xs ! i) @ bytes_of_u64s (drop (Suc i) xs)"
      by (subst id_take_nth_drop [OF i]) (simp add: bytes_of_u64s_def)
    moreover have "length (bytes_of_u64s (take i xs)) = 8 * i" using i by simp
    ultimately show ?thesis by (simp add: subslice_def)
  qed
  then show "u64s_of (length xs) (bytes_of_u64s xs @ rest) ! i = xs ! i"
    using i by (simp add: u64s_of_def le_val_le_bytes)
qed (simp add: u64s_of_def)

lemma slot_put:
  assumes "desc + 8 * (s + length xs) \<le> length mem" "desc + 8 * j + 8 \<le> length mem"
  shows "slot_at desc (overwrite (desc + 8 * s) (bytes_of_u64s xs) mem) j =
    (if s \<le> j \<and> j < s + length xs then xs ! (j - s) else slot_at desc mem j)"
proof (cases "s \<le> j \<and> j < s + length xs")
  case True
  let ?k = "j - s"
  have k: "?k < length xs" "j = s + ?k" using True by auto
  have "subslice (desc + 8 * j) 8 (overwrite (desc + 8 * s) (bytes_of_u64s xs) mem) =
      subslice (8 * ?k) 8 (subslice (desc + 8 * s) (8 * length xs) (overwrite (desc + 8 * s) (bytes_of_u64s xs) mem))"
    using k by (subst slice_slice) (simp_all add: algebra_simps)
  also have "\<dots> = subslice (8 * ?k) 8 (bytes_of_u64s xs @ [])"
    using assms(1) by (subst slice_overwrite_same) (simp_all add: algebra_simps)
  finally have "slot_at desc (overwrite (desc + 8 * s) (bytes_of_u64s xs) mem) j =
      u64s_of (length xs) (bytes_of_u64s xs @ []) ! ?k"
    using k(1) by (simp add: slot_at_def u64s_of_def)
  then show ?thesis using True by (simp only: u64s_of_bytes if_True simp_thms)
next
  case False
  have "subslice (desc + 8 * j) 8 (overwrite (desc + 8 * s) (bytes_of_u64s xs) mem) = subslice (desc + 8 * j) 8 mem"
    using assms False by (intro slice_overwrite_disjoint) auto
  with False show ?thesis by (auto simp: slot_at_def)
qed

lemma slot_other:
  assumes "off + length src \<le> length mem" "desc + 8 * j + 8 \<le> length mem"
    and "off + length src \<le> desc \<or> desc + 8 * j + 8 \<le> off"
  shows "slot_at desc (overwrite off src mem) j = slot_at desc mem j"
proof -
  have "subslice (desc + 8 * j) 8 (overwrite off src mem) = subslice (desc + 8 * j) 8 mem"
    using assms by (intro slice_overwrite_disjoint) auto
  then show ?thesis by (simp add: slot_at_def)
qed

lemma u64s_of_slots: "off + 8 * n \<le> length mem \<Longrightarrow> u64s_of n (subslice off (8 * n) mem @ rest) = map (slot_at off mem) [0..<n]"
proof (rule nth_equalityI)
  fix i assume a: "off + 8 * n \<le> length mem" "i < length (u64s_of n (subslice off (8 * n) mem @ rest))"
  then have i: "i < n" by (simp add: u64s_of_def)
  then have "subslice (8 * i) 8 (subslice off (8 * n) mem @ rest) = subslice (off + 8 * i) 8 mem"
    using a(1) by (simp add: slice_append1 length_slice slice_slice)
  then show "u64s_of n (subslice off (8 * n) mem @ rest) ! i = map (slot_at off mem) [0..<n] ! i"
    using i by (simp add: u64s_of_def slot_at_def)
qed (simp add: u64s_of_def)

lemma u64s_of_append:
  assumes "length b = 8 * n"
  shows "u64s_of (n + m) (b @ c) = u64s_of n b @ u64s_of m c"
proof -
  have 1: "subslice (8 * i) 8 (b @ c) = subslice (8 * i) 8 b" if "i < n" for i
    using assms that by (simp add: slice_append1)
  have 2: "subslice (8 * i) 8 (b @ c) = subslice (8 * (i - n)) 8 c" if "\<not> i < n" for i
    using slice_append2 [of b "8 * (i - n)" 8 c] assms that by (simp add: algebra_simps)
  show ?thesis
    by (rule nth_equalityI) (auto simp: u64s_of_def nth_append 1 2)
qed

subsection \<open>The abstract queue of a ring\<close>

definition ring_prod :: "nat \<Rightarrow> bytes \<Rightarrow> u32" where "ring_prod meta mem = le_val (subslice meta 4 mem)"

definition ring_cons :: "nat \<Rightarrow> bytes \<Rightarrow> u32" where "ring_cons meta mem = le_val (subslice (meta + 4) 4 mem)"

definition ring_avail :: "nat \<Rightarrow> bytes \<Rightarrow> nat" where "ring_avail meta mem = unat (ring_prod meta mem - ring_cons meta mem)"

definition ring_contents :: "nat \<Rightarrow> nat \<Rightarrow> nat \<Rightarrow> bytes \<Rightarrow> u64 list" where
  "ring_contents meta desc msk mem =
     map (\<lambda>i. slot_at desc mem ((unat (ring_cons meta mem) + i) mod (msk + 1))) [0..<ring_avail meta mem]"

text \<open>The layout a ring needs: a capacity that is a power of two below \<open>2 ^ 32\<close>, counters and
  descriptors inside the region and apart, and no more items than slots.\<close>

definition ring_ok :: "nat \<Rightarrow> nat \<Rightarrow> nat \<Rightarrow> bytes \<Rightarrow> bool" where
  "ring_ok meta desc msk mem \<longleftrightarrow> is_power_of_two (msk + 1) \<and> msk + 1 < 2 ^ 32
     \<and> meta + 8 \<le> length mem \<and> desc + 8 * (msk + 1) \<le> length mem
     \<and> (meta + 8 \<le> desc \<or> desc + 8 * (msk + 1) \<le> meta) \<and> ring_avail meta mem \<le> msk + 1"

lemma peek32_ok [simp]: "off + 4 \<le> length mem \<Longrightarrow> peek32 off mem = Inr (le_val (subslice off 4 mem))"
  by (simp add: peek32_def peek_def)

lemma put32_ok [simp]: "off + 4 \<le> length mem \<Longrightarrow> put32 off v mem = Inr (overwrite off (le_bytes v) mem)"
  by (simp add: put32_def put_raw_def)

lemma word_mod_pow2:
  assumes "is_power_of_two n" "n < 2 ^ 32"
  shows "unat (c + of_nat k :: u32) mod n = (unat c + k) mod n"
proof -
  from assms(1) obtain j where j: "n = 2 ^ j" by (auto simp: is_power_of_two_iff)
  with assms(2) have "(2 :: nat) ^ j < 2 ^ 32" by (simp only:)
  then have "j < 32" by (rule power_less_imp_less_exp [rotated]) simp
  then have d: "n dvd 2 ^ 32" unfolding j by (intro le_imp_power_dvd) simp
  have "unat (c + of_nat k) = (unat c + k) mod 2 ^ 32"
    by (simp add: unat_word_ariths(1) unat_of_nat mod_add_right_eq)
  then show ?thesis by (simp only: mod_mod_cancel [OF d])
qed

lemma unat_diff_of_nat: "k \<le> unat d \<Longrightarrow> unat (d - of_nat k :: u32) = unat d - k"
proof -
  assume k: "k \<le> unat d"
  have "unat d < 2 ^ 32" using unsigned_less [of d] by simp
  with k have "unat (of_nat k :: u32) = k" by (simp add: unat_of_nat)
  with k show ?thesis by (simp add: unat_sub_if')
qed

lemma unat_plus_of_nat: "unat d + k < 2 ^ 32 \<Longrightarrow> unat (d + of_nat k :: u32) = unat d + k"
  by (simp add: unat_word_ariths(1) unat_of_nat)

lemma avail_after_pop: "k \<le> unat (p - c :: u32) \<Longrightarrow> unat (p - (c + of_nat k)) = unat (p - c) - k"
  by (simp only: unat_diff_of_nat flip: diff_diff_eq)

lemma avail_after_push:
  assumes "unat (p - c :: u32) + k < 2 ^ 32"
  shows "unat (p + of_nat k - c) = unat (p - c) + k"
proof -
  have "p + of_nat k - c = (p - c) + of_nat k" by simp
  then show ?thesis using unat_plus_of_nat [OF assms] by (simp only:)
qed

lemma counters_after:
  assumes "meta + 8 \<le> length mem"
  shows "ring_prod meta (overwrite (meta + 4) (le_bytes v) mem) = ring_prod meta mem"
    "ring_cons meta (overwrite (meta + 4) (le_bytes v) mem) = v"
    "ring_prod meta (overwrite meta (le_bytes v) mem) = v"
    "ring_cons meta (overwrite meta (le_bytes v) mem) = ring_cons meta mem"
  using assms
  by (simp_all add: ring_prod_def ring_cons_def slice_overwrite_disjoint slice_overwrite_same le_val_le_bytes)

lemma take_upt_min: "take k [0..<n] = [0..<min n k]"
  by (rule nth_equalityI) auto

lemma chunk_bounds:
  assumes "s < N" "n \<le> (N :: nat)"
  shows "s + min n (N - s) \<le> N" "n - min n (N - s) \<le> s" "min n (N - s) \<le> n"
  using assms by auto

lemma chunks_cover:
  assumes "s < N" "n \<le> N"
  shows "[s..<s + min n (N - s)] @ [0..<n - min n (N - s)] = map (\<lambda>i. (s + i) mod N) [0..<n]"
proof (rule nth_equalityI)
  fix i assume "i < length ([s..<s + min n (N - s)] @ [0..<n - min n (N - s)])"
  then have i: "i < n" by simp
  show "([s..<s + min n (N - s)] @ [0..<n - min n (N - s)]) ! i = map (\<lambda>i. (s + i) mod N) [0..<n] ! i"
  proof (cases "s + i < N")
    case True
    then have "i < min n (N - s)" using i by simp
    then show ?thesis using i True by (simp add: nth_append)
  next
    case False
    then have "(s + i) mod N = s + i - N" using assms i by (simp add: mod_if)
    moreover have "\<not> i < min n (N - s)" "min n (N - s) = N - s" "i - (N - s) < n - (N - s)" "i - (N - s) = s + i - N"
      using False assms i by auto
    ultimately show ?thesis using i by (simp add: nth_append)
  qed
qed simp

lemma slots_from: "u64s_of n (subslice (desc + 8 * s) (8 * n) mem) = map (slot_at desc mem) [s..<s + n]"
  if "desc + 8 * (s + n) \<le> length mem"
proof -
  have "slot_at (desc + 8 * s) mem i = slot_at desc mem (s + i)" for i by (simp add: slot_at_def algebra_simps)
  moreover have "[s..<s + n] = map (\<lambda>i. s + i) [0..<n]" by (rule nth_equalityI) auto
  ultimately show ?thesis
    using u64s_of_slots [of "desc + 8 * s" n mem "[]"] that by (simp add: algebra_simps comp_def)
qed

lemma ring_ok_layout:
  assumes "ring_ok meta desc msk mem"
  shows "meta + 8 \<le> length mem" "desc + 8 * (msk + 1) \<le> length mem" "ring_avail meta mem \<le> msk + 1"
    "peek32 meta mem = Inr (ring_prod meta mem)" "peek32 (meta + 4) mem = Inr (ring_cons meta mem)"
  using assms by (simp_all add: ring_ok_def ring_prod_def ring_cons_def)

lemma ring_ok_mask: "ring_ok meta desc msk mem \<Longrightarrow> unat c AND msk = unat c mod (msk + 1)"
  using and_mask_mod [of "msk + 1" "unat c"] by (simp add: ring_ok_def)

lemma ring_pop_exact:
  assumes "ring_ok meta desc msk mem"
  shows "ring_pop meta desc msk k mem = Inr (take k (ring_contents meta desc msk mem),
    overwrite (meta + 4) (le_bytes (ring_cons meta mem + of_nat (min (ring_avail meta mem) k))) mem)"
proof -
  define c a N where "c = ring_cons meta mem" and "a = ring_avail meta mem" and "N = msk + 1"
  define n s n1 where "n = min a k" and "s = unat c mod N" and "n1 = min n (N - s)"
  note l = ring_ok_layout [OF assms, folded c_def a_def N_def]
  have m: "unat c AND msk = s" using ring_ok_mask [OF assms] by (simp add: s_def N_def)
  have sN: "s < N" by (simp add: s_def N_def)
  have nN: "n \<le> N" using l(3) by (simp add: n_def)
  note cb = chunk_bounds [OF sN nN, folded n1_def]
  have in1: "desc + 8 * (s + n1) \<le> length mem" and in2: "desc + 8 * (n - n1) \<le> length mem"
    using l(2) mult_le_mono2 [OF cb(1), of 8] mult_le_mono2 [OF le_trans [OF cb(2) less_imp_le [OF sN]], of 8] by simp_all
  have "take k (ring_contents meta desc msk mem) = map (slot_at desc mem) (map (\<lambda>i. (s + i) mod N) [0..<n])"
    by (simp add: ring_contents_def take_map take_upt_min mod_add_left_eq n_def s_def N_def a_def c_def)
  also have "\<dots> = map (slot_at desc mem) ([s..<s + n1] @ [0..<n - n1])"
    by (simp only: chunks_cover [OF sN nN, folded n1_def])
  also have "\<dots> = u64s_of (n1 + (n - n1)) (subslice (desc + 8 * s) (8 * n1) mem @ subslice desc (8 * (n - n1)) mem)"
    using slots_from [OF in1] slots_from [of desc 0 "n - n1" mem] in1 in2
    by (simp add: u64s_of_append length_slice algebra_simps)
  also have "n1 + (n - n1) = n" using cb(3) by simp
  finally have out: "take k (ring_contents meta desc msk mem) =
      u64s_of n (subslice (desc + 8 * s) (8 * n1) mem @ subslice desc (8 * (n - n1)) mem)" .
  have a: "unat (ring_prod meta mem - c) = a" by (simp add: a_def c_def ring_avail_def)
  show ?thesis
  proof (cases "a = 0")
    case True
    then have "overwrite (meta + 4) (le_bytes (c + of_nat (min a k))) mem = mem"
      using le32.put_get [of "meta + 4" mem] l(1) by (simp add: c_def ring_cons_def)
    then show ?thesis
      using True a by (simp add: ring_pop_def l(4,5) ring_contents_def c_def a_def)
  next
    case False
    have "ring_pop meta desc msk k mem = Inr (u64s_of n (subslice (desc + 8 * s) (8 * n1) mem @ subslice desc (8 * (n - n1)) mem),
        overwrite (meta + 4) (le_bytes (c + of_nat n)) mem)"
      unfolding ring_pop_def l(4,5) bindr_simps Let_def a m n_def [symmetric] N_def [symmetric] n1_def [symmetric]
      using False l(1) in1 in2 by (auto simp: peek_def algebra_simps subslice_def)
    then show ?thesis by (simp only: out n_def a_def c_def)
  qed
qed

lemma ring_pop_state:
  fixes k
  assumes "ring_ok meta desc msk mem"
  defines "mem' \<equiv> overwrite (meta + 4) (le_bytes (ring_cons meta mem + of_nat (min (ring_avail meta mem) k))) mem"
  shows "ring_ok meta desc msk mem'" "ring_contents meta desc msk mem' = drop k (ring_contents meta desc msk mem)"
proof -
  let ?n = "min (ring_avail meta mem) k"
  from assms(1) have l: "is_power_of_two (msk + 1)" "msk + 1 < 2 ^ 32" "meta + 8 \<le> length mem" "desc + 8 * (msk + 1) \<le> length mem"
    "meta + 8 \<le> desc \<or> desc + 8 * (msk + 1) \<le> meta" "ring_avail meta mem \<le> msk + 1" by (simp_all add: ring_ok_def)
  have c: "ring_prod meta mem' = ring_prod meta mem" "ring_cons meta mem' = ring_cons meta mem + of_nat ?n"
    using counters_after [OF l(3)] by (simp_all add: mem'_def)
  have av: "ring_avail meta mem' = ring_avail meta mem - ?n"
    unfolding ring_avail_def c by (rule avail_after_pop) (simp add: ring_avail_def)
  have len: "length mem' = length mem" using l(3) by (simp add: mem'_def length_overwrite)
  show "ring_ok meta desc msk mem'" using l av by (simp add: ring_ok_def len)
  have sl: "slot_at desc mem' j = slot_at desc mem j" if "j < msk + 1" for j
    unfolding mem'_def using l that by (intro slot_other) auto
  have "ring_contents meta desc msk mem' =
      map (\<lambda>i. slot_at desc mem ((unat (ring_cons meta mem) + ?n + i) mod (msk + 1))) [0..<ring_avail meta mem - ?n]"
    unfolding ring_contents_def c av
    using word_mod_pow2 [OF l(1,2), of "ring_cons meta mem" ?n]
    by (intro map_cong refl) (metis mod_add_left_eq sl mod_less_divisor add_gr_0 zero_less_one)
  also have "\<dots> = drop k (ring_contents meta desc msk mem)"
    by (rule nth_equalityI) (auto simp: ring_contents_def min_def add.assoc)
  finally show "ring_contents meta desc msk mem' = drop k (ring_contents meta desc msk mem)" .
qed

lemma overwrite_Nil [simp]: "overwrite off [] buf = buf"
  by (simp add: overwrite_def)

definition write_slots :: "nat \<Rightarrow> nat \<Rightarrow> nat \<Rightarrow> u64 list \<Rightarrow> bytes \<Rightarrow> bytes" where
  "write_slots desc N s xs mem =
     (let n1 = min (length xs) (N - s) in
      overwrite desc (bytes_of_u64s (drop n1 xs)) (overwrite (desc + 8 * s) (bytes_of_u64s (take n1 xs)) mem))"

lemma mod_apart: "i < k \<Longrightarrow> k < i + N \<Longrightarrow> (c + i) mod N \<noteq> (c + k) mod (N :: nat)"
proof
  assume a: "i < k" "k < i + N" "(c + i) mod N = (c + k) mod N"
  then have "N dvd (c + k) - (c + i)" by (metis mod_eq_dvd_iff_nat add_le_cancel_left less_imp_le)
  with a(1,2) show False by (auto dest: dvd_imp_le)
qed

lemma write_slots_props:
  assumes "s < N" "length xs \<le> N" "desc + 8 * N \<le> length mem"
  shows "length (write_slots desc N s xs mem) = length mem"
    and "t < length xs \<Longrightarrow> slot_at desc (write_slots desc N s xs mem) ((s + t) mod N) = xs ! t"
    and "j < N \<Longrightarrow> (\<And>t. t < length xs \<Longrightarrow> j \<noteq> (s + t) mod N) \<Longrightarrow> slot_at desc (write_slots desc N s xs mem) j = slot_at desc mem j"
    and "off + n \<le> desc \<or> desc + 8 * N \<le> off \<Longrightarrow> off + n \<le> length mem \<Longrightarrow>
      subslice off n (write_slots desc N s xs mem) = subslice off n mem"
proof -
  define n1 m1 where "n1 = min (length xs) (N - s)" and "m1 = overwrite (desc + 8 * s) (bytes_of_u64s (take n1 xs)) mem"
  have w: "write_slots desc N s xs mem = overwrite (desc + 8 * 0) (bytes_of_u64s (drop n1 xs)) m1"
    by (simp add: write_slots_def Let_def n1_def m1_def)
  note cb = chunk_bounds [OF assms(1,2), folded n1_def]
  have in1: "desc + 8 * (s + length (take n1 xs)) \<le> length mem"
    using assms(3) cb(1,3) mult_le_mono2 [OF cb(1), of 8] by simp
  have len1: "length m1 = length mem" using in1 by (simp add: m1_def length_overwrite)
  have in2: "desc + 8 * (0 + length (drop n1 xs)) \<le> length m1"
    using assms(1,3) cb(2) len1 by simp
  show "length (write_slots desc N s xs mem) = length mem"
    unfolding w using in2 len1 by (subst length_overwrite) simp_all
  have sl: "slot_at desc (write_slots desc N s xs mem) j =
      (if j < length xs - n1 then xs ! (n1 + j) else if s \<le> j \<and> j < s + n1 then xs ! (j - s) else slot_at desc mem j)"
    if j: "j < N" for j
  proof -
    have "desc + 8 * j + 8 \<le> length mem" using assms(3) j mult_le_mono2 [of "Suc j" N 8] by simp
    then show ?thesis
      unfolding w using in2 len1 in1 cb(3) by (subst slot_put) (auto simp: m1_def slot_put)
  qed
  show "slot_at desc (write_slots desc N s xs mem) ((s + t) mod N) = xs ! t" if t: "t < length xs"
  proof (cases "t < n1")
    case True
    then have "(s + t) mod N = s + t" using cb(1) by simp
    moreover have "\<not> s + t < length xs - n1" using cb(2) by simp
    ultimately show ?thesis using sl [of "s + t"] True cb(1) by simp
  next
    case False
    then have n1: "n1 = N - s" using t by (auto simp: n1_def)
    have "\<not> s + t < N" "s + t - N < N" "s + t - N = t - n1" using n1 False assms t by auto
    then have "(s + t) mod N = t - n1" by (simp add: mod_if)
    moreover have "t - n1 < length xs - n1" "t - n1 < N" "n1 + (t - n1) = t" using False n1 assms t by auto
    ultimately show ?thesis using sl [of "t - n1"] by simp
  qed
  show "slot_at desc (write_slots desc N s xs mem) j = slot_at desc mem j"
    if j: "j < N" and no: "\<And>t. t < length xs \<Longrightarrow> j \<noteq> (s + t) mod N"
  proof -
    have "\<not> j < length xs - n1"
    proof
      assume jl: "j < length xs - n1"
      then have "n1 = N - s" by (auto simp: n1_def)
      then have "j = (s + (n1 + j)) mod N" using assms(1) j by (simp add: mod_if)
      moreover have "n1 + j < length xs" using jl by simp
      ultimately show False using no by blast
    qed
    moreover have "\<not> (s \<le> j \<and> j < s + n1)"
    proof
      assume jl: "s \<le> j \<and> j < s + n1"
      then have "j = (s + (j - s)) mod N" using j by simp
      with no [of "j - s"] jl cb(3) show False by (metis add_less_imp_less_left le_add_diff_inverse order_less_le_trans)
    qed
    ultimately show ?thesis unfolding sl [OF j] by (simp only: if_False)
  qed
  show "subslice off n (write_slots desc N s xs mem) = subslice off n mem"
    if "off + n \<le> desc \<or> desc + 8 * N \<le> off" "off + n \<le> length mem"
  proof -
    have "subslice off n m1 = subslice off n mem"
      unfolding m1_def using in1 that mult_le_mono2 [OF cb(1), of 8] cb(3) by (intro slice_overwrite_disjoint) auto
    moreover have "subslice off n (write_slots desc N s xs mem) = subslice off n m1"
      unfolding w using in2 len1 that cb(2) assms(1) by (intro slice_overwrite_disjoint) auto
    ultimately show ?thesis by simp
  qed
qed

definition pushed_mem :: "nat \<Rightarrow> nat \<Rightarrow> nat \<Rightarrow> u64 list \<Rightarrow> bytes \<Rightarrow> bytes" where
  "pushed_mem meta desc msk ys mem = overwrite meta (le_bytes (ring_prod meta mem + of_nat (length ys)))
     (write_slots desc (msk + 1) (unat (ring_prod meta mem) mod (msk + 1)) ys mem)"

lemma ring_push_exact:
  assumes "ring_ok meta desc msk mem"
  defines "n \<equiv> \<lambda>xs. min (msk + 1 - ring_avail meta mem) (length xs)"
  shows "ring_push meta desc msk xs mem = Inr (n xs, pushed_mem meta desc msk (take (n xs) xs) mem)"
proof -
  define p a N where "p = ring_prod meta mem" and "a = ring_avail meta mem" and "N = msk + 1"
  define k s n1 where "k = n xs" and "s = unat p mod N" and "n1 = min k (N - s)"
  note l = ring_ok_layout [OF assms(1), folded p_def a_def N_def]
  have m: "unat p AND msk = s" using ring_ok_mask [OF assms(1)] by (simp add: s_def N_def)
  have sN: "s < N" by (simp add: s_def N_def)
  have kN: "k \<le> N" "k \<le> length xs" by (simp_all add: k_def n_def N_def)
  note cb = chunk_bounds [OF sN kN(1), folded n1_def]
  have in1: "desc + 8 * (s + n1) \<le> length mem" and in2: "desc + 8 * (k - n1) \<le> length mem"
    using l(2) mult_le_mono2 [OF cb(1), of 8] mult_le_mono2 [OF le_trans [OF cb(2) less_imp_le [OF sN]], of 8] by simp_all
  let ?ys = "take k xs"
  have lk: "length ?ys = k" using kN(2) by simp
  let ?w = "write_slots desc N s ?ys mem"
  have len: "length ?w = length mem" using sN kN(1) lk l(2) by (intro write_slots_props) simp_all
  have prod: "ring_prod meta mem - ring_cons meta mem = of_nat a" by (simp add: a_def ring_avail_def)
  show ?thesis
  proof (cases "N - a = 0")
    case True
    then have "k = 0" by (simp add: k_def n_def N_def a_def)
    moreover have "pushed_mem meta desc msk [] mem = mem"
      using le32.put_get [of meta mem] l(1) by (simp add: pushed_mem_def write_slots_def bytes_of_u64s_def ring_prod_def)
    moreover have "msk + 1 - unat (p - ring_cons meta mem) = 0"
      using True by (simp add: a_def N_def p_def ring_avail_def)
    ultimately show ?thesis
      unfolding ring_push_def l(4,5) bindr_simps Let_def k_def [symmetric] by simp
  next
    case False
    have t1: "take n1 xs = take n1 ?ys" "take (k - n1) (drop n1 xs) = drop n1 ?ys"
      using cb(3) by (simp_all add: min_def take_drop)
    have b1: "put_raw (desc + s * 8) (bytes_of_u64s (take n1 xs)) mem = Inr (overwrite (desc + 8 * s) (bytes_of_u64s (take n1 ?ys)) mem)"
      using in1 cb(3) lk unfolding t1(1) by (simp add: put_raw_def algebra_simps)
    have b2: "(if 0 < k - n1 then put_raw desc (bytes_of_u64s (take (k - n1) (drop n1 xs)))
          (overwrite (desc + 8 * s) (bytes_of_u64s (take n1 ?ys)) mem)
        else Inr (overwrite (desc + 8 * s) (bytes_of_u64s (take n1 ?ys)) mem)) = Inr ?w"
      using in1 in2 cb(3) lk unfolding t1(2)
      by (auto simp: put_raw_def length_overwrite write_slots_def Let_def n1_def [symmetric])
    have u: "unat (p - ring_cons meta mem) = a" by (simp add: a_def p_def ring_avail_def)
    have kk: "min (N - a) (length xs) = k" by (simp add: k_def n_def N_def a_def)
    have "ring_push meta desc msk xs mem = Inr (k, overwrite meta (le_bytes (p + of_nat k)) ?w)"
      unfolding ring_push_def l(4,5) bindr_simps Let_def u m N_def [symmetric] kk n1_def [symmetric] b1 b2
      using False l(1) len by simp
    then show ?thesis
      unfolding pushed_mem_def k_def [symmetric] lk p_def [symmetric] N_def [symmetric] s_def [symmetric] .
  qed
qed

lemma ring_push_state:
  assumes "ring_ok meta desc msk mem" "length ys \<le> msk + 1 - ring_avail meta mem"
  shows "ring_ok meta desc msk (pushed_mem meta desc msk ys mem)"
    "ring_contents meta desc msk (pushed_mem meta desc msk ys mem) = ring_contents meta desc msk mem @ ys"
proof -
  define p c a N s where "p = ring_prod meta mem" and "c = ring_cons meta mem" and "a = ring_avail meta mem"
    and "N = msk + 1" and "s = unat p mod N"
  let ?w = "write_slots desc N s ys mem" and ?m = "pushed_mem meta desc msk ys mem"
  from assms(1) have l: "is_power_of_two N" "N < 2 ^ 32" "meta + 8 \<le> length mem" "desc + 8 * N \<le> length mem"
    "meta + 8 \<le> desc \<or> desc + 8 * N \<le> meta" "a \<le> N" by (simp_all add: ring_ok_def a_def N_def)
  have sN: "s < N" by (simp add: s_def N_def)
  have n: "length ys \<le> N" "a + length ys \<le> N" using assms(2) l(6) by (simp_all add: N_def a_def)
  note w = write_slots_props [OF sN n(1) l(4)]
  have m: "?m = overwrite meta (le_bytes (p + of_nat (length ys))) ?w"
    by (simp add: pushed_mem_def p_def s_def N_def)
  have lw: "meta + 8 \<le> length ?w" using l(3) w(1) by simp
  have pc: "ring_prod meta ?w = p" "ring_cons meta ?w = c"
    using w(4) [of meta 4] w(4) [of "meta + 4" 4] l(3,5) by (auto simp: p_def c_def ring_prod_def ring_cons_def)
  have cnt: "ring_prod meta ?m = p + of_nat (length ys)" "ring_cons meta ?m = c"
    unfolding m using counters_after [OF lw] pc by simp_all
  have av: "ring_avail meta ?m = a + length ys"
    unfolding ring_avail_def cnt using n(2) l(2) by (subst avail_after_push) (simp_all add: a_def ring_avail_def p_def c_def)
  have len: "length ?m = length mem" unfolding m using lw w(1) by (subst length_overwrite) simp_all
  show "ring_ok meta desc msk ?m"
    using l n(2) av by (simp add: ring_ok_def len N_def [symmetric]) (simp add: N_def)
  have same: "slot_at desc ?m j = slot_at desc ?w j" if "j < N" for j
    unfolding m using l(3-5) w(1) that by (intro slot_other) auto
  have sa: "s = (unat c + a) mod N"
  proof -
    have "p = c + of_nat a" by (simp add: p_def c_def a_def ring_avail_def)
    then show ?thesis using word_mod_pow2 [OF l(1,2), of c a] by (simp add: s_def)
  qed
  have N0: "0 < N" by (simp add: N_def)
  show "ring_contents meta desc msk ?m = ring_contents meta desc msk mem @ ys"
  proof (rule nth_equalityI)
    show "length (ring_contents meta desc msk ?m) = length (ring_contents meta desc msk mem @ ys)"
      by (simp add: ring_contents_def av a_def)
    fix i assume "i < length (ring_contents meta desc msk ?m)"
    then have i: "i < a + length ys" by (simp add: ring_contents_def av)
    then have lhs: "ring_contents meta desc msk ?m ! i = slot_at desc ?w ((unat c + i) mod N)"
      using same [of "(unat c + i) mod N"] N0 by (simp add: ring_contents_def av cnt N_def)
    show "ring_contents meta desc msk ?m ! i = (ring_contents meta desc msk mem @ ys) ! i"
    proof (cases "i < a")
      case True
      have "(unat c + i) mod N \<noteq> (s + t) mod N" if "t < length ys" for t
      proof -
        have "(s + t) mod N = (unat c + (a + t)) mod N" by (simp add: sa mod_add_left_eq add.assoc)
        then show ?thesis using mod_apart [of i "a + t" N "unat c"] True that n(2) by simp
      qed
      then have "slot_at desc ?w ((unat c + i) mod N) = slot_at desc mem ((unat c + i) mod N)"
        using N0 by (intro w(3)) auto
      moreover have "ring_contents meta desc msk mem ! i = slot_at desc mem ((unat c + i) mod N)"
        "i < length (ring_contents meta desc msk mem)"
        using True by (simp_all add: ring_contents_def a_def c_def N_def)
      ultimately show ?thesis by (simp only: lhs nth_append if_True)
    next
      case False
      then have "unat c + i = (unat c + a) + (i - a)" by simp
      then have "(unat c + i) mod N = (s + (i - a)) mod N" by (simp only: sa mod_add_left_eq)
      moreover have "i - a < length ys" "length (ring_contents meta desc msk mem) = a"
        using False i by (auto simp: ring_contents_def a_def)
      ultimately show ?thesis
        using w(2) [of "i - a"] False by (simp only: lhs nth_append if_False)
    qed
  qed
qed

interpretation ring_queue: fifo "ring_ok meta desc msk" "ring_contents meta desc msk" "\<lambda>_. msk + 1"
  "ring_push meta desc msk" "ring_pop meta desc msk" for meta desc msk
proof unfold_locales
  fix mem n and xs :: "u64 list"
  assume ok: "ring_ok meta desc msk mem" and n: "n = min (msk + 1 - length (ring_contents meta desc msk mem)) (length xs)"
  then have n: "n = min (msk + 1 - ring_avail meta mem) (length xs)" by (simp add: ring_contents_def)
  then have "length (take n xs) \<le> msk + 1 - ring_avail meta mem" by simp
  from ring_push_state [OF ok this] ring_push_exact [OF ok, of xs]
  show "\<exists>mem'. ring_push meta desc msk xs mem = Inr (n, mem') \<and> ring_ok meta desc msk mem'
      \<and> ring_contents meta desc msk mem' = ring_contents meta desc msk mem @ take n xs \<and> msk + 1 = msk + 1"
    by (simp add: n)
next
  fix mem k
  assume ok: "ring_ok meta desc msk mem"
  from ring_pop_exact [OF ok, of k] ring_pop_state [OF ok, of k]
  show "\<exists>mem'. ring_pop meta desc msk k mem = Inr (take k (ring_contents meta desc msk mem), mem') \<and> ring_ok meta desc msk mem'
      \<and> ring_contents meta desc msk mem' = drop k (ring_contents meta desc msk mem) \<and> msk + 1 = msk + 1"
    by simp
qed

subsection \<open>Properties\<close>

text \<open>C19. A ring is a bounded queue. On a well-formed ring (a power-of-two capacity, counters and
  descriptors inside the region and apart) any sequence of pushes and pops returns what the
  queue of its contents returns, without a fault: a push takes as many descriptors as there
  is room, a pop returns the oldest ones, nothing is lost, repeated or reordered, also when
  the 32-bit counters wrap around.\<close>

theorem ring_refines_queue:
  assumes "ring_ok meta desc msk mem"
  shows "fifo_run (ring_push meta desc msk) (ring_pop meta desc msk) ops mem =
    Inr (queue_run (msk + 1) ops (ring_contents meta desc msk mem))"
  using assms by (rule ring_queue.run_refines)

definition wrapping_mem :: bytes where
  "wrapping_mem = replicate 8 255 @ replicate 24 0"

lemma wrapping_mem_ok: "ring_ok 0 16 1 wrapping_mem" and wrapping_mem_empty: "ring_contents 0 16 1 wrapping_mem = []"
proof -
  have "ring_prod 0 wrapping_mem = ring_cons 0 wrapping_mem"
    by (simp add: wrapping_mem_def ring_prod_def ring_cons_def subslice_def numeral_eq_Suc)
  then have "ring_avail 0 wrapping_mem = 0" by (simp add: ring_avail_def)
  then show "ring_ok 0 16 1 wrapping_mem" "ring_contents 0 16 1 wrapping_mem = []"
    by (simp_all add: ring_ok_def ring_contents_def wrapping_mem_def is_power_of_two.simps)
qed

theorem ring_refines_queue_witness:
  "fifo_run (ring_push 0 16 1) (ring_pop 0 16 1) [Push [7, 8, 9], Pop 1, Push [5], Pop 9] wrapping_mem =
     Inr [Pushed 2, Popped [7], Pushed 1, Popped [8, 5]]"
  unfolding ring_refines_queue [OF wrapping_mem_ok] wrapping_mem_empty by (simp add: Let_def)

text \<open>\<open>rx_available\<close> widens the counters before it subtracts them: it is the number of
  received frames until the producer counter wraps around, and then, until the consumer
  counter does too, larger by \<open>2 ^ 64 - 2 ^ 32\<close>.\<close>

theorem rx_available_wraps:
  assumes "unat (o_rx (map_offsets r)) + 8 \<le> length mem"
  defines "p \<equiv> ring_prod (unat (o_rx (map_offsets r))) mem" and "c \<equiv> ring_cons (unat (o_rx (map_offsets r))) mem"
  shows "\<exists>n. rx_available r mem = Inr n \<and>
    unat n = (if c \<le> p then 0 else 2 ^ 64 - 2 ^ 32) + ring_avail (unat (o_rx (map_offsets r))) mem"
proof -
  have u: "unat (ucast w :: u64) = unat w" for w :: u32
  proof -
    have "unat w < 2 ^ 32" using unsigned_less [of w] by simp
    then show ?thesis by (simp add: unsigned_ucast_eq take_bit_nat_eq_self_iff)
  qed
  have lt: "unat p < 2 ^ 32" "unat c < 2 ^ 32" using unsigned_less [of p] unsigned_less [of c] by simp_all
  have "unat (ucast p - ucast c :: u64) = (if c \<le> p then 0 else 2 ^ 64 - 2 ^ 32) + unat (p - c)"
    using lt by (simp add: unat_sub_if' u word_le_nat_alt) (simp add: add.commute)
  then show ?thesis
    using assms(1) by (simp add: rx_available_def ring_avail_def p_def c_def ring_prod_def ring_cons_def)
qed

definition wrapped_region :: ring_mmap where
  "wrapped_region = RingMmap_new 32 \<lparr>o_rx = 0, o_rx_desc = 8, o_tx = 0, o_tx_desc = 24, o_fill = 0, o_fill_desc = 32,
     o_comp = 0, o_comp_desc = 32\<rparr>"

theorem rx_available_wraps_witness:
  "\<exists>n. rx_available wrapped_region (replicate 4 0 @ replicate 4 255 @ replicate 24 0) = Inr n \<and> unat n = 2 ^ 64 - 2 ^ 32 + 1"
proof -
  let ?m = "replicate 4 0 @ replicate 4 255 @ replicate 24 0 :: bytes"
  have p: "ring_prod 0 ?m = 0" by code_simp
  have c: "ring_cons 0 ?m = 0xFFFFFFFF" by code_simp
  show ?thesis
    using rx_available_wraps [of wrapped_region ?m]
    by (simp add: wrapped_region_def RingMmap_new_def Let_def p c ring_avail_def)
qed

definition three_slots :: ring_mmap where
  "three_slots = RingMmap_new 72 \<lparr>o_rx = 0, o_rx_desc = 8, o_tx = 16, o_tx_desc = 24, o_fill = 0, o_fill_desc = 48,
     o_comp = 0, o_comp_desc = 72\<rparr>"

text \<open>The capacity is whatever fits between two descriptor arrays, and the index mask is that
  minus one: on a ring of three slots the second push overwrites the first, and the
  descriptors that come out are not those that went in.\<close>

theorem ring_capacity_three_loses:
  "tx_capacity three_slots = 3
   \<and> fifo_run (tx_push three_slots) (ring_pop 16 24 (tx_mask three_slots)) [Push [11], Push [22], Pop 2] (replicate 72 0)
     = Inr [Pushed 1, Pushed 1, Popped [22, 0]]"
  by code_simp

end
