(* ===== verification/Free_List.thy ===== *)
theory Free_List
  imports Kernel_Rings
begin

text \<open>
  The free list of UMEM frames (\<open>afxdp/src/socket.rs\<close>, \<open>FreeList\<close>): a circular buffer of frame
  offsets with wrapping head and tail counters and a headroom, a number of slots kept
  empty. It is used under the lock of its socket, one operation at a time. With a headroom
  of at most the capacity it is a bounded queue; nothing in the code enforces that bound,
  and above it the limit wraps around and the list overwrites its own entries.
\<close>

record free_list =
  fl_buf :: "u64 list"
  fl_mask :: nat
  fl_head :: u64
  fl_tail :: u64
  fl_headroom :: u64

text \<open>\<open>usize::next_power_of_two\<close> is the least power of two that is at least its argument.\<close>

lemma npow2_from_le: "n \<le> 2 ^ k \<Longrightarrow> p = 2 ^ j \<Longrightarrow> j \<le> k \<Longrightarrow> npow2_from fuel p n \<le> 2 ^ k"
proof (induction fuel arbitrary: p j)
  case (Suc fuel)
  show ?case
  proof (cases "n \<le> p")
    case False
    then have "(2 :: nat) ^ j < 2 ^ k" using Suc.prems by linarith
    then have "j < k" by (rule power_less_imp_less_exp [rotated]) simp
    with Suc.IH [of "2 * p" "Suc j"] Suc.prems False show ?thesis by simp
  qed (use Suc.prems in simp)
qed simp

lemma next_power_of_two_least: "n \<le> 2 ^ k \<Longrightarrow> next_power_of_two n \<le> 2 ^ k"
  using npow2_from_le [of n k 1 0 n] by (simp add: next_power_of_two_def)

lemma next_power_of_two_exceeds: "2 ^ k < n \<Longrightarrow> 2 ^ Suc k \<le> next_power_of_two n"
  using le_power_of_two_next [of "2 ^ k" "next_power_of_two n"] next_power_of_two_ge [of n] next_power_of_two_pow [of n]
  by (auto simp: is_power_of_two_iff)

text \<open>\<open>env\<close> is the parsed value of \<open>MOHAWK_FREELIST_HEADROOM\<close>; without it an eighth of the frames, at
  least 8, is kept back.\<close>

definition initial_headroom :: "u64 option \<Rightarrow> nat \<Rightarrow> nat" where
  "initial_headroom env n = (case env of Some h \<Rightarrow> unat h | None \<Rightarrow> max (n div 8) 8)"

text \<open>A sum above \<open>2 ^ 63\<close> has no power of two in \<open>usize\<close>, where a build with overflow checks,
  which is the one modelled, panics, and another one wraps around;
  \<open>Vec::with_capacity\<close> panics on any build when its entries, of eight bytes, take more than
  \<open>isize::MAX\<close> bytes. That an allocation within these bounds succeeds is assumed.\<close>

definition ISIZE_MAX :: nat where "ISIZE_MAX = 2 ^ 63 - 1"

definition vec_fits :: "nat \<Rightarrow> nat \<Rightarrow> bool" where
  "vec_fits elem n \<longleftrightarrow> elem * n \<le> ISIZE_MAX"

definition FreeList_with_capacity :: "u64 option \<Rightarrow> nat \<Rightarrow> fault + free_list" where
  "FreeList_with_capacity env n0 =
     (let n = (if n0 = 0 then 1 else n0); headroom = initial_headroom env n
      in if 2 ^ 63 < n + headroom then Inl Panicked
         else let c = next_power_of_two (n + headroom)
              in if \<not> vec_fits 8 c then Inl Panicked
                 else Inr \<lparr>fl_buf = replicate c 0, fl_mask = c - 1, fl_head = 0, fl_tail = 0, fl_headroom = of_nat headroom\<rparr>)"

text \<open>So a list is made exactly when frames and headroom together are at most \<open>2 ^ 59\<close>.\<close>

definition list_fits :: "u64 option \<Rightarrow> nat \<Rightarrow> bool" where
  "list_fits env n \<longleftrightarrow> max 1 n + initial_headroom env (max 1 n) \<le> 2 ^ 59"

lemma list_fits_None: "n \<le> 2 ^ 58 \<Longrightarrow> list_fits None n"
  by (simp add: list_fits_def initial_headroom_def)

lemma list_fits_Some: "list_fits (Some h) n \<longleftrightarrow> max 1 n + unat h \<le> 2 ^ 59"
  by (simp add: list_fits_def initial_headroom_def)

lemma list_fits_mono: "list_fits env n \<Longrightarrow> m \<le> n \<Longrightarrow> list_fits env m"
proof -
  assume n: "list_fits env n" "m \<le> n"
  then have "m div 8 \<le> n div 8" by (simp add: div_le_mono)
  with n show "list_fits env m"
    by (auto simp: list_fits_def initial_headroom_def max_def split: option.splits if_splits)
qed

lemma FreeList_panics_iff:
  "FreeList_with_capacity env n = (if list_fits env n then Inr \<lparr>fl_buf = replicate (next_power_of_two (max 1 n + initial_headroom env (max 1 n))) 0,
     fl_mask = next_power_of_two (max 1 n + initial_headroom env (max 1 n)) - 1, fl_head = 0, fl_tail = 0,
     fl_headroom = of_nat (initial_headroom env (max 1 n))\<rparr> else Inl Panicked)"
proof -
  define m where "m = max 1 n"
  define h where "h = initial_headroom env m"
  have m: "(if n = 0 then 1 else n) = m" by (simp add: m_def)
  have fits: "list_fits env n \<longleftrightarrow> m + h \<le> 2 ^ 59" unfolding list_fits_def h_def m_def by (rule refl)
  have small: "vec_fits 8 (next_power_of_two (m + h))" if "m + h \<le> 2 ^ 59"
    using next_power_of_two_least [OF that] by (simp add: vec_fits_def ISIZE_MAX_def)
  have big: "\<not> vec_fits 8 (next_power_of_two (m + h))" if "2 ^ 59 < m + h"
    using next_power_of_two_exceeds [OF that] by (simp add: vec_fits_def ISIZE_MAX_def)
  show ?thesis
    unfolding FreeList_with_capacity_def Let_def m m_def [symmetric] h_def [symmetric] fits
    by (cases "m + h \<le> 2 ^ 59") (use small big in auto)
qed

definition try_push :: "u64 \<Rightarrow> free_list \<Rightarrow> bool \<times> free_list" where
  "try_push v fl =
     (let used = fl_tail fl - fl_head fl; c = of_nat (length (fl_buf fl)) in
      if c - fl_headroom fl \<le> used then (False, fl)
      else let idx = unat (fl_tail fl) AND fl_mask fl
           in (True, fl\<lparr>fl_buf := (fl_buf fl)[idx := v], fl_tail := fl_tail fl + 1\<rparr>))"

definition set_headroom :: "u64 \<Rightarrow> free_list \<Rightarrow> free_list" where
  "set_headroom h fl = fl\<lparr>fl_headroom := h\<rparr>"

definition try_pop :: "free_list \<Rightarrow> u64 option \<times> free_list" where
  "try_pop fl =
     (if fl_head fl = fl_tail fl then (None, fl)
      else let idx = unat (fl_head fl) AND fl_mask fl; v = fl_buf fl ! idx
           in (Some v, fl\<lparr>fl_head := fl_head fl + 1\<rparr>))"

text \<open>The two loops the socket runs: give back a list of frames (how many were taken), and take
  up to \<open>k\<close> frames.\<close>

fun push_all :: "u64 list \<Rightarrow> free_list \<Rightarrow> nat \<times> free_list" where
  "push_all [] fl = (0, fl)"
| "push_all (v # vs) fl =
     (let (ok, fl) = try_push v fl; (n, fl) = push_all vs fl in ((if ok then 1 else 0) + n, fl))"

fun pop_up_to :: "nat \<Rightarrow> free_list \<Rightarrow> u64 list \<times> free_list" where
  "pop_up_to 0 fl = ([], fl)"
| "pop_up_to (Suc k) fl =
     (case try_pop fl of (None, fl) \<Rightarrow> ([], fl)
      | (Some v, fl) \<Rightarrow> let (vs, fl) = pop_up_to k fl in (v # vs, fl))"

subsection \<open>The abstract queue\<close>

definition fl_used :: "free_list \<Rightarrow> nat" where "fl_used fl = unat (fl_tail fl - fl_head fl)"

definition fl_contents :: "free_list \<Rightarrow> u64 list" where
  "fl_contents fl = map (\<lambda>i. fl_buf fl ! ((unat (fl_head fl) + i) mod length (fl_buf fl))) [0..<fl_used fl]"

definition fl_limit :: "free_list \<Rightarrow> nat" where
  "fl_limit fl = length (fl_buf fl) - unat (fl_headroom fl)"

definition fl_ok :: "free_list \<Rightarrow> bool" where
  "fl_ok fl \<longleftrightarrow> is_power_of_two (length (fl_buf fl)) \<and> fl_mask fl = length (fl_buf fl) - 1
     \<and> length (fl_buf fl) < 2 ^ 64 \<and> fl_used fl \<le> length (fl_buf fl) \<and> unat (fl_headroom fl) \<le> length (fl_buf fl)"

lemma fl_mask_mod: "fl_ok fl \<Longrightarrow> unat (c :: u64) AND fl_mask fl = unat c mod length (fl_buf fl)"
  using and_mask_mod [of "length (fl_buf fl)" "unat c"] by (simp add: fl_ok_def)

lemma unat_limit:
  assumes "fl_ok fl"
  shows "unat (of_nat (length (fl_buf fl)) - fl_headroom fl) = fl_limit fl"
proof -
  have "unat (of_nat n - h :: u64) = n - unat h" if "unat h \<le> n" "n < 2 ^ 64" for n and h :: u64
  proof -
    have "unat (of_nat n :: u64) = n" using that(2) by (simp add: unat_of_nat)
    with that(1) show ?thesis by (simp add: unat_sub_if')
  qed
  then show ?thesis using assms by (simp add: fl_ok_def fl_limit_def)
qed

lemma fl_word_mod:
  assumes "fl_ok fl"
  shows "unat (c + of_nat k :: u64) mod length (fl_buf fl) = (unat c + k) mod length (fl_buf fl)"
proof -
  from assms obtain j where j: "length (fl_buf fl) = 2 ^ j" by (auto simp: fl_ok_def is_power_of_two_iff)
  have "length (fl_buf fl) < 2 ^ 64" using assms by (simp only: fl_ok_def)
  then have "(2 :: nat) ^ j < 2 ^ 64" by (simp only: j)
  then have "j < 64" by (rule power_less_imp_less_exp [rotated]) simp
  then have d: "length (fl_buf fl) dvd 2 ^ 64" unfolding j by (intro le_imp_power_dvd) simp
  have "unat (c + of_nat k) = (unat c + k) mod 2 ^ 64"
    by (simp add: unat_word_ariths(1) unat_of_nat mod_add_right_eq)
  then show ?thesis by (simp only: mod_mod_cancel [OF d])
qed

lemma try_push_refused: "fl_ok fl \<Longrightarrow> fl_limit fl \<le> fl_used fl \<Longrightarrow> try_push v fl = (False, fl)"
proof -
  assume ok: "fl_ok fl" and le: "fl_limit fl \<le> fl_used fl"
  with unat_limit [OF ok] show ?thesis by (simp add: try_push_def Let_def word_le_nat_alt fl_used_def)
qed

lemma try_push_taken:
  assumes "fl_ok fl" "fl_used fl < fl_limit fl"
  shows "\<exists>fl'. try_push v fl = (True, fl') \<and> fl_ok fl' \<and> fl_contents fl' = fl_contents fl @ [v]
    \<and> fl_used fl' = fl_used fl + 1 \<and> fl_limit fl' = fl_limit fl"
proof -
  let ?n = "length (fl_buf fl)" and ?a = "fl_used fl"
  let ?idx = "unat (fl_tail fl) mod ?n"
  define fl' where "fl' = fl\<lparr>fl_buf := (fl_buf fl)[?idx := v], fl_tail := fl_tail fl + 1\<rparr>"
  note lim = unat_limit [OF assms(1)]
  have lt: "?a < ?n" using assms(2) by (simp add: fl_limit_def)
  have p: "try_push v fl = (True, fl')"
    using assms(2) lim fl_mask_mod [OF assms(1)] by (simp add: try_push_def Let_def word_le_nat_alt fl_used_def fl'_def)
  have "?a + 1 < 2 ^ 64" using lt assms(1) by (simp add: fl_ok_def)
  then have "unat ((fl_tail fl - fl_head fl) + 1) = ?a + 1"
    unfolding fl_used_def by (subst unat_word_ariths(1)) simp
  then have used: "fl_used fl' = ?a + 1" by (simp add: fl'_def fl_used_def diff_add_eq)
  have idx: "?idx = (unat (fl_head fl) + ?a) mod ?n"
    using fl_word_mod [OF assms(1), of "fl_head fl" ?a] by (simp add: fl_used_def)
  have ne: "(unat (fl_head fl) + i) mod ?n \<noteq> ?idx" if "i < ?a" for i
    unfolding idx using mod_apart [of i ?a ?n "unat (fl_head fl)"] that lt by simp
  have n0: "?idx < ?n" using lt by (intro mod_less_divisor) (rule le_less_trans [OF le0])
  have "fl_contents fl' = fl_contents fl @ [v]"
  proof -
    have "(fl_buf fl)[?idx := v] ! ((unat (fl_head fl) + i) mod ?n) = fl_buf fl ! ((unat (fl_head fl) + i) mod ?n)"
      if "i < ?a" for i
      using ne [OF that] by (intro nth_list_update_neq) auto
    moreover have "(fl_buf fl)[?idx := v] ! ((unat (fl_head fl) + ?a) mod ?n) = v"
      using n0 unfolding idx by (intro nth_list_update_eq)
    ultimately show ?thesis unfolding fl_contents_def used by (simp add: fl'_def)
  qed
  moreover have "fl_ok fl'" using assms(1) lt used by (simp add: fl_ok_def) (simp add: fl'_def)
  ultimately show ?thesis using p used by (auto simp: fl'_def fl_limit_def)
qed

lemma try_pop_exact:
  assumes "fl_ok fl"
  shows "case fl_contents fl of [] \<Rightarrow> try_pop fl = (None, fl)
    | v # vs \<Rightarrow> \<exists>fl'. try_pop fl = (Some v, fl') \<and> fl_ok fl' \<and> fl_contents fl' = vs \<and> fl_limit fl' = fl_limit fl"
proof (cases "fl_used fl")
  case 0
  then show ?thesis by (simp add: fl_contents_def fl_used_def try_pop_def unat_eq_0)
next
  case (Suc a)
  let ?n = "length (fl_buf fl)"
  define fl' where "fl' = fl\<lparr>fl_head := fl_head fl + 1\<rparr>"
  have ne: "fl_head fl \<noteq> fl_tail fl" using Suc by (auto simp: fl_used_def)
  have "unat (fl_tail fl - fl_head fl - 1) = a"
    using Suc ne unat_minus_one [of "fl_tail fl - fl_head fl"] by (simp add: fl_used_def)
  then have used: "fl_used fl' = a" by (simp add: fl'_def fl_used_def diff_diff_eq)
  have h: "unat (fl_head fl + 1) mod ?n = (unat (fl_head fl) + 1) mod ?n"
    using fl_word_mod [OF assms, of "fl_head fl" 1] by simp
  have step: "(unat (fl_head fl + 1) + i) mod ?n = (unat (fl_head fl) + Suc i) mod ?n" for i
    using h by (metis add.assoc mod_add_left_eq plus_1_eq_Suc)
  have "fl_contents fl = fl_buf fl ! (unat (fl_head fl) mod ?n) # fl_contents fl'"
  proof -
    have "[0..<Suc a] = 0 # map Suc [0..<a]" by (simp add: map_Suc_upt upt_conv_Cons del: upt_Suc)
    then show ?thesis
      unfolding fl_contents_def Suc used by (simp add: comp_def fl'_def step del: upt_Suc)
  qed
  moreover have "try_pop fl = (Some (fl_buf fl ! (unat (fl_head fl) mod ?n)), fl')"
    using ne fl_mask_mod [OF assms] by (simp add: try_pop_def Let_def fl'_def)
  moreover have "fl_ok fl'" "fl_limit fl' = fl_limit fl"
    using assms used Suc by (simp_all add: fl_ok_def fl_limit_def) (simp_all add: fl'_def)
  ultimately show ?thesis by simp
qed

lemma fl_length [simp]: "length (fl_contents fl) = fl_used fl"
  by (simp add: fl_contents_def)

lemma push_all_ok:
  assumes "fl_ok fl"
  defines "n \<equiv> \<lambda>xs. min (fl_limit fl - fl_used fl) (length xs)"
  shows "\<exists>fl'. push_all xs fl = (n xs, fl') \<and> fl_ok fl' \<and> fl_contents fl' = fl_contents fl @ take (n xs) xs
    \<and> fl_limit fl' = fl_limit fl"
  using assms(1) unfolding n_def
proof (induction xs arbitrary: fl)
  case (Cons v vs)
  show ?case
  proof (cases "fl_used fl < fl_limit fl")
    case True
    from try_push_taken [OF Cons.prems True, of v] obtain fl1 where f: "try_push v fl = (True, fl1)" "fl_ok fl1"
      "fl_contents fl1 = fl_contents fl @ [v]" "fl_used fl1 = fl_used fl + 1" "fl_limit fl1 = fl_limit fl" by blast
    have "min (fl_limit fl - fl_used fl) (length (v # vs)) = Suc (min (fl_limit fl - (fl_used fl + 1)) (length vs))"
      using True by (simp add: min_def) linarith
    with Cons.IH [OF f(2)] f show ?thesis by auto
  next
    case False
    then have f: "try_push v fl = (False, fl)" and z: "fl_limit fl - fl_used fl = 0"
      using try_push_refused [OF Cons.prems] by simp_all
    from Cons.IH [OF Cons.prems] show ?thesis by (simp add: f z)
  qed
qed simp

lemma pop_up_to_ok:
  assumes "fl_ok fl"
  shows "\<exists>fl'. pop_up_to k fl = (take k (fl_contents fl), fl') \<and> fl_ok fl'
    \<and> fl_contents fl' = drop k (fl_contents fl) \<and> fl_limit fl' = fl_limit fl"
  using assms
proof (induction k arbitrary: fl)
  case (Suc k)
  show ?case
  proof (cases "fl_contents fl")
    case Nil
    then show ?thesis using try_pop_exact [OF Suc.prems] Suc.prems by simp
  next
    case (Cons v vs)
    then obtain fl1 where f: "try_pop fl = (Some v, fl1)" "fl_ok fl1" "fl_contents fl1 = vs" "fl_limit fl1 = fl_limit fl"
      using try_pop_exact [OF Suc.prems] by auto
    from Suc.IH [OF f(2)] f Cons show ?thesis by auto
  qed
qed simp

interpretation frames: fifo fl_ok fl_contents fl_limit "\<lambda>xs fl. Inr (push_all xs fl) :: fault + _"
  "\<lambda>k fl. Inr (pop_up_to k fl)"
  using push_all_ok pop_up_to_ok by unfold_locales auto

lemma FreeList_new_ok:
  assumes "list_fits env n"
  shows "\<exists>fl. FreeList_with_capacity env n = Inr fl \<and> fl_ok fl \<and> fl_contents fl = [] \<and> n \<le> fl_limit fl"
proof -
  define m where "m = max 1 n"
  define h where "h = initial_headroom env m"
  have fits: "m + h \<le> 2 ^ 59" using assms unfolding list_fits_def h_def m_def .
  let ?c = "next_power_of_two (m + h)"
  have c: "m + h \<le> ?c" "?c < 2 ^ 64" "is_power_of_two ?c"
    using next_power_of_two_ge [of "m + h"] next_power_of_two_least [OF fits] next_power_of_two_pow [of "m + h"] by auto
  define fl where "fl = \<lparr>fl_buf = replicate ?c 0, fl_mask = ?c - 1, fl_head = 0, fl_tail = 0, fl_headroom = of_nat h\<rparr>"
  have u: "unat (of_nat h :: u64) = h" using fits by (simp add: unat_of_nat)
  have "FreeList_with_capacity env n = Inr fl"
    unfolding FreeList_panics_iff m_def [symmetric] h_def [symmetric] fl_def using assms by simp
  moreover have "fl_ok fl" "fl_contents fl = []" "m \<le> fl_limit fl"
    using c u by (simp_all add: fl_ok_def fl_contents_def fl_used_def fl_limit_def) (simp_all add: fl_def)
  moreover have "n \<le> m" by (simp add: m_def)
  ultimately show ?thesis by auto
qed

subsection \<open>Properties\<close>

text \<open>The free list of a socket is a queue that can hold all its frames: a list made for \<open>n\<close>
  frames takes at least \<open>n\<close> of them, and any sequence of returns and allocations gives the
  frames out in the order they came in, each once.\<close>

theorem free_list_refines_queue:
  assumes "FreeList_with_capacity env n = Inr fl"
  shows "n \<le> fl_limit fl \<and> fifo_run (\<lambda>xs fl. Inr (push_all xs fl) :: fault + _) (\<lambda>k fl. Inr (pop_up_to k fl)) ops fl =
    Inr (queue_run (fl_limit fl) ops [])"
proof -
  have "list_fits env n" using assms by (simp add: FreeList_panics_iff split: if_splits)
  from FreeList_new_ok [OF this] assms have fl: "fl_ok fl" "fl_contents fl = []" "n \<le> fl_limit fl" by auto
  from frames.run_refines [OF fl(1), of ops] fl(2,3) show ?thesis by simp
qed

definition sixteen_slots :: free_list where
  "sixteen_slots = \<lparr>fl_buf = replicate 16 0, fl_mask = 15, fl_head = 0, fl_tail = 0, fl_headroom = 8\<rparr>"

lemma sixteen_slots_new: "FreeList_with_capacity None 4 = Inr sixteen_slots"
proof -
  have "next_power_of_two 12 = 16" by code_simp
  then show ?thesis by (simp add: FreeList_with_capacity_def sixteen_slots_def initial_headroom_def vec_fits_def ISIZE_MAX_def)
qed

theorem free_list_refines_queue_witness:
  "fifo_run (\<lambda>xs fl. Inr (push_all xs fl) :: fault + _) (\<lambda>k fl. Inr (pop_up_to k fl))
     [Push [0, 2048], Pop 1, Push [4096, 6144], Pop 9] sixteen_slots =
   Inr [Pushed 2, Popped [0], Pushed 2, Popped [2048, 4096, 6144]]"
proof -
  have "fl_limit sixteen_slots = 8" by code_simp
  with free_list_refines_queue [OF sixteen_slots_new, of "[Push [0, 2048], Pop 1, Push [4096, 6144], Pop 9]"]
  show ?thesis by (simp add: Let_def)
qed

text \<open>Nothing keeps the headroom below the capacity, and above it the limit wraps around: the
  list then takes a frame even when it is full, and the frame replaces the oldest entry.\<close>

theorem free_list_overrun:
  assumes "fl_ok fl" and "fl_used fl = length (fl_buf fl)" and "length (fl_buf fl) < unat h" and "unat h < 2 ^ 63"
    and "length (fl_buf fl) < 2 ^ 63"
  shows "\<exists>fl'. try_push v (set_headroom h fl) = (True, fl') \<and> fl_used fl' = length (fl_buf fl) + 1 \<and> fst (try_pop fl') = Some v"
proof -
  let ?n = "length (fl_buf fl)" and ?idx = "unat (fl_tail fl) mod length (fl_buf fl)"
  define fl' where "fl' = fl\<lparr>fl_buf := (fl_buf fl)[?idx := v], fl_tail := fl_tail fl + 1, fl_headroom := h\<rparr>"
  have n0: "0 < ?n" using assms(1) by (auto simp: fl_ok_def is_power_of_two_iff)
  have u: "unat (of_nat ?n :: u64) = ?n" using assms(5) by (simp add: unat_of_nat)
  have "unat (of_nat ?n - h) = 2 ^ 64 + ?n - unat h" using assms(3) u by (simp add: unat_sub_if')
  then have "\<not> of_nat ?n - h \<le> fl_tail fl - fl_head fl"
    using assms(2,4,5) by (simp add: word_le_nat_alt fl_used_def)
  then have p: "try_push v (set_headroom h fl) = (True, fl')"
    using fl_mask_mod [OF assms(1)] by (simp add: try_push_def Let_def set_headroom_def fl'_def)
  have "unat ((fl_tail fl - fl_head fl) + 1) = ?n + 1"
    using assms(2,5) unfolding fl_used_def by (subst unat_word_ariths(1)) simp
  then have used: "fl_used fl' = ?n + 1" by (simp add: fl'_def fl_used_def diff_add_eq)
  then have ne: "fl_head fl' \<noteq> fl_tail fl'" by (auto simp: fl_used_def)
  have "fl_tail fl = fl_head fl + of_nat ?n" unfolding assms(2) [symmetric] fl_used_def by simp
  then have "?idx = unat (fl_head fl) mod ?n"
    using fl_word_mod [OF assms(1), of "fl_head fl" ?n] by simp
  then have "fst (try_pop fl') = Some v"
    using ne fl_mask_mod [OF assms(1)] n0 by (simp add: try_pop_def Let_def) (simp add: fl'_def)
  with p used show ?thesis by blast
qed

theorem free_list_overrun_witness:
  "fst (try_pop (snd (try_push 99 (set_headroom 128 (snd (push_all [10, 11] \<lparr>fl_buf = [0, 0], fl_mask = 1,
     fl_head = 0, fl_tail = 0, fl_headroom = 0\<rparr>)))))) = Some 99"
proof -
  let ?fl = "\<lparr>fl_buf = [10, 11], fl_mask = 1, fl_head = 0, fl_tail = 2, fl_headroom = 0\<rparr>"
  have e: "snd (push_all [10, 11] \<lparr>fl_buf = [0, 0], fl_mask = 1, fl_head = 0, fl_tail = 0, fl_headroom = 0\<rparr>) = ?fl"
    by code_simp
  have "fl_ok ?fl" "fl_used ?fl = 2"
    by (simp_all add: fl_ok_def fl_used_def is_power_of_two.simps)
  with free_list_overrun [of ?fl 128 99] show ?thesis unfolding e by auto
qed

end
