(* ===== verification/Xdp_Socket.thy ===== *)
theory Xdp_Socket
  imports Free_List
begin

text \<open>
  The AF_XDP socket (\<open>afxdp/src/socket.rs\<close>, \<open>RealSocket\<close>) and its UMEM (\<open>afxdp/src/umem.rs\<close>): \<open>poll\<close>,
  and \<open>send\<close> with its reclaim, allocate, copy, push, give-back and retry steps. The region
  shared with the kernel is passed and returned; what the kernel does to it while a failed
  \<open>send\<close> waits is the argument \<open>kern\<close>. The global counters take the same increments as those
  of the socket and are left out, as are the file descriptors and the wake-ups. \<open>MockSocket\<close> is
  modelled at the end.
\<close>

subsection \<open>UMEM\<close>

datatype umem_error = MmapFailed

record umem =
  u_mem :: bytes
  u_len :: nat
  u_frame :: nat
  u_frames :: nat

text \<open>\<open>mmap\<close> is the operating system's.\<close>

definition Umem_new :: "(nat \<Rightarrow> bytes option) \<Rightarrow> nat \<Rightarrow> nat \<Rightarrow> umem_error + umem" where
  "Umem_new mmap len frame =
     (case mmap len of None \<Rightarrow> Inl MmapFailed
      | Some m \<Rightarrow> Inr \<lparr>u_mem = m, u_len = len, u_frame = frame, u_frames = (if frame = 0 then 0 else len div frame)\<rparr>)"

definition frame_count :: "umem \<Rightarrow> nat" where "frame_count u = u_frames u"

definition total_frames :: "umem \<Rightarrow> nat" where
  "total_frames u = (if u_frame u = 0 then 0 else u_len u div u_frame u)"

subsection \<open>The socket\<close>

record socket_counters =
  c_retry :: u64
  c_backpressure :: u64
  c_from_freelist :: u64
  c_fallback :: u64
  c_push_drop :: u64

definition SocketCounters_new :: socket_counters where
  "SocketCounters_new = \<lparr>c_retry = 0, c_backpressure = 0, c_from_freelist = 0, c_fallback = 0, c_push_drop = 0\<rparr>"

record xdp_socket =
  x_umem :: umem
  x_ring :: "ring_mmap option"
  x_next :: u64
  x_free :: free_list
  x_retries :: u64
  x_pressure :: u64
  x_counters :: socket_counters

definition socket_poll :: "nat \<Rightarrow> xdp_socket \<Rightarrow> bytes \<Rightarrow> ring_fault + bytes list \<times> bytes" where
  "socket_poll max_n s mem =
     (case x_ring s of
        None \<Rightarrow> Inr ([], mem)
      | Some r \<Rightarrow>
          bindr (rx_pop r max_n mem) (\<lambda>(descs, mem).
          bindr (loop_r (\<lambda>out d. bindr (peek (unat d) (u_frame (x_umem s)) (u_mem (x_umem s))) (\<lambda>f. Inr (out @ [f]))) [] descs)
            (\<lambda>out. Inr (out, mem))))"

text \<open>A frame from the free list, or the next one in turn, whoever holds it. A frame size of zero,
  or one above the size of the UMEM, divides by zero.\<close>

definition alloc_frame :: "xdp_socket \<Rightarrow> ring_fault + u64 \<times> xdp_socket" where
  "alloc_frame s =
     (case try_pop (x_free s) of
        (Some f, fl) \<Rightarrow>
          Inr (f, s\<lparr>x_free := fl, x_counters := (x_counters s)\<lparr>c_from_freelist := c_from_freelist (x_counters s) + 1\<rparr>\<rparr>)
      | (None, fl) \<Rightarrow>
          let s = s\<lparr>x_counters := (x_counters s)\<lparr>c_fallback := c_fallback (x_counters s) + 1\<rparr>\<rparr> in
          if u_frame (x_umem s) = 0 then Inl CheckFailed
          else let frames = u_len (x_umem s) div u_frame (x_umem s) in
               if frames = 0 then Inl CheckFailed
               else let idx = unat (x_next s) mod frames
                    in Inr (of_nat (idx * u_frame (x_umem s)), s\<lparr>x_next := x_next s + 1\<rparr>))"

definition stage_packet :: "bytes \<Rightarrow> u64 list \<times> xdp_socket \<Rightarrow> nat \<times> nat \<Rightarrow> ring_fault + u64 list \<times> xdp_socket" where
  "stage_packet buf st packet =
     (let (addrs, s) = st; (off, len) = packet in
      bindr (alloc_frame s) (\<lambda>(f, s).
        if length buf < off + len then Inl CheckFailed
        else bindr (put_raw (unat f) (take (min len (u_frame (x_umem s))) (subslice off len buf)) (u_mem (x_umem s))) (\<lambda>m.
             Inr (addrs @ [f], s\<lparr>x_umem := (x_umem s)\<lparr>u_mem := m\<rparr>\<rparr>))))"

text \<open>One attempt: reclaim completed frames, stage every packet in a frame, push all frames to the
  TX ring; when the ring took fewer, all of them are given back to the free list.\<close>

definition give_back :: "u64 list \<Rightarrow> xdp_socket \<Rightarrow> xdp_socket" where
  "give_back addrs s =
     (let (n, fl) = push_all addrs (x_free s)
      in s\<lparr>x_free := fl, x_counters := (x_counters s)\<lparr>c_push_drop := c_push_drop (x_counters s) + of_nat (length addrs - n)\<rparr>\<rparr>)"

definition send_attempt ::
    "ring_mmap \<Rightarrow> bytes \<Rightarrow> (nat \<times> nat) list \<Rightarrow> xdp_socket \<Rightarrow> bytes \<Rightarrow> ring_fault + bool \<times> xdp_socket \<times> bytes" where
  "send_attempt r buf offs s mem =
     bindr (comp_pop r 64 mem) (\<lambda>(comps, mem).
       let s = s\<lparr>x_free := snd (push_all comps (x_free s))\<rparr> in
       bindr (loop_r (stage_packet buf) ([], s) offs) (\<lambda>(addrs, s).
       bindr (tx_push r addrs mem) (\<lambda>(pushed, mem).
         if pushed = length addrs then Inr (True, s, mem)
         else let s = s\<lparr>x_pressure := x_pressure s + 1,
                        x_counters := (x_counters s)\<lparr>c_backpressure := c_backpressure (x_counters s) + 1\<rparr>\<rparr>
              in Inr (False, give_back addrs s, mem))))"

fun send_from ::
    "nat \<Rightarrow> (nat \<Rightarrow> bytes \<Rightarrow> bytes) \<Rightarrow> ring_mmap \<Rightarrow> bytes \<Rightarrow> (nat \<times> nat) list \<Rightarrow> xdp_socket \<Rightarrow> bytes \<Rightarrow>
       ring_fault + bool \<times> xdp_socket \<times> bytes" where
  "send_from 0 kern r buf offs s mem = send_attempt r buf offs s mem"
| "send_from (Suc k) kern r buf offs s mem =
     bindr (send_attempt r buf offs s mem) (\<lambda>(ok, s, mem).
       if ok then Inr (True, s, mem)
       else send_from k kern r buf offs
              (s\<lparr>x_retries := x_retries s + 1,
                 x_counters := (x_counters s)\<lparr>c_retry := c_retry (x_counters s) + 1\<rparr>\<rparr>) (kern k mem))"

definition MAX_RETRIES :: nat where "MAX_RETRIES = 8"

definition socket_send ::
    "(nat \<Rightarrow> bytes \<Rightarrow> bytes) \<Rightarrow> bytes \<Rightarrow> (nat \<times> nat) list \<Rightarrow> xdp_socket \<Rightarrow> bytes \<Rightarrow> ring_fault + bool \<times> xdp_socket \<times> bytes" where
  "socket_send kern buf offs s mem =
     (case x_ring s of None \<Rightarrow> Inr (False, s, mem) | Some r \<Rightarrow> send_from MAX_RETRIES kern r buf offs s mem)"

subsection \<open>The mock socket\<close>

record mock_socket =
  m_frames :: "bytes list"
  m_sent :: "bytes list"

definition mock_poll :: "nat \<Rightarrow> mock_socket \<Rightarrow> bytes list \<times> mock_socket" where
  "mock_poll max_n m = (m_frames m, m\<lparr>m_frames := []\<rparr>)"

definition mock_send :: "bytes \<Rightarrow> (nat \<times> nat) list \<Rightarrow> mock_socket \<Rightarrow> fault + mock_socket" where
  "mock_send buf offs m =
     (if list_all (\<lambda>(off, len). off + len \<le> length buf) offs
      then Inr (m\<lparr>m_sent := map (\<lambda>(off, len). subslice off len buf) offs\<rparr>) else Inl Panicked)"

definition mock_take_sent :: "mock_socket \<Rightarrow> bytes list \<times> mock_socket" where
  "mock_take_sent m = (m_sent m, m\<lparr>m_sent := []\<rparr>)"

subsection \<open>Rings side by side\<close>

lemma ring_same:
  assumes "length mem' = length mem" "\<And>off n. meta \<le> off \<Longrightarrow> off + n \<le> meta + 8 \<Longrightarrow> subslice off n mem' = subslice off n mem"
    and "\<And>j. j \<le> msk \<Longrightarrow> subslice (desc + 8 * j) 8 mem' = subslice (desc + 8 * j) 8 mem"
  shows "ring_ok meta desc msk mem' = ring_ok meta desc msk mem" "ring_contents meta desc msk mem' = ring_contents meta desc msk mem"
proof -
  have c: "ring_prod meta mem' = ring_prod meta mem" "ring_cons meta mem' = ring_cons meta mem"
    using assms(2) by (simp_all add: ring_prod_def ring_cons_def)
  then have a: "ring_avail meta mem' = ring_avail meta mem" by (simp add: ring_avail_def)
  then show "ring_ok meta desc msk mem' = ring_ok meta desc msk mem" using assms(1) by (simp add: ring_ok_def)
  have "(unat (ring_cons meta mem) + i) mod (msk + 1) \<le> msk" for i
    using mod_less_divisor [of "msk + 1" "unat (ring_cons meta mem) + i"] by linarith
  then show "ring_contents meta desc msk mem' = ring_contents meta desc msk mem"
    unfolding ring_contents_def a c by (intro map_cong refl) (simp add: slot_at_def assms(3))
qed

abbreviation tx_contents :: "ring_mmap \<Rightarrow> bytes \<Rightarrow> u64 list" where
  "tx_contents r \<equiv> ring_contents (unat (o_tx (map_offsets r))) (unat (o_tx_desc (map_offsets r))) (tx_mask r)"

abbreviation tx_ok :: "ring_mmap \<Rightarrow> bytes \<Rightarrow> bool" where
  "tx_ok r \<equiv> ring_ok (unat (o_tx (map_offsets r))) (unat (o_tx_desc (map_offsets r))) (tx_mask r)"

abbreviation comp_contents :: "ring_mmap \<Rightarrow> bytes \<Rightarrow> u64 list" where
  "comp_contents r \<equiv> ring_contents (unat (o_comp (map_offsets r))) (unat (o_comp_desc (map_offsets r))) (comp_mask r)"

abbreviation comp_ok :: "ring_mmap \<Rightarrow> bytes \<Rightarrow> bool" where
  "comp_ok r \<equiv> ring_ok (unat (o_comp (map_offsets r))) (unat (o_comp_desc (map_offsets r))) (comp_mask r)"

text \<open>The counters of the completion ring lie outside the TX ring.\<close>

definition rings_apart :: "ring_mmap \<Rightarrow> bool" where
  "rings_apart r \<longleftrightarrow>
     (let c = unat (o_comp (map_offsets r)); t = unat (o_tx (map_offsets r)); d = unat (o_tx_desc (map_offsets r))
      in (c + 8 \<le> t \<or> t + 8 \<le> c) \<and> (c + 8 \<le> d \<or> d + 8 * (tx_mask r + 1) \<le> c))"

lemma comp_pop_ok:
  assumes "comp_ok r mem" "tx_ok r mem" "rings_apart r"
  shows "\<exists>mem'. comp_pop r k mem = Inr (take k (comp_contents r mem), mem') \<and> comp_contents r mem' = drop k (comp_contents r mem)
    \<and> comp_ok r mem' \<and> tx_ok r mem' \<and> tx_contents r mem' = tx_contents r mem"
proof -
  let ?c = "unat (o_comp (map_offsets r))"
  define mem' where "mem' = overwrite (?c + 4) (le_bytes (ring_cons ?c mem + of_nat (min (ring_avail ?c mem) k))) mem"
  have c: "?c + 8 \<le> length mem" using assms(1) by (simp add: ring_ok_def)
  have t: "unat (o_tx (map_offsets r)) + 8 \<le> length mem" "unat (o_tx_desc (map_offsets r)) + 8 * (tx_mask r + 1) \<le> length mem"
    using assms(2) by (simp_all add: ring_ok_def)
  have len: "length mem' = length mem" using c by (simp add: mem'_def length_overwrite)
  have "tx_ok r mem' = tx_ok r mem" "tx_contents r mem' = tx_contents r mem"
    by (rule ring_same [OF len]; unfold mem'_def; rule slice_overwrite_disjoint;
        use c t assms(3) in \<open>auto simp: rings_apart_def Let_def\<close>)+
  with ring_pop_exact [OF assms(1), of k] ring_pop_state [OF assms(1), of k] assms(2) show ?thesis
    unfolding comp_pop_def mem'_def by blast
qed

lemma tx_push_ok:
  assumes "tx_ok r mem" "length (tx_contents r mem) + length xs \<le> tx_capacity r"
  shows "\<exists>mem'. tx_push r xs mem = Inr (length xs, mem') \<and> tx_ok r mem' \<and> tx_contents r mem' = tx_contents r mem @ xs"
proof -
  have "min (tx_mask r + 1 - length (tx_contents r mem)) (length xs) = length xs"
    using assms(2) by (simp add: tx_capacity_def)
  with ring_queue.push_ok [OF assms(1) refl, of xs] show ?thesis by (simp add: tx_push_def)
qed

subsection \<open>Staging packets in frames\<close>

definition frames_ok :: "umem \<Rightarrow> u64 set \<Rightarrow> bool" where
  "frames_ok u A \<longleftrightarrow> (\<forall>a \<in> A. u_frame u dvd unat a \<and> unat a + u_frame u \<le> length (u_mem u))"

text \<open>What a frame holds of a packet: as much as fits.\<close>

definition packet_in :: "bytes \<Rightarrow> nat \<times> nat \<Rightarrow> umem \<Rightarrow> bytes" where
  "packet_in buf packet u = take (min (snd packet) (u_frame u)) (subslice (fst packet) (snd packet) buf)"

definition frame_at :: "umem \<Rightarrow> nat \<Rightarrow> u64 \<Rightarrow> bytes" where
  "frame_at u n a = subslice (unat a) n (u_mem u)"

lemma frames_disjoint:
  assumes "a \<noteq> b" "(f :: nat) dvd unat a" "f dvd unat (b :: u64)"
  shows "unat a + f \<le> unat b \<or> unat b + f \<le> unat a"
proof -
  from assms obtain i j where ij: "unat a = f * i" "unat b = f * j" by (auto simp: dvd_def)
  with assms(1) have "i \<noteq> j" by (metis word_unat_eq_iff)
  then have "Suc i \<le> j \<or> Suc j \<le> i" by auto
  then have "f * Suc i \<le> f * j \<or> f * Suc j \<le> f * i" by (metis mult_le_mono2)
  then show ?thesis by (simp add: ij add.commute)
qed

lemma stage_one:
  assumes "fl_ok (x_free s)" "fl_contents (x_free s) = v # vs" "frames_ok (x_umem s) {v}" "fst p + snd p \<le> length buf"
  shows "\<exists>s'. stage_packet buf (pre, s) p = Inr (pre @ [v], s') \<and> fl_ok (x_free s') \<and> fl_contents (x_free s') = vs
    \<and> x_ring s' = x_ring s \<and> u_frame (x_umem s') = u_frame (x_umem s) \<and> length (u_mem (x_umem s')) = length (u_mem (x_umem s))
    \<and> fl_limit (x_free s') = fl_limit (x_free s) \<and> x_retries s' = x_retries s
    \<and> frame_at (x_umem s') (length (packet_in buf p (x_umem s))) v = packet_in buf p (x_umem s)
    \<and> (\<forall>a n. a \<noteq> v \<longrightarrow> frames_ok (x_umem s) {a} \<longrightarrow> n \<le> u_frame (x_umem s) \<longrightarrow> frame_at (x_umem s') n a = frame_at (x_umem s) n a)"
proof -
  let ?u = "x_umem s"
  define d where "d = packet_in buf p ?u"
  obtain fl where fl: "try_pop (x_free s) = (Some v, fl)" "fl_ok fl" "fl_contents fl = vs" "fl_limit fl = fl_limit (x_free s)"
    using try_pop_exact [OF assms(1)] assms(2) by auto
  have ld: "length d \<le> u_frame ?u" by (simp add: d_def packet_in_def)
  have v: "u_frame ?u dvd unat v" "unat v + u_frame ?u \<le> length (u_mem ?u)" using assms(3) by (simp_all add: frames_ok_def)
  define m where "m = overwrite (unat v) d (u_mem ?u)"
  have lm: "length m = length (u_mem ?u)" unfolding m_def using v(2) ld by (intro length_overwrite) simp
  have w: "put_raw (unat v) d (u_mem ?u) = Inr m" using v(2) ld by (simp add: put_raw_def m_def)
  define s' where "s' = s\<lparr>x_free := fl, x_counters := (x_counters s)\<lparr>c_from_freelist := c_from_freelist (x_counters s) + 1\<rparr>,
    x_umem := ?u\<lparr>u_mem := m\<rparr>\<rparr>"
  have "stage_packet buf (pre, s) p = Inr (pre @ [v], s')"
    using assms(4) w unfolding d_def packet_in_def
    by (cases p) (simp add: stage_packet_def alloc_frame_def fl(1) Let_def s'_def)
  moreover have "frame_at (x_umem s') (length d) v = d"
    unfolding frame_at_def s'_def m_def using v(2) ld by (simp add: slice_overwrite_same)
  moreover have "frame_at (x_umem s') n a = frame_at ?u n a"
    if "a \<noteq> v" "frames_ok ?u {a}" "n \<le> u_frame ?u" for a n
  proof -
    have "u_frame ?u dvd unat a" "unat a + u_frame ?u \<le> length (u_mem ?u)" using that(2) by (simp_all add: frames_ok_def)
    with frames_disjoint [OF that(1) _ v(1)] have "subslice (unat a) n m = subslice (unat a) n (u_mem ?u)"
      unfolding m_def using that(3) v(2) ld by (intro slice_overwrite_disjoint) auto
    then show ?thesis by (simp add: frame_at_def s'_def)
  qed
  ultimately show ?thesis
    using fl(2-4) lm by (auto simp: d_def [symmetric] s'_def)
qed

lemma stage_all:
  assumes "fl_ok (x_free s)" "distinct (fl_contents (x_free s))" "frames_ok (x_umem s) (set (fl_contents (x_free s)))"
    and "length offs \<le> fl_used (x_free s)" "\<forall>p \<in> set offs. fst p + snd p \<le> length buf"
  shows "\<exists>s'. loop_r (stage_packet buf) (pre, s) offs = Inr (pre @ take (length offs) (fl_contents (x_free s)), s')
    \<and> fl_contents (x_free s') = drop (length offs) (fl_contents (x_free s))
    \<and> (\<forall>i < length offs. frame_at (x_umem s') (length (packet_in buf (offs ! i) (x_umem s))) (fl_contents (x_free s) ! i)
          = packet_in buf (offs ! i) (x_umem s))
    \<and> (\<forall>a n. a \<notin> set (fl_contents (x_free s)) \<longrightarrow> frames_ok (x_umem s) {a} \<longrightarrow> n \<le> u_frame (x_umem s)
          \<longrightarrow> frame_at (x_umem s') n a = frame_at (x_umem s) n a)
    \<and> fl_ok (x_free s') \<and> fl_limit (x_free s') = fl_limit (x_free s) \<and> x_retries s' = x_retries s
    \<and> u_frame (x_umem s') = u_frame (x_umem s) \<and> length (u_mem (x_umem s')) = length (u_mem (x_umem s))"
  using assms
proof (induction offs arbitrary: s pre)
  case (Cons p ps)
  let ?u = "x_umem s"
  have ne: "fl_contents (x_free s) \<noteq> []" using Cons.prems(4) fl_length [of "x_free s"] by fastforce
  then obtain v vs where c: "fl_contents (x_free s) = v # vs" by (cases "fl_contents (x_free s)") auto
  have u: "fl_used (x_free s) = Suc (length vs)" using fl_length [of "x_free s"] by (simp add: c)
  have fv: "frames_ok ?u {v}" using Cons.prems(3) by (simp add: c frames_ok_def)
  have bp: "fst p + snd p \<le> length buf" using Cons.prems(5) by simp
  from stage_one [OF Cons.prems(1) c fv bp, of pre] obtain s1 where s1:
    "stage_packet buf (pre, s) p = Inr (pre @ [v], s1)" "fl_ok (x_free s1)" "fl_contents (x_free s1) = vs"
    "u_frame (x_umem s1) = u_frame ?u" "length (u_mem (x_umem s1)) = length (u_mem ?u)"
    "frame_at (x_umem s1) (length (packet_in buf p ?u)) v = packet_in buf p ?u"
    "\<forall>a n. a \<noteq> v \<longrightarrow> frames_ok ?u {a} \<longrightarrow> n \<le> u_frame ?u \<longrightarrow> frame_at (x_umem s1) n a = frame_at ?u n a"
    "fl_limit (x_free s1) = fl_limit (x_free s)" "x_retries s1 = x_retries s" by blast
  have fr: "frames_ok (x_umem s1) A = frames_ok ?u A" for A by (simp add: frames_ok_def s1(4,5))
  have pk: "packet_in buf q (x_umem s1) = packet_in buf q ?u" for q by (simp add: packet_in_def s1(4))
  have v: "v \<notin> set vs" "distinct vs" using Cons.prems(2) by (simp_all add: c)
  have "frames_ok (x_umem s1) (set vs)" using Cons.prems(3) by (simp add: fr c) (simp add: frames_ok_def)
  moreover have "length ps \<le> fl_used (x_free s1)"
    using Cons.prems(4) u fl_length [of "x_free s1"] by (simp add: s1(3))
  ultimately obtain s' where s': "loop_r (stage_packet buf) (pre @ [v], s1) ps = Inr ((pre @ [v]) @ take (length ps) vs, s')"
    "fl_contents (x_free s') = drop (length ps) vs"
    "\<forall>i < length ps. frame_at (x_umem s') (length (packet_in buf (ps ! i) ?u)) (vs ! i) = packet_in buf (ps ! i) ?u"
    "\<forall>a n. a \<notin> set vs \<longrightarrow> frames_ok ?u {a} \<longrightarrow> n \<le> u_frame ?u \<longrightarrow> frame_at (x_umem s') n a = frame_at (x_umem s1) n a"
    "fl_ok (x_free s')" "fl_limit (x_free s') = fl_limit (x_free s1)" "x_retries s' = x_retries s1"
    "u_frame (x_umem s') = u_frame ?u" "length (u_mem (x_umem s')) = length (u_mem (x_umem s1))"
    using Cons.IH [of s1 "pre @ [v]"] s1(2) v(2) Cons.prems(5) unfolding s1(3) fr pk s1(4) by auto
  have first: "frame_at (x_umem s') (length (packet_in buf p ?u)) v = packet_in buf p ?u"
    using s'(4) v(1) fv s1(6) by (simp add: packet_in_def)
  have "frame_at (x_umem s') (length (packet_in buf ((p # ps) ! i) ?u)) ((v # vs) ! i) = packet_in buf ((p # ps) ! i) ?u"
    if "i < length (p # ps)" for i
    using that first s'(3) by (cases i) simp_all
  moreover have "frame_at (x_umem s') n a = frame_at ?u n a"
    if "a \<notin> set (v # vs)" "frames_ok ?u {a}" "n \<le> u_frame ?u" for a n
    using that s'(4) s1(7) by simp
  ultimately show ?case
    unfolding c using s1(1) s1(5,8,9) s'(1,2,5-9) by auto
qed auto

lemma attempt_ok:
  fixes buf :: bytes and offs :: "(nat \<times> nat) list"
  assumes "comp_ok r mem" and "tx_ok r mem" and "rings_apart r" and "fl_ok (x_free s)"
    and "F = fl_contents (snd (push_all (take 64 (comp_contents r mem)) (x_free s)))"
    and "distinct F" and "frames_ok (x_umem s) (set F)" and "length offs \<le> length F"
    and "list_all (\<lambda>p. fst p + snd p \<le> length buf) offs"
    and "length (tx_contents r mem) + length offs \<le> tx_capacity r"
  shows "\<exists>s' mem'. send_attempt r buf offs s mem = Inr (True, s', mem') \<and> x_retries s' = x_retries s
    \<and> tx_contents r mem' = tx_contents r mem @ take (length offs) F
    \<and> fl_contents (x_free s') = drop (length offs) F
    \<and> map2 (\<lambda>p a. frame_at (x_umem s') (length (packet_in buf p (x_umem s))) a) offs F
      = map (\<lambda>p. packet_in buf p (x_umem s)) offs"
proof -
  obtain mem1 where m1: "comp_pop r 64 mem = Inr (take 64 (comp_contents r mem), mem1)" "tx_ok r mem1"
    "tx_contents r mem1 = tx_contents r mem"
    using comp_pop_ok [OF assms(1-3), of 64] by blast
  define s1 where "s1 = s\<lparr>x_free := snd (push_all (take 64 (comp_contents r mem)) (x_free s))\<rparr>"
  have fl1: "fl_ok (x_free s1)" "fl_contents (x_free s1) = F" "x_umem s1 = x_umem s"
    using push_all_ok [OF assms(4), of "take 64 (comp_contents r mem)"] by (auto simp: s1_def assms(5))
  have used: "length offs \<le> fl_used (x_free s1)" using assms(8) fl_length [of "x_free s1"] by (simp add: fl1(2))
  have bounds: "\<forall>p \<in> set offs. fst p + snd p \<le> length buf" using assms(9) by (simp add: list_all_iff)
  from stage_all [of s1 offs buf "[]"] fl1 assms(6,7) used bounds obtain s2 where s2:
    "loop_r (stage_packet buf) ([], s1) offs = Inr (take (length offs) F, s2)"
    "fl_contents (x_free s2) = drop (length offs) F"
    "\<forall>i < length offs. frame_at (x_umem s2) (length (packet_in buf (offs ! i) (x_umem s))) (F ! i) = packet_in buf (offs ! i) (x_umem s)"
    "x_retries s2 = x_retries s1"
    by auto
  have lt: "length (take (length offs) F) = length offs" using assms(8) by simp
  then obtain mem2 where m2: "tx_push r (take (length offs) F) mem1 = Inr (length offs, mem2)"
    "tx_contents r mem2 = tx_contents r mem @ take (length offs) F"
    using tx_push_ok [OF m1(2), of "take (length offs) F"] assms(10) m1(3) by auto
  have a: "send_attempt r buf offs s mem = Inr (True, s2, mem2)"
    using s2(1) m2(1) lt by (simp add: send_attempt_def m1(1) Let_def s1_def)
  moreover have "x_retries s2 = x_retries s" using s2(4) by (simp add: s1_def)
  moreover have "map2 (\<lambda>p a. frame_at (x_umem s2) (length (packet_in buf p (x_umem s))) a) offs F
      = map (\<lambda>p. packet_in buf p (x_umem s)) offs"
    using s2(3) assms(8) by (intro nth_equalityI) simp_all
  ultimately show ?thesis using m2(2) s2(2) by blast
qed

lemma send_ok:
  fixes buf :: bytes and offs :: "(nat \<times> nat) list"
  assumes "x_ring s = Some r" and "comp_ok r mem" and "tx_ok r mem" and "rings_apart r" and "fl_ok (x_free s)"
    and "F = fl_contents (snd (push_all (take 64 (comp_contents r mem)) (x_free s)))"
    and "distinct F" and "frames_ok (x_umem s) (set F)" and "length offs \<le> length F"
    and "list_all (\<lambda>p. fst p + snd p \<le> length buf) offs"
    and "length (tx_contents r mem) + length offs \<le> tx_capacity r"
  shows "\<exists>s' mem'. socket_send kern buf offs s mem = Inr (True, s', mem')
    \<and> tx_contents r mem' = tx_contents r mem @ take (length offs) F
    \<and> fl_contents (x_free s') = drop (length offs) F
    \<and> map2 (\<lambda>p a. frame_at (x_umem s') (length (packet_in buf p (x_umem s))) a) offs F
      = map (\<lambda>p. packet_in buf p (x_umem s)) offs"
proof -
  from attempt_ok [OF assms(2-11)] obtain s' mem' where a: "send_attempt r buf offs s mem = Inr (True, s', mem')"
    "tx_contents r mem' = tx_contents r mem @ take (length offs) F" "fl_contents (x_free s') = drop (length offs) F"
    "map2 (\<lambda>p a. frame_at (x_umem s') (length (packet_in buf p (x_umem s))) a) offs F = map (\<lambda>p. packet_in buf p (x_umem s)) offs"
    by blast
  then have "socket_send kern buf offs s mem = Inr (True, s', mem')"
    by (simp add: socket_send_def assms(1) MAX_RETRIES_def numeral_eq_Suc)
  with a show ?thesis by blast
qed

subsection \<open>Properties\<close>

text \<open>A send that finds room succeeds at once and delivers every packet: with the frames that
  are free after reclaiming completions distinct and inside the UMEM, enough of them, and
  room in the TX ring, each packet is in a frame of its own (cut to the frame size), the
  frames are queued in order behind what the ring held, they leave the free list, and no
  fault occurs, whatever the kernel would have done later.\<close>

theorem send_delivers:
  fixes buf :: bytes and offs :: "(nat \<times> nat) list"
  assumes "x_ring s = Some r" and "comp_ok r mem" and "tx_ok r mem" and "rings_apart r" and "fl_ok (x_free s)"
    and "F = fl_contents (snd (push_all (take 64 (comp_contents r mem)) (x_free s)))"
    and "distinct F" and "frames_ok (x_umem s) (set F)" and "length offs \<le> length F"
    and "list_all (\<lambda>p. fst p + snd p \<le> length buf) offs"
    and "length (tx_contents r mem) + length offs \<le> tx_capacity r"
  shows "\<exists>s' mem'. socket_send kern buf offs s mem = Inr (True, s', mem')
    \<and> tx_contents r mem' = tx_contents r mem @ take (length offs) F
    \<and> fl_contents (x_free s') = drop (length offs) F
    \<and> map2 (\<lambda>p a. frame_at (x_umem s') (length (packet_in buf p (x_umem s))) a) offs F
      = map (\<lambda>p. packet_in buf p (x_umem s)) offs"
  by (rule send_ok [OF assms])

text \<open>A UMEM of three frames of four bytes, a TX ring of two slots, everything else idle.\<close>

definition small_region :: ring_mmap where
  "small_region = RingMmap_new 96 \<lparr>o_rx = 0, o_rx_desc = 32, o_tx = 8, o_tx_desc = 40, o_fill = 16, o_fill_desc = 56,
     o_comp = 24, o_comp_desc = 64\<rparr>"

definition small_socket :: xdp_socket where
  "small_socket = \<lparr>x_umem = \<lparr>u_mem = replicate 12 0, u_len = 12, u_frame = 4, u_frames = 3\<rparr>, x_ring = Some small_region, x_next = 0,
     x_free = \<lparr>fl_buf = [0, 4, 8, 0], fl_mask = 3, fl_head = 0, fl_tail = 3, fl_headroom = 0\<rparr>,
     x_retries = 0, x_pressure = 0, x_counters = SocketCounters_new\<rparr>"

lemma small_region_masks: "tx_mask small_region = 1" "comp_mask small_region = 3"
    "o_tx (map_offsets small_region) = 8" "o_tx_desc (map_offsets small_region) = 40"
    "o_comp (map_offsets small_region) = 24" "o_comp_desc (map_offsets small_region) = 64"
  by (simp_all add: small_region_def RingMmap_new_def Let_def)

lemma small_idle: "ring_avail 8 (replicate 96 0) = 0" "ring_avail 24 (replicate 96 0) = 0"
  by code_simp+

theorem send_delivers_witness:
  "\<exists>s' mem'. socket_send (\<lambda>_ m. m) [1, 2, 3, 4, 5, 6, 7] [(0, 3), (3, 4)] small_socket (replicate 96 0) = Inr (True, s', mem')
    \<and> tx_contents small_region mem' = [0, 4] \<and> frame_at (x_umem s') 3 0 = [1, 2, 3] \<and> frame_at (x_umem s') 4 4 = [4, 5, 6, 7]"
proof -
  let ?mem = "replicate 96 0 :: bytes"
  have c: "tx_contents small_region ?mem = []" "comp_contents small_region ?mem = []"
    by (simp_all add: ring_contents_def small_region_masks small_idle)
  have ok: "comp_ok small_region ?mem" "tx_ok small_region ?mem" "rings_apart small_region"
    by (simp_all add: ring_ok_def rings_apart_def small_region_masks small_idle is_power_of_two.simps)
  have fl: "fl_ok (x_free small_socket)" "fl_contents (x_free small_socket) = [0, 4, 8]"
    by (simp_all add: fl_ok_def fl_contents_def fl_used_def small_socket_def is_power_of_two.simps upt_rec)
  have u: "frames_ok (x_umem small_socket) {0, 4, 8}" "u_frame (x_umem small_socket) = 4"
    by (simp_all add: frames_ok_def small_socket_def)
  have r: "x_ring small_socket = Some small_region" by (simp add: small_socket_def)
  have F: "[0, 4, 8] = fl_contents (snd (push_all (take 64 (comp_contents small_region ?mem)) (x_free small_socket)))"
    unfolding c(2) by (simp add: fl(2))
  have h: "distinct [0, 4, 8 :: u64]" "frames_ok (x_umem small_socket) (set [0, 4, 8])"
    "length [(0 :: nat, 3 :: nat), (3, 4)] \<le> length [0, 4, 8 :: u64]"
    "list_all (\<lambda>p. fst p + snd p \<le> length [1, 2, 3, 4, 5, 6, 7 :: u8]) [(0 :: nat, 3 :: nat), (3, 4)]"
    using u(1) by simp_all
  have room: "length (tx_contents small_region ?mem) + length [(0 :: nat, 3 :: nat), (3, 4)] \<le> tx_capacity small_region"
    unfolding c(1) by (simp add: tx_capacity_def small_region_masks)
  from send_delivers [OF r ok fl(1) F h room, of "\<lambda>_ m. m"]
  obtain s' mem' where s': "socket_send (\<lambda>_ m. m) [1, 2, 3, 4, 5, 6, 7] [(0, 3), (3, 4)] small_socket ?mem = Inr (True, s', mem')"
    "tx_contents small_region mem' = tx_contents small_region ?mem @ take (length [(0 :: nat, 3 :: nat), (3, 4)]) [0, 4, 8]"
    "map2 (\<lambda>p a. frame_at (x_umem s') (length (packet_in [1, 2, 3, 4, 5, 6, 7] p (x_umem small_socket))) a) [(0, 3), (3, 4)] [0, 4, 8]
      = map (\<lambda>p. packet_in [1, 2, 3, 4, 5, 6, 7] p (x_umem small_socket)) [(0, 3), (3, 4)]"
    by blast
  have "tx_contents small_region mem' = [0, 4]" unfolding s'(2) c(1) by simp
  with s'(1,3) show ?thesis by (auto simp: packet_in_def subslice_def u(2) numeral_eq_Suc)
qed

text \<open>A send the TX ring only partly takes leaves frames with two owners. All staged frames
  are given back to the free list, the ones the ring took included: here three packets meet
  two slots, the send fails, and both frames the kernel will transmit are free for the next
  packet to overwrite. The packets already queued are also sent again by every retry.\<close>

theorem send_partial_push_shares_frames:
  "\<exists>s' mem'. socket_send (\<lambda>_ m. m) [1, 2, 3] [(0, 1), (1, 1), (2, 1)] small_socket (replicate 96 0) = Inr (False, s', mem')
    \<and> tx_contents small_region mem' = [0, 4] \<and> fl_contents (x_free s') = [0, 4, 8] \<and> x_retries s' = 8"
proof -
  have "case socket_send (\<lambda>_ m. m) [1, 2, 3] [(0, 1), (1, 1), (2, 1)] small_socket (replicate 96 0) of
      Inr (ok, s', mem') \<Rightarrow> \<not> ok \<and> tx_contents small_region mem' = [0, 4] \<and> fl_contents (x_free s') = [0, 4, 8] \<and> x_retries s' = 8
    | Inl _ \<Rightarrow> False"
    by code_simp
  then show ?thesis by (auto split: sum.splits prod.splits)
qed

end
