(* ===== verification/Forward_Socket.thy ===== *)
theory Forward_Socket
  imports Forward_Spray Xdp_Socket
begin

text \<open>
  The forwarder on its socket: \<open>process_batch\<close> of \<open>datapath/src/lib.rs\<close> with the \<open>RealSocket\<close> of
  \<open>afxdp/src/socket.rs\<close> behind the trait \<open>XdpSocket\<close>. A batch takes descriptors from the RX ring,
  copies their frames out of the UMEM, forwards them and stages what comes out in free frames
  that are queued on the TX ring. The theorem joins those of the forwarder and of the socket;
  as a frame is received and sent at its full size, whatever a packet grows by is cut off.
\<close>

subsection \<open>One batch over a socket\<close>

datatype run_fault = BatchFault fault | SocketFault ring_fault

text \<open>The result of \<open>send\<close> is not looked at.\<close>

definition process_on_socket ::
    "crypto_lib \<Rightarrow> nat \<Rightarrow> (nat \<times> nat) list \<Rightarrow> (nat \<Rightarrow> bytes \<Rightarrow> bytes) \<Rightarrow> forwarder \<Rightarrow> xdp_socket \<Rightarrow> bytes \<Rightarrow> process \<Rightarrow>
       run_fault + fw_stats \<times> forwarder \<times> xdp_socket \<times> bytes \<times> process" where
  "process_on_socket L threads sched kern f s mem w =
     (case socket_poll 64 s mem of
        Inl e \<Rightarrow> Inl (SocketFault e)
      | Inr (frames, mem) \<Rightarrow>
     (case process_batch L threads sched frames f w of
        Inl e \<Rightarrow> Inl (BatchFault e)
      | Inr (st, None, f, w) \<Rightarrow> Inr (st, f, s, mem, w)
      | Inr (st, Some (buf, offs), f, w) \<Rightarrow>
     (case socket_send kern buf offs s mem of
        Inl e \<Rightarrow> Inl (SocketFault e)
      | Inr (_, s, mem) \<Rightarrow> Inr (st, f, s, mem, w))))"

subsection \<open>Receiving\<close>

abbreviation rx_contents :: "ring_mmap \<Rightarrow> bytes \<Rightarrow> u64 list" where
  "rx_contents r \<equiv> ring_contents (unat (o_rx (map_offsets r))) (unat (o_rx_desc (map_offsets r))) (rx_mask r)"

abbreviation rx_ok :: "ring_mmap \<Rightarrow> bytes \<Rightarrow> bool" where
  "rx_ok r \<equiv> ring_ok (unat (o_rx (map_offsets r))) (unat (o_rx_desc (map_offsets r))) (rx_mask r)"

text \<open>The counters of the RX ring lie outside the TX and the completion ring.\<close>

definition rx_apart :: "ring_mmap \<Rightarrow> bool" where
  "rx_apart r \<longleftrightarrow>
     (let x = unat (o_rx (map_offsets r)); t = unat (o_tx (map_offsets r)); td = unat (o_tx_desc (map_offsets r));
          c = unat (o_comp (map_offsets r)); cd = unat (o_comp_desc (map_offsets r))
      in (x + 8 \<le> t \<or> t + 8 \<le> x) \<and> (x + 8 \<le> td \<or> td + 8 * (tx_mask r + 1) \<le> x)
         \<and> (x + 8 \<le> c \<or> c + 8 \<le> x) \<and> (x + 8 \<le> cd \<or> cd + 8 * (comp_mask r + 1) \<le> x))"

lemma rx_pop_ok:
  assumes "rx_ok r mem" "tx_ok r mem" "comp_ok r mem" "rx_apart r"
  shows "\<exists>mem'. rx_pop r k mem = Inr (take k (rx_contents r mem), mem') \<and> rx_contents r mem' = drop k (rx_contents r mem)
    \<and> tx_ok r mem' \<and> tx_contents r mem' = tx_contents r mem \<and> comp_ok r mem' \<and> comp_contents r mem' = comp_contents r mem"
proof -
  let ?x = "unat (o_rx (map_offsets r))"
  define mem' where "mem' = overwrite (?x + 4) (le_bytes (ring_cons ?x mem + of_nat (min (ring_avail ?x mem) k))) mem"
  have x: "?x + 8 \<le> length mem" using assms(1) by (simp add: ring_ok_def)
  have t: "unat (o_tx (map_offsets r)) + 8 \<le> length mem" "unat (o_tx_desc (map_offsets r)) + 8 * (tx_mask r + 1) \<le> length mem"
    "unat (o_comp (map_offsets r)) + 8 \<le> length mem" "unat (o_comp_desc (map_offsets r)) + 8 * (comp_mask r + 1) \<le> length mem"
    using assms(2,3) by (simp_all add: ring_ok_def)
  have len: "length mem' = length mem" using x by (simp add: mem'_def length_overwrite)
  have "tx_ok r mem' = tx_ok r mem" "tx_contents r mem' = tx_contents r mem"
    "comp_ok r mem' = comp_ok r mem" "comp_contents r mem' = comp_contents r mem"
    by (rule ring_same [OF len]; unfold mem'_def; rule slice_overwrite_disjoint;
        use x t assms(4) in \<open>auto simp: rx_apart_def Let_def\<close>)+
  with ring_pop_exact [OF assms(1), of k] ring_pop_state [OF assms(1), of k] assms(2,3) show ?thesis
    unfolding rx_pop_def mem'_def by blast
qed

definition inside_umem :: "umem \<Rightarrow> u64 \<Rightarrow> bool" where
  "inside_umem u d \<longleftrightarrow> unat d + u_frame u \<le> length (u_mem u)"

lemma copy_frames:
  assumes "list_all (inside_umem u) ds"
  shows "loop_r (\<lambda>out d. bindr (peek (unat d) (u_frame u) (u_mem u)) (\<lambda>f. Inr (out @ [f]))) acc ds =
    Inr (acc @ map (frame_at u (u_frame u)) ds)"
  using assms by (induction ds arbitrary: acc) (simp_all add: peek_def inside_umem_def frame_at_def bindr_def)

lemma socket_poll_ok:
  assumes "x_ring s = Some r" "rx_ok r mem" "tx_ok r mem" "comp_ok r mem" "rx_apart r"
    and "list_all (inside_umem (x_umem s)) (take k (rx_contents r mem))"
  shows "\<exists>mem'. socket_poll k s mem = Inr (map (frame_at (x_umem s) (u_frame (x_umem s))) (take k (rx_contents r mem)), mem')
    \<and> rx_contents r mem' = drop k (rx_contents r mem)
    \<and> tx_ok r mem' \<and> tx_contents r mem' = tx_contents r mem \<and> comp_ok r mem' \<and> comp_contents r mem' = comp_contents r mem"
proof -
  from rx_pop_ok [OF assms(2-5), of k] obtain mem' where m: "rx_pop r k mem = Inr (take k (rx_contents r mem), mem')"
    "rx_contents r mem' = drop k (rx_contents r mem)" "tx_ok r mem'" "tx_contents r mem' = tx_contents r mem" "comp_ok r mem'"
    "comp_contents r mem' = comp_contents r mem" by blast
  then show ?thesis using copy_frames [OF assms(6), of "[]"] by (simp add: socket_poll_def assms(1) bindr_def)
qed

subsection \<open>Forwarding\<close>

lemma packet_in_sent: "packet_in buf p u = take (u_frame u) (subslice (fst p) (snd p) buf)"
  by (simp add: packet_in_def subslice_def min.commute)

lemma packets_in_sent:
  assumes "sent_packets (buf, offs) = outs"
  shows "map (\<lambda>p. packet_in buf p u) offs = map (take (u_frame u)) outs" "length offs = length outs"
  using assms by (auto simp: packet_in_sent sent_packets_def split_def)

text \<open>What the batch makes of the frames in the RX ring.\<close>

definition forwarded_frames :: "crypto_lib \<Rightarrow> forwarder \<Rightarrow> umem \<Rightarrow> u64 list \<Rightarrow> (bytes \<times> outcome) list" where
  "forwarded_frames L f u ds = map (\<lambda>d. primary_spec L (routes f) (fsession f) (frame_at u (u_frame u) d)) ds"

lemma map2_lengths:
  "map2 (\<lambda>p a. g (length (h p)) a) ps as = map2 (\<lambda>x a. g (length x) a) (map h ps) as"
  by (simp add: zip_map1 split_def comp_def)

text \<open>A packet that fills its frame is sent without its tag: the sealed packet is longer than the
  frame by the tag, and what is cut off is the tag.\<close>

lemma full_frame_loses_tag:
  assumes "seal_keeps_length L" "payload_present pkt" "HEADER_SIZE + unat (ref_length pkt) = length pkt"
    and "sealed_packet L s nh pkt = Some out"
  shows "\<exists>ct tag. encrypt_into_slice L s (payload_of pkt) (ref_seq_num pkt) = Inr (ct, tag)
    \<and> take (length pkt) out = take HEADER_SIZE (rewrite_dst nh pkt) @ ct"
proof -
  obtain ct tag where e: "encrypt_into_slice L s (payload_of pkt) (ref_seq_num pkt) = Inr (ct, tag)"
    "out = take HEADER_SIZE (rewrite_dst nh pkt) @ ct @ bytes_of tag"
    using assms(3,4) by (auto simp: sealed_packet_def split: sum.splits)
  have "length ct = unat (ref_length pkt)"
    using into_slice_length [OF assms(1) e(1)] payload_of_length [OF assms(2)] by simp
  moreover have "length (rewrite_dst nh pkt) = length pkt" using assms(3) by (simp add: HEADER_SIZE_def)
  ultimately have "length (take HEADER_SIZE (rewrite_dst nh pkt) @ ct) = length pkt" using assms(3) by simp
  then have "take (length pkt) out = take HEADER_SIZE (rewrite_dst nh pkt) @ ct" using e(2) by (metis append_assoc append_eq_conv_conj)
  with e(1) show ?thesis by blast
qed

subsection \<open>Properties\<close>

text \<open>C3. End to end: a batch in primary mode on a socket takes up to 64 frames from the RX ring, sends
  for each what \<open>primary_spec\<close> makes of it, cut to the frame size, in a free frame of its own, and
  queues these frames on the TX ring in the order of arrival; nothing faults and the statistics
  count the packets. This is so when nothing forces \<open>send\<close> to wait or to retry: there is at least one
  frame to take and the descriptors lie in the UMEM, the rings are well formed and do not overlap,
  the free list, once up to 64 completions have been given back to it, holds distinct frames of the
  UMEM, at least one for each packet, the TX ring has room for all of them, and the arena can hold
  the batch. With too few free frames or too little room on the TX ring packets are lost or
  frames shared instead (\<open>Xdp_Socket\<close>).\<close>

theorem forwards_over_socket:
  assumes "seal_keeps_length L" and "proc_ok (routes f) w" and "mcr_enabled f" and "mcr_spray_mode f \<noteq> ''full''"
    and "x_ring s = Some r" and "rx_ok r mem" and "tx_ok r mem" and "comp_ok r mem" and "rings_apart r" and "rx_apart r"
    and "ds = take 64 (rx_contents r mem)" and "ds \<noteq> []" and "list_all (inside_umem (x_umem s)) ds"
    and "arena_fits (length ds * (u_frame (x_umem s) + TAG_SIZE)) (arena f)"
    and "fl_ok (x_free s)" and "F = fl_contents (snd (push_all (take 64 (comp_contents r mem)) (x_free s)))"
    and "distinct F" and "frames_ok (x_umem s) (set F)" and "length ds \<le> length F"
    and "length (tx_contents r mem) + length ds \<le> tx_capacity r"
    and "outs = forwarded_frames L f (x_umem s) ds"
  shows "\<exists>f' s' mem' w'. process_on_socket L threads sched kern f s mem w =
      Inr (count_outcomes (map snd outs) (stats_of (length ds)), f', s', mem', w')
    \<and> tx_contents r mem' = tx_contents r mem @ take (length ds) F
    \<and> fl_contents (x_free s') = drop (length ds) F
    \<and> map2 (\<lambda>out a. frame_at (x_umem s') (length out) a) (map (take (u_frame (x_umem s)) \<circ> fst) outs) F
      = map (take (u_frame (x_umem s)) \<circ> fst) outs"
proof -
  let ?u = "x_umem s" and ?n = "length ds"
  let ?frames = "map (frame_at ?u (u_frame ?u)) ds"
  obtain mem1 where p: "socket_poll 64 s mem = Inr (?frames, mem1)" "tx_ok r mem1" "tx_contents r mem1 = tx_contents r mem"
    "comp_ok r mem1" "comp_contents r mem1 = comp_contents r mem"
    using socket_poll_ok [OF assms(5,6,7,8,10), of 64] assms(11,13) by auto
  have "length (frame_at ?u (u_frame ?u) d) = u_frame ?u" if "inside_umem ?u d" for d
    using that by (simp add: frame_at_def inside_umem_def subslice_def)
  then have "sum_list (map length ?frames) = ?n * u_frame ?u"
    using assms(13) by (induction ds) simp_all
  then have fits: "arena_fits (sum_list (map length ?frames) + length ?frames * TAG_SIZE) (arena f)"
    using assms(14) by (simp add: add_mult_distrib2)
  have o: "map (primary_spec L (routes f) (fsession f)) ?frames = outs" by (simp add: assms(21) forwarded_frames_def)
  from primary_batch [OF assms(1,2) _ assms(3,4) fits, of threads sched] assms(12) obtain buf offs f' w' where
    b: "process_batch L threads sched ?frames f w = Inr (count_outcomes (map snd outs) (stats_of ?n), Some (buf, offs), f', w')"
    "sent_packets (buf, offs) = map fst outs" "buf = concat (map fst outs)" "offs = offsets_from 0 (map fst outs)"
    unfolding mcr_result_def batch_result_def o by auto
  have lo: "length offs = ?n" using packets_in_sent(2) [OF b(2)] by (simp add: assms(21) forwarded_frames_def)
  have bounds: "list_all (\<lambda>p. fst p + snd p \<le> length buf) offs"
    using offsets_from_bounds [of 0 "map fst outs"] by (simp add: b(3,4))
  have F: "F = fl_contents (snd (push_all (take 64 (comp_contents r mem1)) (x_free s)))" by (simp add: p(5) assms(16))
  have room: "length (tx_contents r mem1) + length offs \<le> tx_capacity r" using assms(20) by (simp add: p(3) lo)
  from send_ok [OF assms(5) p(4,2) assms(9,15) F assms(17,18) _ bounds room, of kern] assms(19) obtain s' mem' where
    s': "socket_send kern buf offs s mem1 = Inr (True, s', mem')" "tx_contents r mem' = tx_contents r mem @ take ?n F"
    "fl_contents (x_free s') = drop ?n F"
    "map2 (\<lambda>p a. frame_at (x_umem s') (length (packet_in buf p ?u)) a) offs F = map (\<lambda>p. packet_in buf p ?u) offs"
    by (auto simp: lo p(3))
  have "map (\<lambda>p. packet_in buf p ?u) offs = map (take (u_frame ?u) \<circ> fst) outs"
    using packets_in_sent(1) [OF b(2)] by simp
  with s'(4) have "map2 (\<lambda>out a. frame_at (x_umem s') (length out) a) (map (take (u_frame ?u) \<circ> fst) outs) F
      = map (take (u_frame ?u) \<circ> fst) outs"
    by (simp add: map2_lengths [where g = "frame_at (x_umem s')" and h = "\<lambda>p. packet_in buf p ?u"])
  moreover have "process_on_socket L threads sched kern f s mem w =
      Inr (count_outcomes (map snd outs) (stats_of ?n), f', s', mem', w')"
    by (simp add: process_on_socket_def p(1) b(1) s'(1))
  ultimately show ?thesis using s'(2,3) by blast
qed

text \<open>The small rings with one frame received, in a UMEM of three frames of 128 bytes; it holds the
  example packet. The two other frames are free.\<close>

definition rx_region :: bytes where
  "rx_region = overwrite 0 [1] (replicate 96 0)"

definition rx_frame :: bytes where
  "rx_frame = example_packet @ replicate 29 0"

definition rx_socket :: xdp_socket where
  "rx_socket = small_socket\<lparr>
     x_umem := \<lparr>u_mem = rx_frame @ replicate 256 0, u_len = 384, u_frame = 128, u_frames = 3\<rparr>,
     x_free := \<lparr>fl_buf = [128, 256, 0, 0], fl_mask = 3, fl_head = 0, fl_tail = 2, fl_headroom = 0\<rparr>\<rparr>"

lemma rx_region_facts:
  "ring_avail 0 rx_region = 1" "ring_avail 8 rx_region = 0" "ring_avail 24 rx_region = 0" "length rx_region = 96"
  "ring_contents 0 32 0 rx_region = [0]"
  by code_simp+

lemma rx_masks: "rx_mask small_region = 0" "o_rx (map_offsets small_region) = 0" "o_rx_desc (map_offsets small_region) = 32"
  by (simp_all add: small_region_def RingMmap_new_def Let_def)

lemma rx_frame_spec: "snd (primary_spec toy_lib example_table (Some toy_session) rx_frame) = Encrypted"
proof -
  have e: "rx_frame = header_bytes (header_new\<lparr>dst_id := fill_arr 1, seq_num := 7, payload_length := 2\<rparr>) @ [4, 5, 6] @ replicate 29 0"
    unfolding rx_frame_def example_packet_def by simp
  have f: "length rx_frame = 128" "ref_dst_id rx_frame = fill_arr 1" "ref_length rx_frame = 2" "ref_flow_label rx_frame = 0"
    unfolding e ref_header_bytes by (simp_all add: header_new_def)
  have hop: "spray_hop_of example_table (fill_arr 1) 0 = Some (fill_arr 2)"
    by (simp add: spray_hop_of_def routes_of_example) (simp add: example_route_def spray_order_def channels_def Let_def)
  have pp: "payload_present rx_frame" by (simp add: payload_present_def f HEADER_SIZE_def)
  have "length (payload_of rx_frame) = 2" using payload_of_length [OF pp] by (simp add: f)
  then obtain out where "sealed_packet toy_lib toy_session (Some (fill_arr 2)) rx_frame = Some out"
    by (simp add: sealed_packet_def encrypt_into_slice_def PAYLOAD_LIMIT_def) (simp add: toy_lib_def toy_session_def GCM_MAX_def)
  with pp show ?thesis by (simp add: primary_spec_def f hop HEADER_SIZE_def Let_def)
qed

theorem forwards_over_socket_witness:
  "\<exists>f' s' mem' w'. process_on_socket toy_lib 4 [] (\<lambda>_ m. m) example_forwarder rx_socket rx_region example_process =
      Inr (\<lparr>received = 1, forwarded = 0, encrypted = 1, route_misses = 0\<rparr>, f', s', mem', w')
    \<and> tx_contents small_region mem' = [128] \<and> fl_contents (x_free s') = [256]"
proof -
  let ?spec = "primary_spec toy_lib example_table (Some toy_session) rx_frame"
  have ring: "x_ring rx_socket = Some small_region" "u_frame (x_umem rx_socket) = 128" "length (u_mem (x_umem rx_socket)) = 384"
    using example_packet_fields(1) by (simp_all add: rx_socket_def small_socket_def rx_frame_def)
  have c: "rx_contents small_region rx_region = [0]" "tx_contents small_region rx_region = []" "comp_contents small_region rx_region = []"
    by (simp_all add: rx_masks rx_region_facts ring_contents_def [of 8] ring_contents_def [of 24] small_region_masks)
  have ok: "rx_ok small_region rx_region" "tx_ok small_region rx_region" "comp_ok small_region rx_region"
    "rings_apart small_region" "rx_apart small_region"
    by (simp_all add: ring_ok_def rx_masks small_region_masks rx_region_facts is_power_of_two.simps rings_apart_def rx_apart_def)
  have fl: "fl_ok (x_free rx_socket)" "fl_contents (x_free rx_socket) = [128, 256]"
    by (simp_all add: fl_ok_def fl_contents_def fl_used_def rx_socket_def is_power_of_two.simps upt_rec)
  have fits: "arena_fits (length [0 :: u64] * (u_frame (x_umem rx_socket) + TAG_SIZE)) (arena example_forwarder)"
    by (simp add: arena_fits_def ring(2) example_forwarder_simps TAG_SIZE_def)
  have frames: "frames_ok (x_umem rx_socket) (set [128, 256])" by (simp add: frames_ok_def ring)
  have inside: "list_all (inside_umem (x_umem rx_socket)) [0]" by (simp add: inside_umem_def ring)
  have "frame_at (x_umem rx_socket) 128 0 = rx_frame"
    using example_packet_fields(1) by (simp add: frame_at_def subslice_def rx_socket_def rx_frame_def)
  then have outs: "[?spec] = forwarded_frames toy_lib example_forwarder (x_umem rx_socket) [0]"
    by (simp add: forwarded_frames_def example_forwarder_simps ring(2))
  have st: "count_outcomes (map snd [?spec]) (stats_of (length [0 :: u64])) = \<lparr>received = 1, forwarded = 0, encrypted = 1, route_misses = 0\<rparr>"
    by (simp add: count_outcomes_def stats_of_def rx_frame_spec)
  have F: "[128, 256] = fl_contents (snd (push_all (take 64 (comp_contents small_region rx_region)) (x_free rx_socket)))"
    by (simp add: c fl(2))
  have P: "proc_ok (routes example_forwarder) example_process" by (simp add: example_forwarder_simps proc_ok_example)
  have D: "[0] = take 64 (rx_contents small_region rx_region)" by (simp add: c)
  have room: "length (tx_contents small_region rx_region) + length [0 :: u64] \<le> tx_capacity small_region"
    unfolding c(2) by (simp add: tx_capacity_def small_region_masks)
  from forwards_over_socket [OF lib_ok_length [OF toy_lib_ok] P _ _ ring(1) ok D _ inside fits fl(1) F _ frames _ room outs,
      of 4 "[]" "\<lambda>_ m. m"]
  show ?thesis unfolding st by (auto simp: c example_forwarder_simps)
qed

end
