(* ===== verification/Ring_Race.thy ===== *)
theory Ring_Race
  imports Kernel_Rings "HOL-Library.Sublist"
begin

text \<open>
  The rings shared with the kernel, when the kernel acts in the middle of a call
  (\<open>afxdp/src/rings.rs\<close>). \<open>fill_push\<close>/\<open>tx_push\<close> and \<open>rx_pop\<close>/\<open>comp_pop\<close> are cut into the
  memory accesses they make, in the order of the code: the two counter loads, the two bulk
  copies, the counter store. A step relation interleaves them with the kernel, which owns
  the other counter of the ring. The kernel is not code of the repository: its steps are the
  documented contract of the AF_XDP rings, that a consumer only advances the consumer
  counter over descriptors that are there, and a producer only writes free slots and
  advances the producer counter over them. The lemmas show that every interleaving is a run
  of the bounded queue of \<open>Kernel_Rings\<close>, in the order of one load of each call.
\<close>

subsection \<open>Queues, one operation at a time\<close>

fun queue_end :: "nat \<Rightarrow> 'a queue_op list \<Rightarrow> 'a list \<Rightarrow> 'a list" where
  "queue_end limit [] q = q"
| "queue_end limit (Push xs # ops) q = queue_end limit ops (q @ take (limit - length q) xs)"
| "queue_end limit (Pop k # ops) q = queue_end limit ops (drop k q)"

fun pushed_of :: "'a queue_ret list \<Rightarrow> nat list" where
  "pushed_of [] = []"
| "pushed_of (Pushed n # rs) = n # pushed_of rs"
| "pushed_of (Popped xs # rs) = pushed_of rs"

fun popped_of :: "'a queue_ret list \<Rightarrow> 'a list list" where
  "popped_of [] = []"
| "popped_of (Pushed n # rs) = popped_of rs"
| "popped_of (Popped xs # rs) = xs # popped_of rs"

lemma pushed_of_append [simp]: "pushed_of (rs @ rs') = pushed_of rs @ pushed_of rs'"
  by (induction rs rule: pushed_of.induct) simp_all

lemma popped_of_append [simp]: "popped_of (rs @ rs') = popped_of rs @ popped_of rs'"
  by (induction rs rule: popped_of.induct) simp_all

lemma take_min_length [simp]: "take (min n (length xs)) xs = take n xs"
  by (simp add: min_def)

lemma queue_run_append: "queue_run limit (ops @ ops') q = queue_run limit ops q @ queue_run limit ops' (queue_end limit ops q)"
  by (induction ops q rule: queue_end.induct) (simp_all add: Let_def)

lemma queue_end_append: "queue_end limit (ops @ ops') q = queue_end limit ops' (queue_end limit ops q)"
  by (induction ops q rule: queue_end.induct) simp_all

subsection \<open>The ring in memory\<close>

definition same_ring :: "nat \<Rightarrow> nat \<Rightarrow> nat \<Rightarrow> bytes \<Rightarrow> bytes \<Rightarrow> bool" where
  "same_ring meta desc msk mem mem' \<longleftrightarrow> length mem' = length mem \<and> ring_prod meta mem' = ring_prod meta mem
     \<and> ring_cons meta mem' = ring_cons meta mem \<and> (\<forall>j < msk + 1. slot_at desc mem' j = slot_at desc mem j)"

definition live_kept :: "nat \<Rightarrow> nat \<Rightarrow> nat \<Rightarrow> bytes \<Rightarrow> bytes \<Rightarrow> bool" where
  "live_kept meta desc msk mem mem' \<longleftrightarrow> length mem' = length mem \<and> ring_prod meta mem' = ring_prod meta mem
     \<and> ring_cons meta mem' = ring_cons meta mem
     \<and> (\<forall>i < ring_avail meta mem. slot_at desc mem' ((unat (ring_cons meta mem) + i) mod (msk + 1))
          = slot_at desc mem ((unat (ring_cons meta mem) + i) mod (msk + 1)))"

lemma same_ring_live: "same_ring meta desc msk mem mem' \<Longrightarrow> live_kept meta desc msk mem mem'"
  by (simp add: same_ring_def live_kept_def)

lemma live_kept_ring:
  assumes "ring_ok meta desc msk mem" "live_kept meta desc msk mem mem'"
  shows "ring_ok meta desc msk mem'" "ring_contents meta desc msk mem' = ring_contents meta desc msk mem"
    "ring_avail meta mem' = ring_avail meta mem"
proof -
  show av: "ring_avail meta mem' = ring_avail meta mem" using assms(2) by (simp add: live_kept_def ring_avail_def)
  show "ring_ok meta desc msk mem'" using assms av by (simp add: ring_ok_def live_kept_def)
  show "ring_contents meta desc msk mem' = ring_contents meta desc msk mem"
    unfolding ring_contents_def av using assms(2) by (intro map_cong refl) (auto simp: live_kept_def)
qed

lemma length_ring_contents [simp]: "length (ring_contents meta desc msk mem) = ring_avail meta mem"
  by (simp add: ring_contents_def)

lemma prod_index:
  assumes "ring_ok meta desc msk mem"
  shows "(unat (ring_prod meta mem) + t) mod (msk + 1) = (unat (ring_cons meta mem) + (ring_avail meta mem + t)) mod (msk + 1)"
proof -
  have "ring_prod meta mem = ring_cons meta mem + of_nat (ring_avail meta mem)" by (simp add: ring_avail_def)
  then have "unat (ring_prod meta mem) mod (msk + 1) = (unat (ring_cons meta mem) + ring_avail meta mem) mod (msk + 1)"
    using assms word_mod_pow2 [of "msk + 1" "ring_cons meta mem" "ring_avail meta mem"] by (simp add: ring_ok_def)
  then show ?thesis by (metis add.assoc mod_add_left_eq)
qed

text \<open>A free slot is not a live one.\<close>

lemma free_slot_apart:
  assumes "ring_ok meta desc msk mem" "i < ring_avail meta mem" "ring_avail meta mem + t < msk + 1"
  shows "(unat (ring_cons meta mem) + i) mod (msk + 1) \<noteq> (unat (ring_prod meta mem) + t) mod (msk + 1)"
  unfolding prod_index [OF assms(1)] using mod_apart [of i "ring_avail meta mem + t" "msk + 1"] assms(2,3) by simp

definition store_cons :: "nat \<Rightarrow> nat \<Rightarrow> bytes \<Rightarrow> bytes" where
  "store_cons meta k mem = overwrite (meta + 4) (le_bytes (ring_cons meta mem + of_nat k)) mem"

definition store_prod :: "nat \<Rightarrow> nat \<Rightarrow> bytes \<Rightarrow> bytes" where
  "store_prod meta k mem = overwrite meta (le_bytes (ring_prod meta mem + of_nat k)) mem"

definition free_slots :: "nat \<Rightarrow> nat \<Rightarrow> nat \<Rightarrow> nat \<Rightarrow> bytes \<Rightarrow> u64 list" where
  "free_slots meta desc msk k mem = map (\<lambda>t. slot_at desc mem ((unat (ring_prod meta mem) + t) mod (msk + 1))) [0..<k]"

lemma store_cons_ring:
  assumes "ring_ok meta desc msk mem" "k \<le> ring_avail meta mem"
  shows "ring_ok meta desc msk (store_cons meta k mem)"
    "ring_contents meta desc msk (store_cons meta k mem) = drop k (ring_contents meta desc msk mem)"
    "ring_avail meta (store_cons meta k mem) = ring_avail meta mem - k"
    "ring_prod meta (store_cons meta k mem) = ring_prod meta mem"
    "ring_cons meta (store_cons meta k mem) = ring_cons meta mem + of_nat k"
    "j < msk + 1 \<Longrightarrow> slot_at desc (store_cons meta k mem) j = slot_at desc mem j"
proof -
  have e: "store_cons meta k mem = overwrite (meta + 4) (le_bytes (ring_cons meta mem + of_nat (min (ring_avail meta mem) k))) mem"
    using assms(2) by (simp add: store_cons_def min_absorb2)
  note s = ring_pop_state [OF assms(1), of k, folded e]
  show "ring_ok meta desc msk (store_cons meta k mem)"
    "ring_contents meta desc msk (store_cons meta k mem) = drop k (ring_contents meta desc msk mem)" by (fact s)+
  from arg_cong [OF s(2), of length] show "ring_avail meta (store_cons meta k mem) = ring_avail meta mem - k" by simp
  have l: "meta + 8 \<le> length mem" "desc + 8 * (msk + 1) \<le> length mem" "meta + 8 \<le> desc \<or> desc + 8 * (msk + 1) \<le> meta"
    using assms(1) by (simp_all add: ring_ok_def)
  show "ring_prod meta (store_cons meta k mem) = ring_prod meta mem"
    "ring_cons meta (store_cons meta k mem) = ring_cons meta mem + of_nat k"
    using counters_after [OF l(1)] by (simp_all add: store_cons_def)
  show "slot_at desc (store_cons meta k mem) j = slot_at desc mem j" if "j < msk + 1"
    unfolding store_cons_def using l that by (intro slot_other) auto
qed

lemma store_prod_ring:
  assumes "ring_ok meta desc msk mem" "k + ring_avail meta mem \<le> msk + 1"
  shows "ring_ok meta desc msk (store_prod meta k mem)"
    "ring_contents meta desc msk (store_prod meta k mem) = ring_contents meta desc msk mem @ free_slots meta desc msk k mem"
    "ring_avail meta (store_prod meta k mem) = ring_avail meta mem + k"
    "ring_prod meta (store_prod meta k mem) = ring_prod meta mem + of_nat k"
    "ring_cons meta (store_prod meta k mem) = ring_cons meta mem"
    "j < msk + 1 \<Longrightarrow> slot_at desc (store_prod meta k mem) j = slot_at desc mem j"
proof -
  let ?m = "store_prod meta k mem"
  have l: "is_power_of_two (msk + 1)" "msk + 1 < 2 ^ 32" "meta + 8 \<le> length mem" "desc + 8 * (msk + 1) \<le> length mem"
    "meta + 8 \<le> desc \<or> desc + 8 * (msk + 1) \<le> meta" using assms(1) by (simp_all add: ring_ok_def)
  show c: "ring_prod meta ?m = ring_prod meta mem + of_nat k" "ring_cons meta ?m = ring_cons meta mem"
    using counters_after [OF l(3)] by (simp_all add: store_prod_def)
  show av: "ring_avail meta ?m = ring_avail meta mem + k"
    unfolding ring_avail_def c using assms(2) l(2) by (intro avail_after_push) (simp add: ring_avail_def)
  have len: "length ?m = length mem" using l(3) by (simp add: store_prod_def length_overwrite)
  show "ring_ok meta desc msk ?m" using l assms(2) by (simp add: ring_ok_def len av)
  show sl: "slot_at desc ?m j = slot_at desc mem j" if "j < msk + 1" for j
    unfolding store_prod_def using l that by (intro slot_other) auto
  let ?N = "msk + 1" and ?a = "ring_avail meta mem"
  have 1: "slot_at desc ?m ((unat (ring_cons meta mem) + i) mod ?N) = slot_at desc mem ((unat (ring_cons meta mem) + i) mod ?N)" for i
    by (rule sl) simp
  have 2: "free_slots meta desc msk k mem = map (\<lambda>t. slot_at desc mem ((unat (ring_cons meta mem) + (?a + t)) mod ?N)) [0..<k]"
    unfolding free_slots_def prod_index [OF assms(1)] ..
  show "ring_contents meta desc msk ?m = ring_contents meta desc msk mem @ free_slots meta desc msk k mem"
    unfolding ring_contents_def av c 1 2 upt_add_eq_append [OF le0] map_append
    by (simp add: map_add_upt [symmetric] comp_def add.commute add.left_commute)
qed

subsection \<open>The accesses of a push\<close>

text \<open>Where a push stands: the value of each local variable that is still needed.\<close>

datatype push_pc =
    PushCall "u64 list"
  | PushLoaded "u64 list" u32
  | PushCopy1 "u64 list" u32 nat
  | PushCopy2 "u64 list" u32 nat
  | PushStore "u64 list" u32 nat
  | PushReturn nat

fun push_micro :: "nat \<Rightarrow> nat \<Rightarrow> nat \<Rightarrow> push_pc \<Rightarrow> bytes \<Rightarrow> ring_fault + push_pc \<times> bytes" where
  "push_micro meta desc msk (PushCall addrs) mem = bindr (peek32 meta mem) (\<lambda>prod. Inr (PushLoaded addrs prod, mem))"
| "push_micro meta desc msk (PushLoaded addrs p) mem =
     bindr (peek32 (meta + 4) mem) (\<lambda>cons.
       let capacity = msk + 1; used = unat (p - cons); free = capacity - used in
       if free = 0 then Inr (PushReturn 0, mem) else Inr (PushCopy1 addrs p (min free (length addrs)), mem))"
| "push_micro meta desc msk (PushCopy1 addrs p to_push) mem =
     (let start_idx = unat p AND msk; chunk1 = min to_push (msk + 1 - start_idx) in
      bindr (put_raw (desc + start_idx * 8) (bytes_of_u64s (take chunk1 addrs)) mem) (\<lambda>mem.
      Inr (PushCopy2 addrs p to_push, mem)))"
| "push_micro meta desc msk (PushCopy2 addrs p to_push) mem =
     (let start_idx = unat p AND msk; chunk1 = min to_push (msk + 1 - start_idx); chunk2 = to_push - chunk1 in
      bindr (if 0 < chunk2 then put_raw desc (bytes_of_u64s (take chunk2 (drop chunk1 addrs))) mem else Inr mem) (\<lambda>mem.
      Inr (PushStore addrs p to_push, mem)))"
| "push_micro meta desc msk (PushStore addrs p to_push) mem =
     bindr (put32 meta (p + of_nat to_push) mem) (\<lambda>mem. Inr (PushReturn to_push, mem))"
| "push_micro meta desc msk (PushReturn n) mem = Inr (PushReturn n, mem)"

fun micro_run :: "('p \<Rightarrow> bytes \<Rightarrow> ring_fault + 'p \<times> bytes) \<Rightarrow> nat \<Rightarrow> 'p \<Rightarrow> bytes \<Rightarrow> ring_fault + 'p \<times> bytes" where
  "micro_run step 0 pc mem = Inr (pc, mem)"
| "micro_run step (Suc k) pc mem = bindr (step pc mem) (\<lambda>(pc, mem). micro_run step k pc mem)"

lemma bindr_bindr: "bindr (bindr x f) g = bindr x (\<lambda>y. bindr (f y) g)"
  by (cases x) simp_all

lemma bindr_ext: "(\<And>y. f y = g y) \<Longrightarrow> bindr x f = bindr x g"
  by (cases x) simp_all

lemma micro_run_5: "micro_run step 5 pc mem = bindr (step pc mem) (\<lambda>(pc, mem). bindr (step pc mem) (\<lambda>(pc, mem).
    bindr (step pc mem) (\<lambda>(pc, mem). bindr (step pc mem) (\<lambda>(pc, mem). bindr (step pc mem) (\<lambda>(pc, mem). Inr (pc, mem))))))"
  by (simp add: numeral_eq_Suc case_prod_unfold)

text \<open>Without interference the accesses, one after the other, are the push.\<close>

lemma push_micro_run:
  "micro_run (push_micro meta desc msk) 5 (PushCall addrs) mem =
     bindr (ring_push meta desc msk addrs mem) (\<lambda>(n, mem). Inr (PushReturn n, mem))"
  unfolding micro_run_5 ring_push_def push_micro.simps bindr_bindr bindr_simps prod.case Let_def
  apply (intro bindr_ext)
  subgoal for p c by (cases "msk + 1 - unat (p - c) = 0")
      (simp_all only: simp_thms if_True if_False push_micro.simps bindr_bindr bindr_simps prod.case Let_def)
  done

subsection \<open>A push and the kernel\<close>

text \<open>The state of a race: the bytes of the region and where the call stands, with a history
  that the steps only append to: the operations in the order in which they take effect, what
  the pushes returned and what the kernel took.\<close>

record push_race =
  race_mem :: bytes
  race_pc :: "push_pc option"
  race_ops :: "u64 queue_op list"
  race_returned :: "nat list"
  race_taken :: "u64 list list"

definition push_race_start :: "bytes \<Rightarrow> push_race" where
  "push_race_start mem = \<lparr>race_mem = mem, race_pc = None, race_ops = [], race_returned = [], race_taken = []\<rparr>"

text \<open>A push takes effect, as far as the number it returns goes, when it loads the consumer
  counter.\<close>

fun push_effect :: "push_pc \<Rightarrow> u64 queue_op list" where
  "push_effect (PushLoaded addrs p) = [Push addrs]"
| "push_effect _ = []"

fun push_result :: "push_pc \<Rightarrow> nat list" where
  "push_result (PushReturn n) = [n]"
| "push_result _ = []"

fun push_waiting :: "push_pc \<Rightarrow> push_pc option" where
  "push_waiting (PushReturn n) = None"
| "push_waiting pc = Some pc"

inductive push_step :: "nat \<Rightarrow> nat \<Rightarrow> nat \<Rightarrow> push_race \<Rightarrow> push_race \<Rightarrow> bool" for meta desc msk where
  call: "race_pc s = None \<Longrightarrow> push_step meta desc msk s (s\<lparr>race_pc := Some (PushCall addrs)\<rparr>)"
| access: "race_pc s = Some pc \<Longrightarrow> push_micro meta desc msk pc (race_mem s) = Inr (pc', mem') \<Longrightarrow>
    push_step meta desc msk s (s\<lparr>race_mem := mem', race_pc := push_waiting pc', race_ops := race_ops s @ push_effect pc,
      race_returned := race_returned s @ push_result pc'\<rparr>)"
| kernel_takes: "k \<le> ring_avail meta (race_mem s) \<Longrightarrow>
    push_step meta desc msk s (s\<lparr>race_mem := store_cons meta k (race_mem s), race_ops := race_ops s @ [Pop k],
      race_taken := race_taken s @ [take k (ring_contents meta desc msk (race_mem s))]\<rparr>)"
| elsewhere: "same_ring meta desc msk (race_mem s) mem' \<Longrightarrow> push_step meta desc msk s (s\<lparr>race_mem := mem'\<rparr>)"

definition push_reaches :: "nat \<Rightarrow> nat \<Rightarrow> nat \<Rightarrow> bytes \<Rightarrow> push_race \<Rightarrow> bool" where
  "push_reaches meta desc msk mem s \<longleftrightarrow> (push_step meta desc msk)\<^sup>*\<^sup>* (push_race_start mem) s"

text \<open>What holds where the call stands, and what the queue holds that the ring does not show
  yet.\<close>

definition copied :: "nat \<Rightarrow> nat \<Rightarrow> nat \<Rightarrow> u64 list \<Rightarrow> bytes \<Rightarrow> bool" where
  "copied meta desc msk xs mem \<longleftrightarrow> (\<forall>t < length xs. slot_at desc mem ((unat (ring_prod meta mem) + t) mod (msk + 1)) = xs ! t)"

fun push_at :: "nat \<Rightarrow> nat \<Rightarrow> nat \<Rightarrow> bytes \<Rightarrow> push_pc \<Rightarrow> bool" where
  "push_at meta desc msk mem (PushCall addrs) \<longleftrightarrow> True"
| "push_at meta desc msk mem (PushLoaded addrs p) \<longleftrightarrow> p = ring_prod meta mem"
| "push_at meta desc msk mem (PushCopy1 addrs p n) \<longleftrightarrow> p = ring_prod meta mem \<and> n \<le> length addrs
     \<and> n + ring_avail meta mem \<le> msk + 1"
| "push_at meta desc msk mem (PushCopy2 addrs p n) \<longleftrightarrow> p = ring_prod meta mem \<and> n \<le> length addrs
     \<and> n + ring_avail meta mem \<le> msk + 1
     \<and> copied meta desc msk (take (min n (msk + 1 - unat p mod (msk + 1))) addrs) mem"
| "push_at meta desc msk mem (PushStore addrs p n) \<longleftrightarrow> p = ring_prod meta mem \<and> n \<le> length addrs
     \<and> n + ring_avail meta mem \<le> msk + 1 \<and> copied meta desc msk (take n addrs) mem"
| "push_at meta desc msk mem (PushReturn n) \<longleftrightarrow> False"

fun push_hidden :: "push_pc \<Rightarrow> u64 list" where
  "push_hidden (PushCopy1 addrs p n) = take n addrs"
| "push_hidden (PushCopy2 addrs p n) = take n addrs"
| "push_hidden (PushStore addrs p n) = take n addrs"
| "push_hidden _ = []"

fun push_owed :: "push_pc \<Rightarrow> nat list" where
  "push_owed (PushCopy1 addrs p n) = [n]"
| "push_owed (PushCopy2 addrs p n) = [n]"
| "push_owed (PushStore addrs p n) = [n]"
| "push_owed _ = []"

abbreviation of_call :: "('p \<Rightarrow> 'a list) \<Rightarrow> 'p option \<Rightarrow> 'a list" where
  "of_call f pc \<equiv> (case pc of None \<Rightarrow> [] | Some p \<Rightarrow> f p)"

definition push_inv :: "nat \<Rightarrow> nat \<Rightarrow> nat \<Rightarrow> u64 list \<Rightarrow> push_race \<Rightarrow> bool" where
  "push_inv meta desc msk q s \<longleftrightarrow> ring_ok meta desc msk (race_mem s)
     \<and> queue_end (msk + 1) (race_ops s) q = ring_contents meta desc msk (race_mem s) @ of_call push_hidden (race_pc s)
     \<and> pushed_of (queue_run (msk + 1) (race_ops s) q) = race_returned s @ of_call push_owed (race_pc s)
     \<and> popped_of (queue_run (msk + 1) (race_ops s) q) = race_taken s
     \<and> (\<forall>pc. race_pc s = Some pc \<longrightarrow> push_at meta desc msk (race_mem s) pc)"

lemma wrap_index: "0 < N \<Longrightarrow> t < N \<Longrightarrow> (p + t) mod N = (if t < N - p mod N then p mod N + t else t - (N - p mod N))" for p t N :: nat
proof -
  assume N: "0 < N" "t < N"
  have s: "p mod N < N" using N(1) by simp
  have e: "(p + t) mod N = (p mod N + t) mod N" by (simp add: mod_add_left_eq)
  show ?thesis
  proof (cases "p mod N + t < N")
    case True
    moreover from True have "t < N - p mod N" by linarith
    ultimately show ?thesis unfolding e by simp
  next
    case False
    then have "(p mod N + t) mod N = (p mod N + t - N) mod N" by (intro le_mod_geq) simp
    moreover have "(p mod N + t - N) mod N = p mod N + t - N" using N(2) s by (intro mod_less) linarith
    moreover have "\<not> t < N - p mod N" "p mod N + t - N = t - (N - p mod N)" using False s by linarith+
    ultimately show ?thesis by (simp only: e if_False)
  qed
qed

lemma copy_chunk:
  assumes ok: "ring_ok meta desc msk mem" and fits: "s + length ys \<le> msk + 1"
    and free: "\<And>t. t < length ys \<Longrightarrow> \<exists>u. ring_avail meta mem + u < msk + 1 \<and> s + t = (unat (ring_prod meta mem) + u) mod (msk + 1)"
  defines "mem' \<equiv> overwrite (desc + 8 * s) (bytes_of_u64s ys) mem"
  shows "put_raw (desc + 8 * s) (bytes_of_u64s ys) mem = Inr mem'"
    and "j < msk + 1 \<Longrightarrow> slot_at desc mem' j = (if s \<le> j \<and> j < s + length ys then ys ! (j - s) else slot_at desc mem j)"
    and "live_kept meta desc msk mem mem'"
proof -
  have l: "meta + 8 \<le> length mem" "desc + 8 * (msk + 1) \<le> length mem" "meta + 8 \<le> desc \<or> desc + 8 * (msk + 1) \<le> meta"
    using ok by (simp_all add: ring_ok_def)
  have in1: "desc + 8 * (s + length ys) \<le> length mem" using l(2) mult_le_mono2 [OF fits, of 8] by simp
  then show "put_raw (desc + 8 * s) (bytes_of_u64s ys) mem = Inr mem'" by (simp add: put_raw_def mem'_def algebra_simps)
  show sl: "slot_at desc mem' j = (if s \<le> j \<and> j < s + length ys then ys ! (j - s) else slot_at desc mem j)" if "j < msk + 1" for j
    unfolding mem'_def using in1 l(2) that mult_le_mono2 [of "Suc j" "msk + 1" 8] by (intro slot_put) simp_all
  have len: "length mem' = length mem" using in1 by (simp add: mem'_def length_overwrite)
  have keep: "subslice off 4 mem' = subslice off 4 mem" if "meta \<le> off" "off + 4 \<le> meta + 8" for off
    unfolding mem'_def using that l in1 mult_le_mono2 [OF fits, of 8] by (intro slice_overwrite_disjoint) auto
  have cnt: "ring_prod meta mem' = ring_prod meta mem" "ring_cons meta mem' = ring_cons meta mem"
    using keep [of meta] keep [of "meta + 4"] by (simp_all add: ring_prod_def ring_cons_def)
  have "slot_at desc mem' ((unat (ring_cons meta mem) + i) mod (msk + 1)) = slot_at desc mem ((unat (ring_cons meta mem) + i) mod (msk + 1))"
    if i: "i < ring_avail meta mem" for i
  proof -
    let ?j = "(unat (ring_cons meta mem) + i) mod (msk + 1)"
    have "\<not> (s \<le> ?j \<and> ?j < s + length ys)"
    proof
      assume a: "s \<le> ?j \<and> ?j < s + length ys"
      then have "?j - s < length ys" "s + (?j - s) = ?j" by auto
      with free [of "?j - s"] free_slot_apart [OF ok i] show False by metis
    qed
    moreover have "?j < msk + 1" by simp
    ultimately show ?thesis using sl [of ?j] by (simp only: if_False)
  qed
  then show "live_kept meta desc msk mem mem'" by (simp add: live_kept_def len cnt)
qed


lemma push_copy1:
  assumes ok: "ring_ok meta desc msk mem" and at: "push_at meta desc msk mem (PushCopy1 addrs p n)"
  shows "\<exists>mem'. push_micro meta desc msk (PushCopy1 addrs p n) mem = Inr (PushCopy2 addrs p n, mem')
    \<and> live_kept meta desc msk mem mem' \<and> push_at meta desc msk mem' (PushCopy2 addrs p n)"
proof -
  define N s n1 where "N = msk + 1" and "s = unat p mod N" and "n1 = min n (N - s)"
  let ?ys = "take n1 addrs" let ?m = "overwrite (desc + 8 * s) (bytes_of_u64s ?ys) mem"
  from at have p: "p = ring_prod meta mem" "n \<le> length addrs" "n + ring_avail meta mem \<le> N" by (simp_all add: N_def)
  have len: "length ?ys = n1" using p(2) by (simp add: n1_def)
  have N: "0 < N" "s < N" by (simp_all add: N_def s_def)
  have w: "(unat (ring_prod meta mem) + t) mod N = s + t" if "t < n1" for t
  proof -
    have "t < N - s" using that by (simp add: n1_def)
    moreover from this have "t < N" by linarith
    ultimately show ?thesis using wrap_index [OF N(1), of t "unat p"] by (simp only: p(1) [symmetric] s_def if_True)
  qed
  have c: "s + length ?ys \<le> msk + 1" "\<And>t. t < length ?ys \<Longrightarrow>
      \<exists>u. ring_avail meta mem + u < msk + 1 \<and> s + t = (unat (ring_prod meta mem) + u) mod (msk + 1)"
  proof -
    show "s + length ?ys \<le> msk + 1" using N(2) by (simp add: len n1_def N_def)
    show "\<exists>u. ring_avail meta mem + u < msk + 1 \<and> s + t = (unat (ring_prod meta mem) + u) mod (msk + 1)" if "t < length ?ys" for t
      using that w [of t] p(3) by (intro exI [of _ t]) (auto simp: len n1_def N_def)
  qed
  note k = copy_chunk [OF ok c]
  have "slot_at desc ?m ((unat (ring_prod meta mem) + t) mod N) = ?ys ! t" if t: "t < n1" for t
  proof -
    have "t < N - s" using t by (simp add: n1_def)
    then have "s + t < msk + 1" by (simp only: N_def less_diff_conv add.commute)
    moreover have "s \<le> s + t \<and> s + t < s + length ?ys" using t unfolding len by simp
    ultimately show ?thesis using k(2) [of "s + t"] by (simp add: w [OF t] del: length_take nth_take)
  qed
  then have "copied meta desc msk ?ys ?m"
    using k(3) by (simp add: copied_def len live_kept_def N_def)
  then have "push_at meta desc msk ?m (PushCopy2 addrs p n)"
    using p k(3) live_kept_ring [OF ok k(3)] by (simp add: live_kept_def N_def n1_def s_def)
  moreover have "push_micro meta desc msk (PushCopy1 addrs p n) mem = Inr (PushCopy2 addrs p n, ?m)"
    using k(1) ring_ok_mask [OF ok, of p] by (simp add: Let_def s_def N_def n1_def mult.commute)
  ultimately show ?thesis using k(3) by blast
qed

lemma push_copy2:
  assumes ok: "ring_ok meta desc msk mem" and at: "push_at meta desc msk mem (PushCopy2 addrs p n)"
  shows "\<exists>mem'. push_micro meta desc msk (PushCopy2 addrs p n) mem = Inr (PushStore addrs p n, mem')
    \<and> live_kept meta desc msk mem mem' \<and> push_at meta desc msk mem' (PushStore addrs p n)"
proof -
  define N s n1 where "N = msk + 1" and "s = unat p mod N" and "n1 = min n (N - s)"
  let ?ys = "take (n - n1) (drop n1 addrs)" let ?m = "overwrite (desc + 8 * 0) (bytes_of_u64s ?ys) mem"
  from at have p: "p = ring_prod meta mem" "n \<le> length addrs" "n + ring_avail meta mem \<le> N"
    and first: "copied meta desc msk (take n1 addrs) mem" by (auto simp only: push_at.simps N_def n1_def s_def)
  have len: "length ?ys = n - n1" using p(2) by (simp add: n1_def)
  have N: "0 < N" "s < N" by (simp_all add: N_def s_def)
  have nN: "n \<le> N" using p(3) by simp
  have w: "(unat (ring_prod meta mem) + t) mod N = (if t < n1 then s + t else t - n1)" if "t < n" for t
  proof -
    have t: "t < N" "t < N - s \<longleftrightarrow> t < n1" using that nN by (simp_all add: n1_def)
    have m: "\<not> t < n1 \<Longrightarrow> N - s = n1" using that unfolding n1_def by linarith
    from wrap_index [OF N(1) t(1), of "unat p", folded s_def] have "(unat p + t) mod N = (if t < n1 then s + t else t - (N - s))"
      by (simp only: t(2))
    with m show ?thesis unfolding p(1) [symmetric] by (cases "t < n1") (simp_all only: if_True if_False simp_thms)
  qed
  note cb = chunk_bounds [OF N(2) nN, folded n1_def]
  have c: "0 + length ?ys \<le> msk + 1" "\<And>t. t < length ?ys \<Longrightarrow>
      \<exists>u. ring_avail meta mem + u < msk + 1 \<and> 0 + t = (unat (ring_prod meta mem) + u) mod (msk + 1)"
  proof -
    show "0 + length ?ys \<le> msk + 1" using nN by (simp add: len N_def)
    show "\<exists>u. ring_avail meta mem + u < msk + 1 \<and> 0 + t = (unat (ring_prod meta mem) + u) mod (msk + 1)" if "t < length ?ys" for t
      using that w [of "n1 + t"] p(3) by (intro exI [of _ "n1 + t"]) (auto simp: len N_def)
  qed
  note k = copy_chunk [OF ok c]
  have "slot_at desc ?m ((unat (ring_prod meta mem) + t) mod N) = take n addrs ! t" if t: "t < n" for t
  proof (cases "t < n1")
    case True
    then have "s + t < N" "\<not> s + t < n - n1" using cb by simp_all
    then have "slot_at desc ?m (s + t) = slot_at desc mem (s + t)" using k(2) [of "s + t"] by (simp add: len N_def)
    moreover have "slot_at desc mem ((unat (ring_prod meta mem) + t) mod N) = take n1 addrs ! t"
      using first True p(2) t by (simp add: copied_def N_def)
    ultimately show ?thesis using w [OF t] True t by simp
  next
    case False
    then have "t - n1 < n - n1" "t - n1 < N" "t - n1 < length addrs - n1" using t nN p(2) by simp_all
    then show ?thesis using k(2) [of "t - n1"] w [OF t] False t by (simp add: len N_def)
  qed
  then have "copied meta desc msk (take n addrs) ?m"
    using k(3) p(2) by (simp add: copied_def live_kept_def N_def)
  then have "push_at meta desc msk ?m (PushStore addrs p n)"
    using p k(3) live_kept_ring [OF ok k(3)] by (simp add: live_kept_def N_def)
  moreover have "push_micro meta desc msk (PushCopy2 addrs p n) mem = Inr (PushStore addrs p n, ?m)"
    using k(1) ring_ok_mask [OF ok, of p] by (auto simp: Let_def s_def N_def n1_def)
  ultimately show ?thesis using k(3) by blast
qed

lemma push_access:
  assumes ok: "ring_ok meta desc msk mem" and at: "push_at meta desc msk mem pc"
  obtains pc' mem' where "push_micro meta desc msk pc mem = Inr (pc', mem')" "ring_ok meta desc msk mem'"
    "\<And>p. push_waiting pc' = Some p \<Longrightarrow> push_at meta desc msk mem' p"
    "queue_end (msk + 1) (push_effect pc) (ring_contents meta desc msk mem @ push_hidden pc)
       = ring_contents meta desc msk mem' @ of_call push_hidden (push_waiting pc')"
    "push_owed pc @ pushed_of (queue_run (msk + 1) (push_effect pc) (ring_contents meta desc msk mem @ push_hidden pc))
       = push_result pc' @ of_call push_owed (push_waiting pc')"
    "popped_of (queue_run (msk + 1) (push_effect pc) (ring_contents meta desc msk mem @ push_hidden pc)) = []"
proof (cases pc)
  case (PushCall addrs)
  then show thesis using that [of "PushLoaded addrs (ring_prod meta mem)" mem] ok ring_ok_layout [OF ok] by simp
next
  case (PushLoaded addrs p)
  let ?free = "msk + 1 - ring_avail meta mem"
  have p: "unat (p - ring_cons meta mem) = ring_avail meta mem" using at PushLoaded by (simp add: ring_avail_def)
  note l = ring_ok_layout [OF ok]
  show thesis
  proof (cases "?free = 0")
    case True
    then show thesis using that [of "PushReturn 0" mem] ok l(3,5) p PushLoaded by (simp add: Let_def)
  next
    case False
    then show thesis
      using that [of "PushCopy1 addrs p (min ?free (length addrs))" mem] ok at l(3,5) p PushLoaded by (simp add: Let_def)
  qed
next
  case (PushCopy1 addrs p n)
  with push_copy1 [OF ok, of addrs p n] at obtain mem' where m:
    "push_micro meta desc msk pc mem = Inr (PushCopy2 addrs p n, mem')" "live_kept meta desc msk mem mem'"
    "push_at meta desc msk mem' (PushCopy2 addrs p n)" by blast
  show thesis using that [OF m(1)] live_kept_ring [OF ok m(2)] m(3) PushCopy1 by (simp del: push_at.simps)
next
  case (PushCopy2 addrs p n)
  with push_copy2 [OF ok, of addrs p n] at obtain mem' where m:
    "push_micro meta desc msk pc mem = Inr (PushStore addrs p n, mem')" "live_kept meta desc msk mem mem'"
    "push_at meta desc msk mem' (PushStore addrs p n)" by blast
  show thesis using that [OF m(1)] live_kept_ring [OF ok m(2)] m(3) PushCopy2 by (simp del: push_at.simps)
next
  case (PushStore addrs p n)
  then have p: "p = ring_prod meta mem" "n \<le> length addrs" "n + ring_avail meta mem \<le> msk + 1"
    and c: "copied meta desc msk (take n addrs) mem" using at by auto
  note r = store_prod_ring [OF ok p(3)]
  have "free_slots meta desc msk n mem = take n addrs"
    using c p(2) by (intro nth_equalityI) (auto simp: free_slots_def copied_def)
  moreover have "push_micro meta desc msk pc mem = Inr (PushReturn n, store_prod meta n mem)"
    using ring_ok_layout [OF ok] by (simp add: PushStore p(1) store_prod_def)
  ultimately show thesis using that [of "PushReturn n" "store_prod meta n mem"] r(1,2) PushStore by simp
next
  case (PushReturn n)
  then show thesis using at by simp
qed

text \<open>What the kernel and the rest of the region do in between keeps every local fact.\<close>

lemma push_at_store_cons:
  assumes "ring_ok meta desc msk mem" "k \<le> ring_avail meta mem" "push_at meta desc msk mem pc"
  shows "push_at meta desc msk (store_cons meta k mem) pc"
  using assms(3) store_cons_ring [OF assms(1,2)] by (cases pc) (auto simp: copied_def)

lemma push_at_same_ring:
  assumes "ring_ok meta desc msk mem" "same_ring meta desc msk mem mem'" "push_at meta desc msk mem pc"
  shows "push_at meta desc msk mem' pc"
  using assms(2,3) live_kept_ring(3) [OF assms(1) same_ring_live [OF assms(2)]]
  by (cases pc) (auto simp: copied_def same_ring_def)

lemma push_inv_step: "push_inv meta desc msk q s \<Longrightarrow> push_step meta desc msk s s' \<Longrightarrow> push_inv meta desc msk q s'"
proof -
  assume inv: "push_inv meta desc msk q s" and step: "push_step meta desc msk s s'"
  let ?m = "race_mem s"
  have ok: "ring_ok meta desc msk ?m"
    and qe: "queue_end (msk + 1) (race_ops s) q = ring_contents meta desc msk ?m @ of_call push_hidden (race_pc s)"
    and ret: "pushed_of (queue_run (msk + 1) (race_ops s) q) = race_returned s @ of_call push_owed (race_pc s)"
    and tak: "popped_of (queue_run (msk + 1) (race_ops s) q) = race_taken s"
    and at: "\<And>pc. race_pc s = Some pc \<Longrightarrow> push_at meta desc msk ?m pc" using inv by (simp_all add: push_inv_def)
  from step show ?thesis
  proof cases
    case (call addrs)
    then show ?thesis using inv by (simp add: push_inv_def)
  next
    case (access pc pc' mem')
    from push_access [OF ok at [OF access(2)]] obtain pc1 mem1 where a:
      "push_micro meta desc msk pc ?m = Inr (pc1, mem1)" "ring_ok meta desc msk mem1"
      "\<And>p. push_waiting pc1 = Some p \<Longrightarrow> push_at meta desc msk mem1 p"
      "queue_end (msk + 1) (push_effect pc) (ring_contents meta desc msk ?m @ push_hidden pc)
         = ring_contents meta desc msk mem1 @ of_call push_hidden (push_waiting pc1)"
      "push_owed pc @ pushed_of (queue_run (msk + 1) (push_effect pc) (ring_contents meta desc msk ?m @ push_hidden pc))
         = push_result pc1 @ of_call push_owed (push_waiting pc1)"
      "popped_of (queue_run (msk + 1) (push_effect pc) (ring_contents meta desc msk ?m @ push_hidden pc)) = []" by blast
    have e: "pc1 = pc'" "mem1 = mem'" using a(1) access(3) by simp_all
    have q: "queue_end (msk + 1) (race_ops s) q = ring_contents meta desc msk ?m @ push_hidden pc"
      using qe access(2) by simp
    have r: "pushed_of (queue_run (msk + 1) (race_ops s) q) = race_returned s @ push_owed pc" using ret access(2) by simp
    show ?thesis
      using a(2-6) tak unfolding push_inv_def access(1) e
      by (simp add: queue_end_append queue_run_append q [simplified] r [simplified])
  next
    case (kernel_takes k)
    note c = store_cons_ring [OF ok kernel_takes(2)]
    have k: "k \<le> length (ring_contents meta desc msk ?m)" using kernel_takes(2) by simp
    show ?thesis
      unfolding push_inv_def kernel_takes(1)
      using c(1,2) k ret tak at push_at_store_cons [OF ok kernel_takes(2)]
      by (simp add: queue_end_append queue_run_append qe [simplified])
  next
    case (elsewhere mem')
    note c = live_kept_ring [OF ok same_ring_live [OF elsewhere(2)]]
    show ?thesis
      unfolding push_inv_def elsewhere(1)
      using c qe ret tak at push_at_same_ring [OF ok elsewhere(2)] by simp
  qed
qed

lemma push_inv_reaches:
  assumes "ring_ok meta desc msk mem" "push_reaches meta desc msk mem s"
  shows "push_inv meta desc msk (ring_contents meta desc msk mem) s"
  using assms(2) unfolding push_reaches_def
proof (induction rule: rtranclp_induct)
  case base
  then show ?case using assms(1) by (simp add: push_inv_def push_race_start_def)
next
  case (step s s')
  then show ?case using push_inv_step by blast
qed

subsection \<open>The accesses of a pop\<close>

datatype pop_pc =
    PopCall nat
  | PopLoaded nat u32
  | PopChunk1 u32 nat
  | PopChunk2 u32 nat bytes
  | PopStore u32 nat bytes
  | PopReturn "u64 list"

fun pop_micro :: "nat \<Rightarrow> nat \<Rightarrow> nat \<Rightarrow> pop_pc \<Rightarrow> bytes \<Rightarrow> ring_fault + pop_pc \<times> bytes" where
  "pop_micro meta desc msk (PopCall max_n) mem = bindr (peek32 meta mem) (\<lambda>prod. Inr (PopLoaded max_n prod, mem))"
| "pop_micro meta desc msk (PopLoaded max_n p) mem =
     bindr (peek32 (meta + 4) mem) (\<lambda>cons.
       let avail = unat (p - cons) in
       if avail = 0 then Inr (PopReturn [], mem) else Inr (PopChunk1 cons (min avail max_n), mem))"
| "pop_micro meta desc msk (PopChunk1 c to_take) mem =
     (let start_idx = unat c AND msk; chunk1 = min to_take (msk + 1 - start_idx) in
      bindr (peek (desc + start_idx * 8) (chunk1 * 8) mem) (\<lambda>b1. Inr (PopChunk2 c to_take b1, mem)))"
| "pop_micro meta desc msk (PopChunk2 c to_take b1) mem =
     (let start_idx = unat c AND msk; chunk1 = min to_take (msk + 1 - start_idx); chunk2 = to_take - chunk1 in
      bindr (if 0 < chunk2 then peek desc (chunk2 * 8) mem else Inr []) (\<lambda>b2. Inr (PopStore c to_take (b1 @ b2), mem)))"
| "pop_micro meta desc msk (PopStore c to_take bs) mem =
     bindr (put32 (meta + 4) (c + of_nat to_take) mem) (\<lambda>mem. Inr (PopReturn (u64s_of to_take bs), mem))"
| "pop_micro meta desc msk (PopReturn xs) mem = Inr (PopReturn xs, mem)"

lemma pop_micro_run:
  "micro_run (pop_micro meta desc msk) 5 (PopCall max_n) mem =
     bindr (ring_pop meta desc msk max_n mem) (\<lambda>(xs, mem). Inr (PopReturn xs, mem))"
  unfolding micro_run_5 ring_pop_def pop_micro.simps bindr_bindr bindr_simps prod.case Let_def
  apply (intro bindr_ext)
  subgoal for p c by (cases "unat (p - c) = 0")
      (simp_all only: simp_thms if_True if_False pop_micro.simps bindr_bindr bindr_simps prod.case Let_def)
  done

subsection \<open>A pop and the kernel\<close>

record pop_race =
  pr_mem :: bytes
  pr_pc :: "pop_pc option"
  pr_ops :: "u64 queue_op list"
  pr_returned :: "u64 list list"
  pr_given :: "u64 list list"

definition pop_race_start :: "bytes \<Rightarrow> pop_race" where
  "pop_race_start mem = \<lparr>pr_mem = mem, pr_pc = None, pr_ops = [], pr_returned = [], pr_given = []\<rparr>"

text \<open>A pop takes effect when it loads the producer counter.\<close>

fun pop_effect :: "pop_pc \<Rightarrow> u64 queue_op list" where
  "pop_effect (PopCall max_n) = [Pop max_n]"
| "pop_effect _ = []"

fun pop_result :: "pop_pc \<Rightarrow> u64 list list" where
  "pop_result (PopReturn xs) = [xs]"
| "pop_result _ = []"

fun pop_waiting :: "pop_pc \<Rightarrow> pop_pc option" where
  "pop_waiting (PopReturn xs) = None"
| "pop_waiting pc = Some pc"

inductive pop_step :: "nat \<Rightarrow> nat \<Rightarrow> nat \<Rightarrow> pop_race \<Rightarrow> pop_race \<Rightarrow> bool" for meta desc msk where
  call: "pr_pc s = None \<Longrightarrow> pop_step meta desc msk s (s\<lparr>pr_pc := Some (PopCall max_n)\<rparr>)"
| access: "pr_pc s = Some pc \<Longrightarrow> pop_micro meta desc msk pc (pr_mem s) = Inr (pc', mem') \<Longrightarrow>
    pop_step meta desc msk s (s\<lparr>pr_mem := mem', pr_pc := pop_waiting pc', pr_ops := pr_ops s @ pop_effect pc,
      pr_returned := pr_returned s @ pop_result pc'\<rparr>)"
| kernel_writes: "live_kept meta desc msk (pr_mem s) mem' \<Longrightarrow> pop_step meta desc msk s (s\<lparr>pr_mem := mem'\<rparr>)"
| kernel_gives: "k + ring_avail meta (pr_mem s) \<le> msk + 1 \<Longrightarrow>
    pop_step meta desc msk s (s\<lparr>pr_mem := store_prod meta k (pr_mem s),
      pr_ops := pr_ops s @ [Push (free_slots meta desc msk k (pr_mem s))],
      pr_given := pr_given s @ [free_slots meta desc msk k (pr_mem s)]\<rparr>)"

definition pop_reaches :: "nat \<Rightarrow> nat \<Rightarrow> nat \<Rightarrow> bytes \<Rightarrow> pop_race \<Rightarrow> bool" where
  "pop_reaches meta desc msk mem s \<longleftrightarrow> (pop_step meta desc msk)\<^sup>*\<^sup>* (pop_race_start mem) s"

text \<open>How many of the ring's descriptors the call has claimed, and what holds where it
  stands.\<close>

fun pop_claimed :: "nat \<Rightarrow> bytes \<Rightarrow> pop_pc \<Rightarrow> nat" where
  "pop_claimed meta mem (PopLoaded max_n p) = min (unat (p - ring_cons meta mem)) max_n"
| "pop_claimed meta mem (PopChunk1 c n) = n"
| "pop_claimed meta mem (PopChunk2 c n b1) = n"
| "pop_claimed meta mem (PopStore c n bs) = n"
| "pop_claimed meta mem _ = 0"

fun pop_owed :: "nat \<Rightarrow> nat \<Rightarrow> nat \<Rightarrow> bytes \<Rightarrow> pop_pc \<Rightarrow> u64 list list" where
  "pop_owed meta desc msk mem (PopCall max_n) = []"
| "pop_owed meta desc msk mem (PopReturn xs) = []"
| "pop_owed meta desc msk mem pc = [take (pop_claimed meta mem pc) (ring_contents meta desc msk mem)]"

fun pop_at :: "nat \<Rightarrow> nat \<Rightarrow> nat \<Rightarrow> bytes \<Rightarrow> pop_pc \<Rightarrow> bool" where
  "pop_at meta desc msk mem (PopCall max_n) \<longleftrightarrow> True"
| "pop_at meta desc msk mem (PopLoaded max_n p) \<longleftrightarrow> unat (p - ring_cons meta mem) \<le> ring_avail meta mem"
| "pop_at meta desc msk mem (PopChunk1 c n) \<longleftrightarrow> c = ring_cons meta mem \<and> n \<le> ring_avail meta mem"
| "pop_at meta desc msk mem (PopChunk2 c n b1) \<longleftrightarrow> c = ring_cons meta mem \<and> n \<le> ring_avail meta mem
     \<and> length b1 = 8 * min n (msk + 1 - unat c mod (msk + 1))
     \<and> u64s_of (min n (msk + 1 - unat c mod (msk + 1))) b1
         = take (min n (msk + 1 - unat c mod (msk + 1))) (ring_contents meta desc msk mem)"
| "pop_at meta desc msk mem (PopStore c n bs) \<longleftrightarrow> c = ring_cons meta mem \<and> n \<le> ring_avail meta mem
     \<and> u64s_of n bs = take n (ring_contents meta desc msk mem)"
| "pop_at meta desc msk mem (PopReturn xs) \<longleftrightarrow> False"

abbreviation claimed_of :: "nat \<Rightarrow> bytes \<Rightarrow> pop_pc option \<Rightarrow> nat" where
  "claimed_of meta mem pc \<equiv> (case pc of None \<Rightarrow> 0 | Some p \<Rightarrow> pop_claimed meta mem p)"

definition pop_inv :: "nat \<Rightarrow> nat \<Rightarrow> nat \<Rightarrow> u64 list \<Rightarrow> pop_race \<Rightarrow> bool" where
  "pop_inv meta desc msk q s \<longleftrightarrow> ring_ok meta desc msk (pr_mem s)
     \<and> queue_end (msk + 1) (pr_ops s) q = drop (claimed_of meta (pr_mem s) (pr_pc s)) (ring_contents meta desc msk (pr_mem s))
     \<and> popped_of (queue_run (msk + 1) (pr_ops s) q) = pr_returned s @ of_call (pop_owed meta desc msk (pr_mem s)) (pr_pc s)
     \<and> pushed_of (queue_run (msk + 1) (pr_ops s) q) = map length (pr_given s)
     \<and> (\<forall>pc. pr_pc s = Some pc \<longrightarrow> pop_at meta desc msk (pr_mem s) pc)"

lemma pop_claimed_avail: "pop_at meta desc msk mem pc \<Longrightarrow> pop_claimed meta mem pc \<le> ring_avail meta mem"
  by (cases pc) auto

text \<open>The two chunks of the descriptors a pop claims.\<close>

lemma claimed_chunks:
  assumes ok: "ring_ok meta desc msk mem" and n: "n \<le> ring_avail meta mem"
  defines "N \<equiv> msk + 1" and "s \<equiv> unat (ring_cons meta mem) mod (msk + 1)"
  defines "n1 \<equiv> min n (N - s)"
  shows "peek (desc + 8 * s) (8 * n1) mem = Inr (subslice (desc + 8 * s) (8 * n1) mem)"
    "peek desc (8 * (n - n1)) mem = Inr (subslice desc (8 * (n - n1)) mem)"
    "length (subslice (desc + 8 * s) (8 * n1) mem) = 8 * n1"
    "u64s_of n1 (subslice (desc + 8 * s) (8 * n1) mem) = take n1 (ring_contents meta desc msk mem)"
    "u64s_of (n - n1) (subslice desc (8 * (n - n1)) mem) = drop n1 (take n (ring_contents meta desc msk mem))"
proof -
  let ?C = "ring_contents meta desc msk mem"
  note l = ring_ok_layout [OF ok]
  have sN: "s < N" by (simp add: s_def N_def)
  have nN: "n \<le> N" using l(3) n by (simp add: N_def)
  note cb = chunk_bounds [OF sN nN, folded n1_def]
  have in1: "desc + 8 * (s + n1) \<le> length mem" and in2: "desc + 8 * (0 + (n - n1)) \<le> length mem"
    using l(2) mult_le_mono2 [OF cb(1), of 8] mult_le_mono2 [OF le_trans [OF cb(2) less_imp_le [OF sN]], of 8] by (simp_all add: N_def)
  then show "peek (desc + 8 * s) (8 * n1) mem = Inr (subslice (desc + 8 * s) (8 * n1) mem)"
    "peek desc (8 * (n - n1)) mem = Inr (subslice desc (8 * (n - n1)) mem)"
    "length (subslice (desc + 8 * s) (8 * n1) mem) = 8 * n1"
    by (simp_all add: peek_def length_slice algebra_simps)
  have "take n ?C = map (slot_at desc mem) (map (\<lambda>i. (s + i) mod N) [0..<n])"
    using n by (simp add: ring_contents_def take_map take_upt_min mod_add_left_eq s_def N_def min_absorb2)
  also have "\<dots> = map (slot_at desc mem) [s..<s + n1] @ map (slot_at desc mem) [0..<0 + (n - n1)]"
    by (simp only: chunks_cover [OF sN nN, folded n1_def, symmetric] map_append add_0)
  finally have t: "take n ?C = map (slot_at desc mem) [s..<s + n1] @ map (slot_at desc mem) [0..<0 + (n - n1)]" .
  have "take n1 ?C = take n1 (take n ?C)" using cb(3) by (simp add: min_def)
  then have "take n1 ?C = map (slot_at desc mem) [s..<s + n1]" by (simp add: t)
  with slots_from [OF in1] show "u64s_of n1 (subslice (desc + 8 * s) (8 * n1) mem) = take n1 ?C" by simp
  show "u64s_of (n - n1) (subslice desc (8 * (n - n1)) mem) = drop n1 (take n ?C)"
    using slots_from [OF in2] by (simp add: t)
qed

lemma pop_access:
  assumes ok: "ring_ok meta desc msk mem" and at: "pop_at meta desc msk mem pc"
  obtains pc' mem' where "pop_micro meta desc msk pc mem = Inr (pc', mem')" "ring_ok meta desc msk mem'"
    "\<And>p. pop_waiting pc' = Some p \<Longrightarrow> pop_at meta desc msk mem' p"
    "queue_end (msk + 1) (pop_effect pc) (drop (pop_claimed meta mem pc) (ring_contents meta desc msk mem))
       = drop (claimed_of meta mem' (pop_waiting pc')) (ring_contents meta desc msk mem')"
    "pop_owed meta desc msk mem pc
        @ popped_of (queue_run (msk + 1) (pop_effect pc) (drop (pop_claimed meta mem pc) (ring_contents meta desc msk mem)))
       = pop_result pc' @ of_call (pop_owed meta desc msk mem') (pop_waiting pc')"
    "pushed_of (queue_run (msk + 1) (pop_effect pc) (drop (pop_claimed meta mem pc) (ring_contents meta desc msk mem))) = []"
proof (cases pc)
  let ?C = "ring_contents meta desc msk mem"
  {
    case (PopCall max_n)
    have "take (min (ring_avail meta mem) max_n) ?C = take max_n ?C" "drop (min (ring_avail meta mem) max_n) ?C = drop max_n ?C"
      by (simp_all add: min_def)
    then show thesis
      using that [of "PopLoaded max_n (ring_prod meta mem)" mem] ok ring_ok_layout [OF ok] PopCall
      by (simp add: ring_avail_def [symmetric])
  next
    case (PopLoaded max_n p)
    note l = ring_ok_layout [OF ok]
    show thesis
    proof (cases "unat (p - ring_cons meta mem) = 0")
      case True
      then show thesis using that [of "PopReturn []" mem] ok l(5) PopLoaded by simp
    next
      case False
      let ?n = "min (unat (p - ring_cons meta mem)) max_n"
      have "pop_micro meta desc msk pc mem = Inr (PopChunk1 (ring_cons meta mem) ?n, mem)"
        using False l(5) PopLoaded by (simp add: Let_def)
      then show thesis using that [of "PopChunk1 (ring_cons meta mem) ?n" mem] ok at PopLoaded by simp
    qed
  next
    case (PopChunk1 c n)
    define n1 where "n1 = min n (msk + 1 - unat c mod (msk + 1))"
    from at PopChunk1 have c: "c = ring_cons meta mem" "n \<le> ring_avail meta mem" by simp_all
    note k = claimed_chunks [OF ok c(2), folded c(1), folded n1_def]
    let ?b1 = "subslice (desc + 8 * (unat c mod (msk + 1))) (8 * n1) mem"
    have "pop_micro meta desc msk pc mem = Inr (PopChunk2 c n ?b1, mem)"
      using k(1) ring_ok_mask [OF ok, of c] unfolding PopChunk1 pop_micro.simps Let_def by (simp add: n1_def mult.commute)
    moreover have "pop_at meta desc msk mem (PopChunk2 c n ?b1)"
      unfolding pop_at.simps n1_def [symmetric] using c k(3,4) by simp
    ultimately show thesis using that [of "PopChunk2 c n ?b1" mem] ok PopChunk1 by (simp del: pop_at.simps)
  next
    case (PopChunk2 c n b1)
    define n1 where "n1 = min n (msk + 1 - unat c mod (msk + 1))"
    from at have c: "c = ring_cons meta mem" "n \<le> ring_avail meta mem" "length b1 = 8 * n1" "u64s_of n1 b1 = take n1 ?C"
      unfolding PopChunk2 pop_at.simps n1_def [symmetric] by simp_all
    note k = claimed_chunks [OF ok c(2), folded c(1), folded n1_def]
    let ?b2 = "subslice desc (8 * (n - n1)) mem"
    have "n1 \<le> n" by (simp add: n1_def)
    then have "u64s_of n (b1 @ ?b2) = take n1 ?C @ drop n1 (take n ?C)"
      using u64s_of_append [OF c(3), of "n - n1" ?b2] c(4) k(5) by simp
    also have "take n1 ?C = take n1 (take n ?C)" using \<open>n1 \<le> n\<close> by (simp add: min_def)
    finally have u: "u64s_of n (b1 @ ?b2) = take n ?C" by (simp only: append_take_drop_id)
    have "(if 0 < n - n1 then peek desc ((n - n1) * 8) mem else Inr []) = Inr ?b2"
      using k(2) by (simp add: mult.commute subslice_def)
    then have "pop_micro meta desc msk pc mem = Inr (PopStore c n (b1 @ ?b2), mem)"
      unfolding PopChunk2 pop_micro.simps Let_def ring_ok_mask [OF ok] n1_def [symmetric] by simp
    moreover have "pop_at meta desc msk mem (PopStore c n (b1 @ ?b2))" using c u by simp
    ultimately show thesis using that [of "PopStore c n (b1 @ ?b2)" mem] ok PopChunk2 by (simp del: pop_at.simps)
  next
    case (PopStore c n bs)
    then have c: "c = ring_cons meta mem" "n \<le> ring_avail meta mem" "u64s_of n bs = take n ?C" using at by simp_all
    note r = store_cons_ring [OF ok c(2)]
    have "pop_micro meta desc msk pc mem = Inr (PopReturn (take n ?C), store_cons meta n mem)"
      using ring_ok_layout [OF ok] by (simp add: PopStore c(1,3) store_cons_def)
    then show thesis using that [of "PopReturn (take n ?C)" "store_cons meta n mem"] r(1,2) PopStore by simp
  next
    case (PopReturn xs)
    then show thesis using at by simp
  }
qed

lemma pop_claimed_cong: "ring_cons meta mem' = ring_cons meta mem \<Longrightarrow> pop_claimed meta mem' pc = pop_claimed meta mem pc"
  by (cases pc) simp_all

lemma pop_owed_cong:
  "ring_cons meta mem' = ring_cons meta mem \<Longrightarrow> pop_at meta desc msk mem pc \<Longrightarrow>
   ring_contents meta desc msk mem' = ring_contents meta desc msk mem @ ys \<Longrightarrow>
   pop_owed meta desc msk mem' pc = pop_owed meta desc msk mem pc"
  using pop_claimed_avail [of meta desc msk mem pc] by (cases pc) simp_all

lemma pop_at_cong:
  assumes "ring_cons meta mem' = ring_cons meta mem" "ring_avail meta mem \<le> ring_avail meta mem'"
    "ring_contents meta desc msk mem' = ring_contents meta desc msk mem @ ys" "pop_at meta desc msk mem pc"
  shows "pop_at meta desc msk mem' pc"
  using assms(4)
proof (cases pc)
  case (PopChunk2 c n b1)
  have "min n t \<le> ring_avail meta mem" if "n \<le> ring_avail meta mem" for t using that by simp
  with assms PopChunk2 show ?thesis by auto
qed (use assms in auto)

lemma pop_inv_step: "pop_inv meta desc msk q s \<Longrightarrow> pop_step meta desc msk s s' \<Longrightarrow> pop_inv meta desc msk q s'"
proof -
  assume inv: "pop_inv meta desc msk q s" and step: "pop_step meta desc msk s s'"
  let ?m = "pr_mem s" let ?C = "ring_contents meta desc msk ?m"
  have ok: "ring_ok meta desc msk ?m"
    and qe: "queue_end (msk + 1) (pr_ops s) q = drop (claimed_of meta ?m (pr_pc s)) ?C"
    and ret: "popped_of (queue_run (msk + 1) (pr_ops s) q) = pr_returned s @ of_call (pop_owed meta desc msk ?m) (pr_pc s)"
    and giv: "pushed_of (queue_run (msk + 1) (pr_ops s) q) = map length (pr_given s)"
    and at: "\<And>pc. pr_pc s = Some pc \<Longrightarrow> pop_at meta desc msk ?m pc" using inv by (simp_all add: pop_inv_def)
  have claimed: "claimed_of meta ?m (pr_pc s) \<le> ring_avail meta ?m"
    using at pop_claimed_avail by (auto split: option.split)
  from step show ?thesis
  proof cases
    case (call max_n)
    then show ?thesis using inv by (simp add: pop_inv_def)
  next
    case (access pc pc' mem')
    from pop_access [OF ok at [OF access(2)]] obtain pc1 mem1 where a:
      "pop_micro meta desc msk pc ?m = Inr (pc1, mem1)" "ring_ok meta desc msk mem1"
      "\<And>p. pop_waiting pc1 = Some p \<Longrightarrow> pop_at meta desc msk mem1 p"
      "queue_end (msk + 1) (pop_effect pc) (drop (pop_claimed meta ?m pc) ?C)
         = drop (claimed_of meta mem1 (pop_waiting pc1)) (ring_contents meta desc msk mem1)"
      "pop_owed meta desc msk ?m pc @ popped_of (queue_run (msk + 1) (pop_effect pc) (drop (pop_claimed meta ?m pc) ?C))
         = pop_result pc1 @ of_call (pop_owed meta desc msk mem1) (pop_waiting pc1)"
      "pushed_of (queue_run (msk + 1) (pop_effect pc) (drop (pop_claimed meta ?m pc) ?C)) = []" by blast
    have e: "pc1 = pc'" "mem1 = mem'" using a(1) access(3) by simp_all
    have q: "queue_end (msk + 1) (pr_ops s) q = drop (pop_claimed meta ?m pc) ?C" using qe access(2) by simp
    have r: "popped_of (queue_run (msk + 1) (pr_ops s) q) = pr_returned s @ pop_owed meta desc msk ?m pc" using ret access(2) by simp
    show ?thesis
      using a(2-6) giv unfolding pop_inv_def access(1) e
      by (simp add: queue_end_append queue_run_append q [simplified] r [simplified] cong: option.case_cong)
  next
    case (kernel_writes mem')
    note c = live_kept_ring [OF ok kernel_writes(2)]
    have cons: "ring_cons meta mem' = ring_cons meta ?m" using kernel_writes(2) by (simp add: live_kept_def)
    have "of_call (pop_owed meta desc msk mem') (pr_pc s) = of_call (pop_owed meta desc msk ?m) (pr_pc s)"
      using pop_owed_cong [OF cons at, of _ "[]"] c(2) by (simp split: option.split)
    then show ?thesis
      unfolding pop_inv_def kernel_writes(1)
      using c qe ret giv pop_at_cong [OF cons, of desc msk "[]"] at pop_claimed_cong [OF cons] by (simp cong: option.case_cong)
  next
    case (kernel_gives k)
    let ?ys = "free_slots meta desc msk k ?m" and ?m' = "store_prod meta k ?m"
    note c = store_prod_ring [OF ok kernel_gives(2)]
    have cons: "ring_cons meta ?m' = ring_cons meta ?m" by (fact c(5))
    have len: "length ?ys = k" by (simp add: free_slots_def)
    have "of_call (pop_owed meta desc msk ?m') (pr_pc s) = of_call (pop_owed meta desc msk ?m) (pr_pc s)"
      using pop_owed_cong [OF cons at c(2)] by (simp split: option.split)
    moreover have "claimed_of meta ?m' (pr_pc s) = claimed_of meta ?m (pr_pc s)"
      using pop_claimed_cong [OF cons] by (simp split: option.split)
    moreover have "pop_at meta desc msk ?m' pc" if "pr_pc s = Some pc" for pc
      using pop_at_cong [OF cons _ c(2) at [OF that]] c(3) by simp
    moreover have room: "k \<le> msk + 1 - length (queue_end (msk + 1) (pr_ops s) q)"
      using kernel_gives(2) by (simp add: qe [simplified])
    then have "queue_end (msk + 1) (pr_ops s @ [Push ?ys]) q = drop (claimed_of meta ?m (pr_pc s)) ?C @ ?ys"
      using len by (simp add: queue_end_append qe [simplified])
    moreover have "queue_run (msk + 1) (pr_ops s @ [Push ?ys]) q = queue_run (msk + 1) (pr_ops s) q @ [Pushed k]"
      using room len by (simp add: queue_run_append Let_def min_absorb2)
    ultimately show ?thesis
      unfolding pop_inv_def kernel_gives(1) using c(1,2) ret giv claimed len by (simp cong: option.case_cong)
  qed
qed

lemma pop_inv_reaches:
  assumes "ring_ok meta desc msk mem" "pop_reaches meta desc msk mem s"
  shows "pop_inv meta desc msk (ring_contents meta desc msk mem) s"
  using assms(2) unfolding pop_reaches_def
proof (induction rule: rtranclp_induct)
  case base
  then show ?case using assms(1) by (simp add: pop_inv_def pop_race_start_def)
next
  case (step s s')
  then show ?case using pop_inv_step by blast
qed

subsection \<open>Schedules\<close>

text \<open>A run of a race given by who moves: the caller begins a push, the call makes its next
  access, or the kernel takes up to \<open>k\<close> descriptors. \<open>None\<close> is a move that is not possible.\<close>

datatype race_move = Begin "u64 list" | Access | Kernel nat

fun push_play :: "nat \<Rightarrow> nat \<Rightarrow> nat \<Rightarrow> race_move list \<Rightarrow> push_race \<Rightarrow> push_race option" where
  "push_play meta desc msk [] s = Some s"
| "push_play meta desc msk (Begin addrs # ms) s =
     (if race_pc s = None then push_play meta desc msk ms (s\<lparr>race_pc := Some (PushCall addrs)\<rparr>) else None)"
| "push_play meta desc msk (Access # ms) s =
     (case race_pc s of None \<Rightarrow> None
      | Some pc \<Rightarrow> (case push_micro meta desc msk pc (race_mem s) of Inl e \<Rightarrow> None
        | Inr (pc', mem') \<Rightarrow> push_play meta desc msk ms (s\<lparr>race_mem := mem', race_pc := push_waiting pc',
            race_ops := race_ops s @ push_effect pc, race_returned := race_returned s @ push_result pc'\<rparr>)))"
| "push_play meta desc msk (Kernel k # ms) s =
     (if k \<le> ring_avail meta (race_mem s) then
        push_play meta desc msk ms (s\<lparr>race_mem := store_cons meta k (race_mem s), race_ops := race_ops s @ [Pop k],
          race_taken := race_taken s @ [take k (ring_contents meta desc msk (race_mem s))]\<rparr>)
      else None)"

lemma push_play_steps: "push_play meta desc msk ms s = Some s' \<Longrightarrow> (push_step meta desc msk)\<^sup>*\<^sup>* s s'"
proof (induction meta desc msk ms s rule: push_play.induct)
  case (2 meta desc msk addrs ms s)
  then have "race_pc s = None" "(push_step meta desc msk)\<^sup>*\<^sup>* (s\<lparr>race_pc := Some (PushCall addrs)\<rparr>) s'"
    by (auto split: if_splits)
  then show ?case by (blast intro: converse_rtranclp_into_rtranclp push_step.call)
next
  case (3 meta desc msk ms s)
  from "3.prems" obtain pc pc' mem' where pc: "race_pc s = Some pc" "push_micro meta desc msk pc (race_mem s) = Inr (pc', mem')"
    by (auto split: option.splits sum.splits)
  with "3.prems" "3.IH" [OF pc(1) pc(2) refl] have "(push_step meta desc msk)\<^sup>*\<^sup>* (s\<lparr>race_mem := mem', race_pc := push_waiting pc',
      race_ops := race_ops s @ push_effect pc, race_returned := race_returned s @ push_result pc'\<rparr>) s'" by simp
  with push_step.access [OF pc] show ?case by (rule converse_rtranclp_into_rtranclp)
next
  case (4 meta desc msk k ms s)
  then have "k \<le> ring_avail meta (race_mem s)" and "(push_step meta desc msk)\<^sup>*\<^sup>* (s\<lparr>race_mem := store_cons meta k (race_mem s),
      race_ops := race_ops s @ [Pop k], race_taken := race_taken s @ [take k (ring_contents meta desc msk (race_mem s))]\<rparr>) s'"
    by (auto split: if_splits)
  then show ?case by (blast intro: converse_rtranclp_into_rtranclp push_step.kernel_takes)
qed simp

text \<open>The same for a pop; here the kernel gives the next \<open>k\<close> free slots as they are.\<close>

datatype pop_move = BeginPop nat | AccessPop | KernelGives nat

fun pop_play :: "nat \<Rightarrow> nat \<Rightarrow> nat \<Rightarrow> pop_move list \<Rightarrow> pop_race \<Rightarrow> pop_race option" where
  "pop_play meta desc msk [] s = Some s"
| "pop_play meta desc msk (BeginPop n # ms) s =
     (if pr_pc s = None then pop_play meta desc msk ms (s\<lparr>pr_pc := Some (PopCall n)\<rparr>) else None)"
| "pop_play meta desc msk (AccessPop # ms) s =
     (case pr_pc s of None \<Rightarrow> None
      | Some pc \<Rightarrow> (case pop_micro meta desc msk pc (pr_mem s) of Inl e \<Rightarrow> None
        | Inr (pc', mem') \<Rightarrow> pop_play meta desc msk ms (s\<lparr>pr_mem := mem', pr_pc := pop_waiting pc',
            pr_ops := pr_ops s @ pop_effect pc, pr_returned := pr_returned s @ pop_result pc'\<rparr>)))"
| "pop_play meta desc msk (KernelGives k # ms) s =
     (if k + ring_avail meta (pr_mem s) \<le> msk + 1 then
        pop_play meta desc msk ms (s\<lparr>pr_mem := store_prod meta k (pr_mem s),
          pr_ops := pr_ops s @ [Push (free_slots meta desc msk k (pr_mem s))],
          pr_given := pr_given s @ [free_slots meta desc msk k (pr_mem s)]\<rparr>)
      else None)"

lemma pop_play_steps: "pop_play meta desc msk ms s = Some s' \<Longrightarrow> (pop_step meta desc msk)\<^sup>*\<^sup>* s s'"
proof (induction meta desc msk ms s rule: pop_play.induct)
  case (2 meta desc msk n ms s)
  then have "pr_pc s = None" "(pop_step meta desc msk)\<^sup>*\<^sup>* (s\<lparr>pr_pc := Some (PopCall n)\<rparr>) s'"
    by (auto split: if_splits)
  then show ?case by (blast intro: converse_rtranclp_into_rtranclp pop_step.call)
next
  case (3 meta desc msk ms s)
  from "3.prems" obtain pc pc' mem' where pc: "pr_pc s = Some pc" "pop_micro meta desc msk pc (pr_mem s) = Inr (pc', mem')"
    by (auto split: option.splits sum.splits)
  with "3.prems" "3.IH" [OF pc(1) pc(2) refl] have "(pop_step meta desc msk)\<^sup>*\<^sup>* (s\<lparr>pr_mem := mem', pr_pc := pop_waiting pc',
      pr_ops := pr_ops s @ pop_effect pc, pr_returned := pr_returned s @ pop_result pc'\<rparr>) s'" by simp
  with pop_step.access [OF pc] show ?case by (rule converse_rtranclp_into_rtranclp)
next
  case (4 meta desc msk k ms s)
  then have "k + ring_avail meta (pr_mem s) \<le> msk + 1" and "(pop_step meta desc msk)\<^sup>*\<^sup>* (s\<lparr>pr_mem := store_prod meta k (pr_mem s),
      pr_ops := pr_ops s @ [Push (free_slots meta desc msk k (pr_mem s))], pr_given := pr_given s @ [free_slots meta desc msk k (pr_mem s)]\<rparr>) s'"
    by (auto split: if_splits)
  then show ?case by (blast intro: converse_rtranclp_into_rtranclp pop_step.kernel_gives)
qed simp

text \<open>How many accesses a call has left at most.\<close>

fun push_left :: "push_pc \<Rightarrow> nat" where
  "push_left (PushCall addrs) = 5"
| "push_left (PushLoaded addrs p) = 4"
| "push_left (PushCopy1 addrs p n) = 3"
| "push_left (PushCopy2 addrs p n) = 2"
| "push_left (PushStore addrs p n) = 1"
| "push_left (PushReturn n) = 0"

fun pop_left :: "pop_pc \<Rightarrow> nat" where
  "pop_left (PopCall max_n) = 5"
| "pop_left (PopLoaded max_n p) = 4"
| "pop_left (PopChunk1 c n) = 3"
| "pop_left (PopChunk2 c n b1) = 2"
| "pop_left (PopStore c n bs) = 1"
| "pop_left (PopReturn xs) = 0"

lemma push_micro_left: "push_micro meta desc msk pc mem = Inr (pc', mem') \<Longrightarrow> push_left pc \<noteq> 0 \<Longrightarrow> push_left pc' < push_left pc"
  by (cases pc) (auto simp: bindr_def Let_def split: sum.splits if_splits)

lemma pop_micro_left: "pop_micro meta desc msk pc mem = Inr (pc', mem') \<Longrightarrow> pop_left pc \<noteq> 0 \<Longrightarrow> pop_left pc' < pop_left pc"
  by (cases pc) (auto simp: bindr_def Let_def split: sum.splits if_splits)

subsection \<open>Properties\<close>

text \<open>C20. A push that races with the kernel is still a push. Whatever the kernel takes between the
  memory accesses of \<open>fill_push\<close> or \<open>tx_push\<close>, and however often, the kernel gets exactly
  what it would get from a bounded queue that ran the pushes and takes one at a time, and
  the calls return what that queue returns: no descriptor is lost, repeated, torn or seen
  before it is written, also when the counters wrap around. Between calls the ring holds the
  queue.\<close>

theorem push_race_linearizable:
  assumes "ring_ok meta desc msk mem" and "push_reaches meta desc msk mem s"
  defines "rs \<equiv> queue_run (msk + 1) (race_ops s) (ring_contents meta desc msk mem)"
  shows "race_taken s = popped_of rs \<and> prefix (race_returned s) (pushed_of rs)
    \<and> length (pushed_of rs) \<le> length (race_returned s) + 1
    \<and> (race_pc s = None \<longrightarrow> race_returned s = pushed_of rs
        \<and> ring_contents meta desc msk (race_mem s) = queue_end (msk + 1) (race_ops s) (ring_contents meta desc msk mem))"
proof -
  have owed: "length (push_owed pc) \<le> 1" for pc by (cases pc) simp_all
  from push_inv_reaches [OF assms(1,2)] show ?thesis
    unfolding push_inv_def rs_def using owed by (auto split: option.split)
qed

definition racing_moves :: "race_move list" where
  "racing_moves = [Begin [7, 8, 9], Access, Access, Access, Access, Access, Begin [5], Access, Kernel 1, Access, Access,
     Kernel 1, Access, Access, Kernel 1]"

definition empty_ring :: bytes where
  "empty_ring = replicate 32 0"

lemma empty_ring_ok: "ring_ok 0 16 1 empty_ring" and empty_ring_contents: "ring_contents 0 16 1 empty_ring = []"
proof -
  have "ring_prod 0 empty_ring = ring_cons 0 empty_ring"
    by (simp add: empty_ring_def ring_prod_def ring_cons_def subslice_def)
  then have "ring_avail 0 empty_ring = 0" by (simp add: ring_avail_def)
  then show "ring_ok 0 16 1 empty_ring" "ring_contents 0 16 1 empty_ring = []"
    by (simp_all add: ring_ok_def ring_contents_def empty_ring_def is_power_of_two.simps)
qed

lemma racing_play:
  "map_option (\<lambda>s. (race_taken s, race_returned s, race_pc s, race_ops s)) (push_play 0 16 1 racing_moves (push_race_start empty_ring))
    = Some ([[7], [8], [5]], [2, 1], None, [Push [7, 8, 9], Pop 1, Push [5], Pop 1, Pop 1])"
  by code_simp

theorem push_race_linearizable_witness:
  "\<exists>s. push_reaches 0 16 1 empty_ring s \<and> race_taken s = [[7], [8], [5]] \<and> race_returned s = [2, 1]
     \<and> queue_run 2 (race_ops s) [] = [Pushed 2, Popped [7], Pushed 1, Popped [8], Popped [5]]
     \<and> ring_contents 0 16 1 (race_mem s) = []"
proof -
  from racing_play obtain s where s: "push_play 0 16 1 racing_moves (push_race_start empty_ring) = Some s"
    "race_taken s = [[7], [8], [5]]" "race_returned s = [2, 1]" "race_pc s = None"
    "race_ops s = [Push [7, 8, 9], Pop 1, Push [5], Pop 1, Pop 1]" by auto
  from push_play_steps [OF s(1)] have r: "push_reaches 0 16 1 empty_ring s" by (simp add: push_reaches_def)
  have run: "queue_run 2 (race_ops s) [] = [Pushed 2, Popped [7], Pushed 1, Popped [8], Popped [5]]"
    "queue_end 2 (race_ops s) [] = []" unfolding s(5) by (simp_all add: Let_def)
  have two: "(1 :: nat) + 1 = 2" by simp
  from push_race_linearizable [OF empty_ring_ok r, unfolded two empty_ring_contents run] s(4)
  have "ring_contents 0 16 1 (race_mem s) = []" by blast
  with r s(2,3) run(1) show ?thesis by blast
qed

text \<open>C21. A pop that races with the kernel is still a pop. The kernel may write free slots and
  publish descriptors between the memory accesses of \<open>rx_pop\<close> or \<open>comp_pop\<close>; the calls return
  what a bounded queue would that ran the kernel's pushes and the pops one at a time, and
  that queue always has room for what the kernel gives: the oldest descriptors, in order,
  each once, also when the counters wrap around. Between calls the ring holds the queue.\<close>

theorem pop_race_linearizable:
  assumes "ring_ok meta desc msk mem" and "pop_reaches meta desc msk mem s"
  defines "rs \<equiv> queue_run (msk + 1) (pr_ops s) (ring_contents meta desc msk mem)"
  shows "prefix (pr_returned s) (popped_of rs) \<and> length (popped_of rs) \<le> length (pr_returned s) + 1
    \<and> pushed_of rs = map length (pr_given s)
    \<and> (pr_pc s = None \<longrightarrow> pr_returned s = popped_of rs
        \<and> ring_contents meta desc msk (pr_mem s) = queue_end (msk + 1) (pr_ops s) (ring_contents meta desc msk mem))"
proof -
  have owed: "length (pop_owed meta desc msk (pr_mem s) pc) \<le> 1" for pc by (cases pc) simp_all
  from pop_inv_reaches [OF assms(1,2)] show ?thesis
    unfolding pop_inv_def rs_def using owed by (auto split: option.split)
qed

definition received_frames :: bytes where
  "received_frames = replicate 16 0 @ [100] @ replicate 7 0 @ [200] @ replicate 7 0"

definition receiving_moves :: "pop_move list" where
  "receiving_moves = [KernelGives 1, BeginPop 4, AccessPop, KernelGives 1, AccessPop, AccessPop, AccessPop, AccessPop, KernelGives 1,
     BeginPop 1, AccessPop, AccessPop, AccessPop, AccessPop, AccessPop]"

lemma received_frames_ok: "ring_ok 0 16 1 received_frames" and received_frames_contents: "ring_contents 0 16 1 received_frames = []"
proof -
  have "ring_prod 0 received_frames = ring_cons 0 received_frames"
    by (simp add: received_frames_def ring_prod_def ring_cons_def subslice_def)
  then have "ring_avail 0 received_frames = 0" by (simp add: ring_avail_def)
  then show "ring_ok 0 16 1 received_frames" "ring_contents 0 16 1 received_frames = []"
    by (simp_all add: ring_ok_def ring_contents_def received_frames_def is_power_of_two.simps)
qed

lemma receiving_play:
  "map_option (\<lambda>s. (pr_returned s, pr_given s, pr_pc s, pr_ops s)) (pop_play 0 16 1 receiving_moves (pop_race_start received_frames))
    = Some ([[100], [200]], [[100], [200], [100]], None, [Push [100], Pop 4, Push [200], Push [100], Pop 1])"
  by code_simp

theorem pop_race_linearizable_witness:
  "\<exists>s. pop_reaches 0 16 1 received_frames s \<and> pr_returned s = [[100], [200]] \<and> ring_contents 0 16 1 (pr_mem s) = [100]
     \<and> queue_run 2 (pr_ops s) [] = [Pushed 1, Popped [100], Pushed 1, Pushed 1, Popped [200]]"
proof -
  from receiving_play obtain s where s: "pop_play 0 16 1 receiving_moves (pop_race_start received_frames) = Some s"
    "pr_returned s = [[100], [200]]" "pr_pc s = None" "pr_ops s = [Push [100], Pop 4, Push [200], Push [100], Pop 1]" by auto
  from pop_play_steps [OF s(1)] have r: "pop_reaches 0 16 1 received_frames s" by (simp add: pop_reaches_def)
  have run: "queue_run 2 (pr_ops s) [] = [Pushed 1, Popped [100], Pushed 1, Pushed 1, Popped [200]]"
    "queue_end 2 (pr_ops s) [] = [100]" unfolding s(4) by (simp_all add: Let_def)
  have two: "(1 :: nat) + 1 = 2" by simp
  from pop_race_linearizable [OF received_frames_ok r, unfolded two received_frames_contents run] s(3)
  have "ring_contents 0 16 1 (pr_mem s) = [100]" by blast
  with r s(2) run(1) show ?thesis by blast
qed

text \<open>C22. The ring calls are wait-free. In the middle of a push or a pop, whatever the kernel has
  done so far, the next access is inside the region and possible, and it brings the call
  nearer to its end: a call returns after at most five accesses, never faults and never waits
  for the kernel.\<close>

theorem ring_calls_wait_free:
  assumes "ring_ok meta desc msk mem"
  shows "(\<forall>s pc. push_reaches meta desc msk mem s \<and> race_pc s = Some pc \<longrightarrow>
      (\<exists>pc' mem'. push_micro meta desc msk pc (race_mem s) = Inr (pc', mem') \<and> push_left pc' < push_left pc \<and> push_left pc \<le> 5))
    \<and> (\<forall>s pc. pop_reaches meta desc msk mem s \<and> pr_pc s = Some pc \<longrightarrow>
      (\<exists>pc' mem'. pop_micro meta desc msk pc (pr_mem s) = Inr (pc', mem') \<and> pop_left pc' < pop_left pc \<and> pop_left pc \<le> 5))"
proof (intro conjI allI impI)
  fix s pc assume a: "push_reaches meta desc msk mem s \<and> race_pc s = Some pc"
  with push_inv_reaches [OF assms] have i: "ring_ok meta desc msk (race_mem s)" "push_at meta desc msk (race_mem s) pc"
    by (auto simp: push_inv_def)
  obtain pc' mem' where m: "push_micro meta desc msk pc (race_mem s) = Inr (pc', mem')"
    using push_access [OF i] by metis
  moreover have "push_left pc \<noteq> 0" "push_left pc \<le> 5" using i(2) by (cases pc; simp)+
  ultimately show "\<exists>pc' mem'. push_micro meta desc msk pc (race_mem s) = Inr (pc', mem') \<and> push_left pc' < push_left pc \<and> push_left pc \<le> 5"
    using push_micro_left by blast
next
  fix s pc assume a: "pop_reaches meta desc msk mem s \<and> pr_pc s = Some pc"
  with pop_inv_reaches [OF assms] have i: "ring_ok meta desc msk (pr_mem s)" "pop_at meta desc msk (pr_mem s) pc"
    by (auto simp: pop_inv_def)
  obtain pc' mem' where m: "pop_micro meta desc msk pc (pr_mem s) = Inr (pc', mem')"
    using pop_access [OF i] by metis
  moreover have "pop_left pc \<noteq> 0" "pop_left pc \<le> 5" using i(2) by (cases pc; simp)+
  ultimately show "\<exists>pc' mem'. pop_micro meta desc msk pc (pr_mem s) = Inr (pc', mem') \<and> pop_left pc' < pop_left pc \<and> pop_left pc \<le> 5"
    using pop_micro_left by blast
qed

theorem ring_calls_wait_free_witness:
  "\<exists>s mem'. push_reaches 0 16 1 empty_ring s \<and> race_pc s = Some (PushCopy1 [7] 0 1)
     \<and> push_micro 0 16 1 (PushCopy1 [7] 0 1) (race_mem s) = Inr (PushCopy2 [7] 0 1, mem')"
proof -
  have "map_option (\<lambda>s. race_pc s) (push_play 0 16 1 [Begin [7], Access, Kernel 0, Access] (push_race_start empty_ring)) = Some (Some (PushCopy1 [7] 0 1))"
    by code_simp
  then obtain s where s: "push_play 0 16 1 [Begin [7], Access, Kernel 0, Access] (push_race_start empty_ring) = Some s"
    "race_pc s = Some (PushCopy1 [7] 0 1)" by auto
  from push_play_steps [OF s(1)] have r: "push_reaches 0 16 1 empty_ring s" by (simp add: push_reaches_def)
  from ring_calls_wait_free [OF empty_ring_ok] r s(2) obtain pc' mem' where
    m: "push_micro 0 16 1 (PushCopy1 [7] 0 1) (race_mem s) = Inr (pc', mem')" by blast
  then have "pc' = PushCopy2 [7] 0 1" by (auto simp: bindr_def Let_def split: sum.splits)
  with r s(2) m show ?thesis by blast
qed

text \<open>The order of the stores matters, and only program order gives it: the descriptors and
  the counter are plain stores, without a release, so a processor with weaker ordering may
  make the counter visible first. In that moment the kernel finds as many descriptors as were
  pushed, and they are what the free slots held before.\<close>

theorem counter_first_exposes_stale_slots:
  assumes "ring_ok meta desc msk mem" and "n + ring_avail meta mem \<le> msk + 1"
  shows "push_micro meta desc msk (PushStore addrs (ring_prod meta mem) n) mem = Inr (PushReturn n, store_prod meta n mem)
    \<and> ring_contents meta desc msk (store_prod meta n mem) = ring_contents meta desc msk mem @ free_slots meta desc msk n mem"
  using store_prod_ring(2) [OF assms] ring_ok_layout [OF assms(1)] by (simp add: store_prod_def)

theorem counter_first_exposes_stale_slots_witness:
  "\<exists>m. push_micro 0 16 1 (PushStore [7] 0 1) received_frames = Inr (PushReturn 1, m) \<and> ring_contents 0 16 1 m = [100]"
proof -
  have p: "ring_prod 0 received_frames = 0" "ring_avail 0 received_frames = 0" by code_simp+
  have f: "free_slots 0 16 1 1 received_frames = [100]" by code_simp
  have h: "1 + ring_avail 0 received_frames \<le> 1 + 1" by (simp add: p(2))
  from counter_first_exposes_stale_slots [OF received_frames_ok h, of "[7]", unfolded p(1) f received_frames_contents append_Nil]
  show ?thesis by blast
qed

end
