(* ===== verification/Send_Waits.thy ===== *)
theory Send_Waits
  imports Xdp_Socket
begin

text \<open>
  Sending against a full ring (\<open>send\<close> of \<open>RealSocket\<close>, \<open>afxdp/src/socket.rs\<close>): what the bounded retry
  is good for. An attempt on a full TX ring with nothing to reclaim changes no ring and gives
  its frames back, so a send gets through as soon as the kernel has made room in one of its
  eight waits, and gives up after the ninth attempt otherwise.
\<close>

text \<open>The shared region after \<open>j\<close> waits of a send that has \<open>k\<close> retries left.\<close>

fun after_waits :: "(nat \<Rightarrow> bytes \<Rightarrow> bytes) \<Rightarrow> nat \<Rightarrow> nat \<Rightarrow> bytes \<Rightarrow> bytes" where
  "after_waits kern k 0 mem = mem"
| "after_waits kern k (Suc j) mem = after_waits kern (k - 1) j (kern (k - 1) mem)"

definition tx_stuck :: "ring_mmap \<Rightarrow> bytes \<Rightarrow> bool" where
  "tx_stuck r mem \<longleftrightarrow> comp_ok r mem \<and> tx_ok r mem \<and> comp_contents r mem = []
     \<and> length (tx_contents r mem) = tx_capacity r"

text \<open>Room for \<open>n\<close> packets, and completions of frames that are not in \<open>A\<close>.\<close>

definition tx_ready :: "ring_mmap \<Rightarrow> umem \<Rightarrow> u64 set \<Rightarrow> nat \<Rightarrow> bytes \<Rightarrow> bool" where
  "tx_ready r u A n mem \<longleftrightarrow> comp_ok r mem \<and> tx_ok r mem \<and> length (tx_contents r mem) + n \<le> tx_capacity r
     \<and> (let C = take 64 (comp_contents r mem) in distinct C \<and> set C \<inter> A = {} \<and> frames_ok u (set C))"

text \<open>The socket between attempts: \<open>F\<close> is what its free list holds.\<close>

definition between_attempts :: "bytes \<Rightarrow> (nat \<times> nat) list \<Rightarrow> u64 list \<Rightarrow> xdp_socket \<Rightarrow> bool" where
  "between_attempts buf offs F s \<longleftrightarrow> fl_ok (x_free s) \<and> fl_contents (x_free s) = F \<and> distinct F
     \<and> frames_ok (x_umem s) (set F) \<and> length F \<le> fl_limit (x_free s) \<and> length offs \<le> length F
     \<and> list_all (\<lambda>p. fst p + snd p \<le> length buf) offs"

lemma frames_ok_cong:
  "u_frame u = u_frame u' \<Longrightarrow> length (u_mem u) = length (u_mem u') \<Longrightarrow> frames_ok u A = frames_ok u' A"
  by (simp add: frames_ok_def)

lemma stuck_pop: "tx_stuck r mem \<Longrightarrow> comp_pop r n mem = Inr ([], mem)"
proof -
  assume st: "tx_stuck r mem"
  then have ok: "comp_ok r mem" and e: "comp_contents r mem = []" by (simp_all add: tx_stuck_def)
  from ring_pop_exact [OF ok, of n] obtain m where "comp_pop r n mem = Inr ([], m)" by (simp add: comp_pop_def e)
  moreover from e have "ring_avail (unat (o_comp (map_offsets r))) mem = 0" by (simp add: ring_contents_def)
  ultimately show ?thesis
    by (auto simp: comp_pop_def ring_pop_def bindr_def Let_def ring_avail_def ring_prod_def ring_cons_def peek32_def peek_def
        split: sum.splits if_splits)
qed

lemma stuck_push: "tx_stuck r mem \<Longrightarrow> tx_push r xs mem = Inr (0, mem)"
proof -
  assume st: "tx_stuck r mem"
  then have ok: "tx_ok r mem" and f: "length (tx_contents r mem) = tx_mask r + 1"
    by (simp_all add: tx_stuck_def tx_capacity_def)
  from ring_push_exact [OF ok, of xs] f obtain m where "tx_push r xs mem = Inr (0, m)"
    by (simp add: tx_push_def ring_contents_def)
  moreover from f have "ring_avail (unat (o_tx (map_offsets r))) mem = tx_mask r + 1" by (simp add: ring_contents_def)
  ultimately show ?thesis
    by (auto simp: tx_push_def ring_push_def bindr_def Let_def ring_avail_def ring_prod_def ring_cons_def peek32_def peek_def
        split: sum.splits if_splits)
qed

lemma stuck_attempt:
  assumes "between_attempts buf offs F s" "tx_stuck r mem" "offs \<noteq> []"
  shows "\<exists>s'. send_attempt r buf offs s mem = Inr (False, s', mem)
    \<and> between_attempts buf offs (drop (length offs) F @ take (length offs) F) s' \<and> x_retries s' = x_retries s
    \<and> u_frame (x_umem s') = u_frame (x_umem s) \<and> length (u_mem (x_umem s')) = length (u_mem (x_umem s))"
proof -
  let ?n = "length offs"
  from assms(1) have b: "fl_ok (x_free s)" "fl_contents (x_free s) = F" "distinct F" "frames_ok (x_umem s) (set F)"
    "length F \<le> fl_limit (x_free s)" "?n \<le> length F" "list_all (\<lambda>p. fst p + snd p \<le> length buf) offs"
    by (simp_all add: between_attempts_def)
  have "?n \<le> fl_used (x_free s)" using fl_length [of "x_free s"] b(2,6) by simp
  with stage_all [of s offs buf "[]"] b obtain s1 where s1:
    "loop_r (stage_packet buf) ([], s) offs = Inr (take ?n F, s1)" "fl_contents (x_free s1) = drop ?n F" "fl_ok (x_free s1)"
    "fl_limit (x_free s1) = fl_limit (x_free s)" "x_retries s1 = x_retries s"
    "u_frame (x_umem s1) = u_frame (x_umem s)" "length (u_mem (x_umem s1)) = length (u_mem (x_umem s))"
    by (auto simp: list_all_iff)
  have used: "fl_used (x_free s1) = length F - ?n" using fl_length [of "x_free s1"] by (simp add: s1(2))
  from push_all_ok [OF s1(3), of "take ?n F"] obtain fl where
    fl: "push_all (take ?n F) (x_free s1) = (?n, fl)" "fl_ok fl" "fl_contents fl = drop ?n F @ take ?n F"
      "fl_limit fl = fl_limit (x_free s)"
    using b(5,6) by (auto simp: used s1(2,4))
  define s' where "s' = give_back (take ?n F) (s1\<lparr>x_pressure := x_pressure s1 + 1,
     x_counters := (x_counters s1)\<lparr>c_backpressure := c_backpressure (x_counters s1) + 1\<rparr>\<rparr>)"
  have free: "x_free s' = fl" "x_umem s' = x_umem s1" "x_retries s' = x_retries s1"
    by (simp_all add: s'_def give_back_def fl(1))
  have "?n \<noteq> 0" using assms(3) by simp
  then have "send_attempt r buf offs s mem = Inr (False, s', mem)"
    using b(6) by (simp add: send_attempt_def stuck_pop [OF assms(2)] stuck_push [OF assms(2)] bindr_def s1(1) s'_def Let_def)
  moreover have "distinct (take ?n F @ drop ?n F)" using b(3) by simp
  then have "distinct (drop ?n F @ take ?n F)" unfolding distinct_append by blast
  moreover have "set (drop ?n F @ take ?n F) = set F" by (metis append_take_drop_id set_append Un_commute)
  ultimately show ?thesis
    using b fl s1(4-7) frames_ok_cong [OF s1(6,7)] by (auto simp: between_attempts_def free)
qed

lemma ready_attempt:
  assumes "between_attempts buf offs F s" "tx_ready r (x_umem s) (set F) (length offs) mem" "rings_apart r"
  shows "\<exists>s' mem' A. send_attempt r buf offs s mem = Inr (True, s', mem') \<and> x_retries s' = x_retries s
    \<and> tx_contents r mem' = tx_contents r mem @ A \<and> length A = length offs \<and> distinct A
    \<and> map2 (\<lambda>p a. frame_at (x_umem s') (length (packet_in buf p (x_umem s))) a) offs A
      = map (\<lambda>p. packet_in buf p (x_umem s)) offs"
proof -
  let ?C = "take 64 (comp_contents r mem)" and ?n = "length offs"
  define G where "G = fl_contents (snd (push_all ?C (x_free s)))"
  from assms(1) have b: "fl_ok (x_free s)" "fl_contents (x_free s) = F" "distinct F" "frames_ok (x_umem s) (set F)"
    "?n \<le> length F" "list_all (\<lambda>p. fst p + snd p \<le> length buf) offs" by (simp_all add: between_attempts_def)
  from assms(2) have c: "comp_ok r mem" "tx_ok r mem" "length (tx_contents r mem) + ?n \<le> tx_capacity r"
    "distinct ?C" "set ?C \<inter> set F = {}" "frames_ok (x_umem s) (set ?C)" by (simp_all add: tx_ready_def Let_def)
  obtain m where G: "G = F @ take m ?C" using push_all_ok [OF b(1), of ?C] unfolding G_def b(2) by (metis snd_conv)
  have sub: "set (take m ?C) \<subseteq> set ?C" by (rule set_take_subset)
  have dG: "distinct G" using b(3) c(4,5) sub unfolding G by (auto simp: distinct_append dest: distinct_take)
  have fG: "frames_ok (x_umem s) (set G)" using b(4) c(6) sub unfolding G by (auto simp: frames_ok_def)
  have "?n \<le> length G" using b(5) by (simp add: G)
  from attempt_ok [OF c(1,2) assms(3) b(1) G_def dG fG this b(6) c(3)] obtain s' mem' where s':
    "send_attempt r buf offs s mem = Inr (True, s', mem')" "x_retries s' = x_retries s"
    "tx_contents r mem' = tx_contents r mem @ take ?n G"
    "map2 (\<lambda>p a. frame_at (x_umem s') (length (packet_in buf p (x_umem s))) a) offs G = map (\<lambda>p. packet_in buf p (x_umem s)) offs"
    by blast
  have "take ?n (zip offs G) = zip offs (take ?n G)" by (simp add: take_zip)
  moreover have "take ?n (zip offs G) = zip offs G" by simp
  ultimately have "zip offs (take ?n G) = zip offs G" by metis
  with s' \<open>?n \<le> length G\<close> dG show ?thesis by (intro exI [of _ s'] exI [of _ mem'] exI [of _ "take ?n G"]) simp
qed

lemma send_from_waits:
  assumes "rings_apart r" "offs \<noteq> []"
  shows "between_attempts buf offs F s \<Longrightarrow> j \<le> k \<Longrightarrow>
    (\<And>i. i < j \<Longrightarrow> tx_stuck r (after_waits kern k i mem)) \<Longrightarrow>
    tx_ready r (x_umem s) (set F) (length offs) (after_waits kern k j mem) \<Longrightarrow>
    \<exists>s' mem' A. send_from k kern r buf offs s mem = Inr (True, s', mem') \<and> x_retries s' = x_retries s + of_nat j
    \<and> tx_contents r mem' = tx_contents r (after_waits kern k j mem) @ A \<and> length A = length offs \<and> distinct A
    \<and> map2 (\<lambda>p a. frame_at (x_umem s') (length (packet_in buf p (x_umem s))) a) offs A
      = map (\<lambda>p. packet_in buf p (x_umem s)) offs"
proof (induction j arbitrary: k s F mem)
  case 0
  from 0(4) have rd: "tx_ready r (x_umem s) (set F) (length offs) mem" by simp
  obtain s' mem' A where a: "send_attempt r buf offs s mem = Inr (True, s', mem')" "x_retries s' = x_retries s"
    "tx_contents r mem' = tx_contents r mem @ A" "length A = length offs" "distinct A"
    "map2 (\<lambda>p a. frame_at (x_umem s') (length (packet_in buf p (x_umem s))) a) offs A
      = map (\<lambda>p. packet_in buf p (x_umem s)) offs"
    using ready_attempt [OF 0(1) rd assms(1)] by blast
  moreover have "send_from k kern r buf offs s mem = Inr (True, s', mem')"
    using a(1) by (cases k) (simp_all add: bindr_def)
  ultimately show ?case by auto
next
  case (Suc j)
  then obtain k' where k: "k = Suc k'" by (cases k) auto
  have stuck: "tx_stuck r mem" using Suc.prems(3) [of 0] by simp
  let ?G = "drop (length offs) F @ take (length offs) F"
  obtain s1 where s1: "send_attempt r buf offs s mem = Inr (False, s1, mem)" "between_attempts buf offs ?G s1"
    "x_retries s1 = x_retries s" "u_frame (x_umem s1) = u_frame (x_umem s)"
    "length (u_mem (x_umem s1)) = length (u_mem (x_umem s))"
    using stuck_attempt [OF Suc.prems(1) stuck assms(2)] by blast
  let ?s = "s1\<lparr>x_retries := x_retries s1 + 1, x_counters := (x_counters s1)\<lparr>c_retry := c_retry (x_counters s1) + 1\<rparr>\<rparr>"
  have st: "set ?G = set F" by (metis append_take_drop_id set_append Un_commute)
  have fr: "frames_ok (x_umem ?s) A = frames_ok (x_umem s) A" for A using s1(4,5) by (simp add: frames_ok_def)
  have pk: "packet_in buf q (x_umem ?s) = packet_in buf q (x_umem s)" for q by (simp add: packet_in_def s1(4))
  have rd: "tx_ready r (x_umem ?s) (set ?G) (length offs) (after_waits kern k' j (kern k' mem))"
    using Suc.prems(4) by (simp only: tx_ready_def fr st k) simp
  have stk: "tx_stuck r (after_waits kern k' i (kern k' mem))" if "i < j" for i
    using Suc.prems(3) [of "Suc i"] that by (simp add: k)
  have "between_attempts buf offs ?G ?s" using s1(2) by (simp add: between_attempts_def)
  from Suc.IH [OF this _ stk rd] Suc.prems(2) obtain s' mem' A where
    a: "send_from k' kern r buf offs ?s (kern k' mem) = Inr (True, s', mem')" "x_retries s' = x_retries ?s + of_nat j"
    "tx_contents r mem' = tx_contents r (after_waits kern k' j (kern k' mem)) @ A" "length A = length offs" "distinct A"
    "map2 (\<lambda>p a. frame_at (x_umem s') (length (packet_in buf p (x_umem ?s))) a) offs A = map (\<lambda>p. packet_in buf p (x_umem ?s)) offs"
    by (auto simp: k)
  then show ?case
    by (intro exI [of _ s'] exI [of _ mem'] exI [of _ A]) (simp only: pk, simp add: k s1(1,3) bindr_def)
qed

text \<open>Giving up.\<close>

lemma send_from_stuck:
  assumes "offs \<noteq> []"
  shows "between_attempts buf offs F s \<Longrightarrow> (\<And>i. i \<le> k \<Longrightarrow> tx_stuck r (after_waits kern k i mem)) \<Longrightarrow>
    \<exists>s' G. send_from k kern r buf offs s mem = Inr (False, s', after_waits kern k k mem) \<and> x_retries s' = x_retries s + of_nat k
      \<and> between_attempts buf offs G s' \<and> set G = set F"
proof (induction k arbitrary: s F mem)
  case 0
  have stuck: "tx_stuck r mem" using 0(2) [of 0] by simp
  let ?G = "drop (length offs) F @ take (length offs) F"
  have "set ?G = set F" by (metis append_take_drop_id set_append Un_commute)
  moreover obtain s1 where "send_attempt r buf offs s mem = Inr (False, s1, mem)" "between_attempts buf offs ?G s1"
    "x_retries s1 = x_retries s"
    using stuck_attempt [OF 0(1) stuck assms] by blast
  ultimately show ?case by (intro exI [of _ s1] exI [of _ ?G]) simp
next
  case (Suc k)
  have stuck: "tx_stuck r mem" using Suc.prems(2) [of 0] by simp
  let ?G = "drop (length offs) F @ take (length offs) F"
  obtain s1 where s1: "send_attempt r buf offs s mem = Inr (False, s1, mem)" "between_attempts buf offs ?G s1"
    "x_retries s1 = x_retries s"
    using stuck_attempt [OF Suc.prems(1) stuck assms] by blast
  let ?s = "s1\<lparr>x_retries := x_retries s1 + 1, x_counters := (x_counters s1)\<lparr>c_retry := c_retry (x_counters s1) + 1\<rparr>\<rparr>"
  have st: "set ?G = set F" by (metis append_take_drop_id set_append Un_commute)
  have b: "between_attempts buf offs ?G ?s" using s1(2) by (simp add: between_attempts_def)
  have stk: "tx_stuck r (after_waits kern k i (kern k mem))" if "i \<le> k" for i
    using Suc.prems(2) [of "Suc i"] that by simp
  from Suc.IH [OF b stk] obtain s' G where
    "send_from k kern r buf offs ?s (kern k mem) = Inr (False, s', after_waits kern k k (kern k mem))"
    "x_retries s' = x_retries ?s + of_nat k" "between_attempts buf offs G s'" "set G = set F"
    unfolding st by blast
  then show ?case by (intro exI [of _ s'] exI [of _ G]) (simp add: s1(1,3) bindr_def)
qed

text \<open>The small region with both TX slots taken, a socket with one free frame, and a kernel that
  transmits everything in the first wait.\<close>

definition full_region :: bytes where
  "full_region = overwrite 8 (le_bytes (2 :: u32)) (overwrite 48 [4] (replicate 96 0))"

definition waiting_socket :: xdp_socket where
  "waiting_socket = small_socket\<lparr>x_free := \<lparr>fl_buf = [8, 0, 0, 0], fl_mask = 3, fl_head = 0, fl_tail = 1, fl_headroom = 0\<rparr>\<rparr>"

definition transmit_all :: "nat \<Rightarrow> bytes \<Rightarrow> bytes" where
  "transmit_all i mem = (if i = 7 then overwrite 12 (le_bytes (2 :: u32)) mem else mem)"

lemma waiting_between: "between_attempts [5, 6] [(0, 2)] [8] waiting_socket" "x_ring waiting_socket = Some small_region"
    "x_retries waiting_socket = 0" "rings_apart small_region"
  by (simp_all add: between_attempts_def fl_ok_def fl_contents_def fl_used_def fl_limit_def frames_ok_def waiting_socket_def
      small_socket_def is_power_of_two.simps rings_apart_def small_region_masks)

lemma full_region_facts:
  "ring_avail 8 full_region = 2" "ring_avail 24 full_region = 0"
  "ring_avail 8 (overwrite 12 (le_bytes (2 :: u32)) full_region) = 0" "ring_avail 24 (overwrite 12 (le_bytes (2 :: u32)) full_region) = 0"
  "length full_region = 96" "length (overwrite 12 (le_bytes (2 :: u32)) full_region) = 96"
  by code_simp+

lemma full_region_stuck: "tx_stuck small_region full_region"
  by (simp add: tx_stuck_def ring_ok_def ring_contents_def small_region_masks full_region_facts is_power_of_two.simps tx_capacity_def)

lemma transmitted_ready: "tx_ready small_region (x_umem waiting_socket) {8} 1 (transmit_all 7 full_region)"
  "tx_contents small_region (transmit_all 7 full_region) = []"
  by (simp_all add: tx_ready_def ring_ok_def ring_contents_def small_region_masks full_region_facts is_power_of_two.simps
      tx_capacity_def transmit_all_def frames_ok_def)

subsection \<open>Properties\<close>

text \<open>C23. A send gets through once the kernel makes room: if the TX ring is full with nothing to
  reclaim for the first \<open>j\<close> attempts and after \<open>j \<le> 8\<close> waits there is room for the packets, the send
  succeeds at that attempt with \<open>j\<close> retries counted, and the packets follow what the ring then
  holds, each in a frame of its own.\<close>

theorem send_succeeds_after_waits:
  assumes "x_ring s = Some r" and "rings_apart r" and "offs \<noteq> []" and "between_attempts buf offs F s" and "j \<le> 8"
    and "\<And>i. i < j \<Longrightarrow> tx_stuck r (after_waits kern 8 i mem)"
    and "tx_ready r (x_umem s) (set F) (length offs) (after_waits kern 8 j mem)"
  shows "\<exists>s' mem' A. socket_send kern buf offs s mem = Inr (True, s', mem') \<and> x_retries s' = x_retries s + of_nat j
    \<and> tx_contents r mem' = tx_contents r (after_waits kern 8 j mem) @ A \<and> length A = length offs \<and> distinct A
    \<and> map2 (\<lambda>p a. frame_at (x_umem s') (length (packet_in buf p (x_umem s))) a) offs A
      = map (\<lambda>p. packet_in buf p (x_umem s)) offs"
  using send_from_waits [OF assms(2-7)] by (simp add: socket_send_def assms(1) MAX_RETRIES_def)

theorem send_succeeds_after_waits_witness:
  "\<exists>s' mem' a. socket_send transmit_all [5, 6] [(0, 2)] waiting_socket full_region = Inr (True, s', mem') \<and> x_retries s' = 1
    \<and> tx_contents small_region mem' = [a] \<and> frame_at (x_umem s') 2 a = [5, 6]"
proof -
  have w: "after_waits transmit_all 8 1 full_region = transmit_all 7 full_region" by simp
  have st: "tx_stuck small_region (after_waits transmit_all 8 i full_region)" if "i < 1" for i
    using that full_region_stuck by simp
  have rd: "tx_ready small_region (x_umem waiting_socket) (set [8]) (length [(0 :: nat, 2 :: nat)]) (after_waits transmit_all 8 1 full_region)"
    unfolding w using transmitted_ready(1) by simp
  have p: "packet_in [5, 6] (0, 2) (x_umem waiting_socket) = [5, 6]"
    by (simp add: packet_in_def subslice_def waiting_socket_def small_socket_def)
  from send_succeeds_after_waits [OF waiting_between(2,4) _ waiting_between(1) _ st rd] obtain s' mem' A where
    a: "socket_send transmit_all [5, 6] [(0, 2)] waiting_socket full_region = Inr (True, s', mem')" "x_retries s' = 1"
      "tx_contents small_region mem' = A" "length A = 1"
      "map2 (\<lambda>p a. frame_at (x_umem s') (length (packet_in [5, 6] p (x_umem waiting_socket))) a) [(0, 2)] A = [[5, 6]]"
    unfolding w by (auto simp: transmitted_ready(2) waiting_between(3) p)
  then obtain a where "A = [a]" by (cases A) auto
  with a p show ?thesis by (auto simp: numeral_2_eq_2)
qed

text \<open>C24. A send never waits for ever: if the ring stays full through all eight waits it returns an
  error after the ninth attempt, with eight retries counted, no ring changed by the process and
  every frame back in the free list.\<close>

theorem send_gives_up:
  assumes "x_ring s = Some r" and "offs \<noteq> []" and "between_attempts buf offs F s"
    and "\<And>i. i \<le> 8 \<Longrightarrow> tx_stuck r (after_waits kern 8 i mem)"
  shows "\<exists>s'. socket_send kern buf offs s mem = Inr (False, s', after_waits kern 8 8 mem)
    \<and> x_retries s' = x_retries s + 8 \<and> distinct (fl_contents (x_free s')) \<and> set (fl_contents (x_free s')) = set F"
proof -
  from send_from_stuck [OF assms(2,3), of 8 r kern mem] assms(4) obtain s' G where
    "send_from 8 kern r buf offs s mem = Inr (False, s', after_waits kern 8 8 mem)"
    "x_retries s' = x_retries s + 8" "between_attempts buf offs G s'" "set G = set F" by auto
  then show ?thesis
    by (intro exI [of _ s']) (simp add: socket_send_def assms(1) MAX_RETRIES_def between_attempts_def)
qed

theorem send_gives_up_witness:
  "\<exists>s'. socket_send (\<lambda>_ m. m) [5, 6] [(0, 2)] waiting_socket full_region = Inr (False, s', full_region)
    \<and> x_retries s' = 8 \<and> set (fl_contents (x_free s')) = {8}"
proof -
  have w: "after_waits (\<lambda>_ m. m) k i full_region = full_region" for k i by (induction i arbitrary: k) simp_all
  have "[(0 :: nat, 2 :: nat)] \<noteq> []" by simp
  from send_gives_up [OF waiting_between(2) this waiting_between(1), of "\<lambda>_ m. m" full_region] show ?thesis
    by (auto simp: w full_region_stuck waiting_between(3))
qed

end
