(* ===== verification/Workers.thy ===== *)
theory Workers
  imports Prelude
begin

text \<open>
  The worker plan of the command line (\<open>cli/src/worker.rs\<close>): parsing a list of cores such as
  \<open>0-2,4,6-7\<close> and assigning workers to cores in turn. Strings are ASCII; \<open>str::split\<close>,
  \<open>str::trim\<close>, \<open>str::split_once\<close> and \<open>str::parse::<usize>\<close> of the standard library are written
  out. Every list that is written in the syntax is read back, with any blanks around it.
\<close>

subsection \<open>Strings\<close>

fun split_on :: "char \<Rightarrow> string \<Rightarrow> string list" where
  "split_on c [] = [[]]"
| "split_on c (x # xs) =
     (if x = c then [] # split_on c xs
      else case split_on c xs of [] \<Rightarrow> [[x]] | p # ps \<Rightarrow> (x # p) # ps)"

definition is_blank :: "char \<Rightarrow> bool" where
  "is_blank c \<longleftrightarrow> of_char c \<in> {9, 10, 11, 12, 13, 32 :: nat}"

definition trim :: "string \<Rightarrow> string" where
  "trim s = rev (dropWhile is_blank (rev (dropWhile is_blank s)))"

fun split_once :: "char \<Rightarrow> string \<Rightarrow> (string \<times> string) option" where
  "split_once c [] = None"
| "split_once c (x # xs) =
     (if x = c then Some ([], xs) else map_option (\<lambda>(a, b). (x # a, b)) (split_once c xs))"

datatype parse_int_error = Empty | InvalidDigit | PosOverflow

definition digit_of :: "char \<Rightarrow> nat option" where
  "digit_of c = (if 48 \<le> (of_char c :: nat) \<and> (of_char c :: nat) \<le> 57 then Some (of_char c - 48) else None)"

text \<open>The digit is checked before the overflow of the digits so far.\<close>

fun parse_digits :: "nat \<Rightarrow> string \<Rightarrow> parse_int_error + nat" where
  "parse_digits acc [] = Inr acc"
| "parse_digits acc (c # cs) =
     (case digit_of c of
        None \<Rightarrow> Inl InvalidDigit
      | Some d \<Rightarrow> if 2 ^ 64 \<le> acc * 10 + d then Inl PosOverflow else parse_digits (acc * 10 + d) cs)"

definition parse_usize :: "string \<Rightarrow> parse_int_error + nat" where
  "parse_usize s =
     (if s = '''' then Inl Empty
      else if s = ''+'' \<or> s = ''-'' then Inl InvalidDigit
      else parse_digits 0 (if hd s = CHR ''+'' then tl s else s))"

text \<open>\<open>s.parse().ok()\<close>; \<open>u64\<close> is parsed alike, and \<open>u32\<close> with its own bound.\<close>

definition ok_usize :: "string \<Rightarrow> nat option" where
  "ok_usize s = (case parse_usize s of Inl _ \<Rightarrow> None | Inr n \<Rightarrow> Some n)"

definition ok_u32 :: "string \<Rightarrow> u32 option" where
  "ok_u32 s = (case ok_usize s of None \<Rightarrow> None | Some n \<Rightarrow> if n < 2 ^ 32 then Some (of_nat n) else None)"

subsection \<open>The list of cores\<close>

datatype core_error = InvalidCore string parse_int_error | InvalidRange string | NoCores

definition parse_core :: "string \<Rightarrow> core_error + nat" where
  "parse_core s = (case parse_usize s of Inl e \<Rightarrow> Inl (InvalidCore s e) | Inr n \<Rightarrow> Inr n)"

definition parse_chunk :: "string \<Rightarrow> core_error + nat list" where
  "parse_chunk chunk =
     (case split_once CHR ''-'' chunk of
        Some (start_text, end_text) \<Rightarrow>
          (case parse_core (trim start_text) of
             Inl e \<Rightarrow> Inl e
           | Inr lo \<Rightarrow>
               (case parse_core (trim end_text) of
                  Inl e \<Rightarrow> Inl e
                | Inr hi \<Rightarrow> if hi < lo then Inl (InvalidRange chunk) else Inr [lo..<hi + 1]))
      | None \<Rightarrow> (case parse_core chunk of Inl e \<Rightarrow> Inl e | Inr core \<Rightarrow> Inr [core]))"

fun parse_chunks :: "string list \<Rightarrow> nat list \<Rightarrow> core_error + nat list" where
  "parse_chunks [] cores = Inr cores"
| "parse_chunks (chunk # chunks) cores =
     (case parse_chunk chunk of Inl e \<Rightarrow> Inl e | Inr more \<Rightarrow> parse_chunks chunks (cores @ more))"

definition parse_core_list :: "string \<Rightarrow> core_error + nat list" where
  "parse_core_list spec =
     (case parse_chunks (filter (\<lambda>chunk. chunk \<noteq> '''') (map trim (split_on CHR '','' spec))) [] of
        Inl e \<Rightarrow> Inl e
      | Inr cores \<Rightarrow> if cores = [] then Inl NoCores else Inr cores)"

record worker_assignment =
  worker_index :: nat
  core_id :: nat

definition build_worker_plan :: "nat \<Rightarrow> nat list \<Rightarrow> worker_assignment list" where
  "build_worker_plan worker_count core_ids =
     (if worker_count = 0 then []
      else let fallback_cores = (if core_ids = [] then [0..<worker_count] else core_ids)
           in map (\<lambda>i. \<lparr>worker_index = i, core_id = fallback_cores ! (i mod length fallback_cores)\<rparr>) [0..<worker_count])"

subsection \<open>Writing what the parser reads\<close>

fun show_nat :: "nat \<Rightarrow> string" where
  "show_nat n = (if n < 10 then [char_of (48 + n)] else show_nat (n div 10) @ [char_of (48 + n mod 10)])"

declare show_nat.simps [simp del]

datatype core_item = Core nat | Cores nat nat

fun show_item :: "core_item \<Rightarrow> string" where
  "show_item (Core n) = show_nat n"
| "show_item (Cores a b) = show_nat a @ ''-'' @ show_nat b"

fun cores_of :: "core_item \<Rightarrow> nat list" where
  "cores_of (Core n) = [n]"
| "cores_of (Cores a b) = [a..<b + 1]"

fun item_ok :: "core_item \<Rightarrow> bool" where
  "item_ok (Core n) = (n < 2 ^ 64)"
| "item_ok (Cores a b) = (a \<le> b \<and> b < 2 ^ 64)"

text \<open>Items with blanks around them, separated by commas.\<close>

fun show_list :: "(string \<times> core_item \<times> string) list \<Rightarrow> string" where
  "show_list [] = ''''"
| "show_list [(l, it, r)] = l @ show_item it @ r"
| "show_list ((l, it, r) # rest) = l @ show_item it @ r @ '','' @ show_list rest"

definition digit_char :: "char \<Rightarrow> bool" where "digit_char c \<longleftrightarrow> digit_of c \<noteq> None"

lemma digit_char_of: "d < 10 \<Longrightarrow> digit_of (char_of (48 + d)) = Some d"
  by (simp add: digit_of_def)

lemma show_nat_digits: "list_all digit_char (show_nat n) \<and> show_nat n \<noteq> []"
proof (induction n rule: show_nat.induct)
  case (1 n)
  then show ?case
    by (cases "n < 10") (simp_all add: show_nat.simps [of n] digit_char_def digit_char_of)
qed

lemma parse_digits_append:
  "parse_digits acc (xs @ ys) = (case parse_digits acc xs of Inl e \<Rightarrow> Inl e | Inr a \<Rightarrow> parse_digits a ys)"
  by (induction xs arbitrary: acc) (auto split: option.splits)

lemma parse_show_nat: "n < 2 ^ 64 \<Longrightarrow> parse_digits 0 (show_nat n) = Inr n"
proof (induction n rule: show_nat.induct)
  case (1 n)
  show ?case
  proof (cases "n < 10")
    case True
    then show ?thesis using "1.prems" by (simp add: show_nat.simps [of n] digit_char_of)
  next
    case False
    then have "n div 10 < 2 ^ 64" using "1.prems" by simp
    with 1 False have "parse_digits 0 (show_nat (n div 10)) = Inr (n div 10)" by simp
    moreover have "n div 10 * 10 + n mod 10 = n" by simp
    ultimately show ?thesis
      using False "1.prems" by (simp add: show_nat.simps [of n] parse_digits_append digit_char_of)
  qed
qed

lemma digit_chars: "digit_char c \<Longrightarrow> \<not> is_blank c \<and> c \<noteq> CHR '','' \<and> c \<noteq> CHR ''-'' \<and> c \<noteq> CHR ''+''"
  by (auto simp: digit_char_def digit_of_def is_blank_def split: if_splits)

lemma parse_core_show: "n < 2 ^ 64 \<Longrightarrow> parse_core (show_nat n) = Inr n"
proof -
  assume n: "n < 2 ^ 64"
  obtain c cs where c: "show_nat n = c # cs" "digit_char c"
    using show_nat_digits [of n] by (cases "show_nat n") auto
  then have "show_nat n \<noteq> ''+''" "show_nat n \<noteq> ''-''" "hd (show_nat n) \<noteq> CHR ''+''" "show_nat n \<noteq> ''''"
    using digit_chars [OF c(2)] by auto
  then show ?thesis using parse_show_nat [OF n] by (simp add: parse_core_def parse_usize_def)
qed

lemma trim_pad:
  assumes "list_all is_blank l" "list_all is_blank r" "s \<noteq> []" "\<not> is_blank (hd s)" "\<not> is_blank (last s)"
  shows "trim (l @ s @ r) = s"
proof -
  have d: "dropWhile is_blank (p @ x) = x" if "list_all is_blank p" "x \<noteq> []" "\<not> is_blank (hd x)" for p x
    using that by (induction p) (auto simp: dropWhile_eq_self_iff)
  have "dropWhile is_blank (l @ s @ r) = s @ r" using assms by (intro d) auto
  moreover have "dropWhile is_blank (rev r @ rev s) = rev s"
    using assms by (intro d) (auto simp: hd_rev list_all_iff)
  ultimately show ?thesis by (simp add: trim_def)
qed

lemma split_once_none: "c \<notin> set s \<Longrightarrow> split_once c s = None"
  by (induction s) auto

lemma split_once_at: "c \<notin> set a \<Longrightarrow> split_once c (a @ c # b) = Some (a, b)"
  by (induction a) auto

lemma show_nat_chars: "c \<in> set (show_nat n) \<Longrightarrow> digit_char c"
  using show_nat_digits [of n] by (simp add: list_all_iff)

lemma trim_show_nat: "trim (show_nat n) = show_nat n"
proof -
  have "show_nat n \<noteq> []" using show_nat_digits by simp
  moreover from this have "digit_char (hd (show_nat n))" "digit_char (last (show_nat n))"
    using show_nat_chars [OF hd_in_set] show_nat_chars [OF last_in_set] by auto
  ultimately show ?thesis
    using trim_pad [of "[]" "[]" "show_nat n"] digit_chars by simp
qed

lemma parse_chunk_show: "item_ok it \<Longrightarrow> parse_chunk (show_item it) = Inr (cores_of it)"
proof (cases it)
  case (Core n)
  moreover assume "item_ok it"
  moreover have "CHR ''-'' \<notin> set (show_nat n)" using show_nat_chars digit_chars by blast
  ultimately show ?thesis by (simp add: parse_chunk_def split_once_none parse_core_show)
next
  case (Cores a b)
  moreover assume "item_ok it"
  moreover have "CHR ''-'' \<notin> set (show_nat a)" using show_nat_chars digit_chars by blast
  ultimately show ?thesis by (simp add: parse_chunk_def split_once_at parse_core_show trim_show_nat)
qed

lemma show_item_shape:
  "show_item it \<noteq> [] \<and> \<not> is_blank (hd (show_item it)) \<and> \<not> is_blank (last (show_item it)) \<and> CHR '','' \<notin> set (show_item it)"
proof -
  have n: "show_nat k \<noteq> []" "\<not> is_blank (hd (show_nat k))" "\<not> is_blank (last (show_nat k))" "CHR '','' \<notin> set (show_nat k)" for k
    using show_nat_digits [of k] show_nat_chars [of _ k] digit_chars by (auto simp: hd_in_set last_in_set)
  then show ?thesis by (cases it) auto
qed

lemma split_on_one: "c \<notin> set s \<Longrightarrow> split_on c s = [s]"
  by (induction s) auto

lemma split_on_cons: "c \<notin> set s \<Longrightarrow> split_on c (s @ c # t) = s # split_on c t"
  by (induction s) auto

lemma blanks_no_comma: "list_all is_blank l \<Longrightarrow> CHR '','' \<notin> set l"
  by (auto simp: list_all_iff is_blank_def)

definition padded :: "string \<times> core_item \<times> string \<Rightarrow> bool" where
  "padded x \<longleftrightarrow> list_all is_blank (fst x) \<and> item_ok (fst (snd x)) \<and> list_all is_blank (snd (snd x))"

lemma chunks_of_list:
  "list_all padded items \<Longrightarrow> items \<noteq> [] \<Longrightarrow>
   map trim (split_on CHR '','' (show_list items)) = map (show_item \<circ> fst \<circ> snd) items"
proof (induction items rule: show_list.induct)
  case (2 l it r)
  have "CHR '','' \<notin> set (l @ show_item it @ r)"
    using 2 show_item_shape [of it] by (auto simp: padded_def dest: blanks_no_comma)
  then show ?case using 2 show_item_shape [of it] by (simp add: split_on_one trim_pad padded_def)
next
  case (3 l it r v va)
  have "CHR '','' \<notin> set (l @ show_item it @ r)"
    using 3 show_item_shape [of it] by (auto simp: padded_def dest: blanks_no_comma)
  from split_on_cons [OF this, of "show_list (v # va)"] 3 show_item_shape [of it] show ?case
    by (simp add: trim_pad padded_def)
qed simp

lemma parse_shown_chunks:
  "list_all padded items \<Longrightarrow>
   parse_chunks (map (show_item \<circ> fst \<circ> snd) items) cores = Inr (cores @ concat (map (cores_of \<circ> fst \<circ> snd) items))"
  by (induction items arbitrary: cores) (auto simp: padded_def parse_chunk_show)

subsection \<open>Properties\<close>

text \<open>Core lists are read as they are written: any list of cores and ranges below \<open>2 ^ 64\<close>,
  separated by commas and with any blanks around the items, is parsed to the cores it lists,
  in order.\<close>

theorem core_list_roundtrip:
  assumes "list_all padded items" and "items \<noteq> []"
  shows "parse_core_list (show_list items) = Inr (concat (map (cores_of \<circ> fst \<circ> snd) items))"
proof -
  have "filter (\<lambda>c. c \<noteq> '''') (map (show_item \<circ> fst \<circ> snd) items) = map (show_item \<circ> fst \<circ> snd) items"
    using show_item_shape by (simp add: filter_id_conv)
  moreover have "concat (map (cores_of \<circ> fst \<circ> snd) items) \<noteq> []"
    using assms by (cases items; cases "fst (snd (hd items))") (auto simp: padded_def)
  ultimately show ?thesis
    using parse_shown_chunks [OF assms(1), of "[]"] by (simp add: parse_core_list_def chunks_of_list [OF assms])
qed

theorem core_list_roundtrip_witness:
  "parse_core_list ''0-2, 4,6-7 '' = Inr [0, 1, 2, 4, 6, 7]"
proof -
  let ?items = "[('''', Cores 0 2, ''''), ('' '', Core 4, ''''), ('''', Cores 6 7, '' '')]"
  have s: "show_list ?items = ''0-2, 4,6-7 ''" by (simp add: show_nat.simps char_of_def bit_Suc_0_iff)
  have "list_all padded ?items" by (simp add: padded_def is_blank_def)
  from core_list_roundtrip [OF this] show ?thesis unfolding s by (simp add: upt_rec)
qed

lemma count_residues:
  assumes "j < k"
  shows "length (filter (\<lambda>i. i mod k = j) [0..<n]) = n div k + (if j < n mod k then 1 else 0)"
proof (induction n)
  case (Suc n)
  have "n mod k < k" using assms by simp
  with Suc assms show ?case by (auto simp: mod_Suc div_Suc)
qed (use assms in simp)

text \<open>Workers are spread evenly: worker \<open>i\<close> of the plan is number \<open>i\<close>, and over \<open>k\<close> different cores
  every core gets \<open>n div k\<close> of the \<open>n\<close> workers, the first \<open>n mod k\<close> cores one more; with no core
  given every worker has a core of its own.\<close>

theorem worker_plan_balanced:
  assumes "distinct cores" and "j < length cores"
  shows "map worker_index (build_worker_plan n cores) = [0..<n]
    \<and> length (filter (\<lambda>a. core_id a = cores ! j) (build_worker_plan n cores)) =
        n div length cores + (if j < n mod length cores then 1 else 0)
    \<and> map core_id (build_worker_plan n []) = [0..<n]"
proof -
  have "(cores ! (i mod length cores) = cores ! j) = (i mod length cores = j)" for i
    using assms by (intro nth_eq_iff_index_eq) (auto intro: mod_less_divisor)
  then have "length (filter (\<lambda>a. core_id a = cores ! j) (build_worker_plan n cores)) =
      length (filter (\<lambda>i. i mod length cores = j) [0..<n])"
    using assms(2) by (auto simp: build_worker_plan_def Let_def filter_map comp_def)
  moreover have "map worker_index (build_worker_plan n cores) = [0..<n]" for cores
    by (simp add: build_worker_plan_def Let_def comp_def)
  moreover have "map core_id (build_worker_plan n []) = [0..<n]"
    by (cases "n = 0") (auto simp: build_worker_plan_def Let_def comp_def intro!: nth_equalityI)
  ultimately show ?thesis using count_residues [OF assms(2), of n] by simp
qed

theorem worker_plan_balanced_witness:
  "map worker_index (build_worker_plan 5 [2, 4]) = [0, 1, 2, 3, 4]
   \<and> length (filter (\<lambda>a. core_id a = 2) (build_worker_plan 5 [2, 4])) = 3"
  using worker_plan_balanced [of "[2, 4]" 0 5] by (simp add: upt_rec numeral_2_eq_2 [symmetric])

end
