(* ===== verification/Bridge.thy ===== *)
theory Bridge
  imports Forward_Spray Xdp_Socket Workers
begin

text \<open>
  The bridge of the command line (\<open>cli/src/bridge.rs\<close> and the functions of \<open>cli/src/main.rs\<close> it is
  served by): a control request is validated, its routes and its first added session make a
  forwarder, each worker runs the demo packet through a forwarder of its own and the summed
  statistics are rendered as telemetry. This is the default build, in which \<open>build_socket\<close> is
  the mock socket. Base64 is the \<open>base64\<close> crate's: the argument \<open>b64\<close>. A worker thread starts
  with fresh caches; its run is one step on the state the threads share (key cache, epoch,
  counters).
\<close>

subsection \<open>Requests\<close>

text \<open>\<open>f64\<close> values are kept as their bits; the code only stores them.\<close>

record runtime_config =
  rc_iface :: string
  rc_queue_id :: u32
  rc_zero_copy :: bool
  rc_num_frames :: u32
  rc_frame_size :: u32
  rc_batch_size :: u32
  rc_batch_size_min :: "u32 option"
  rc_batch_size_max :: "u32 option"
  rc_num_workers :: u32
  rc_fill_threshold :: "u32 option"
  rc_fill_adaptive :: bool
  rc_fill_adapt_factor :: "u64 option"
  rc_fill_ema_alpha :: "u64 option"
  rc_fill_min :: "u32 option"
  rc_fill_max :: "u32 option"
  rc_metrics_addr :: "string option"
  rc_dry_run :: bool

record route_update =
  ru_dest_id :: node_id
  ru_next_hop_id :: node_id
  ru_next_hop_mac :: "string option"
  ru_metric :: "32 word option"
  ru_last_seen :: "string option"

record session_update =
  su_session_id :: "16 barr"
  su_flow_label :: "u32 option"
  su_action :: string
  su_secret :: "string option"
  su_info :: "string option"

record feature_flags =
  stub_mode :: bool
  enable_metrics :: bool
  enable_adaptive_fill :: bool
  enable_zero_copy :: bool

record control_request =
  runtime_config :: runtime_config
  route_updates :: "route_update list"
  session_updates :: "session_update list"
  feature_flags :: feature_flags

datatype request_error = IfaceRequired | NumFramesZero | FrameSizeZero | BatchSizeZero | BatchMinExceedsMax

definition validate :: "control_request \<Rightarrow> request_error + unit" where
  "validate req =
     (let rc = runtime_config req in
      if rc_iface rc = '''' then Inl IfaceRequired
      else if rc_num_frames rc = 0 then Inl NumFramesZero
      else if rc_frame_size rc = 0 then Inl FrameSizeZero
      else if rc_batch_size rc = 0 then Inl BatchSizeZero
      else case (rc_batch_size_min rc, rc_batch_size_max rc) of
             (Some lo, Some hi) \<Rightarrow> if hi < lo then Inl BatchMinExceedsMax else Inr ()
           | _ \<Rightarrow> Inr ())"

definition secret_bytes :: "(string \<Rightarrow> bytes option) \<Rightarrow> session_update \<Rightarrow> bytes option" where
  "secret_bytes b64 u = (case su_secret u of None \<Rightarrow> None | Some v \<Rightarrow> b64 v)"

definition info_bytes :: "(string \<Rightarrow> bytes option) \<Rightarrow> session_update \<Rightarrow> bytes option" where
  "info_bytes b64 u = (case su_info u of None \<Rightarrow> None | Some v \<Rightarrow> b64 v)"

subsection \<open>From a request to a forwarder\<close>

text \<open>\<open>clock\<close> gives the successive readings of the system clock: one when the entry is built and one
  inside \<open>update_route\<close>.\<close>

definition entry_of :: "nat \<Rightarrow> route_update \<Rightarrow> route_entry" where
  "entry_of now u = \<lparr>dest_id = ru_dest_id u, next_hop_id = ru_next_hop_id u,
     metric = (case ru_metric u of None \<Rightarrow> 1 | Some m \<Rightarrow> m), last_seen = now, channel_count = 1,
     alternate_channels = [], mcr_epoch = 1\<rparr>"

fun add_routes :: "(nat \<Rightarrow> nat) \<Rightarrow> nat \<Rightarrow> route_update list \<Rightarrow> table \<times> u64 \<Rightarrow> table \<times> u64" where
  "add_routes clock i [] te = te"
| "add_routes clock i (u # us) te =
     add_routes clock (i + 2) us (update_route (clock (i + 1)) (entry_of (clock i) u) te)"

definition default_secret :: bytes where "default_secret = replicate 32 0x42"
definition default_info :: bytes where "default_info = ascii ''cli-demo''"

definition request_material :: "(string \<Rightarrow> bytes option) \<Rightarrow> control_request \<Rightarrow> bytes \<times> bytes" where
  "request_material b64 req =
     (let secret = default_secret; info = default_info in
      case List.find (\<lambda>u. su_action u = ''add'') (session_updates req) of
        None \<Rightarrow> (secret, info)
      | Some u \<Rightarrow>
          let secret = (case secret_bytes b64 u of Some s \<Rightarrow> if s \<noteq> [] then s else secret | None \<Rightarrow> secret);
              info = (case info_bytes b64 u of Some i \<Rightarrow> if i \<noteq> [] then i else info | None \<Rightarrow> info)
          in (secret, info))"

text \<open>What the threads of the process share: the session key cache and the counters.\<close>

type_synonym node = "hkdf_cache \<times> process"

definition build_forwarder_from_request ::
    "crypto_lib \<Rightarrow> (string \<Rightarrow> bytes option) \<Rightarrow> (string \<Rightarrow> string option) \<Rightarrow> (nat \<Rightarrow> nat) \<Rightarrow> control_request \<Rightarrow>
       node \<Rightarrow> forwarder \<times> node" where
  "build_forwarder_from_request L b64 env clock req nd =
     (let (kc, w) = nd;
          (t, ep) = add_routes clock 0 (route_updates req) (table_new, epoch w);
          (secret, info) = request_material b64 req;
          (f, kc) = forwarder_with_session L env t secret info kc
      in (f, kc, w\<lparr>epoch := ep\<rparr>))"

subsection \<open>Running packets\<close>

definition demo_packet :: "wire_error + bytes" where
  "demo_packet =
     (let packet = new_header_buffer 4;
          header = \<lparr>src_id = fill_arr 1, dst_id = fill_arr 2, flow_label = 7, seq_num = 1,
            session_id = fill_arr 0, flags = 0, payload_length = 4\<rparr>
      in bindr (marshal_into header packet) (\<lambda>packet. Inr (overwrite HEADER_SIZE [1, 2, 3, 4] packet)))"

definition build_socket :: "bytes list \<Rightarrow> mock_socket" where
  "build_socket frames = \<lparr>m_frames = frames, m_sent = []\<rparr>"

text \<open>\<open>process_batch\<close> over a mock socket: poll, forward, send. \<open>threads\<close> and \<open>sched\<close> describe the rayon
  pool, as for a batch.\<close>

definition run_on_mock ::
    "crypto_lib \<Rightarrow> nat \<Rightarrow> (nat \<times> nat) list \<Rightarrow> forwarder \<Rightarrow> mock_socket \<Rightarrow> process \<Rightarrow> fault + fw_stats \<times> mock_socket \<times> process" where
  "run_on_mock L threads sched f m w =
     (let (frames, m) = mock_poll 64 m in
      bindr (process_batch L threads sched frames f w) (\<lambda>(st, sent, f, w).
        case sent of
          None \<Rightarrow> Inr (st, m, w)
        | Some (buf, offs) \<Rightarrow> bindr (mock_send buf offs m) (\<lambda>m. Inr (st, m, w))))"

definition run_demo ::
    "crypto_lib \<Rightarrow> nat \<Rightarrow> (nat \<times> nat) list \<Rightarrow> (string \<Rightarrow> string option) \<Rightarrow> (nat \<Rightarrow> nat) \<Rightarrow> node \<Rightarrow> fault + fw_stats \<times> node" where
  "run_demo L threads sched env clock nd =
     (let (kc, w) = nd;
          (t, ep) = update_route (clock 1) (entry_of (clock 0) \<lparr>ru_dest_id = fill_arr 2, ru_next_hop_id = fill_arr 3,
                      ru_next_hop_mac = None, ru_metric = Some 1, ru_last_seen = None\<rparr>) (table_new, epoch w);
          (f, kc) = forwarder_with_session L env t default_secret default_info kc
      in case demo_packet of
           Inl _ \<Rightarrow> Inl Panicked
         | Inr p \<Rightarrow> bindr (run_on_mock L threads sched f (build_socket [p]) (w\<lparr>epoch := ep\<rparr>)) (\<lambda>(st, m, w). Inr (st, kc, w)))"

text \<open>A worker on a new thread: its caches are fresh, and those of the spawning thread are back when
  it is done.\<close>

definition on_new_thread :: "(process \<Rightarrow> fault + 'a \<times> process) \<Rightarrow> process \<Rightarrow> fault + 'a \<times> process" where
  "on_new_thread run w =
     bindr (run (w\<lparr>tcaches := (tcaches w)(0 := thread_cache_init), scaches := (scaches w)(0 := spray_cache_init)\<rparr>))
       (\<lambda>(x, w'). Inr (x, w'\<lparr>tcaches := (tcaches w')(0 := tcaches w 0), scaches := (scaches w')(0 := scaches w 0)\<rparr>))"

definition worker_body ::
    "crypto_lib \<Rightarrow> nat \<Rightarrow> (nat \<times> nat) list \<Rightarrow> (string \<Rightarrow> bytes option) \<Rightarrow> (string \<Rightarrow> string option) \<Rightarrow> (nat \<Rightarrow> nat) \<Rightarrow>
       control_request \<Rightarrow> bytes \<Rightarrow> node \<Rightarrow> (fault + fw_stats) \<times> node" where
  "worker_body L threads sched b64 env clock req packet nd =
     (let (f, kc, w) = build_forwarder_from_request L b64 env clock req nd in
      case on_new_thread (\<lambda>w. bindr (run_on_mock L threads sched f (build_socket [packet]) w) (\<lambda>(st, m, w). Inr (st, w))) w of
        Inl e \<Rightarrow> (Inl e, kc, w)
      | Inr (st, w) \<Rightarrow> (Inr st, kc, w))"

text \<open>\<open>spawn_pinned_workers\<close>: one worker per assignment, \<open>clocks\<close> being the clock each of them reads.\<close>

fun spawn_workers :: "(nat \<Rightarrow> node \<Rightarrow> 'r \<times> node) \<Rightarrow> worker_assignment list \<Rightarrow> node \<Rightarrow> 'r list \<times> node" where
  "spawn_workers body [] nd = ([], nd)"
| "spawn_workers body (a # as) nd =
     (let (r, nd) = body (worker_index a) nd; (rs, nd) = spawn_workers body as nd in (r # rs, nd))"

definition add_worker_stats :: "fw_stats \<Rightarrow> fw_stats \<Rightarrow> fw_stats" where
  "add_worker_stats acc st = \<lparr>received = received acc + received st, forwarded = forwarded acc + forwarded st,
     encrypted = encrypted acc + encrypted st, route_misses = route_misses acc + route_misses st\<rparr>"

text \<open>Joining: the statistics of the workers that did not panic. A write outside the arena has no
  defined outcome and ends the sum.\<close>

fun join_workers :: "(fault + fw_stats) list \<Rightarrow> fw_stats \<Rightarrow> fault + fw_stats" where
  "join_workers [] acc = Inr acc"
| "join_workers (Inl OobWrite # rs) acc = Inl OobWrite"
| "join_workers (Inl Panicked # rs) acc = join_workers rs acc"
| "join_workers (Inr st # rs) acc = join_workers rs (add_worker_stats acc st)"

definition resolve_worker_cores :: "(string \<Rightarrow> string option) \<Rightarrow> nat list \<Rightarrow> nat list" where
  "resolve_worker_cores env available =
     (case env ''MOHAWK_WORKER_CORES'' of
        Some spec \<Rightarrow> (case parse_core_list spec of Inr cores \<Rightarrow> cores | Inl _ \<Rightarrow> available)
      | None \<Rightarrow> available)"

definition run_pinned_workers ::
    "crypto_lib \<Rightarrow> nat \<Rightarrow> (nat \<times> nat) list \<Rightarrow> (string \<Rightarrow> bytes option) \<Rightarrow> (string \<Rightarrow> string option) \<Rightarrow> nat list \<Rightarrow>
       (nat \<Rightarrow> nat \<Rightarrow> nat) \<Rightarrow> control_request \<Rightarrow> node \<Rightarrow> fault + fw_stats \<times> node" where
  "run_pinned_workers L threads sched b64 env available clocks req nd =
     (let worker_count = max (unat (rc_num_workers (runtime_config req))) 1;
          core_ids = resolve_worker_cores env available;
          plan = build_worker_plan worker_count core_ids
      in case demo_packet of
           Inl _ \<Rightarrow> Inl Panicked
         | Inr packet \<Rightarrow>
             let (rs, nd) = spawn_workers (\<lambda>i. worker_body L threads sched b64 env (clocks i) req packet) plan nd
             in bindr (join_workers rs (stats_of 0)) (\<lambda>st. Inr (st, nd)))"

subsection \<open>Telemetry\<close>

record queue_stats =
  queue_depth :: "nat option"
  fill_target :: "nat option"
  fill_actual :: "nat option"
  worker_count :: "nat option"

record telemetry =
  health_state :: string
  forwarder_stats :: fw_stats
  tl_queue_stats :: "queue_stats option"
  last_error :: "string option"
  timestamp :: string

definition render_telemetry :: "fw_stats \<Rightarrow> control_request option \<Rightarrow> telemetry" where
  "render_telemetry stats request =
     (let workers = (case request of Some r \<Rightarrow> unat (rc_num_workers (runtime_config r)) | None \<Rightarrow> 0);
          target = (case request of Some r \<Rightarrow> map_option unat (rc_fill_threshold (runtime_config r)) | None \<Rightarrow> None)
      in \<lparr>health_state = (if 0 < route_misses stats then ''degraded'' else ''ok''),
          forwarder_stats = \<lparr>received = received stats, forwarded = forwarded stats, encrypted = encrypted stats,
            route_misses = route_misses stats\<rparr>,
          tl_queue_stats = Some \<lparr>queue_depth = target, fill_target = target,
            fill_actual = map_option (\<lambda>n. n - 16) target, worker_count = Some workers\<rparr>,
          last_error = None, timestamp = ''2026-05-24T00:00:00Z''\<rparr>)"

end
