(* ===== verification/Bridge_Run.thy ===== *)
theory Bridge_Run
  imports Bridge
begin

text \<open>
  What a bridge request does. The table of a request is the last update of each destination;
  the session comes from the first added session, with the built-in secret wherever its own
  cannot be decoded. A worker in primary mode handles the demo packet on fresh caches, sends
  exactly one packet and leaves the caches of the other threads alone, so the workers of a
  plan are \<open>n\<close> equal runs.
\<close>

subsection \<open>The table of a request\<close>

definition last_update :: "node_id \<Rightarrow> route_update list \<Rightarrow> route_update option" where
  "last_update d us = List.find (\<lambda>u. ru_dest_id u = d) (rev us)"

lemma find_append: "List.find P (xs @ ys) = (case List.find P xs of None \<Rightarrow> List.find P ys | Some x \<Rightarrow> Some x)"
  by (induction xs) auto

lemma last_update_Cons:
  "last_update d (u # us) = (case last_update d us of Some u' \<Rightarrow> Some u' | None \<Rightarrow> if ru_dest_id u = d then Some u else None)"
  by (simp add: last_update_def find_append split: option.splits)

definition single_channel :: "table \<Rightarrow> bool" where
  "single_channel t \<longleftrightarrow> (\<forall>d e. routes_of t d = Some e \<longrightarrow> alternate_channels e = [])"

lemma update_route_entry:
  assumes "table_wf (fst te)" "single_channel (fst te)" "te' = update_route now (entry_of t u) te"
  shows "table_wf (fst te') \<and> single_channel (fst te') \<and> snd te' = snd te + 1
    \<and> hop_of (fst te') d = (if d = ru_dest_id u then Some (ru_next_hop_id u) else hop_of (fst te) d)"
proof -
  note w = table_wf_update [of "fst te" now "entry_of t u" "snd te" "fst te'" "snd te'"]
  have "update_route now (entry_of t u) (fst te, snd te) = (fst te', snd te')" by (simp add: assms(3))
  note w = w [OF assms(1) this]
  with assms(2) show ?thesis by (auto simp: single_channel_def hop_of_def entry_of_def split: if_splits)
qed

lemma add_routes_ok:
  "table_wf (fst te) \<Longrightarrow> single_channel (fst te) \<Longrightarrow>
   table_wf (fst (add_routes clock i us te)) \<and> single_channel (fst (add_routes clock i us te))
   \<and> snd (add_routes clock i us te) = snd te + of_nat (length us)
   \<and> hop_of (fst (add_routes clock i us te)) d =
       (case last_update d us of Some u \<Rightarrow> Some (ru_next_hop_id u) | None \<Rightarrow> hop_of (fst te) d)"
proof (induction clock i us te rule: add_routes.induct)
  case (2 clock i u us te)
  from update_route_entry [OF 2(2,3) refl, of "clock (i + 1)" "clock i" u] 2(1) show ?case
    by (auto simp: last_update_Cons split: option.splits)
qed (simp add: last_update_def)

lemma single_channel_new: "single_channel table_new"
  by (simp add: single_channel_def routes_of_new)

lemma hop_of_new: "hop_of table_new d = None"
  by (simp add: hop_of_def routes_of_new)

lemma single_channel_spray: "single_channel t \<Longrightarrow> spray_hop_of t d f = hop_of t d"
  by (auto simp: spray_hop_of_def hop_of_def single_channel_def spray_order_def channels_def Let_def
      split: option.splits intro!: option.map_cong)

text \<open>Requests built from the same routes in primary mode.\<close>

lemma forwarder_with_session_parts:
  "routes (fst (forwarder_with_session L env t s i kc)) = t"
  "arena (fst (forwarder_with_session L env t s i kc)) = \<lparr>content = [], cap = ARENA_INIT\<rparr>"
  "mcr_enabled (fst (forwarder_with_session L env t s i kc)) = get_mcr_enabled env"
  "mcr_spray_mode (fst (forwarder_with_session L env t s i kc)) = get_mcr_spray_mode env"
  "fsession (fst (forwarder_with_session L env t s i kc)) =
     (case fst (HybridSession_new L s i kc) of Inl _ \<Rightarrow> None | Inr s \<Rightarrow> Some s)"
  by (simp_all add: forwarder_with_session_def Let_def split_def)

lemma session_made: "lib_ok L \<Longrightarrow> \<exists>s'. fst (HybridSession_new L s i kc) = Inr s'"
  using derive_total [of L s i] by (auto simp: HybridSession_new_def Let_def split: option.splits)

subsection \<open>The demo packet\<close>

definition demo_header :: header where
  "demo_header = \<lparr>src_id = fill_arr 1, dst_id = fill_arr 2, flow_label = 7, seq_num = 1,
     session_id = fill_arr 0, flags = 0, payload_length = 4\<rparr>"

definition demo_bytes :: bytes where "demo_bytes = header_bytes demo_header @ [1, 2, 3, 4]"

lemma demo_packet_eq: "demo_packet = Inr demo_bytes"
proof -
  have "marshal_into demo_header (new_header_buffer 4) = Inr (header_bytes demo_header @ [0, 0, 0, 0])"
    by (subst marshal_into_layout) (simp_all add: new_header_buffer_def HEADER_SIZE_def numeral_eq_Suc)
  then show ?thesis
    by (simp add: demo_packet_def demo_header_def [symmetric] Let_def demo_bytes_def bindr_def overwrite_def HEADER_SIZE_def)
qed

lemma demo_fields:
  "length demo_bytes = 100" "ref_dst_id demo_bytes = fill_arr 2" "ref_length demo_bytes = 4"
  "ref_seq_num demo_bytes = 1" "payload_present demo_bytes"
proof -
  show f: "length demo_bytes = 100" "ref_dst_id demo_bytes = fill_arr 2" "ref_length demo_bytes = 4" "ref_seq_num demo_bytes = 1"
    unfolding demo_bytes_def ref_header_bytes by (simp_all add: demo_header_def)
  show "payload_present demo_bytes" by (simp add: payload_present_def f HEADER_SIZE_def)
qed

lemma demo_outcome:
  assumes "lib_ok L" "single_channel t"
  shows "snd (primary_spec L t (Some s) demo_bytes) = (if hop_of t (fill_arr 2) = None then Missed else Encrypted)"
proof -
  have "length (payload_of demo_bytes) \<le> 4" by (simp add: payload_of_length demo_fields)
  then have p: "length (payload_of demo_bytes) \<le> PAYLOAD_LIMIT" by (simp add: PAYLOAD_LIMIT_def)
  from lib_ok_seal [OF assms(1) limit_le_gcm [OF p]]
  obtain c t' where "seal L (aead s) (build_nonce s 1) (payload_of demo_bytes) = Some (c, t')" by metis
  with p have "encrypt_into_slice L s (payload_of demo_bytes) 1 = Inr (c, t')"
    by (simp add: encrypt_into_slice_def)
  then show ?thesis
    by (auto simp: primary_spec_def demo_fields HEADER_SIZE_def single_channel_spray [OF assms(2)] sealed_packet_def
        split: option.splits)
qed

subsection \<open>One worker\<close>

definition primary_env :: "(string \<Rightarrow> string option) \<Rightarrow> bool" where
  "primary_env env \<longleftrightarrow> get_mcr_enabled env \<and> get_mcr_spray_mode env \<noteq> ''full''"

lemma process_more [simp]:
  "epoch (apply_metrics b w) = epoch w" "tcaches (apply_metrics b w) = tcaches w" "scaches (apply_metrics b w) = scaches w"
  "epoch (add_processed n w) = epoch w" "tcaches (add_processed n w) = tcaches w" "scaches (add_processed n w) = scaches w"
  "epoch (batch_caches b w) = epoch w" "tcaches (batch_caches b w) = (tcaches w)(0 := b_cache b)"
  "scaches (batch_caches b w) = (scaches w)(0 := b_scache b)"
  by (simp_all add: apply_metrics_def add_processed_def batch_caches_def)

lemma primary_own_caches:
  assumes "process_batch L threads sched frames f w = Inr (st, sent, f', w')"
    and "mcr_enabled f" "mcr_spray_mode f \<noteq> ''full''"
  shows "epoch w' = epoch w \<and> (\<forall>th. th \<noteq> 0 \<longrightarrow> tcaches w' th = tcaches w th \<and> scaches w' th = scaches w th)"
proof (cases "frames = []")
  case False
  with assms obtain a where "mcr_primary L frames a f w = Inr (st, sent, f', w')"
    by (auto simp: process_batch_def process_batch_mcr_def Let_def bindr_def split: sum.splits)
  then show ?thesis by (auto simp: mcr_primary_def Let_def bindr_def split: sum.splits)
qed (use assms in \<open>simp add: process_batch_def process_batch_mcr_def\<close>)

lemma run_on_mock_primary:
  assumes "lib_ok L" "proc_ok (routes f) w" "mcr_enabled f" "mcr_spray_mode f \<noteq> ''full''"
    and "cap (arena f) \<le> 2 ^ 61" "length p \<le> 2 ^ 60"
  shows "\<exists>w'. run_on_mock L threads sched f (build_socket [p]) w =
      Inr (count_outcomes [snd (primary_spec L (routes f) (fsession f) p)] (stats_of 1),
           \<lparr>m_frames = [], m_sent = [fst (primary_spec L (routes f) (fsession f) p)]\<rparr>, w')
    \<and> epoch w' = epoch w \<and> packets_processed w' = packets_processed w + 1
    \<and> (\<forall>th. th \<noteq> 0 \<longrightarrow> tcaches w' th = tcaches w th \<and> scaches w' th = scaches w th)"
proof -
  let ?out = "primary_spec L (routes f) (fsession f) p"
  have "arena_fits (sum_list (map length [p]) + length [p] * TAG_SIZE) (arena f)"
    using assms(5,6) by (simp add: arena_fits_def TAG_SIZE_def)
  then obtain a where a: "arena_reserve (sum_list (map length [p]) + length [p] * TAG_SIZE) (arena_clear (arena f)) = Inr a"
    "content a = []" "sum_list (map length [p]) + length [p] * TAG_SIZE \<le> cap a"
    using reserve_cleared by blast
  have e: "process_batch L threads sched [p] f w = mcr_primary L [p] a f w"
    using a(1) assms(3,4) by (simp add: process_batch_def process_batch_mcr_def bindr_def)
  from mcr_primary_result [OF lib_ok_length [OF assms(1)] assms(2) a(2,3)]
  obtain sent f' w' where r: "process_batch L threads sched [p] f w = Inr (count_outcomes [snd ?out] (stats_of 1), Some sent, f', w')"
    "fst sent = fst ?out" "snd sent = [(0, length (fst ?out))]" "packets_processed w' = packets_processed w + 1"
    unfolding e mcr_result_def batch_result_def by auto
  then show ?thesis
    using primary_own_caches [OF r(1) assms(3,4)]
    by (cases sent) (simp add: run_on_mock_def build_socket_def mock_poll_def mock_send_def subslice_def bindr_def)
qed

text \<open>A process none of whose threads has looked anything up yet.\<close>

definition fresh_node :: "process \<Rightarrow> bool" where
  "fresh_node w \<longleftrightarrow> 0 < epoch w \<and> (\<forall>th. tcaches w th = thread_cache_init \<and> scaches w th = spray_cache_init)"

lemma fresh_proc_ok: "fresh_node w \<Longrightarrow> proc_ok t w"
  by (simp add: fresh_node_def proc_ok_def cache_ok_init spray_ok_init)

definition demo_stats :: "bool \<Rightarrow> fw_stats" where
  "demo_stats hit = \<lparr>received = 1, forwarded = (if hit then 0 else 1), encrypted = (if hit then 1 else 0),
     route_misses = (if hit then 0 else 1)\<rparr>"

definition routes_demo :: "control_request \<Rightarrow> bool" where
  "routes_demo req \<longleftrightarrow> last_update (fill_arr 2) (route_updates req) \<noteq> None"

lemma demo_run:
  assumes "lib_ok L" "primary_env env" "fresh_node w" "single_channel t"
    and "f = fst (forwarder_with_session L env t s i kc)"
  shows "\<exists>w' m. run_on_mock L threads sched f (build_socket [demo_bytes]) w =
      Inr (demo_stats (hop_of t (fill_arr 2) \<noteq> None), m, w')
    \<and> epoch w' = epoch w \<and> packets_processed w' = packets_processed w + 1
    \<and> (\<forall>th. th \<noteq> 0 \<longrightarrow> tcaches w' th = thread_cache_init \<and> scaches w' th = spray_cache_init)"
proof -
  note parts = forwarder_with_session_parts [of L env t s i kc, folded assms(5)]
  obtain s' where s': "fsession f = Some s'" using session_made [OF assms(1), of s i kc] parts(5) by auto
  have "snd (primary_spec L t (Some s') demo_bytes) = (if hop_of t (fill_arr 2) = None then Missed else Encrypted)"
    by (rule demo_outcome [OF assms(1,4)])
  then have st: "count_outcomes [snd (primary_spec L (routes f) (fsession f) demo_bytes)] (stats_of 1) =
      demo_stats (hop_of t (fill_arr 2) \<noteq> None)"
    by (simp add: parts(1) s' count_outcomes_def stats_of_def demo_stats_def)
  have "proc_ok (routes f) w" using fresh_proc_ok [OF assms(3)] by simp
  from run_on_mock_primary [OF assms(1) this, of demo_bytes threads sched] parts(2-4) assms(2,3) st show ?thesis
    by (auto simp: primary_env_def ARENA_INIT_def demo_fields fresh_node_def)
qed

lemma epoch_advance: "unat (ep :: u64) + n < 2 ^ 64 \<Longrightarrow> unat (ep + of_nat n) = unat ep + n"
  by (simp add: unat_word_ariths unat_of_nat take_bit_nat_eq_self)

lemma worker_body_ok:
  assumes "lib_ok L" "primary_env env" "fresh_node w" "unat (epoch w) + length (route_updates req) < 2 ^ 64"
  shows "\<exists>kc' w'. worker_body L threads sched b64 env clock req demo_bytes (kc, w) =
      (Inr (demo_stats (routes_demo req)), kc', w')
    \<and> fresh_node w' \<and> epoch w' = epoch w + of_nat (length (route_updates req))
    \<and> packets_processed w' = packets_processed w + 1"
proof -
  obtain t ep where t: "add_routes clock 0 (route_updates req) (table_new, epoch w) = (t, ep)" by fastforce
  obtain s i where si: "request_material b64 req = (s, i)" by fastforce
  obtain f kc' where f: "forwarder_with_session L env t s i kc = (f, kc')" by fastforce
  from add_routes_ok [of "(table_new, epoch w)" clock 0 "route_updates req" "fill_arr 2"] t
  have te: "single_channel t" "ep = epoch w + of_nat (length (route_updates req))"
    "hop_of t (fill_arr 2) \<noteq> None \<longleftrightarrow> routes_demo req"
    by (auto simp: table_wf_new single_channel_new hop_of_new routes_demo_def split: option.splits)
  let ?w = "w\<lparr>epoch := ep, tcaches := (tcaches w)(0 := thread_cache_init), scaches := (scaches w)(0 := spray_cache_init)\<rparr>"
  have "0 < unat ep" using assms(3,4) epoch_advance [OF assms(4)] by (simp add: te(2) fresh_node_def word_less_nat_alt)
  then have pos: "0 < ep" by (simp add: word_less_nat_alt)
  with assms(3) have "fresh_node ?w" by (simp add: fresh_node_def)
  from demo_run [OF assms(1,2) this te(1), of f s i kc threads sched] f te(3)
  obtain w' m where r: "run_on_mock L threads sched f (build_socket [demo_bytes]) ?w = Inr (demo_stats (routes_demo req), m, w')"
    "epoch w' = ep" "packets_processed w' = packets_processed w + 1"
    "\<forall>th. th \<noteq> 0 \<longrightarrow> tcaches w' th = thread_cache_init \<and> scaches w' th = spray_cache_init"
    by auto
  have "worker_body L threads sched b64 env clock req demo_bytes (kc, w) = (Inr (demo_stats (routes_demo req)), kc',
      w'\<lparr>tcaches := (tcaches w')(0 := tcaches w 0), scaches := (scaches w')(0 := scaches w 0)\<rparr>)"
    using r(1) by (simp add: worker_body_def build_forwarder_from_request_def t si f on_new_thread_def bindr_def)
  then show ?thesis
    using r(2-4) te(2) pos assms(3) by (auto simp: fresh_node_def)
qed

lemma spawn_workers_ok:
  assumes "lib_ok L" "primary_env env"
  shows "fresh_node w \<Longrightarrow> unat (epoch w) + length plan * length (route_updates req) < 2 ^ 64 \<Longrightarrow>
    \<exists>kc' w'. spawn_workers (\<lambda>i. worker_body L threads sched b64 env (clocks i) req demo_bytes) plan (kc, w) =
      (replicate (length plan) (Inr (demo_stats (routes_demo req))), kc', w')
    \<and> fresh_node w' \<and> epoch w' = epoch w + of_nat (length plan * length (route_updates req))
    \<and> packets_processed w' = packets_processed w + of_nat (length plan)"
proof (induction plan arbitrary: kc w)
  case (Cons a plan)
  let ?k = "length (route_updates req)"
  from Cons.prems have lt: "unat (epoch w) + ?k < 2 ^ 64" by simp
  obtain kc1 w1 where w1: "worker_body L threads sched b64 env (clocks (worker_index a)) req demo_bytes (kc, w) =
      (Inr (demo_stats (routes_demo req)), kc1, w1)"
    "fresh_node w1" "epoch w1 = epoch w + of_nat ?k" "packets_processed w1 = packets_processed w + 1"
    using worker_body_ok [OF assms Cons.prems(1) lt] by blast
  have "unat (epoch w1) + length plan * ?k < 2 ^ 64" using Cons.prems(2) epoch_advance [OF lt] by (simp add: w1(3))
  from Cons.IH [OF w1(2) this, of kc1] obtain kc' w' where w':
    "spawn_workers (\<lambda>i. worker_body L threads sched b64 env (clocks i) req demo_bytes) plan (kc1, w1) =
      (replicate (length plan) (Inr (demo_stats (routes_demo req))), kc', w')"
    "fresh_node w'" "epoch w' = epoch w1 + of_nat (length plan * ?k)"
    "packets_processed w' = packets_processed w1 + of_nat (length plan)"
    by blast
  from w' w1 show ?case by (simp add: distrib_right)
qed simp

lemma run_demo_ok:
  assumes "lib_ok L" "primary_env env" "fresh_node w" "unat (epoch w) + 1 < 2 ^ 64"
  shows "\<exists>kc' w'. run_demo L threads sched env clock (kc, w) = Inr (demo_stats True, kc', w')
    \<and> packets_processed w' = packets_processed w + 1"
proof -
  let ?u = "\<lparr>ru_dest_id = fill_arr 2, ru_next_hop_id = fill_arr 3, ru_next_hop_mac = None, ru_metric = Some 1, ru_last_seen = None\<rparr>"
  obtain t ep where t: "update_route (clock 1) (entry_of (clock 0) ?u) (table_new, epoch w) = (t, ep)" by fastforce
  obtain f kc' where f: "forwarder_with_session L env t default_secret default_info kc = (f, kc')" by fastforce
  from update_route_entry [OF _ _ t [symmetric], of "fill_arr 2"]
  have te: "single_channel t" "ep = epoch w + 1" "hop_of t (fill_arr 2) \<noteq> None"
    by (simp_all add: table_wf_new single_channel_new)
  have "0 < unat ep" using assms(3,4) epoch_advance [of "epoch w" 1] by (simp add: te(2) fresh_node_def word_less_nat_alt)
  with assms(3) have "fresh_node (w\<lparr>epoch := ep\<rparr>)" by (simp add: fresh_node_def word_less_nat_alt)
  from demo_run [OF assms(1,2) this te(1), of f default_secret default_info kc threads sched] f te(3)
  obtain w' m where "run_on_mock L threads sched f (build_socket [demo_bytes]) (w\<lparr>epoch := ep\<rparr>) = Inr (demo_stats True, m, w')"
    "packets_processed w' = packets_processed w + 1"
    by auto
  then show ?thesis by (simp add: run_demo_def t [unfolded One_nat_def] f demo_packet_eq bindr_def)
qed

lemma join_equal: "join_workers (replicate n (Inr st)) acc = Inr \<lparr>received = received acc + n * received st,
    forwarded = forwarded acc + n * forwarded st, encrypted = encrypted acc + n * encrypted st,
    route_misses = route_misses acc + n * route_misses st\<rparr>"
  by (induction n arbitrary: acc) (simp_all add: add_worker_stats_def)

lemma plan_length: "length (build_worker_plan n cs) = n"
  by (simp add: build_worker_plan_def Let_def)

lemma run_pinned_workers_ok:
  assumes "lib_ok L" and "primary_env env" and "fresh_node w"
    and "n = max (unat (rc_num_workers (runtime_config req))) 1"
    and "unat (epoch w) + n * length (route_updates req) < 2 ^ 64"
  shows "\<exists>st kc' w'. run_pinned_workers L threads sched b64 env available clocks req (kc, w) = Inr (st, kc', w')
    \<and> st = \<lparr>received = n, forwarded = (if routes_demo req then 0 else n), encrypted = (if routes_demo req then n else 0),
             route_misses = (if routes_demo req then 0 else n)\<rparr>
    \<and> packets_processed w' = packets_processed w + of_nat n
    \<and> epoch w' = epoch w + of_nat (n * length (route_updates req))
    \<and> health_state (render_telemetry st (Some req)) = (if routes_demo req then ''ok'' else ''degraded'')"
proof -
  let ?plan = "build_worker_plan n (resolve_worker_cores env available)"
  let ?st = "\<lparr>received = n, forwarded = (if routes_demo req then 0 else n), encrypted = (if routes_demo req then n else 0),
             route_misses = (if routes_demo req then 0 else n)\<rparr>"
  obtain kc' w' where s: "spawn_workers (\<lambda>i. worker_body L threads sched b64 env (clocks i) req demo_bytes) ?plan (kc, w) =
      (replicate n (Inr (demo_stats (routes_demo req))), kc', w')"
    "epoch w' = epoch w + of_nat (n * length (route_updates req))" "packets_processed w' = packets_processed w + of_nat n"
    using spawn_workers_ok [OF assms(1-3), of ?plan req threads sched b64 clocks kc] assms(5) by (auto simp: plan_length)
  have n: "0 < n" using assms(4) by simp
  have "run_pinned_workers L threads sched b64 env available clocks req (kc, w) = Inr (?st, kc', w')"
    unfolding run_pinned_workers_def Let_def assms(4) [symmetric] demo_packet_eq
    by (simp add: s(1) bindr_def join_equal stats_of_def demo_stats_def)
  moreover have "health_state (render_telemetry ?st (Some req)) = (if routes_demo req then ''ok'' else ''degraded'')"
    using n by (simp add: render_telemetry_def Let_def)
  ultimately show ?thesis using s(2,3) by blast
qed

text \<open>Two workers, one route to the destination of the demo packet, a secret that is not Base64.\<close>

definition example_config :: runtime_config where
  "example_config = \<lparr>rc_iface = ''eth0'', rc_queue_id = 0, rc_zero_copy = False, rc_num_frames = 64, rc_frame_size = 2048,
     rc_batch_size = 32, rc_batch_size_min = Some 8, rc_batch_size_max = Some 64, rc_num_workers = 2,
     rc_fill_threshold = Some 128, rc_fill_adaptive = False, rc_fill_adapt_factor = None, rc_fill_ema_alpha = None,
     rc_fill_min = None, rc_fill_max = None, rc_metrics_addr = None, rc_dry_run = False\<rparr>"

definition example_update :: session_update where
  "example_update = \<lparr>su_session_id = fill_arr 0, su_flow_label = None, su_action = ''add'', su_secret = Some ''?'', su_info = None\<rparr>"

definition example_request :: control_request where
  "example_request = \<lparr>runtime_config = example_config,
     route_updates = [\<lparr>ru_dest_id = fill_arr 2, ru_next_hop_id = fill_arr 9, ru_next_hop_mac = None, ru_metric = None, ru_last_seen = None\<rparr>],
     session_updates = [example_update], feature_flags = \<lparr>stub_mode = False, enable_metrics = False,
       enable_adaptive_fill = False, enable_zero_copy = False\<rparr>\<rparr>"

lemma example_node: "fresh_node example_process" "primary_env (\<lambda>_. None)" "epoch example_process = 2"
  by (simp_all add: fresh_node_def example_process_def primary_env_def get_mcr_enabled_def get_mcr_spray_mode_def)

lemma example_routes_demo: "routes_demo example_request" "length (route_updates example_request) = 1"
  by (simp_all add: routes_demo_def last_update_def example_request_def)

subsection \<open>Properties\<close>

text \<open>C15. A request makes the forwarder it describes: its table is well formed and routes every
  destination to the next hop of the last update for it, and to nothing when there is none;
  the epoch advances once per update, so no cached answer survives; the arena is empty and the
  spray mode is that of the environment. Its session is the one of the first session update whose
  action is ``add'', whether that can be used or not: its secret and its info each count when they
  are there, decode and are not empty, and the constants of the program stand in for each that does
  not; a later update is never looked at.\<close>

theorem request_builds_forwarder:
  "let added = List.find (\<lambda>u. su_action u = ''add'') (session_updates req);
       material = (\<lambda>builtin field. case Option.bind (Option.bind added field) b64 of
          None \<Rightarrow> builtin | Some bs \<Rightarrow> if bs = [] then builtin else bs);
       session = HybridSession_new L (material (replicate 32 0x42) su_secret) (material (ascii ''cli-demo'') su_info) kc
   in case build_forwarder_from_request L b64 env clock req (kc, w) of (f, kc', w') \<Rightarrow>
     table_wf (routes f)
     \<and> (\<forall>d. hop_of (routes f) d = map_option ru_next_hop_id (last_update d (route_updates req)))
     \<and> epoch w' = epoch w + of_nat (length (route_updates req))
     \<and> fsession f = (case fst session of Inl _ \<Rightarrow> None | Inr s \<Rightarrow> Some s) \<and> kc' = snd session
     \<and> content (arena f) = [] \<and> mcr_enabled f = get_mcr_enabled env \<and> mcr_spray_mode f = get_mcr_spray_mode env"
proof -
  define added where "added = List.find (\<lambda>u. su_action u = ''add'') (session_updates req)"
  define material where "material = (\<lambda>builtin field. case Option.bind (Option.bind added field) b64 of
          None \<Rightarrow> builtin | Some bs \<Rightarrow> if bs = [] then builtin else bs)"
  let ?s = "material (replicate 32 0x42) su_secret" and ?i = "material (ascii ''cli-demo'') su_info"
  obtain t ep where t: "add_routes clock 0 (route_updates req) (table_new, epoch w) = (t, ep)" by fastforce
  have si: "request_material b64 req = (?s, ?i)"
    unfolding request_material_def added_def [symmetric] material_def
    by (cases added) (auto simp: secret_bytes_def info_bytes_def default_secret_def default_info_def Let_def split: option.splits)
  obtain f kc' where f: "forwarder_with_session L env t ?s ?i kc = (f, kc')" by fastforce
  then have kc': "kc' = snd (HybridSession_new L ?s ?i kc)" by (simp add: forwarder_with_session_def split_def Let_def)
  have "hop_of t d = map_option ru_next_hop_id (last_update d (route_updates req))" for d
    using add_routes_ok [of "(table_new, epoch w)" clock 0 "route_updates req" d] t
    by (auto simp: table_wf_new single_channel_new hop_of_new split: option.splits)
  then have "case build_forwarder_from_request L b64 env clock req (kc, w) of (f, kc', w') \<Rightarrow>
     table_wf (routes f)
     \<and> (\<forall>d. hop_of (routes f) d = map_option ru_next_hop_id (last_update d (route_updates req)))
     \<and> epoch w' = epoch w + of_nat (length (route_updates req))
     \<and> fsession f = (case fst (HybridSession_new L ?s ?i kc) of Inl _ \<Rightarrow> None | Inr s \<Rightarrow> Some s)
     \<and> kc' = snd (HybridSession_new L ?s ?i kc)
     \<and> content (arena f) = [] \<and> mcr_enabled f = get_mcr_enabled env \<and> mcr_spray_mode f = get_mcr_spray_mode env"
    using add_routes_ok [of "(table_new, epoch w)" clock 0 "route_updates req"] t f kc'
      forwarder_with_session_parts [of L env t ?s ?i kc]
    by (simp add: build_forwarder_from_request_def si table_wf_new single_channel_new)
  then show ?thesis unfolding Let_def material_def added_def .
qed

text \<open>The first added session has a secret that does not decode, the second a good one: the built-in
  key is used.\<close>

theorem request_builds_forwarder_witness:
  "case build_forwarder_from_request toy_lib (\<lambda>v. if v = ''Bw=='' then Some [7] else None) (\<lambda>_. None) (\<lambda>_. 5)
     (example_request\<lparr>session_updates := [example_update, example_update\<lparr>su_secret := Some ''Bw==''\<rparr>]\<rparr>) (Map.empty, example_process) of
     (f, kc', w') \<Rightarrow> hop_of (routes f) (fill_arr 2) = Some (fill_arr 9) \<and> epoch w' = 3
       \<and> fsession f = (case fst (HybridSession_new toy_lib (replicate 32 0x42) (ascii ''cli-demo'') Map.empty) of
           Inl _ \<Rightarrow> None | Inr s \<Rightarrow> Some s)"
  using request_builds_forwarder [where L = toy_lib and ?b64.0 = "\<lambda>v. if v = ''Bw=='' then Some [7] else None" and env = "\<lambda>_. None"
      and clock = "\<lambda>_. 5" and kc = Map.empty and w = example_process
      and req = "example_request\<lparr>session_updates := [example_update, example_update\<lparr>su_secret := Some ''Bw==''\<rparr>]\<rparr>"]
  unfolding Let_def
  by (auto simp: example_node(3) split: prod.splits) (simp_all add: example_request_def example_update_def last_update_def)

text \<open>A secret that cannot be used is replaced in silence: when the secret of the added session
  is not Base64, or decodes to nothing, the forwarder is the very one the request without the
  secret gets, keyed from the constant that is part of the program.\<close>

theorem unusable_secret_uses_builtin_key:
  assumes "List.find (\<lambda>u. su_action u = ''add'') (session_updates req) = Some u"
    and "su_secret u = Some v" and "b64 v = None \<or> b64 v = Some []"
  shows "build_forwarder_from_request L b64 env clock req nd =
      build_forwarder_from_request L b64 env clock (req\<lparr>session_updates := [u\<lparr>su_secret := None\<rparr>]\<rparr>) nd
    \<and> fst (request_material b64 req) = replicate 32 0x42"
proof -
  have "su_action u = ''add''" using assms(1) by (auto simp: find_Some_iff)
  with assms have "request_material b64 req = request_material b64 (req\<lparr>session_updates := [u\<lparr>su_secret := None\<rparr>]\<rparr>)"
    "fst (request_material b64 req) = replicate 32 0x42"
    by (auto simp: request_material_def Let_def secret_bytes_def info_bytes_def default_secret_def split: option.splits)
  then show ?thesis by (simp add: build_forwarder_from_request_def)
qed

theorem unusable_secret_uses_builtin_key_witness:
  "build_forwarder_from_request toy_lib (\<lambda>_. None) (\<lambda>_. None) (\<lambda>_. 5) example_request (Map.empty, example_process) =
     build_forwarder_from_request toy_lib (\<lambda>_. None) (\<lambda>_. None) (\<lambda>_. 5)
       (example_request\<lparr>session_updates := [example_update\<lparr>su_secret := None\<rparr>]\<rparr>) (Map.empty, example_process)
   \<and> fst (request_material (\<lambda>_. None) example_request) = replicate 32 0x42"
  by (rule unusable_secret_uses_builtin_key [of _ _ "''?''"]) (simp_all add: example_request_def example_update_def)

text \<open>What the workers of a request report: in primary mode every worker of the plan receives
  the demo packet and sends one packet, sealed exactly when the request routes its destination;
  the sums, the packet counter and the epoch account for every worker, no worker faults, and the
  telemetry says ``ok'' exactly when the route is there.\<close>

theorem pinned_workers_report:
  assumes "lib_ok L" and "primary_env env" and "fresh_node w"
    and "n = max (unat (rc_num_workers (runtime_config req))) 1"
    and "unat (epoch w) + n * length (route_updates req) < 2 ^ 64"
  shows "\<exists>st kc' w'. run_pinned_workers L threads sched b64 env available clocks req (kc, w) = Inr (st, kc', w')
    \<and> st = \<lparr>received = n, forwarded = (if routes_demo req then 0 else n), encrypted = (if routes_demo req then n else 0),
             route_misses = (if routes_demo req then 0 else n)\<rparr>
    \<and> packets_processed w' = packets_processed w + of_nat n
    \<and> epoch w' = epoch w + of_nat (n * length (route_updates req))
    \<and> health_state (render_telemetry st (Some req)) = (if routes_demo req then ''ok'' else ''degraded'')"
  by (rule run_pinned_workers_ok [OF assms])

theorem pinned_workers_report_witness:
  "\<exists>st kc' w'. run_pinned_workers toy_lib 4 [] (\<lambda>_. None) (\<lambda>_. None) [0, 1] (\<lambda>_ _. 5) example_request (Map.empty, example_process)
      = Inr (st, kc', w')
    \<and> st = \<lparr>received = 2, forwarded = 0, encrypted = 2, route_misses = 0\<rparr>
    \<and> health_state (render_telemetry st (Some example_request)) = ''ok''"
  using pinned_workers_report [OF toy_lib_ok example_node(2,1), of 2 example_request 4 "[]" "\<lambda>_. None" "[0, 1]" "\<lambda>_ _. 5" Map.empty]
  by (simp add: example_routes_demo example_node(3)) (auto simp: example_request_def example_config_def)

end
