(* ===== verification/Cli_Main.thy ===== *)
theory Cli_Main
  imports Bridge_Run
begin

text \<open>
  The entry point of the command line (\<open>main\<close> of \<open>cli/src/main.rs\<close>): the options that end the
  process early, reading a bridge request, and the choice between the bridge, the servers and
  the demo. The environment is a map from names to values, \<open>fs\<close> is what a file holds (or
  \<open>None\<close> when it cannot be read) and \<open>parse_json\<close> is \<open>serde_json\<close>. What is printed is the
  \<open>run_end\<close> of the process; a server that was asked for is listed, not run.
\<close>

subsection \<open>Arguments\<close>

definition parse_flag :: "string list \<Rightarrow> string \<Rightarrow> bool" where
  "parse_flag args flag = list_ex (\<lambda>arg. arg = flag) args"

fun position :: "'a \<Rightarrow> 'a list \<Rightarrow> nat option" where
  "position x [] = None"
| "position x (y # ys) = (if y = x then Some 0 else map_option Suc (position x ys))"

definition get_arg :: "string list \<Rightarrow> nat \<Rightarrow> string option" where
  "get_arg args i = (if i < length args then Some (args ! i) else None)"

datatype found = Absent | NoValue | Value string

definition option_value :: "string list \<Rightarrow> string \<Rightarrow> found" where
  "option_value args name =
     (case position name args of
        None \<Rightarrow> Absent
      | Some i \<Rightarrow> (case get_arg args (i + 1) of None \<Rightarrow> NoValue | Some v \<Rightarrow> Value v))"

datatype read_error = MissingValue | ReadFailed | ParseFailed

definition read_bridge_request ::
    "(string \<Rightarrow> control_request option) \<Rightarrow> (string \<Rightarrow> string option) \<Rightarrow> (string \<Rightarrow> string option) \<Rightarrow> string list \<Rightarrow>
       read_error + control_request option" where
  "read_bridge_request parse_json fs env args =
     (case option_value args ''--bridge-request'' of
        NoValue \<Rightarrow> Inl MissingValue
      | Value path \<Rightarrow>
          (case fs path of
             None \<Rightarrow> Inl ReadFailed
           | Some data \<Rightarrow> (case parse_json data of None \<Rightarrow> Inl ParseFailed | Some req \<Rightarrow> Inr (Some req)))
      | Absent \<Rightarrow>
          (case env ''MOHAWK_BRIDGE_REQUEST'' of
             Some data \<Rightarrow> (case parse_json data of None \<Rightarrow> Inl ParseFailed | Some req \<Rightarrow> Inr (Some req))
           | None \<Rightarrow> Inr None))"

subsection \<open>The process\<close>

datatype service = MetricsReporter | MetricsSocket string | MetricsHttp string

datatype run_end =
    Exit nat
  | Help
  | BridgeReport string nat nat telemetry
  | ServeForever "service list"
  | DemoReport "service list" fw_stats
  | Faulted fault

text \<open>\<open>--real\<close> and \<open>--freelist-headroom\<close> set variables of the environment or end the process with
  code 2.\<close>

definition apply_real :: "string list \<Rightarrow> (string \<Rightarrow> string option) \<Rightarrow> (string \<Rightarrow> string option) option" where
  "apply_real args env =
     (if parse_flag args ''--real'' then
        let env = (case option_value args ''--iface'' of Value iface \<Rightarrow> env(''MOHAWK_IFACE'' \<mapsto> iface) | _ \<Rightarrow> env)
        in if env ''MOHAWK_IFACE'' = None then None else Some env
      else Some env)"

definition apply_headroom :: "string list \<Rightarrow> (string \<Rightarrow> string option) \<Rightarrow> (string \<Rightarrow> string option) option" where
  "apply_headroom args env =
     (case option_value args ''--freelist-headroom'' of
        Absent \<Rightarrow> Some env
      | NoValue \<Rightarrow> None
      | Value v \<Rightarrow> (case parse_usize v of Inr _ \<Rightarrow> Some (env(''MOHAWK_FREELIST_HEADROOM'' \<mapsto> v)) | Inl _ \<Rightarrow> None))"

definition run_bridge ::
    "crypto_lib \<Rightarrow> nat \<Rightarrow> (nat \<times> nat) list \<Rightarrow> (string \<Rightarrow> bytes option) \<Rightarrow> (string \<Rightarrow> string option) \<Rightarrow> nat list \<Rightarrow>
       (nat \<Rightarrow> nat \<Rightarrow> nat) \<Rightarrow> control_request \<Rightarrow> node \<Rightarrow> run_end \<times> node" where
  "run_bridge L threads sched b64 env available clocks req nd =
     (case validate req of
        Inl _ \<Rightarrow> (Exit 1, nd)
      | Inr _ \<Rightarrow>
          let workers = unat (rc_num_workers (runtime_config req)) in
          case (if 1 < workers then run_pinned_workers L threads sched b64 env available clocks req nd
                else run_demo L threads sched env (clocks 0) nd) of
            Inl e \<Rightarrow> (Faulted e, nd)
          | Inr (st, nd) \<Rightarrow>
              (BridgeReport (rc_iface (runtime_config req)) (length (route_updates req)) workers (render_telemetry st (Some req)), nd))"

definition services_of :: "string list \<Rightarrow> service list" where
  "services_of args =
     (if parse_flag args ''--metrics'' then [MetricsReporter] else [])
     @ (case option_value args ''--metrics-socket'' of Value s \<Rightarrow> [MetricsSocket s] | _ \<Rightarrow> [])
     @ (case option_value args ''--metrics-http'' of Value a \<Rightarrow> [MetricsHttp a] | _ \<Rightarrow> [])"

text \<open>Without a request: serve the metrics that were asked for, or run the demo, or print the help.\<close>

definition serve_or_demo ::
    "crypto_lib \<Rightarrow> nat \<Rightarrow> (nat \<times> nat) list \<Rightarrow> (nat \<Rightarrow> nat) \<Rightarrow> string list \<Rightarrow> (string \<Rightarrow> string option) \<Rightarrow> node \<Rightarrow> run_end \<times> node" where
  "serve_or_demo L threads sched clock args env nd =
     (let services = services_of args in
      if services \<noteq> [] \<and> \<not> parse_flag args ''--demo'' then (ServeForever services, nd)
      else if \<not> parse_flag args ''--demo'' then (Help, nd)
      else case run_demo L threads sched env clock nd of
             Inl e \<Rightarrow> (Faulted e, nd)
           | Inr (st, nd) \<Rightarrow> (DemoReport services st, nd))"

definition run_main ::
    "crypto_lib \<Rightarrow> nat \<Rightarrow> (nat \<times> nat) list \<Rightarrow> (string \<Rightarrow> bytes option) \<Rightarrow> (string \<Rightarrow> control_request option) \<Rightarrow>
       (string \<Rightarrow> string option) \<Rightarrow> nat list \<Rightarrow> (nat \<Rightarrow> nat \<Rightarrow> nat) \<Rightarrow> string list \<Rightarrow> (string \<Rightarrow> string option) \<Rightarrow> node \<Rightarrow> run_end \<times> node" where
  "run_main L threads sched b64 parse_json fs available clocks args env nd =
     (case apply_real args env of
        None \<Rightarrow> (Exit 2, nd)
      | Some env \<Rightarrow>
     (case apply_headroom args env of
        None \<Rightarrow> (Exit 2, nd)
      | Some env \<Rightarrow>
          if parse_flag args ''--help'' \<or> parse_flag args ''-h'' then (Help, nd)
          else case read_bridge_request parse_json fs env args of
                 Inl _ \<Rightarrow> (Exit 1, nd)
               | Inr (Some req) \<Rightarrow> run_bridge L threads sched b64 env available clocks req nd
               | Inr None \<Rightarrow> serve_or_demo L threads sched (clocks 0) args env nd))"

subsection \<open>Properties\<close>

lemma preflight_env:
  assumes "apply_real args env = Some env1" "apply_headroom args env1 = Some env2"
  shows "get_mcr_enabled env2 = get_mcr_enabled env" "get_mcr_spray_mode env2 = get_mcr_spray_mode env"
  using assms
  by (auto simp: apply_real_def apply_headroom_def get_mcr_enabled_def get_mcr_spray_mode_def Let_def
      split: if_splits found.splits sum.splits)

lemma run_bridge_single:
  assumes "lib_ok L" "primary_env env" "fresh_node w" "unat (epoch w) + 1 < 2 ^ 64"
    and "validate req = Inr ()" "unat (rc_num_workers (runtime_config req)) \<le> 1"
  shows "\<exists>nd'. run_bridge L threads sched b64 env available clocks req (kc, w) =
    (BridgeReport (rc_iface (runtime_config req)) (length (route_updates req)) (unat (rc_num_workers (runtime_config req)))
       (render_telemetry (demo_stats True) (Some req)), nd')"
  using run_demo_ok [OF assms(1-4), of threads sched "clocks 0" kc] assms(5,6)
  by (auto simp: run_bridge_def Let_def)

lemma run_bridge_decides:
  assumes "lib_ok L" and "primary_env env" and "fresh_node w"
    and "unat (epoch w) + max (unat (rc_num_workers (runtime_config req))) 1 * max (length (route_updates req)) 1 < 2 ^ 64"
  shows "case run_bridge L threads sched b64 env available clocks req (kc, w) of (r, nd') \<Rightarrow>
    if validate req = Inr ()
    then \<exists>tele. r = BridgeReport (rc_iface (runtime_config req)) (length (route_updates req))
           (unat (rc_num_workers (runtime_config req))) tele
    else r = Exit 1 \<and> nd' = (kc, w)"
proof (cases "validate req = Inr ()")
  case False
  then show ?thesis by (cases "validate req") (simp_all add: run_bridge_def)
next
  case valid: True
  let ?n = "unat (rc_num_workers (runtime_config req))" and ?k = "length (route_updates req)"
  show ?thesis
  proof (cases "?n \<le> 1")
    case True
    have "unat (epoch w) + 1 < 2 ^ 64" using assms(4) by (cases "?n"; cases "?k") auto
    from run_bridge_single [OF assms(1-3) this valid True, of threads sched b64 available clocks kc] valid
    show ?thesis by auto
  next
    case False
    then have "max ?n 1 * ?k \<le> max ?n 1 * max ?k 1" by (intro mult_le_mono2) simp
    with assms(4) have "unat (epoch w) + max ?n 1 * ?k < 2 ^ 64" by linarith
    from run_pinned_workers_ok [OF assms(1-3) refl this, of threads sched b64 available clocks kc] False valid
    show ?thesis by (auto simp: run_bridge_def Let_def)
  qed
qed



text \<open>With one worker or none a valid request is only reported, not applied: the demo runs on its
  own table with its own key and the telemetry says one packet was encrypted and all is well,
  whatever routes and sessions the request holds.\<close>

theorem single_worker_ignores_request:
  assumes "lib_ok L" and "primary_env env" and "fresh_node w" and "unat (epoch w) + 1 < 2 ^ 64"
    and "validate req = Inr ()" and "unat (rc_num_workers (runtime_config req)) \<le> 1"
  shows "\<exists>tele nd'. run_bridge L threads sched b64 env available clocks req (kc, w) =
      (BridgeReport (rc_iface (runtime_config req)) (length (route_updates req)) (unat (rc_num_workers (runtime_config req))) tele, nd')
    \<and> health_state tele = ''ok''
    \<and> forwarder_stats tele = \<lparr>received = 1, forwarded = 0, encrypted = 1, route_misses = 0\<rparr>"
  using run_bridge_single [OF assms] by (fastforce simp: render_telemetry_def Let_def demo_stats_def)

theorem single_worker_ignores_request_witness:
  "\<exists>tele nd'. run_bridge toy_lib 4 [] (\<lambda>_. None) (\<lambda>_. None) [0, 1] (\<lambda>_ _. 5)
      (example_request\<lparr>runtime_config := example_config\<lparr>rc_num_workers := 1\<rparr>, route_updates := []\<rparr>) (Map.empty, example_process) =
      (BridgeReport ''eth0'' 0 1 tele, nd')
    \<and> health_state tele = ''ok'' \<and> forwarder_stats tele = \<lparr>received = 1, forwarded = 0, encrypted = 1, route_misses = 0\<rparr>"
  using single_worker_ignores_request [OF toy_lib_ok example_node(2,1),
      of "example_request\<lparr>runtime_config := example_config\<lparr>rc_num_workers := 1\<rparr>, route_updates := []\<rparr>"
         4 "[]" "\<lambda>_. None" "[0, 1]" "\<lambda>_ _. 5" Map.empty]
  by (simp add: example_node(3) validate_def example_config_def)

end
