(* ===== verification/Control.thy ===== *)
theory Control
  imports Xdp_Socket Workers
begin

text \<open>
  Reconfiguring sockets at run time: the registries of \<open>afxdp/src/socket.rs\<close> and
  \<open>afxdp/src/lib.rs\<close> and the HTTP handler of \<open>start_metrics_http\<close> (\<open>cli/src/main.rs\<close>) in front of
  them. A weak reference is a socket's number, alive as long as \<open>live\<close> knows it. The build
  without the feature \<open>real\<close>, whose functions do nothing, behaves as the empty registry.
  Requests are ASCII; rendering a response (JSON, the Prometheus text) is outside crates'
  work, so a response is the data it is made of.
\<close>

subsection \<open>Registered sockets\<close>

record live_socket =
  ls_label :: string
  ls_poisoned :: bool
  ls_free :: free_list

record registry =
  instances :: "nat list"
  live :: "nat \<rightharpoonup> live_socket"

definition register_socket_instance :: "nat \<Rightarrow> registry \<Rightarrow> registry" where
  "register_socket_instance i r =
     (let reg = instances r @ [i];
          reg = (if 1024 < length reg then filter (\<lambda>w. live r w \<noteq> None) reg else reg)
      in r\<lparr>instances := reg\<rparr>)"

text \<open>The socket behind a weak reference, when it is alive and its lock is not poisoned.\<close>

definition lock_instance :: "(nat \<rightharpoonup> live_socket) \<Rightarrow> nat \<Rightarrow> live_socket option" where
  "lock_instance lv i = (case lv i of None \<Rightarrow> None | Some s \<Rightarrow> if ls_poisoned s then None else Some s)"

definition put_headroom :: "nat \<Rightarrow> live_socket \<Rightarrow> u64 \<Rightarrow> (nat \<rightharpoonup> live_socket) \<Rightarrow> (nat \<rightharpoonup> live_socket)" where
  "put_headroom i s h lv = lv(i \<mapsto> s\<lparr>ls_free := set_headroom h (ls_free s)\<rparr>)"

fun headroom_all :: "nat list \<Rightarrow> u64 \<Rightarrow> (nat \<rightharpoonup> live_socket) \<Rightarrow> (string \<times> u64 \<times> u64) list \<times> (nat \<rightharpoonup> live_socket)" where
  "headroom_all [] h lv = ([], lv)"
| "headroom_all (i # reg) h lv =
     (case lock_instance lv i of
        None \<Rightarrow> headroom_all reg h lv
      | Some s \<Rightarrow> let old = fl_headroom (ls_free s);
                      (applied, lv) = headroom_all reg h (put_headroom i s h lv)
                  in ((ls_label s, old, h) # applied, lv))"

definition set_freelist_headroom_all :: "u64 \<Rightarrow> registry \<Rightarrow> (string \<times> u64 \<times> u64) list \<times> registry" where
  "set_freelist_headroom_all h r =
     (let (applied, lv) = headroom_all (instances r) h (live r) in (applied, r\<lparr>live := lv\<rparr>))"

fun headroom_for :: "nat list \<Rightarrow> string \<Rightarrow> u64 \<Rightarrow> (nat \<rightharpoonup> live_socket) \<Rightarrow> (u64 \<times> u64) option \<times> (nat \<rightharpoonup> live_socket)" where
  "headroom_for [] label h lv = (None, lv)"
| "headroom_for (i # reg) label h lv =
     (case lock_instance lv i of
        None \<Rightarrow> headroom_for reg label h lv
      | Some s \<Rightarrow> if ls_label s = label then (Some (fl_headroom (ls_free s), h), put_headroom i s h lv)
                  else headroom_for reg label h lv)"

definition set_freelist_headroom_for :: "string \<Rightarrow> u64 \<Rightarrow> registry \<Rightarrow> (u64 \<times> u64) option \<times> registry" where
  "set_freelist_headroom_for label h r =
     (let (res, lv) = headroom_for (instances r) label h (live r) in (res, r\<lparr>live := lv\<rparr>))"

fun headrooms :: "nat list \<Rightarrow> (nat \<rightharpoonup> live_socket) \<Rightarrow> (string \<times> u64) list" where
  "headrooms [] lv = []"
| "headrooms (i # reg) lv =
     (case lock_instance lv i of
        None \<Rightarrow> headrooms reg lv
      | Some s \<Rightarrow> (ls_label s, fl_headroom (ls_free s)) # headrooms reg lv)"

definition snapshot_freelist_headrooms :: "registry \<Rightarrow> (string \<times> u64) list" where
  "snapshot_freelist_headrooms r = headrooms (instances r) (live r)"

subsection \<open>Requests\<close>

fun find_sub :: "string \<Rightarrow> string \<Rightarrow> nat option" where
  "find_sub pat [] = (if pat = '''' then Some 0 else None)"
| "find_sub pat (c # cs) =
     (if take (length pat) (c # cs) = pat then Some 0 else map_option Suc (find_sub pat cs))"

definition starts_with :: "string \<Rightarrow> string \<Rightarrow> bool" where
  "starts_with s p \<longleftrightarrow> take (length p) s = p"

text \<open>\<open>split(sep).nth(1)\<close>.\<close>

definition second_part :: "string \<Rightarrow> string \<Rightarrow> string option" where
  "second_part sep s =
     (case find_sub sep s of
        None \<Rightarrow> None
      | Some i \<Rightarrow> let rest = drop (i + length sep) s
                  in Some (case find_sub sep rest of None \<Rightarrow> rest | Some j \<Rightarrow> take j rest))"

text \<open>\<open>split_whitespace().next().unwrap_or("")\<close>.\<close>

definition first_word :: "string \<Rightarrow> string" where
  "first_word s = takeWhile (\<lambda>c. \<not> is_blank c) (dropWhile is_blank s)"

definition nul :: char where "nul = CHR 0x00"
definition crlf :: string where "crlf = [CHR 0x0D, CHR 0x0A]"

text \<open>The text of the request is the whole 4096-byte buffer, of which \<open>read\<close> has filled a prefix.\<close>

definition request_text :: "string \<Rightarrow> string" where
  "request_text data = take 4096 data @ replicate (4096 - length data) nul"

datatype http_response =
    MetricsPage
  | Headrooms "(string \<times> u64) list"
  | OneResult string "u64 option" u64 bool
  | AllResults "(string \<times> u64 \<times> u64 \<times> bool) list"
  | BadRequest
  | NotFound

definition control_all :: "u64 \<Rightarrow> registry \<Rightarrow> http_response \<times> registry" where
  "control_all n r =
     (let before = snapshot_freelist_headrooms r;
          (applied, r) = set_freelist_headroom_all n r;
          results = map (\<lambda>(label, old, new). (label, old, new, True)) applied;
          failed = filter (\<lambda>(label, old). \<not> list_ex (\<lambda>(l, _, _). l = label) applied) before
      in (AllResults (results @ map (\<lambda>(label, old). (label, old, n, False)) failed), r))"

definition control_one :: "string \<Rightarrow> u64 \<Rightarrow> registry \<Rightarrow> http_response \<times> registry" where
  "control_one label n r =
     (case set_freelist_headroom_for label n r of
        (Some (old, new), r) \<Rightarrow> (OneResult label (Some old) new True, r)
      | (None, r) \<Rightarrow> (OneResult label None n False, r))"

definition label_of :: "string \<Rightarrow> string option" where
  "label_of body =
     (case find_sub ''label='' body of
        None \<Rightarrow> None
      | Some i \<Rightarrow> Some (takeWhile (\<lambda>c. c \<notin> {CHR ''&'', CHR '' '', CHR 0x0A, CHR 0x0D}) (drop (i + 6) body)))"

definition control_post :: "string \<Rightarrow> registry \<Rightarrow> http_response \<times> registry" where
  "control_post req r =
     (let body = (case second_part (crlf @ crlf) req of None \<Rightarrow> '''' | Some b \<Rightarrow> b) in
      case find_sub ''headroom='' body of
        None \<Rightarrow> (BadRequest, r)
      | Some eq \<Rightarrow>
          (case parse_usize (first_word (drop (eq + 9) body)) of
             Inl _ \<Rightarrow> (BadRequest, r)
           | Inr n \<Rightarrow>
               (case label_of body of
                  Some label \<Rightarrow> if label \<noteq> '''' then control_one label (of_nat n) r else control_all (of_nat n) r
                | None \<Rightarrow> control_all (of_nat n) r)))"

definition handle_request :: "string \<Rightarrow> registry \<Rightarrow> http_response \<times> registry" where
  "handle_request data r =
     (let req = request_text data in
      if starts_with req ''GET /metrics'' \<or> starts_with req ''GET / '' then (MetricsPage, r)
      else if starts_with req ''GET /control'' then (Headrooms (snapshot_freelist_headrooms r), r)
      else if starts_with req ''POST /control'' then control_post req r
      else (NotFound, r))"

subsection \<open>Searching\<close>

lemma find_sub_fits: "find_sub p s = Some i \<Longrightarrow> i + length p \<le> length s"
proof (induction s arbitrary: i)
  case (Cons c s)
  show ?case
  proof (cases "take (length p) (c # s) = p")
    case True
    then have "length p = min (length (c # s)) (length p)" by (metis length_take)
    with Cons.prems True show ?thesis by simp
  qed (use Cons in force)
qed (simp split: if_splits)

lemma find_sub_append: "find_sub p s = Some i \<Longrightarrow> find_sub p (s @ t) = Some i"
proof (induction s arbitrary: i)
  case Nil
  then show ?case by (cases t) (simp_all split: if_splits)
next
  case (Cons c s)
  from find_sub_fits [OF Cons.prems] have "length p \<le> length (c # s)" by simp
  then have "take (length p) (c # s @ t) = take (length p) (c # s)" by (metis append_Cons take_append diff_is_0_eq take0 append_Nil2)
  with Cons show ?case by (auto split: if_splits)
qed

lemma find_sub_absent: "p \<noteq> [] \<Longrightarrow> hd p \<notin> set s \<Longrightarrow> find_sub p s = None"
  by (induction s) (auto simp: take_Cons split: nat.splits)

lemma nul_not_blank: "\<not> is_blank nul" and nul_not_digit: "digit_of nul = None"
  by (simp_all add: nul_def is_blank_def digit_of_def)

lemma parse_digits_bad: "c \<in> set s \<Longrightarrow> digit_of c = None \<Longrightarrow> \<exists>e. parse_digits acc s = Inl e"
  by (induction s arbitrary: acc) (auto split: option.splits)

lemma parse_usize_nul: "nul \<in> set s \<Longrightarrow> \<exists>e. parse_usize s = Inl e"
proof -
  assume n: "nul \<in> set s"
  have "nul \<noteq> CHR ''+''" by (simp add: nul_def)
  with n have "nul \<in> set (if hd s = CHR ''+'' then tl s else s)" by (cases s) auto
  from parse_digits_bad [OF this nul_not_digit] show ?thesis by (auto simp: parse_usize_def)
qed

lemma first_word_noblank: "list_all (\<lambda>c. \<not> is_blank c) s \<Longrightarrow> first_word s = s"
  by (cases s) (auto simp: first_word_def list_all_iff takeWhile_eq_all_conv)

text \<open>The body the handler sees: what follows the blank line, and the rest of the buffer.\<close>

lemma seen_body:
  assumes "find_sub (crlf @ crlf) (hdr @ crlf @ crlf) = Some (length hdr)" "CHR 0x0D \<notin> set body"
    and "length (hdr @ crlf @ crlf @ body) \<le> 4096"
  shows "second_part (crlf @ crlf) (request_text (hdr @ crlf @ crlf @ body)) =
    Some (body @ replicate (4096 - length (hdr @ crlf @ crlf @ body)) nul)"
proof -
  let ?pad = "replicate (4096 - length (hdr @ crlf @ crlf @ body)) nul"
  have "request_text (hdr @ crlf @ crlf @ body) = (hdr @ crlf @ crlf) @ body @ ?pad"
    using assms(3) by (simp add: request_text_def)
  moreover have "find_sub (crlf @ crlf) ((hdr @ crlf @ crlf) @ body @ ?pad) = Some (length hdr)"
    by (rule find_sub_append [OF assms(1)])
  moreover have "find_sub (crlf @ crlf) (body @ ?pad) = None"
    using assms(2) by (intro find_sub_absent) (auto simp: crlf_def nul_def)
  moreover have "drop (length hdr + length (crlf @ crlf)) ((hdr @ crlf @ crlf) @ body @ ?pad) = body @ ?pad"
    by simp
  ultimately show ?thesis by (simp add: second_part_def Let_def)
qed

lemma starts_with_append: "starts_with s p \<Longrightarrow> starts_with (s @ t) p"
proof -
  assume p: "starts_with s p"
  then have "length p \<le> length s" unfolding starts_with_def by (metis length_take min.cobounded1)
  with p show ?thesis by (simp add: starts_with_def)
qed

lemma starts_padded: "starts_with data p \<Longrightarrow> length data \<le> 4096 \<Longrightarrow> starts_with (request_text data) p"
  using starts_with_append by (simp add: request_text_def)

lemma starts_unique:
  "starts_with s ''POST /control'' \<Longrightarrow>
   \<not> starts_with s ''GET /metrics'' \<and> \<not> starts_with s ''GET / '' \<and> \<not> starts_with s ''GET /control''"
  by (cases s) (auto simp: starts_with_def)

lemma post_dispatch:
  assumes "starts_with data ''POST /control''" "length data \<le> 4096"
  shows "handle_request data r = control_post (request_text data) r"
  using starts_unique [OF starts_padded [OF assms]] starts_padded [OF assms]
  by (simp add: handle_request_def Let_def)

subsection \<open>Setting all headrooms\<close>

lemma headrooms_cong: "(\<And>i. i \<in> set reg \<Longrightarrow> lv i = lv' i) \<Longrightarrow> headrooms reg lv = headrooms reg lv'"
  by (induction reg) (auto simp: lock_instance_def split: option.splits)

lemma headroom_all_other: "j \<notin> set reg \<Longrightarrow> snd (headroom_all reg h lv) j = lv j"
  by (induction reg h lv rule: headroom_all.induct)
    (auto simp: Let_def split_def put_headroom_def split: option.splits)

lemma headroom_all_ok:
  "distinct reg \<Longrightarrow> fst (headroom_all reg h lv) = map (\<lambda>(l, old). (l, old, h)) (headrooms reg lv)
     \<and> headrooms reg (snd (headroom_all reg h lv)) = map (\<lambda>(l, old). (l, h)) (headrooms reg lv)"
proof (induction reg h lv rule: headroom_all.induct)
  case (2 i reg h lv)
  show ?case
  proof (cases "lock_instance lv i")
    case None
    then have "lock_instance (snd (headroom_all reg h lv)) i = None"
      using 2(3) headroom_all_other [of i reg h lv] by (simp add: lock_instance_def)
    with 2 None show ?thesis by simp
  next
    case (Some s)
    let ?lv = "put_headroom i s h lv"
    have "headrooms reg ?lv = headrooms reg lv"
      using 2(3) by (intro headrooms_cong) (auto simp: put_headroom_def)
    moreover have "lock_instance (snd (headroom_all reg h ?lv)) i = Some (s\<lparr>ls_free := set_headroom h (ls_free s)\<rparr>)"
      using 2(3) Some headroom_all_other [of i reg h ?lv]
      by (auto simp: lock_instance_def put_headroom_def split: option.splits if_splits)
    ultimately show ?thesis
      using 2(2) [OF Some refl] 2(3) Some by (simp add: Let_def split_def set_headroom_def)
  qed
qed simp

lemma control_all_ok:
  assumes "distinct (instances r)"
  shows "\<exists>r'. control_all n r = (AllResults (map (\<lambda>(l, old). (l, old, n, True)) (snapshot_freelist_headrooms r)), r')
    \<and> snapshot_freelist_headrooms r' = map (\<lambda>(l, old). (l, n)) (snapshot_freelist_headrooms r)"
proof -
  let ?snap = "snapshot_freelist_headrooms r"
  obtain ap lv where a: "headroom_all (instances r) n (live r) = (ap, lv)" by fastforce
  with headroom_all_ok [OF assms, of n "live r"]
  have ap: "ap = map (\<lambda>(l, old). (l, old, n)) ?snap" "headrooms (instances r) lv = map (\<lambda>(l, old). (l, n)) ?snap"
    by (simp_all add: snapshot_freelist_headrooms_def)
  have "filter (\<lambda>(label, old). \<not> list_ex (\<lambda>(l, _, _). l = label) ap) ?snap = []"
    unfolding ap(1) by (force simp: filter_empty_conv list_ex_iff)
  then have "control_all n r = (AllResults (map (\<lambda>(label, old, new). (label, old, new, True)) ap), r\<lparr>live := lv\<rparr>)"
    by (simp add: control_all_def set_freelist_headroom_all_def a Let_def)
  with ap show ?thesis by (simp add: snapshot_freelist_headrooms_def comp_def split_def)
qed

text \<open>One socket with the free list of the example above, and the start of a request.\<close>

definition one_socket :: registry where
  "one_socket = \<lparr>instances = [0], live = [0 \<mapsto> \<lparr>ls_label = ''eth0:0'', ls_poisoned = False, ls_free = sixteen_slots\<rparr>]\<rparr>"

definition post_head :: string where "post_head = ''POST /control HTTP/1.1''"

lemma post_head_ok:
  "starts_with (post_head @ t) ''POST /control''" "find_sub (crlf @ crlf) (post_head @ crlf @ crlf) = Some (length post_head)"
  "length post_head = 22"
proof -
  have "starts_with post_head ''POST /control''" by code_simp
  then show "starts_with (post_head @ t) ''POST /control''" by (rule starts_with_append)
  show "find_sub (crlf @ crlf) (post_head @ crlf @ crlf) = Some (length post_head)" by code_simp
qed (simp add: post_head_def)

lemma one_socket_headrooms: "snapshot_freelist_headrooms one_socket = [(''eth0:0'', 8)]" "distinct (instances one_socket)"
  by (simp_all add: snapshot_freelist_headrooms_def one_socket_def lock_instance_def sixteen_slots_def)

subsection \<open>Properties\<close>

text \<open>The handler reads the unused rest of its buffer as part of the request, so a request whose
  body ends with the value, as \<open>headroom=128\<close> does, is always refused: the value is followed by
  NUL bytes, which are no blanks and no digits, and no socket is touched. It takes a blank after
  the value to be understood.\<close>

theorem control_post_refuses_final_value:
  assumes "starts_with (hdr @ crlf @ crlf @ body) ''POST /control''"
    and "find_sub (crlf @ crlf) (hdr @ crlf @ crlf) = Some (length hdr)" and "CHR 0x0D \<notin> set body"
    and "length (hdr @ crlf @ crlf @ body) < 4096"
    and "find_sub ''headroom='' body = Some i" and "list_all (\<lambda>c. \<not> is_blank c) (drop (i + 9) body)"
  shows "handle_request (hdr @ crlf @ crlf @ body) r = (BadRequest, r)"
proof -
  let ?data = "hdr @ crlf @ crlf @ body"
  let ?pad = "replicate (4096 - length ?data) nul"
  have l: "length ?data \<le> 4096" using assms(4) by simp
  note body = seen_body [OF assms(2,3) l]
  have i: "i + 9 \<le> length body" using find_sub_fits [OF assms(5)] by simp
  have "drop (i + 9) (body @ ?pad) = drop (i + 9) body @ ?pad" using i by simp
  moreover have "list_all (\<lambda>c. \<not> is_blank c) (drop (i + 9) body @ ?pad)"
    using assms(6) nul_not_blank by (auto simp: list_all_iff)
  ultimately have w: "first_word (drop (i + 9) (body @ ?pad)) = drop (i + 9) body @ ?pad"
    using first_word_noblank by simp
  have "nul \<in> set (drop (i + 9) body @ ?pad)" using assms(4) by simp
  from parse_usize_nul [OF this] w obtain e where "parse_usize (first_word (drop (i + 9) (body @ ?pad))) = Inl e" by auto
  with find_sub_append [OF assms(5), of ?pad] show ?thesis
    unfolding post_dispatch [OF assms(1) l] control_post_def body by simp
qed

theorem control_post_refuses_final_value_witness:
  "handle_request (post_head @ crlf @ crlf @ ''headroom=128'') one_socket = (BadRequest, one_socket)"
proof (rule control_post_refuses_final_value [OF post_head_ok(1,2)])
  show "find_sub ''headroom='' ''headroom=128'' = Some 0" by simp
qed (simp_all add: post_head_ok(3) crlf_def is_blank_def)

lemma find_sub_padded:
  assumes "nul \<notin> set p" "p \<noteq> []"
  shows "find_sub p s = None \<Longrightarrow> find_sub p (s @ replicate k nul) = None"
proof (induction s)
  case Nil
  have "hd p \<notin> set (replicate k nul)" using assms by (metis hd_in_set in_set_replicate)
  with find_sub_absent [OF assms(2)] show ?case by simp
next
  case (Cons c s)
  have "take (length p) (c # s @ replicate k nul) \<noteq> p"
  proof
    assume t: "take (length p) (c # s @ replicate k nul) = p"
    show False
    proof (cases "length p \<le> length (c # s)")
      case True
      then have "take (length p) (c # s) = p" using t by (metis append_Cons take_append diff_is_0_eq take0 append_Nil2)
      with Cons.prems show False by simp
    next
      case False
      then have "p = (c # s) @ take (length p - length (c # s)) (replicate k nul)"
        using t by (metis append_Cons nat_le_linear take_all take_append)
      moreover from False this have "take (length p - length (c # s)) (replicate k nul) \<noteq> []"
        by (metis append_Nil2 order_refl)
      ultimately have "nul \<in> set p"
        by (metis Un_iff hd_in_set in_set_replicate in_set_takeD set_append)
      with assms(1) show False by simp
    qed
  qed
  with Cons show ?case by (simp split: if_splits)
qed

text \<open>C30. Which requests set all headrooms. In a POST to \<open>/control\<close> that fits the buffer, whose body has no
  carriage return, the first \<open>headroom=\<close> counts; when a number below \<open>2 ^ 64\<close> and then a blank follow it,
  and the body names no \<open>label=\<close>, the number becomes the headroom of every registered socket that is
  alive and whose lock is not poisoned, provided no socket is registered twice; the response
  reports each with its old value, and the headrooms read afterwards are all that number. No limit
  is put on it. Without the blank, as in the body of the repository's own test, the request is
  refused (see above).\<close>

theorem control_post_sets_headrooms:
  assumes "starts_with (hdr @ crlf @ crlf) ''POST /control''"
    and "find_sub (crlf @ crlf) (hdr @ crlf @ crlf) = Some (length hdr)"
    and "body = pre @ ''headroom='' @ show_nat n @ c # post" and "find_sub ''headroom='' (pre @ ''headroom='') = Some (length pre)"
    and "find_sub ''label='' body = None" and "CHR 0x0D \<notin> set body" and "is_blank c" and "n < 2 ^ 64"
    and "length (hdr @ crlf @ crlf @ body) \<le> 4096" and "distinct (instances r)"
  shows "\<exists>r'. handle_request (hdr @ crlf @ crlf @ body) r =
      (AllResults (map (\<lambda>(l, old). (l, old, of_nat n, True)) (snapshot_freelist_headrooms r)), r')
    \<and> snapshot_freelist_headrooms r' = map (\<lambda>(l, old). (l, of_nat n)) (snapshot_freelist_headrooms r)"
proof -
  let ?data = "hdr @ crlf @ crlf @ body"
  let ?pad = "replicate (4096 - length ?data) nul"
  have digits: "x \<in> set (show_nat n) \<Longrightarrow> \<not> is_blank x" for x
    using show_nat_chars [of x n] digit_chars [of x] by (auto simp: digit_char_def digit_of_def is_blank_def split: if_splits)
  have s: "starts_with ?data ''POST /control''"
    using starts_with_append [OF assms(1), of body] by simp
  note seen = seen_body [OF assms(2,6,9)]
  have f: "find_sub ''headroom='' (body @ ?pad) = Some (length pre)"
    using find_sub_append [OF assms(4), of "show_nat n @ c # post @ ?pad"] by (simp add: assms(3))
  have "find_sub ''label='' (body @ ?pad) = None" by (rule find_sub_padded [OF _ _ assms(5)]) (simp_all add: nul_def)
  then have lab: "label_of (body @ ?pad) = None" by (simp add: label_of_def)
  have "dropWhile is_blank (show_nat n @ c # post @ ?pad) = show_nat n @ c # post @ ?pad"
    using show_nat_digits [of n] digits by (cases "show_nat n") auto
  moreover have "takeWhile (\<lambda>c. \<not> is_blank c) (show_nat n @ c # post @ ?pad) = show_nat n"
    using digits assms(7) by (simp add: takeWhile_append)
  moreover have "drop (length pre + 9) (body @ ?pad) = show_nat n @ c # post @ ?pad" by (simp add: assms(3))
  ultimately have "parse_usize (first_word (drop (length pre + 9) (body @ ?pad))) = Inr n"
    using parse_core_show [OF assms(8)] by (simp add: first_word_def parse_core_def split: sum.splits)
  with f lab have "control_post (request_text ?data) r = control_all (of_nat n) r"
    unfolding control_post_def seen by simp
  with control_all_ok [OF assms(10)] post_dispatch [OF s assms(9)] show ?thesis by simp
qed

theorem control_post_sets_headrooms_witness:
  "\<exists>r'. handle_request (post_head @ crlf @ crlf @ ''x=1&headroom=128 y'') one_socket = (AllResults [(''eth0:0'', 8, 128, True)], r')
    \<and> snapshot_freelist_headrooms r' = [(''eth0:0'', 128)]"
proof -
  have n: "show_nat 128 = ''128''" by code_simp
  have f: "find_sub ''headroom='' (''x=1&'' @ ''headroom='') = Some (length ''x=1&'')" "find_sub ''label='' ''x=1&headroom=128 y'' = None"
    by code_simp+
  from control_post_sets_headrooms [OF post_head_ok(1,2) _ f(1), of "''x=1&headroom=128 y''" 128 "CHR '' ''" "''y''" one_socket]
  show ?thesis using f(2) by (simp add: n one_socket_headrooms post_head_ok(3) crlf_def is_blank_def)
qed

end
