(* ===== verification/Metrics.thy ===== *)
theory Metrics
  imports Control
begin

text \<open>
  Counters on their way to the operator: the registry of per-socket counters
  (\<open>afxdp/src/lib.rs\<close>) and one round of the background updater of \<open>start_metrics_http\<close>
  (\<open>cli/src/main.rs\<close>) that copies the counters into labelled gauges and removes the labels that
  are gone. Hash maps and sets are lists without duplicate keys, in some order of iteration.
  A gauge holds an \<open>f64\<close>: its type is a parameter, with the conversion \<open>as_f64\<close> and the parser
  \<open>parse_f64\<close>.
\<close>

subsection \<open>The registry of counters\<close>

text \<open>The counters are shared with the socket: the registry holds the socket's number.\<close>

type_synonym socket_registry = "(string \<times> nat) list"

definition register_socket_metrics :: "string \<Rightarrow> nat \<Rightarrow> socket_registry \<Rightarrow> socket_registry" where
  "register_socket_metrics label i reg = (label, i) # filter (\<lambda>(l, _). l \<noteq> label) reg"

definition unregister_socket_metrics :: "string \<Rightarrow> socket_registry \<Rightarrow> socket_registry" where
  "unregister_socket_metrics label reg = filter (\<lambda>(l, _). l \<noteq> label) reg"

definition snapshot_all_socket_metrics :: "(nat \<Rightarrow> socket_counters) \<Rightarrow> socket_registry \<Rightarrow> (string \<times> socket_counters) list" where
  "snapshot_all_socket_metrics counters reg = map (\<lambda>(k, v). (k, counters v)) reg"

subsection \<open>One round of the updater\<close>

type_synonym 'f gauges = "string \<times> string \<Rightarrow> 'f option"

record 'f updater =
  afxdp_gauges :: "'f gauges"
  mcr_forwarded_gauge :: "'f gauges"
  mcr_dropped_gauge :: "string \<Rightarrow> 'f option"
  prev_labels :: "string list"

text \<open>The five counters under the names of their gauges.\<close>

definition metric_names :: "string list" where
  "metric_names = [''retry_total'', ''backpressure_total'', ''alloc_from_freelist_total'', ''alloc_fallback_total'',
     ''free_push_drop_total'']"

definition counter_values :: "socket_counters \<Rightarrow> u64 list" where
  "counter_values c = [c_retry c, c_backpressure c, c_from_freelist c, c_fallback c, c_push_drop c]"

definition set_counters :: "(u64 \<Rightarrow> 'f) \<Rightarrow> string \<Rightarrow> socket_counters \<Rightarrow> 'f gauges \<Rightarrow> 'f gauges" where
  "set_counters as_f64 label c g =
     fold (\<lambda>(m, v) g. g((m, label) \<mapsto> as_f64 v)) (zip metric_names (counter_values c)) g"

definition remove_counters :: "string \<Rightarrow> 'f gauges \<Rightarrow> 'f gauges" where
  "remove_counters label g = fold (\<lambda>m g. g((m, label) := None)) metric_names g"

text \<open>\<open>str::lines\<close>.\<close>

definition lines_of :: "string \<Rightarrow> string list" where
  "lines_of s =
     (let ls = split_on (CHR 0x0A) s; ls = (if last ls = '''' then butlast ls else ls)
      in map (\<lambda>l. if l \<noteq> '''' \<and> last l = CHR 0x0D then butlast l else l) ls)"

definition read_routing_line :: "(string \<Rightarrow> 'f option) \<Rightarrow> 'f \<Rightarrow> string \<Rightarrow> 'f updater \<Rightarrow> 'f updater" where
  "read_routing_line parse_f64 zero line u =
     (case split_on CHR '','' line of
        [dest, key, number] \<Rightarrow>
          let cnt = (case parse_f64 number of Some x \<Rightarrow> x | None \<Rightarrow> zero)
          in if key = ''dropped'' then u\<lparr>mcr_dropped_gauge := (mcr_dropped_gauge u)(dest \<mapsto> cnt)\<rparr>
             else u\<lparr>mcr_forwarded_gauge := (mcr_forwarded_gauge u)((dest, key) \<mapsto> cnt)\<rparr>
      | _ \<Rightarrow> u)"

text \<open>What a round reads: the global counters, the snapshot of the registry and the metrics file.\<close>

record tick =
  t_globals :: socket_counters
  t_sockets :: "(string \<times> socket_counters) list"
  t_file :: "string option"

definition update_gauges :: "(u64 \<Rightarrow> 'f) \<Rightarrow> (string \<Rightarrow> 'f option) \<Rightarrow> 'f \<Rightarrow> tick \<Rightarrow> 'f updater \<Rightarrow> 'f updater" where
  "update_gauges as_f64 parse_f64 zero t u =
     (let g = set_counters as_f64 ''global'' (t_globals t) (afxdp_gauges u);
          g = fold (\<lambda>(label, c). set_counters as_f64 label c) (t_sockets t) g;
          current_labels = map fst (t_sockets t);
          u = (case t_file t of None \<Rightarrow> u
               | Some contents \<Rightarrow> fold (read_routing_line parse_f64 zero) (lines_of contents) u);
          g = fold remove_counters (filter (\<lambda>l. l \<notin> set current_labels) (prev_labels u)) g
      in u\<lparr>afxdp_gauges := g, prev_labels := current_labels\<rparr>)"

definition updater_new :: "'f updater" where
  "updater_new = \<lparr>afxdp_gauges = (\<lambda>_. None), mcr_forwarded_gauge = (\<lambda>_. None), mcr_dropped_gauge = (\<lambda>_. None), prev_labels = []\<rparr>"

subsection \<open>Which gauges exist\<close>

definition metric_value :: "string \<Rightarrow> socket_counters \<Rightarrow> u64 option" where
  "metric_value m c = map_of (zip metric_names (counter_values c)) m"

lemma distinct_names: "distinct metric_names"
  by code_simp

lemma counter_length [simp]: "length (counter_values c) = length metric_names"
  by (simp add: counter_values_def metric_names_def)

lemma metric_value_cases:
  obtains (other) "m \<notin> set metric_names" "\<And>c. metric_value m c = None"
    | (counter) v where "m \<in> set metric_names" "\<And>c. metric_value m c = Some (v c)"
proof (cases "m \<in> set metric_names")
  case True
  then have "metric_value m c \<noteq> None" for c by (simp add: metric_value_def)
  then have "metric_value m c = Some (the (metric_value m c))" for c by (simp add: option.expand)
  then show ?thesis by (rule counter [OF True])
next
  case False
  then have "metric_value m c = None" for c by (simp add: metric_value_def)
  with False other show ?thesis by blast
qed

lemma fold_put_at: "distinct (map fst ms) \<Longrightarrow> fold (\<lambda>(m, v) g. g((m, label) \<mapsto> f v)) ms g (m, l) =
    (if l = label then (case map_of ms m of Some v \<Rightarrow> Some (f v) | None \<Rightarrow> g (m, l)) else g (m, l))"
proof (induction ms arbitrary: g)
  case (Cons x ms)
  then have "map_of ms (fst x) = None" by (simp add: map_of_eq_None_iff)
  with Cons show ?case by (auto simp: split_def split: option.splits)
qed simp

lemma set_counters_at: "set_counters as_f64 label c g (m, l) =
    (if l = label then (case metric_value m c of Some v \<Rightarrow> Some (as_f64 v) | None \<Rightarrow> g (m, l)) else g (m, l))"
  unfolding set_counters_def metric_value_def by (rule fold_put_at) (simp add: distinct_names)

lemma fold_del_at: "fold (\<lambda>m g. g((m, label) := None)) ms g (m, l) = (if l = label \<and> m \<in> set ms then None else g (m, l))"
  by (induction ms arbitrary: g) auto

lemma remove_counters_at: "remove_counters label g (m, l) = (if l = label \<and> m \<in> set metric_names then None else g (m, l))"
  by (simp add: remove_counters_def fold_del_at)

lemma fold_set_at: "distinct (map fst cs) \<Longrightarrow> fold (\<lambda>(label, c). set_counters as_f64 label c) cs g (m, l) =
    (case map_of cs l of Some c \<Rightarrow> (case metric_value m c of Some v \<Rightarrow> Some (as_f64 v) | None \<Rightarrow> g (m, l)) | None \<Rightarrow> g (m, l))"
proof (induction cs arbitrary: g)
  case (Cons x cs)
  then have "map_of cs (fst x) = None" by (simp add: map_of_eq_None_iff)
  with Cons show ?case
    by (cases m rule: metric_value_cases) (auto simp: set_counters_at split_def split: option.splits)
qed simp

lemma fold_remove_at: "fold remove_counters ls g (m, l) = (if l \<in> set ls \<and> m \<in> set metric_names then None else g (m, l))"
  by (induction ls arbitrary: g) (auto simp: remove_counters_at)

lemma read_line_keeps [simp]:
  "afxdp_gauges (read_routing_line p z line u) = afxdp_gauges u" "prev_labels (read_routing_line p z line u) = prev_labels u"
  by (auto simp: read_routing_line_def Let_def split: list.splits)

lemma read_file_keeps [simp]:
  "afxdp_gauges (fold (read_routing_line p z) ls u) = afxdp_gauges u" "prev_labels (fold (read_routing_line p z) ls u) = prev_labels u"
  by (induction ls arbitrary: u) simp_all

text \<open>What the gauges should be after a round: the global counters, those of the sockets, nothing else.\<close>

definition gauge_spec :: "(u64 \<Rightarrow> 'f) \<Rightarrow> tick \<Rightarrow> 'f gauges" where
  "gauge_spec as_f64 t = (\<lambda>(m, l).
     case (if l = ''global'' then Some (t_globals t) else map_of (t_sockets t) l) of
       None \<Rightarrow> None
     | Some c \<Rightarrow> map_option as_f64 (metric_value m c))"

definition tick_ok :: "tick \<Rightarrow> bool" where
  "tick_ok t \<longleftrightarrow> distinct (map fst (t_sockets t)) \<and> map_of (t_sockets t) ''global'' = None"

definition gauges_inv :: "'f updater \<Rightarrow> bool" where
  "gauges_inv u \<longleftrightarrow> ''global'' \<notin> set (prev_labels u)
     \<and> (\<forall>m l. m \<notin> set metric_names \<or> l \<noteq> ''global'' \<and> l \<notin> set (prev_labels u) \<longrightarrow> afxdp_gauges u (m, l) = None)"

lemma update_gauges_at:
  assumes "tick_ok t" "gauges_inv u"
  shows "afxdp_gauges (update_gauges as_f64 p z t u) (m, l) = gauge_spec as_f64 t (m, l)"
proof -
  define gl where "gl = ''global''"
  from assms have d: "distinct (map fst (t_sockets t))" "map_of (t_sockets t) gl = None" "gl \<notin> set (prev_labels u)"
    "m \<notin> set metric_names \<or> l \<noteq> gl \<and> l \<notin> set (prev_labels u) \<Longrightarrow> afxdp_gauges u (m, l) = None"
    by (auto simp: tick_ok_def gauges_inv_def gl_def)
  have n: "map_of (t_sockets t) l = None \<longleftrightarrow> l \<notin> fst ` set (t_sockets t)" by (simp add: map_of_eq_None_iff)
  show ?thesis
    unfolding update_gauges_def gauge_spec_def Let_def gl_def [symmetric]
    using d n
    by (cases m rule: metric_value_cases; cases "map_of (t_sockets t) l"; cases "l = gl")
      (auto simp: fold_remove_at fold_set_at set_counters_at split: option.splits)
qed

lemma prev_update [simp]: "prev_labels (update_gauges as_f64 p z t u) = map fst (t_sockets t)"
  by (simp add: update_gauges_def Let_def)

lemma update_gauges_exact:
  assumes "gauges_inv u" "tick_ok t"
  shows "afxdp_gauges (update_gauges as_f64 p z t u) = gauge_spec as_f64 t" "gauges_inv (update_gauges as_f64 p z t u)"
proof -
  show e: "afxdp_gauges (update_gauges as_f64 p z t u) = gauge_spec as_f64 t"
    using update_gauges_at [OF assms(2,1)] by (simp add: fun_eq_iff)
  have "''global'' \<notin> fst ` set (t_sockets t)" using assms(2) unfolding tick_ok_def map_of_eq_None_iff by simp
  moreover have "map_of (t_sockets t) l = None" if "l \<notin> fst ` set (t_sockets t)" for l
    using that by (simp add: map_of_eq_None_iff)
  moreover have "metric_value m c = None" if "m \<notin> set metric_names" for m c using that by (simp add: metric_value_def)
  ultimately show "gauges_inv (update_gauges as_f64 p z t u)"
    unfolding gauges_inv_def e gauge_spec_def by (auto split: option.splits)
qed

lemma updater_run_inv:
  "gauges_inv u \<Longrightarrow> list_all tick_ok ts \<Longrightarrow> gauges_inv (fold (update_gauges as_f64 p z) ts u)"
  by (induction ts arbitrary: u) (simp_all add: update_gauges_exact(2))

text \<open>Two sockets, of which one goes away.\<close>

definition two_sockets :: tick where
  "two_sockets = \<lparr>t_globals = SocketCounters_new,
     t_sockets = [(''eth0:0'', SocketCounters_new), (''eth1:0'', SocketCounters_new)], t_file = None\<rparr>"

definition one_left :: tick where
  "one_left = \<lparr>t_globals = SocketCounters_new,
     t_sockets = [(''eth1:0'', SocketCounters_new\<lparr>c_retry := 7\<rparr>)], t_file = Some ''aa,dropped,3''\<rparr>"

subsection \<open>Properties\<close>

text \<open>C28. After any number of rounds the gauges show the last snapshot and nothing older: a value for
  each of the five counters of the process and of every socket registered at that moment, and no
  gauge of a socket that has gone, whatever was registered in between.\<close>

theorem gauges_show_last_snapshot:
  assumes "list_all tick_ok (ts @ [t])"
  shows "afxdp_gauges (fold (update_gauges as_f64 parse_f64 zero) (ts @ [t]) updater_new) = gauge_spec as_f64 t"
proof -
  have "gauges_inv (updater_new :: 'a updater)" by (simp add: gauges_inv_def updater_new_def)
  from updater_run_inv [OF this] assms
  have "gauges_inv (fold (update_gauges as_f64 parse_f64 zero) ts updater_new)" "tick_ok t" by simp_all
  from update_gauges_exact(1) [OF this] show ?thesis by simp
qed

theorem gauges_show_last_snapshot_witness:
  "case afxdp_gauges (fold (update_gauges unat (\<lambda>_. None) 0) [two_sockets, one_left] updater_new) of g \<Rightarrow>
     g (''retry_total'', ''eth0:0'') = None \<and> g (''retry_total'', ''eth1:0'') = Some 7 \<and> g (''retry_total'', ''global'') = Some 0"
proof -
  have "list_all tick_ok ([two_sockets] @ [one_left])" by (simp add: tick_ok_def two_sockets_def one_left_def)
  from gauges_show_last_snapshot [OF this, of unat "\<lambda>_. None" 0]
  have "afxdp_gauges (fold (update_gauges unat (\<lambda>_. None) 0) [two_sockets, one_left] updater_new) = gauge_spec unat one_left" by simp
  then show ?thesis
    by (simp add: gauge_spec_def metric_value_def metric_names_def counter_values_def SocketCounters_new_def one_left_def)
qed

end
