(* ===== verification/Monitor.thy ===== *)
theory Monitor
  imports Router_Run Cli_Main Metrics
begin

text \<open>
  What watches the datapath from the same process: the reporter of \<open>--metrics\<close> and the server of
  \<open>--metrics-socket\<close> (\<open>cli/src/main.rs\<close>), which read \<open>PACKETS_PROCESSED\<close> while batches add to it,
  and the summary of \<open>print_profile\<close> (\<open>datapath/src/lib.rs\<close>). Every access to the counter is one
  atomic operation, so a run is a sequence of them; a batch adds what it received at its end. The
  seconds of the clock come with the events.
\<close>

subsection \<open>What is printed\<close>

definition newline :: string where "newline = [CHR 0x0A]"

definition reporter_line :: "nat \<times> u64 \<Rightarrow> string" where
  "reporter_line r = (case r of (secs, n) \<Rightarrow> show_nat secs @ '','' @ show_nat (unat n) @ newline)"

definition socket_message :: "nat \<times> u64 \<Rightarrow> string" where
  "socket_message r = (case r of (now, n) \<Rightarrow>
     ''{\"timestamp\":'' @ show_nat now @ '',\"packets_processed\":'' @ show_nat (unat n) @ ''}'' @ newline)"

definition render_prometheus_metrics :: "u64 \<Rightarrow> u64 \<Rightarrow> string" where
  "render_prometheus_metrics n secs =
     ''# HELP mohawk_packets_processed_total Total packets processed by the datapath.'' @ newline
     @ ''# TYPE mohawk_packets_processed_total counter'' @ newline
     @ ''mohawk_packets_processed_total '' @ show_nat (unat n) @ newline
     @ ''# HELP mohawk_metrics_timestamp_seconds Unix timestamp for the current sample.'' @ newline
     @ ''# TYPE mohawk_metrics_timestamp_seconds gauge'' @ newline
     @ ''mohawk_metrics_timestamp_seconds '' @ show_nat (unat secs) @ newline"

subsection \<open>The services\<close>

datatype monitor_op = Traffic router_op | ReporterTick nat | SocketClient nat

record monitor_log =
  reported :: "(nat \<times> u64) list"
  answered :: "(nat \<times> u64) list"

text \<open>The reporter swaps the counter with zero; the server of the socket only loads it.\<close>

fun monitor_step ::
    "crypto_lib \<Rightarrow> monitor_op \<Rightarrow> (forwarder \<times> process) \<times> monitor_log \<Rightarrow> fault + router_out list \<times> (forwarder \<times> process) \<times> monitor_log" where
  "monitor_step L (Traffic op) (fw, l) = bindr (router_step L op fw) (\<lambda>(r, fw). Inr ([r], fw, l))"
| "monitor_step L (ReporterTick secs) ((f, w), l) =
     Inr ([], (f, w\<lparr>packets_processed := 0\<rparr>), l\<lparr>reported := reported l @ [(secs, packets_processed w)]\<rparr>)"
| "monitor_step L (SocketClient now) ((f, w), l) =
     Inr ([], (f, w), l\<lparr>answered := answered l @ [(now, packets_processed w)]\<rparr>)"

fun monitor_run ::
    "crypto_lib \<Rightarrow> monitor_op list \<Rightarrow> (forwarder \<times> process) \<times> monitor_log \<Rightarrow> fault + router_out list \<times> (forwarder \<times> process) \<times> monitor_log" where
  "monitor_run L [] s = Inr ([], s)"
| "monitor_run L (op # ops) s =
     bindr (monitor_step L op s) (\<lambda>(r, s). bindr (monitor_run L ops s) (\<lambda>(rs, s). Inr (r @ rs, s)))"

subsection \<open>The profile\<close>

text \<open>The times are sums of clock readings and are arguments.\<close>

record profile_times =
  t_handle_ns :: u64
  t_encrypt_ns :: u64
  t_append_ns :: u64

definition profiler_default :: profiler where
  "profiler_default = \<lparr>p_handle_count = 0, p_encrypt_count = 0, p_append_count = 0, p_lookup_calls = 0, p_lookup_hits = 0,
     p_predict_calls = 0, p_predict_hits = 0\<rparr>"

datatype profile_line = Timed string u64 u64 u64 | Hits string u64 u64 | Global u64

definition average_ns :: "u64 \<Rightarrow> u64 \<Rightarrow> u64" where
  "average_ns calls ns = (if 0 < calls then ns div calls else 0)"

definition print_profile :: "profile_times \<Rightarrow> process \<Rightarrow> profile_line list" where
  "print_profile ts w =
     (let p = prof w in
      [Timed ''handle'' (p_handle_count p) (t_handle_ns ts) (average_ns (p_handle_count p) (t_handle_ns ts)),
       Timed ''encrypt'' (p_encrypt_count p) (t_encrypt_ns ts) (average_ns (p_encrypt_count p) (t_encrypt_ns ts)),
       Timed ''append'' (p_append_count p) (t_append_ns ts) (average_ns (p_append_count p) (t_append_ns ts)),
       Hits ''lookup_next_hop'' (p_lookup_calls p) (p_lookup_hits p),
       Hits ''lookup_predict'' (p_predict_calls p) (p_predict_hits p),
       Global (packets_processed w)])"

text \<open>The average times the number of calls is the total, but for less than one call.\<close>

lemma average_ns_bounds:
  "0 < calls \<Longrightarrow> unat (average_ns calls ns) * unat calls \<le> unat ns
    \<and> unat ns < (unat (average_ns calls ns) + 1) * unat calls"
proof -
  assume "0 < calls"
  then have c: "0 < unat calls" by (simp add: unat_gt_0 word_neq_0_conv)
  have "unat (average_ns calls ns) = unat ns div unat calls" using \<open>0 < calls\<close> by (simp add: average_ns_def unat_div)
  with c dividend_less_div_times [OF c, of "unat ns"] show ?thesis by (simp add: div_times_less_eq_dividend)
qed

subsection \<open>What a run should show\<close>

fun received_by :: "monitor_op \<Rightarrow> nat" where
  "received_by (Traffic (ForwardBatch threads sched frames)) = length frames"
| "received_by _ = 0"

fun traffic_of :: "monitor_op list \<Rightarrow> router_op list" where
  "traffic_of [] = []"
| "traffic_of (Traffic op # ops) = op # traffic_of ops"
| "traffic_of (_ # ops) = traffic_of ops"

text \<open>A client of the socket is told how many packets were received since the last report.\<close>

definition is_tick :: "monitor_op \<Rightarrow> bool" where
  "is_tick op = (case op of ReporterTick _ \<Rightarrow> True | _ \<Rightarrow> False)"

definition since_report :: "u64 \<Rightarrow> monitor_op list \<Rightarrow> u64" where
  "since_report c ops = (if list_ex is_tick ops then 0 else c)
     + of_nat (sum_list (map received_by (takeWhile (\<lambda>op. \<not> is_tick op) (rev ops))))"

definition clients_at :: "u64 \<Rightarrow> monitor_op list \<Rightarrow> (nat \<times> u64) list" where
  "clients_at c ops = concat (map (\<lambda>i. case ops ! i of SocketClient now \<Rightarrow> [(now, since_report c (take i ops))] | _ \<Rightarrow> []) [0..<length ops])"


lemma since_report_Nil [simp]: "since_report c [] = c"
  by (simp add: since_report_def)

lemma since_report_Cons: "since_report c (op # ops) = since_report (since_report c [op]) ops"
proof (cases "list_ex is_tick ops")
  case True
  then have "takeWhile (\<lambda>op. \<not> is_tick op) (rev ops @ [op]) = takeWhile (\<lambda>op. \<not> is_tick op) (rev ops)"
    by (induction ops) (auto simp: takeWhile_append list_ex_iff)
  with True show ?thesis by (simp add: since_report_def)
next
  case False
  then have "takeWhile (\<lambda>op. \<not> is_tick op) (rev ops @ ys) = rev ops @ takeWhile (\<lambda>op. \<not> is_tick op) ys" for ys
    by (induction ops arbitrary: ys) (auto simp: takeWhile_append)
  note this [of "[op]"]
  moreover from False have "takeWhile (\<lambda>op. \<not> is_tick op) (rev ops) = rev ops" by (intro takeWhile_eq_all_conv [THEN iffD2]) (auto simp: list_ex_iff)
  ultimately show ?thesis
    using False by (simp add: since_report_def rev_map [symmetric] ac_simps del: takeWhile_eq_all_conv)
qed

lemma since_report_simps:
  "since_report c (Traffic op # ops) = since_report (c + of_nat (received_by (Traffic op))) ops"
  "since_report c (ReporterTick t # ops) = since_report 0 ops"
  "since_report c (SocketClient t # ops) = since_report c ops"
  by (subst since_report_Cons, simp add: since_report_def is_tick_def)+

lemma clients_at_Nil [simp]: "clients_at c [] = []"
  by (simp add: clients_at_def)

lemma clients_at_Cons:
  "clients_at c (op # ops) = (case op of SocketClient now \<Rightarrow> [(now, c)] | _ \<Rightarrow> []) @ clients_at (since_report c [op]) ops"
proof -
  define d where "d = since_report c [op]"
  define g where "g ops c i = (case ops ! i of SocketClient now \<Rightarrow> [(now, since_report c (take i ops))] | _ \<Rightarrow> [])" for ops c i
  have d: "since_report c (op # xs) = since_report d xs" for xs
    using since_report_Cons [of c op xs] by (simp only: d_def)
  have "g (op # ops) c (Suc i) = g ops d i" for i by (simp add: g_def d take_Suc_Cons cong: monitor_op.case_cong)
  then have "map (g (op # ops) c) [0..<Suc (length ops)] = g (op # ops) c 0 # map (g ops d) [0..<length ops]"
    by (subst upt_conv_Cons, simp, simp only: map_Suc_upt [symmetric], simp)
  moreover have "clients_at c ops = concat (map (g ops c) [0..<length ops])" for c ops
    by (simp add: clients_at_def g_def [abs_def])
  moreover have "g (op # ops) c 0 = (case op of SocketClient now \<Rightarrow> [(now, c)] | _ \<Rightarrow> [])"
    by (simp add: g_def cong: monitor_op.case_cong)
  ultimately show ?thesis by (simp del: upt_Suc add: d_def [symmetric])
qed

lemma clients_at_simps:
  "clients_at c (Traffic op # ops) = clients_at (c + of_nat (received_by (Traffic op))) ops"
  "clients_at c (ReporterTick t # ops) = clients_at 0 ops"
  "clients_at c (SocketClient t # ops) = (t, c) # clients_at c ops"
  by (simp_all add: clients_at_Cons since_report_simps)

subsection \<open>Properties\<close>

text \<open>A step of the router adds what it received to the counter.\<close>

lemma router_step_counts:
  assumes "seal_keeps_length L" "router_ok (Suc k) (f, w)" "op_fits op"
  shows "\<exists>r f' w'. router_step L op (f, w) = Inr (r, f', w') \<and> router_ok k (f', w')
    \<and> router_spec L (fsession f) [op] (routes_of (routes f)) = [r]
    \<and> (\<forall>ops. router_spec L (fsession f) (op # ops) (routes_of (routes f)) = r # router_spec L (fsession f') ops (routes_of (routes f')))
    \<and> packets_processed w' = packets_processed w + of_nat (received_by (Traffic op))"
proof (cases op)
  case (ForwardBatch threads sched frames)
  with batch_keeps_router [OF assms(1,2), of threads sched frames] assms(3) show ?thesis
    by (auto simp: bindr_def Let_def comp_def primary_spec_routes)
next
  case (SetRoute now e)
  obtain t ep where u: "update_route now e (routes f, epoch w) = (t, ep)" by fastforce
  have wf: "table_wf (routes f)" using assms(2) by (simp add: router_ok_def)
  note t = table_wf_update [OF wf u]
  from router_ok_routes [OF assms(2) t(1)] t(2,3) show ?thesis by (auto simp: SetRoute u fun_upd_def)
next
  case (DropRoute d)
  obtain t ep where u: "remove_route d (routes f, epoch w) = (t, ep)" by fastforce
  have wf: "table_wf (routes f)" using assms(2) by (simp add: router_ok_def)
  note t = table_wf_remove [OF wf u]
  from router_ok_routes [OF assms(2) t(1)] t(2,3) show ?thesis by (auto simp: DropRoute u fun_upd_def)
qed

lemma monitor_run_counts:
  assumes "seal_keeps_length L"
  shows "router_ok (length (traffic_of ops)) (f, w) \<Longrightarrow> list_all op_fits (traffic_of ops) \<Longrightarrow>
    \<exists>f' w' l'. monitor_run L ops ((f, w), l) = Inr (router_spec L (fsession f) (traffic_of ops) (routes_of (routes f)), (f', w'), l')
      \<and> sum_list (map snd (reported l')) + packets_processed w'
        = sum_list (map snd (reported l)) + packets_processed w + of_nat (sum_list (map received_by ops))
      \<and> answered l' = answered l @ clients_at (packets_processed w) ops"
proof (induction ops arbitrary: f w l)
  case (Cons op ops)
  show ?case
  proof (cases op)
    case (Traffic rop)
    with Cons.prems have ok: "router_ok (Suc (length (traffic_of ops))) (f, w)" "op_fits rop"
      and fit: "list_all op_fits (traffic_of ops)" by simp_all
    from router_step_counts [OF assms ok] obtain r f1 w1 where
      s: "router_step L rop (f, w) = Inr (r, f1, w1)" "router_ok (length (traffic_of ops)) (f1, w1)"
      "\<And>ops. router_spec L (fsession f) (rop # ops) (routes_of (routes f)) = r # router_spec L (fsession f1) ops (routes_of (routes f1))"
      "packets_processed w1 = packets_processed w + of_nat (received_by (Traffic rop))" by blast
    from Cons.IH [OF s(2) fit, of l] show ?thesis
      by (auto simp: Traffic s bindr_def clients_at_simps ac_simps)
  next
    case (ReporterTick t)
    let ?l = "l\<lparr>reported := reported l @ [(t, packets_processed w)]\<rparr>"
    from Cons.prems ReporterTick have "router_ok (length (traffic_of ops)) (f, w\<lparr>packets_processed := 0\<rparr>)"
      "list_all op_fits (traffic_of ops)" by (simp_all add: router_ok_def proc_ok_def)
    from Cons.IH [OF this, of ?l] show ?thesis
      by (auto simp: ReporterTick bindr_def clients_at_simps ac_simps)
  next
    case (SocketClient t)
    from Cons.prems SocketClient have "router_ok (length (traffic_of ops)) (f, w)" "list_all op_fits (traffic_of ops)" by simp_all
    from Cons.IH [OF this, of "l\<lparr>answered := answered l @ [(t, packets_processed w)]\<rparr>"] show ?thesis
      by (auto simp: SocketClient bindr_def clients_at_simps)
  qed
qed simp

text \<open>C7. Watching a router: reports and clients of the socket, in any order between batches and
  changes of the routes, never change what is forwarded. No packet is lost or counted twice by the
  reporter: the reports and what the counter still holds add up to the packets received, modulo
  \<open>2^64\<close>. A client is told what was received since the last report, so with both services on
  the \<open>packets_processed\<close> of the socket is not a total: it falls to zero every second.\<close>

theorem monitoring_counts_traffic:
  assumes "seal_keeps_length L" and "table_wf (routes f)" and "proc_ok (routes f) w"
    and "mcr_enabled f" and "mcr_spray_mode f \<noteq> ''full''" and "cap (arena f) \<le> 2 ^ 61"
    and "unat (epoch w) + length (traffic_of ops) < 2 ^ 64" and "list_all op_fits (traffic_of ops)"
  shows "\<exists>f' w' l. monitor_run L ops ((f, w), \<lparr>reported = [], answered = []\<rparr>) =
      Inr (router_spec L (fsession f) (traffic_of ops) (routes_of (routes f)), (f', w'), l)
    \<and> sum_list (map snd (reported l)) + packets_processed w' = packets_processed w + of_nat (sum_list (map received_by ops))
    \<and> answered l = clients_at (packets_processed w) ops"
  using monitor_run_counts [OF assms(1), of ops f w "\<lparr>reported = [], answered = []\<rparr>"] assms by (auto simp: router_ok_def)

theorem monitoring_counts_traffic_witness:
  "\<exists>rs f w l. monitor_run toy_lib [Traffic (ForwardBatch 4 [] [example_packet, example_packet]), SocketClient 10, ReporterTick 11,
      SocketClient 12, Traffic (ForwardBatch 4 [] [example_packet]), SocketClient 13]
      ((example_forwarder, example_process), \<lparr>reported = [], answered = []\<rparr>) = Inr (rs, (f, w), l)
    \<and> answered l = [(10, 2), (12, 0), (13, 1)] \<and> sum_list (map snd (reported l)) + packets_processed w = 3"
proof -
  let ?ops = "[Traffic (ForwardBatch 4 [] [example_packet, example_packet]), SocketClient 10, ReporterTick 11,
      SocketClient 12, Traffic (ForwardBatch 4 [] [example_packet]), SocketClient 13]"
  have h: "table_wf (routes example_forwarder)" "proc_ok (routes example_forwarder) example_process"
    "mcr_enabled example_forwarder" "mcr_spray_mode example_forwarder \<noteq> ''full''" "cap (arena example_forwarder) \<le> 2 ^ 61"
    by (simp_all add: example_forwarder_simps example_table_wf proc_ok_example)
  have e: "unat (epoch example_process) + length (traffic_of ?ops) < 2 ^ 64" "packets_processed example_process = 0"
    by (simp_all add: example_process_def)
  have fits: "list_all op_fits (traffic_of ?ops)" by (simp add: example_packet_fields TAG_SIZE_def)
  from monitoring_counts_traffic [OF lib_ok_length [OF toy_lib_ok] h e(1) fits] show ?thesis
    by (auto simp: e(2) clients_at_simps)
qed

text \<open>Whoever starts a server without \<open>--demo\<close> watches a process that forwards nothing.\<close>

lemma server_forwards_nothing:
  assumes "services_of args \<noteq> []" and "\<not> parse_flag args ''--demo''"
  shows "serve_or_demo L threads sched clock args env nd = (ServeForever (services_of args), nd)"
  using assms by (simp add: serve_or_demo_def Let_def)

text \<open>What the Prometheus text says is what was counted: the value parses back.\<close>

lemma prometheus_lines:
  "split_on (CHR 0x0A) (render_prometheus_metrics n secs) ! 2 = ''mohawk_packets_processed_total '' @ show_nat (unat n)"
  "parse_usize (show_nat (unat n)) = Inr (unat n)"
proof -
  have nl: "CHR 0x0A \<notin> set (show_nat k)" for k
    using show_nat_chars [of "CHR 0x0A" k] by (auto simp: digit_char_def digit_of_def)
  have at: "split_on (CHR 0x0A) (xs @ newline @ ys) = xs # split_on (CHR 0x0A) ys" if "CHR 0x0A \<notin> set xs" for xs ys
    using that by (simp add: newline_def split_on_cons)
  have at2: "split_on (CHR 0x0A) (xs @ show_nat k @ newline @ ys) = (xs @ show_nat k) # split_on (CHR 0x0A) ys"
    if "CHR 0x0A \<notin> set xs" for xs k ys
    using at [of "xs @ show_nat k" ys] that nl [of k] by simp
  show "split_on (CHR 0x0A) (render_prometheus_metrics n secs) ! 2 = ''mohawk_packets_processed_total '' @ show_nat (unat n)"
    unfolding render_prometheus_metrics_def
    by (subst at, simp, subst at, simp, subst at2, simp) (simp only: numeral_2_eq_2 nth_Cons_Suc nth_Cons_0)
  have "unat n < 2 ^ 64" using unsigned_less [of n] by simp
  from parse_core_show [OF this] show "parse_usize (show_nat (unat n)) = Inr (unat n)"
    by (simp add: parse_core_def split: sum.splits)
qed

end
