(* ===== verification/Socket_Setup.thy ===== *)
theory Socket_Setup
  imports Metrics
begin

text \<open>
  Opening and closing a real AF_XDP socket (\<open>RealSocket::new\<close> and its \<open>Drop\<close> in
  \<open>afxdp/src/socket.rs\<close>). The system calls are the record \<open>os_calls\<close>; \<open>None\<close>, \<open>False\<close> and the
  interface index 0 are their failures. The descriptors the process holds are a multiset that
  the definitions thread, so that leaks show. A panic is the left side of the outer sum;
  the descriptor it leaves open is open until the process ends, which in the release profile
  (\<open>panic = "abort"\<close>) is at once. A socket that has been opened has a free list with every frame of
  its UMEM, which is what \<open>send\<close> needs.
\<close>

subsection \<open>System calls\<close>

record os_calls =
  os_mmap :: "nat \<Rightarrow> bytes option"
  os_socket :: "nat option"
  os_ifindex :: "string \<Rightarrow> u32"
  os_bind :: "nat \<Rightarrow> u32 \<Rightarrow> u32 \<Rightarrow> bool"
  os_umem_reg :: "nat \<Rightarrow> u64 \<Rightarrow> u32 \<Rightarrow> bool"
  os_mmap_offsets :: "nat \<Rightarrow> xsk_offsets option"
  os_page_size :: nat
  os_map_rings :: "nat \<Rightarrow> nat \<Rightarrow> bool"
  os_eventfd :: "nat option"
  os_epoll :: "nat option"

datatype init_error =
    UmemAlloc | SocketFailed | NameHasNul | NoInterface | BindFailed | UmemRegFailed | OffsetsFailed | MapFailed

subsection \<open>Opening\<close>

text \<open>The socket, bound to the queue of the interface. A name with a NUL byte is refused by
  \<open>CString::new\<close>, whose error is returned at once.\<close>

definition open_bound :: "os_calls \<Rightarrow> string \<Rightarrow> u32 \<Rightarrow> nat multiset \<Rightarrow> (init_error + nat) \<times> nat multiset" where
  "open_bound os ifname queue fds =
     (case os_socket os of
        None \<Rightarrow> (Inl SocketFailed, fds)
      | Some fd \<Rightarrow>
          let fds = add_mset fd fds in
          if nul \<in> set ifname then (Inl NameHasNul, fds)
          else let ifindex = os_ifindex os ifname in
               if ifindex = 0 then (Inl NoInterface, fds - {#fd#})
               else if \<not> os_bind os fd ifindex queue then (Inl BindFailed, fds - {#fd#})
               else (Inr fd, fds))"

definition register_umem :: "os_calls \<Rightarrow> umem \<Rightarrow> nat \<Rightarrow> nat multiset \<Rightarrow> (init_error + unit) \<times> nat multiset" where
  "register_umem os u fd fds =
     (if \<not> os_umem_reg os fd (of_nat (u_len u)) (of_nat (u_frame u)) then (Inl UmemRegFailed, fds - {#fd#})
      else (Inr (), fds))"

definition query_offsets :: "os_calls \<Rightarrow> nat \<Rightarrow> nat multiset \<Rightarrow> (init_error + xsk_offsets) \<times> nat multiset" where
  "query_offsets os fd fds =
     (case os_mmap_offsets os fd of None \<Rightarrow> (Inl OffsetsFailed, fds - {#fd#}) | Some offs \<Rightarrow> (Inr offs, fds))"

definition map_rings :: "os_calls \<Rightarrow> xsk_offsets \<Rightarrow> nat \<Rightarrow> nat multiset \<Rightarrow> (init_error + ring_mmap) \<times> nat multiset" where
  "map_rings os offs fd fds =
     (let mmap_size = os_page_size os * 16 in
      if \<not> os_map_rings os fd mmap_size then (Inl MapFailed, fds - {#fd#})
      else (Inr (RingMmap_new mmap_size offs), fds))"

text \<open>A frame size of zero divides by zero.\<close>

definition initial_free_list :: "u64 option \<Rightarrow> umem \<Rightarrow> fault + free_list" where
  "initial_free_list env u =
     (if u_frame u = 0 then Inl Panicked
      else let frames = u_len u div u_frame u in
           bindr (FreeList_with_capacity env frames) (\<lambda>fl.
           Inr (snd (push_all (map (\<lambda>i. of_nat (i * u_frame u)) [0..<frames]) fl))))"

text \<open>Neither descriptor is essential: a failure leaves it out.\<close>

definition make_wakeups :: "os_calls \<Rightarrow> nat multiset \<Rightarrow> nat option \<times> nat option \<times> nat multiset" where
  "make_wakeups os fds =
     (os_eventfd os, os_epoll os, fds + mset (case os_eventfd os of None \<Rightarrow> [] | Some e \<Rightarrow> [e])
        + mset (case os_epoll os of None \<Rightarrow> [] | Some e \<Rightarrow> [e]))"

record real_socket =
  rs_ifname :: string
  rs_queue :: u32
  rs_label :: string
  rs_fd :: nat
  rs_eventfd :: "nat option"
  rs_epoll :: "nat option"
  rs_sock :: xdp_socket

definition socket_label :: "string \<Rightarrow> u32 \<Rightarrow> string" where
  "socket_label ifname queue = ifname @ '':'' @ show_nat (unat queue)"

text \<open>\<open>i\<close> is the number under which the registry of counters knows the new socket.\<close>

definition RealSocket_new ::
    "os_calls \<Rightarrow> u64 option \<Rightarrow> nat \<Rightarrow> string \<Rightarrow> u32 \<Rightarrow> nat \<Rightarrow> nat \<Rightarrow> nat multiset \<Rightarrow> socket_registry \<Rightarrow>
       (fault + (init_error + real_socket)) \<times> nat multiset \<times> socket_registry" where
  "RealSocket_new os env i ifname queue umem_frame_size umem_pages fds reg =
     (case Umem_new (os_mmap os) (umem_frame_size * umem_pages mod 2 ^ 64) umem_frame_size of
        Inl _ \<Rightarrow> (Inr (Inl UmemAlloc), fds, reg)
      | Inr u \<Rightarrow>
     (case open_bound os ifname queue fds of
        (Inl e, fds) \<Rightarrow> (Inr (Inl e), fds, reg)
      | (Inr fd, fds) \<Rightarrow>
     (case register_umem os u fd fds of
        (Inl e, fds) \<Rightarrow> (Inr (Inl e), fds, reg)
      | (Inr _, fds) \<Rightarrow>
     (case query_offsets os fd fds of
        (Inl e, fds) \<Rightarrow> (Inr (Inl e), fds, reg)
      | (Inr offs, fds) \<Rightarrow>
     (case map_rings os offs fd fds of
        (Inl e, fds) \<Rightarrow> (Inr (Inl e), fds, reg)
      | (Inr ring, fds) \<Rightarrow>
     (case initial_free_list env u of
        Inl e \<Rightarrow> (Inl e, fds, reg)
      | Inr fl \<Rightarrow>
          let (eventfd, epoll, fds) = make_wakeups os fds;
              label = socket_label ifname queue
          in (Inr (Inr \<lparr>rs_ifname = ifname, rs_queue = queue, rs_label = label, rs_fd = fd, rs_eventfd = eventfd,
                rs_epoll = epoll, rs_sock = \<lparr>x_umem = u, x_ring = Some ring, x_next = 0, x_free = fl, x_retries = 0,
                  x_pressure = 0, x_counters = SocketCounters_new\<rparr>\<rparr>),
              fds, register_socket_metrics label i reg)))))))"

text \<open>\<open>Drop\<close>: unregister the counters, close what is open.\<close>

definition RealSocket_drop :: "real_socket \<Rightarrow> nat multiset \<Rightarrow> socket_registry \<Rightarrow> nat multiset \<times> socket_registry" where
  "RealSocket_drop s fds reg =
     (let reg = unregister_socket_metrics (rs_label s) reg;
          fds = fds - {#rs_fd s#};
          fds = (case rs_eventfd s of None \<Rightarrow> fds | Some e \<Rightarrow> fds - {#e#});
          fds = (case rs_epoll s of None \<Rightarrow> fds | Some e \<Rightarrow> fds - {#e#})
      in (fds, reg))"

subsection \<open>A new socket is ready\<close>

definition frame_addrs :: "nat \<Rightarrow> nat \<Rightarrow> u64 list" where
  "frame_addrs n f = map (\<lambda>i. of_nat (i * f)) [0..<n]"

lemma frame_addr: "i < n \<Longrightarrow> n * f \<le> 2 ^ 61 \<Longrightarrow> unat (of_nat (i * f) :: u64) = i * f"
proof -
  assume "i < n" "n * f \<le> 2 ^ 61"
  then have "i * f \<le> 2 ^ 61" by (meson le_trans less_imp_le mult_le_mono1)
  then show ?thesis by (simp add: unat_of_nat take_bit_nat_eq_self del: of_nat_mult)
qed

lemma frame_addrs_ok:
  assumes "0 < f" "n * f \<le> 2 ^ 61" "u_frame u = f" "length (u_mem u) = n * f"
  shows "distinct (frame_addrs n f)" "frames_ok u (set (frame_addrs n f))"
proof -
  have "inj_on (\<lambda>i. of_nat (i * f) :: u64) {0..<n}"
  proof (rule inj_onI)
    fix i j assume ij: "i \<in> {0..<n}" "j \<in> {0..<n}" "(of_nat (i * f) :: u64) = of_nat (j * f)"
    then have "i * f = j * f" using frame_addr [of i n f] frame_addr [of j n f] assms(2) by (metis atLeastLessThan_iff)
    with assms(1) show "i = j" by simp
  qed
  then show "distinct (frame_addrs n f)" by (simp add: frame_addrs_def distinct_map)
  have "f dvd i * f \<and> i * f + f \<le> n * f" if "i < n" for i
    using that mult_le_mono1 [of "Suc i" n f] by (simp add: add.commute)
  then show "frames_ok u (set (frame_addrs n f))"
    using assms(2-4) frame_addr [of _ n f] by (auto simp: frames_ok_def frame_addrs_def simp del: of_nat_mult)
qed

lemma initial_free_list_ok:
  assumes "0 < u_frame u" "u_len u = n * u_frame u" "list_fits env n"
  shows "\<exists>fl. initial_free_list env u = Inr fl \<and> fl_ok fl \<and> fl_contents fl = frame_addrs n (u_frame u)"
proof -
  from FreeList_new_ok [OF assms(3)] obtain fl where
    fl: "FreeList_with_capacity env n = Inr fl" "fl_ok fl" "fl_contents fl = []" "n \<le> fl_limit fl" by blast
  have "fl_used fl = 0" using fl_length [of fl] fl(3) by simp
  with push_all_ok [OF fl(2), of "frame_addrs n (u_frame u)"] fl(3,4)
  have "fl_ok (snd (push_all (frame_addrs n (u_frame u)) fl))"
    "fl_contents (snd (push_all (frame_addrs n (u_frame u)) fl)) = frame_addrs n (u_frame u)"
    by (auto simp: frame_addrs_def)
  with fl(1) assms(1,2) show ?thesis by (simp add: initial_free_list_def bindr_def frame_addrs_def)
qed

text \<open>A system in which everything works: three frames of four bytes and the region of the small
  example.\<close>

definition small_os :: os_calls where
  "small_os = \<lparr>os_mmap = (\<lambda>n. Some (replicate n 0)), os_socket = Some 3, os_ifindex = (\<lambda>_. 2), os_bind = (\<lambda>_ _ _. True),
     os_umem_reg = (\<lambda>_ _ _. True), os_mmap_offsets = (\<lambda>_. Some \<lparr>o_rx = 0, o_rx_desc = 32, o_tx = 8, o_tx_desc = 40,
       o_fill = 16, o_fill_desc = 56, o_comp = 24, o_comp_desc = 64\<rparr>),
     os_page_size = 6, os_map_rings = (\<lambda>_ _. True), os_eventfd = Some 4, os_epoll = None\<rparr>"

lemma small_os_opens:
  "\<exists>s. RealSocket_new small_os None 0 ''eth0'' 0 4 3 {#} [] = (Inr (Inr s), {#3, 4#}, [(''eth0:0'', 0)])
    \<and> x_ring (rs_sock s) = Some small_region \<and> u_frame (x_umem (rs_sock s)) = 4"
proof -
  let ?u = "\<lparr>u_mem = replicate 12 0, u_len = 12, u_frame = 4, u_frames = 3\<rparr>"
  obtain fl where "initial_free_list None ?u = Inr fl" using initial_free_list_ok [of ?u 3 None] list_fits_None [of 3] by auto
  moreover have "Umem_new (os_mmap small_os) (4 * 3 mod 2 ^ 64) 4 = Inr ?u" by (simp add: Umem_new_def small_os_def)
  moreover have "show_nat 0 = ''0''" by (simp add: show_nat.simps char_of_def bit_Suc_0_iff)
  ultimately show ?thesis
    by (simp add: RealSocket_new_def) (simp add: open_bound_def register_umem_def query_offsets_def map_rings_def
        make_wakeups_def small_os_def nul_def Let_def socket_label_def register_socket_metrics_def small_region_def add_mset_commute)
qed

text \<open>The free list is the only step that can panic, and it runs after the socket has been opened.\<close>

lemma initial_free_list_panics:
  "initial_free_list env u = Inl e \<longleftrightarrow> e = Panicked \<and> (u_frame u = 0 \<or> \<not> list_fits env (u_len u div u_frame u))"
  by (auto simp: initial_free_list_def FreeList_panics_iff bindr_def Let_def split: if_splits)

text \<open>The descriptors that opening and dropping leave open.\<close>

lemma open_close_balance:
  "case RealSocket_new os env i ifname queue frame pages fds reg of
     (Inr (Inl e), fds', reg') \<Rightarrow>
       reg' = reg \<and> fds' = (if e = NameHasNul then add_mset (the (os_socket os)) fds else fds)
   | (Inr (Inr s), fds', reg') \<Rightarrow>
       RealSocket_drop s fds' reg' = (fds, filter (\<lambda>(l, _). l \<noteq> rs_label s) reg)
   | (Inl e, fds', reg') \<Rightarrow>
       e = Panicked \<and> (frame = 0 \<or> \<not> list_fits env (frame * pages mod 2 ^ 64 div frame))
       \<and> reg' = reg \<and> fds' = add_mset (the (os_socket os)) fds"
  by (auto simp: RealSocket_new_def open_bound_def register_umem_def query_offsets_def map_rings_def make_wakeups_def
      RealSocket_drop_def register_socket_metrics_def unregister_socket_metrics_def Let_def filter_filter Umem_new_def
      initial_free_list_panics
      split: sum.splits option.splits prod.splits if_splits)

subsection \<open>Properties\<close>


text \<open>The three ends: a socket that works, a name with a NUL byte, a headroom of \<open>2 ^ 60\<close>.\<close>

lemma small_os_fails:
  "fst (RealSocket_new small_os None 0 [nul] 0 4 3 fds []) = Inr (Inl NameHasNul)"
  "fst (RealSocket_new small_os (Some (2 ^ 60)) 0 ''eth0'' 0 4 3 fds []) = Inl Panicked"
proof -
  show "fst (RealSocket_new small_os None 0 [nul] 0 4 3 fds []) = Inr (Inl NameHasNul)"
    by (simp add: RealSocket_new_def open_bound_def small_os_def Umem_new_def nul_def Let_def)
  let ?u = "\<lparr>u_mem = replicate 12 0, u_len = 12, u_frame = 4, u_frames = 3\<rparr>"
  have "initial_free_list (Some (2 ^ 60)) ?u = Inl Panicked"
    by (simp add: initial_free_list_panics list_fits_Some)
  moreover have "Umem_new (os_mmap small_os) (4 * 3 mod 2 ^ 64) 4 = Inr ?u" by (simp add: Umem_new_def small_os_def)
  ultimately show "fst (RealSocket_new small_os (Some (2 ^ 60)) 0 ''eth0'' 0 4 3 fds []) = Inl Panicked"
    by (simp add: RealSocket_new_def)
      (simp add: open_bound_def register_umem_def query_offsets_def map_rings_def small_os_def nul_def Let_def)
qed


text \<open>A socket that has been opened can send at once: on idle rings that do not overlap, up to as
  many packets as there are frames and TX slots go out with the first call, packet \<open>k\<close> in frame
  \<open>k\<close> of the UMEM, and the frames not used stay in the free list.\<close>

theorem new_socket_sends:
  assumes "RealSocket_new os env i ifname queue frame pages fds reg = (Inr (Inr s), fds', reg')"
    and "\<And>n m. os_mmap os n = Some m \<Longrightarrow> length m = n"
    and "0 < frame" and "pages * frame \<le> 2 ^ 61"
    and "x_ring (rs_sock s) = Some r" and "comp_ok r mem" and "tx_ok r mem" and "rings_apart r"
    and "comp_contents r mem = []" and "tx_contents r mem = []"
    and "list_all (\<lambda>p. fst p + snd p \<le> length buf) offs" and "length offs \<le> pages" and "length offs \<le> tx_capacity r"
  shows "\<exists>s' mem'. socket_send kern buf offs (rs_sock s) mem = Inr (True, s', mem')
    \<and> tx_contents r mem' = take (length offs) (frame_addrs pages frame)
    \<and> fl_contents (x_free s') = drop (length offs) (frame_addrs pages frame)
    \<and> map2 (\<lambda>p a. frame_at (x_umem s') (length (packet_in buf p (x_umem (rs_sock s)))) a) offs (frame_addrs pages frame)
      = map (\<lambda>p. packet_in buf p (x_umem (rs_sock s))) offs"
proof -
  let ?x = "rs_sock s" and ?n = "frame * pages mod 2 ^ 64"
  have n: "?n = pages * frame" using assms(4) by (simp add: mult.commute)
  from assms(1) obtain u where u: "Umem_new (os_mmap os) ?n frame = Inr u" "x_umem ?x = u"
    "initial_free_list env u = Inr (x_free ?x)"
    by (auto simp: RealSocket_new_def Let_def split: sum.splits prod.splits)
  from u(1) [unfolded n] obtain m where m: "os_mmap os (pages * frame) = Some m" "u_mem u = m" "u_len u = pages * frame" "u_frame u = frame"
    by (auto simp: Umem_new_def split: option.splits)
  have len: "length (u_mem u) = pages * frame" using assms(2) [OF m(1)] m(2) by simp
  from u(3) m assms(3) have "list_fits env pages"
    using initial_free_list_panics [of env u Panicked] by auto
  from initial_free_list_ok [where u = u and n = pages, OF _ _ this] assms(3) m u(3)
  have fl: "fl_ok (x_free ?x)" "fl_contents (x_free ?x) = frame_addrs pages frame" by auto
  have F: "frame_addrs pages frame = fl_contents (snd (push_all (take 64 (comp_contents r mem)) (x_free ?x)))"
    by (simp add: assms(9) fl(2))
  have len_f: "length (frame_addrs pages frame) = pages" by (simp add: frame_addrs_def)
  note fr = frame_addrs_ok [OF assms(3,4) m(4) len]
  have "length offs \<le> length (frame_addrs pages frame)" "length (tx_contents r mem) + length offs \<le> tx_capacity r"
    using assms(10,12,13) len_f by simp_all
  from send_ok [OF assms(5-8) fl(1) F fr(1) _ this(1) assms(11) this(2), of kern] fr(2) show ?thesis
    by (simp add: u(2) assms(10))
qed

theorem new_socket_sends_witness:
  "\<exists>s fds reg s' mem'. RealSocket_new small_os None 0 ''eth0'' 0 4 3 {#} [] = (Inr (Inr s), fds, reg)
    \<and> socket_send (\<lambda>_ m. m) [1, 2, 3, 4, 5, 6, 7] [(0, 3), (3, 4)] (rs_sock s) (replicate 96 0) = Inr (True, s', mem')
    \<and> tx_contents small_region mem' = [0, 4] \<and> fl_contents (x_free s') = [8]"
proof -
  let ?mem = "replicate 96 0 :: bytes"
  obtain s where s: "RealSocket_new small_os None 0 ''eth0'' 0 4 3 {#} [] = (Inr (Inr s), {#3, 4#}, [(''eth0:0'', 0)])"
    "x_ring (rs_sock s) = Some small_region"
    using small_os_opens by blast
  have c: "comp_contents small_region ?mem = []" "tx_contents small_region ?mem = []"
    by (simp_all add: ring_contents_def small_region_masks small_idle)
  have ok: "comp_ok small_region ?mem" "tx_ok small_region ?mem" "rings_apart small_region"
    by (simp_all add: ring_ok_def rings_apart_def small_region_masks small_idle is_power_of_two.simps)
  have addrs: "frame_addrs 3 4 = [0, 4, 8]" by (simp add: frame_addrs_def upt_rec)
  have mm: "\<And>n m. os_mmap small_os n = Some m \<Longrightarrow> length m = n" by (auto simp: small_os_def)
  have sz: "0 < (4 :: nat)" "(3 :: nat) * 4 \<le> 2 ^ 61" by simp_all
  have offs: "list_all (\<lambda>p. fst p + snd p \<le> length [1, 2, 3, 4, 5, 6, 7 :: u8]) [(0 :: nat, 3 :: nat), (3, 4)]"
    "length [(0 :: nat, 3 :: nat), (3, 4)] \<le> 3" "length [(0 :: nat, 3 :: nat), (3, 4)] \<le> tx_capacity small_region"
    by (simp_all add: tx_capacity_def small_region_masks)
  from new_socket_sends [OF s(1) mm sz s(2) ok c offs, of "\<lambda>_ m. m"] s(1) show ?thesis
    by (auto simp: addrs)
qed

end
