(* ===== verification/Smoke.thy ===== *)
theory Smoke
  imports Socket_Setup Cli_Main
begin

text \<open>
  What is built on a real socket: the smoke test (\<open>tools/hardware/smoke/src/main.rs\<close>), the socket
  of the command line with the feature \<open>real\<close> (\<open>build_socket\<close> of \<open>cli/src/main.rs\<close>), and
  \<open>RealSocketHandle\<close> (\<open>afxdp/src/socket.rs\<close>), a socket behind a mutex. The environment is a map
  from names to values and the system calls are \<open>os_calls\<close>.
\<close>

subsection \<open>Settings\<close>

definition env_or :: "(string \<Rightarrow> 'a option) \<Rightarrow> (string \<Rightarrow> string option) \<Rightarrow> string \<Rightarrow> 'a \<Rightarrow> 'a" where
  "env_or parse_value env name dflt =
     (case env name of None \<Rightarrow> dflt
      | Some s \<Rightarrow> (case parse_value s of None \<Rightarrow> dflt | Some v \<Rightarrow> v))"

definition headroom_setting :: "(string \<Rightarrow> string option) \<Rightarrow> u64 option" where
  "headroom_setting env = map_option of_nat (Option.bind (env ''MOHAWK_FREELIST_HEADROOM'') ok_usize)"

definition open_from_env ::
    "os_calls \<Rightarrow> nat \<Rightarrow> string \<Rightarrow> (string \<Rightarrow> string option) \<Rightarrow> nat multiset \<Rightarrow> socket_registry \<Rightarrow>
       (fault + (init_error + real_socket)) \<times> nat multiset \<times> socket_registry" where
  "open_from_env os i iface env fds reg =
     (let queue_id = env_or ok_u32 env ''MOHAWK_QUEUE_ID'' 0;
          frame_size = env_or ok_usize env ''MOHAWK_FRAME_SIZE'' 2048;
          pages = env_or ok_usize env ''MOHAWK_UMEM_PAGES'' 1024
      in RealSocket_new os (headroom_setting env) i iface queue_id frame_size pages fds reg)"

subsection \<open>The smoke test\<close>

text \<open>The exit code of the process, or its panic.\<close>

definition smoke_main ::
    "os_calls \<Rightarrow> nat \<Rightarrow> (string \<Rightarrow> string option) \<Rightarrow> nat multiset \<Rightarrow> socket_registry \<Rightarrow>
       (fault + nat) \<times> nat multiset \<times> socket_registry" where
  "smoke_main os i env fds reg =
     (let iface = (case env ''MOHAWK_IFACE'' of None \<Rightarrow> '''' | Some v \<Rightarrow> v) in
      if iface = '''' then (Inr 2, fds, reg)
      else (case open_from_env os i iface env fds reg of
              (Inl e, fds, reg) \<Rightarrow> (Inl e, fds, reg)
            | (Inr (Inl _), fds, reg) \<Rightarrow> (Inr 3, fds, reg)
            | (Inr (Inr sock), fds, reg) \<Rightarrow>
                (let (fds, reg) = RealSocket_drop sock fds reg in (Inr 0, fds, reg))))"

subsection \<open>The socket of the command line with the feature real\<close>

datatype af_xdp_socket = RealBox real_socket | MockBox mock_socket

definition build_socket_real ::
    "os_calls \<Rightarrow> nat \<Rightarrow> (string \<Rightarrow> string option) \<Rightarrow> bytes list \<Rightarrow> nat multiset \<Rightarrow> socket_registry \<Rightarrow>
       (fault + af_xdp_socket) \<times> nat multiset \<times> socket_registry" where
  "build_socket_real os i env frames fds reg =
     (case env ''MOHAWK_IFACE'' of
        None \<Rightarrow> (Inr (MockBox (build_socket frames)), fds, reg)
      | Some iface \<Rightarrow>
          (case open_from_env os i iface env fds reg of
             (Inl e, fds, reg) \<Rightarrow> (Inl e, fds, reg)
           | (Inr (Inl _), fds, reg) \<Rightarrow> (Inr (MockBox (build_socket frames)), fds, reg)
           | (Inr (Inr sock), fds, reg) \<Rightarrow> (Inr (RealBox sock), fds, reg)))"

subsection \<open>A socket behind a mutex\<close>

text \<open>A call that panics poisons the mutex; the flag is its state.\<close>

definition poisons :: "bool \<Rightarrow> ring_fault + 'a \<Rightarrow> bool" where
  "poisons p r = (p \<or> r = Inl CheckFailed)"

definition handle_poll :: "nat \<Rightarrow> bool \<times> xdp_socket \<Rightarrow> bytes \<Rightarrow> (ring_fault + bytes list \<times> bytes) \<times> bool" where
  "handle_poll max_n h mem =
     (case h of (p, s) \<Rightarrow>
        if p then (Inr ([], mem), p) else let r = socket_poll max_n s mem in (r, poisons p r))"

definition handle_send ::
    "(nat \<Rightarrow> bytes \<Rightarrow> bytes) \<Rightarrow> bytes \<Rightarrow> (nat \<times> nat) list \<Rightarrow> bool \<times> xdp_socket \<Rightarrow> bytes \<Rightarrow>
       (ring_fault + bool \<times> xdp_socket \<times> bytes) \<times> bool" where
  "handle_send kern buf offs h mem =
     (case h of (p, s) \<Rightarrow>
        if p then (Inr (False, s, mem), p) else let r = socket_send kern buf offs s mem in (r, poisons p r))"

text \<open>Once poisoned, the handle answers every later call without touching the socket.\<close>

lemma poisoned_handle:
  "handle_poll n (True, s) mem = (Inr ([], mem), True)"
  "handle_send kern buf offs (True, s) mem = (Inr (False, s, mem), True)"
  by (simp_all add: handle_poll_def handle_send_def)

subsection \<open>Properties\<close>

text \<open>The smoke test: it ends with 2 exactly when no interface is named, and then nothing was
  opened; otherwise with 0 or 3 as the socket could be opened or not. Unless it panics it leaves the
  process's descriptors as they were (the name of an interface holds no NUL byte, coming from the
  environment), and the registry without the counters it may have added.\<close>

theorem smoke_exit_codes:
  assumes "\<And>v. env ''MOHAWK_IFACE'' = Some v \<Longrightarrow> nul \<notin> set v"
  shows "case smoke_main os i env fds reg of
    (Inl _, _) \<Rightarrow> True
  | (Inr code, fds', reg') \<Rightarrow>
      code \<in> {0, 2, 3} \<and> (code = 2 \<longleftrightarrow> env ''MOHAWK_IFACE'' \<in> {None, Some ''''}) \<and> fds' = fds
      \<and> reg' = (if code = 0 then filter (\<lambda>(l, _). l \<noteq> socket_label (the (env ''MOHAWK_IFACE'')) (env_or ok_u32 env ''MOHAWK_QUEUE_ID'' 0)) reg else reg)"
proof (cases "env ''MOHAWK_IFACE''")
  case (Some v)
  let ?r = "open_from_env os i v env fds reg"
  let ?q = "env_or ok_u32 env ''MOHAWK_QUEUE_ID'' 0"
  have lab: "\<And>s f g. ?r = (Inr (Inr s), f, g) \<Longrightarrow> rs_label s = socket_label v ?q"
    by (auto simp: open_from_env_def RealSocket_new_def Let_def split: sum.splits prod.splits)
  have nn: "\<And>f g. ?r \<noteq> (Inr (Inl NameHasNul), f, g)"
    using assms [OF Some]
    by (auto simp: open_from_env_def RealSocket_new_def open_bound_def register_umem_def query_offsets_def map_rings_def Let_def
        split: sum.splits prod.splits option.splits if_splits)
  from open_close_balance [where os = os and env = "headroom_setting env" and i = i and ifname = v and queue = ?q
      and frame = "env_or ok_usize env ''MOHAWK_FRAME_SIZE'' 2048" and pages = "env_or ok_usize env ''MOHAWK_UMEM_PAGES'' 1024"
      and fds = fds and reg = reg]
  have b: "case ?r of
     (Inr (Inl e), fds', reg') \<Rightarrow> reg' = reg \<and> fds' = (if e = NameHasNul then add_mset (the (os_socket os)) fds else fds)
   | (Inr (Inr s), fds', reg') \<Rightarrow> RealSocket_drop s fds' reg' = (fds, filter (\<lambda>(l, _). l \<noteq> rs_label s) reg)
   | (Inl _, _) \<Rightarrow> True"
    unfolding open_from_env_def Let_def by (auto split: prod.splits sum.splits)
  obtain x f g where r: "?r = (x, f, g)" by (cases ?r)
  show ?thesis
  proof (cases x)
    case (Inl e)
    with r Some show ?thesis by (simp add: smoke_main_def)
  next
    case (Inr y)
    then show ?thesis using r b Some lab nn by (cases y) (auto simp: smoke_main_def)
  qed
qed (simp add: smoke_main_def)

definition small_env :: "string \<Rightarrow> string option" where
  "small_env = [''MOHAWK_IFACE'' \<mapsto> ''eth0'', ''MOHAWK_FRAME_SIZE'' \<mapsto> ''4'', ''MOHAWK_UMEM_PAGES'' \<mapsto> ''3'']"

lemma small_env_opens:
  "open_from_env os i ''eth0'' small_env fds reg = RealSocket_new os None i ''eth0'' 0 4 3 fds reg"
  by (simp add: open_from_env_def env_or_def headroom_setting_def small_env_def ok_usize_def parse_usize_def digit_of_def Let_def)

theorem smoke_exit_codes_witness:
  "\<exists>code. smoke_main small_os 0 small_env {#} [] = (Inr code, {#}, []) \<and> code = 0"
proof -
  have iface: "small_env ''MOHAWK_IFACE'' = Some ''eth0''" by (simp add: small_env_def)
  from small_os_opens obtain s where "smoke_main small_os 0 small_env {#} [] =
      (let (fds, reg) = RealSocket_drop s {#3, 4#} [(''eth0:0'', 0)] in (Inr 0, fds, reg))"
    by (auto simp: smoke_main_def iface small_env_opens)
  then obtain fds reg where r: "smoke_main small_os 0 small_env {#} [] = (Inr 0, fds, reg)"
    by (cases "RealSocket_drop s {#3, 4#} [(''eth0:0'', 0)]") auto
  have "nul \<notin> set v" if "small_env ''MOHAWK_IFACE'' = Some v" for v
    using that by (auto simp: iface nul_def)
  from smoke_exit_codes [where env = small_env, OF this, where os = small_os and i = 0 and fds = "{#}" and reg = "[]"] show ?thesis by (simp add: r)
qed

text \<open>With the feature \<open>real\<close>, a socket that opens takes the place of the mock, and the frames it was
  to deliver are dropped: the packet of the demo is never received.\<close>

lemma real_socket_drops_frames:
  assumes "env ''MOHAWK_IFACE'' = Some iface" and "open_from_env os i iface env fds reg = (Inr (Inr s), fds', reg')"
  shows "build_socket_real os i env frames fds reg = (Inr (RealBox s), fds', reg')"
  using assms by (simp add: build_socket_real_def)

end
