(* ===== verification/Chaos.thy ===== *)
theory Chaos
  imports Router_Run Cli_Main
begin

text \<open>
  The chaos harness (\<open>benchmark/src/main.rs\<close>): it makes packets from a template, loses,
  corrupts and duplicates them at random, and drives the forwarder with them in batches over
  mock sockets. The random generator of the \<open>rand\<close> crate, the parser of
  floating-point numbers and the arithmetic on the percentages are parameters; the order in which the
  harness draws from the generator is the code's, and so is the panic of \<open>gen_bool\<close> on what is no
  probability (\<open>draw_bool\<close>). The environment of the forwarder is the one
  of \<open>Forward\<close>; the latencies are clock readings and are represented by their number.
\<close>

subsection \<open>Configuration\<close>

text \<open>\<open>float n\<close> is the literal \<open>n.0\<close>, \<open>chance p\<close> is \<open>(p / 100.0).clamp(0.0, 1.0)\<close>, and \<open>is_prob q\<close> says that \<open>q\<close>
  lies between 0 and 1. Clamping does not ensure that: \<open>NaN\<close>, which the parser accepts, stays \<open>NaN\<close>.\<close>

record ('p, 'q, 'g) chaos_std =
  float :: "nat \<Rightarrow> 'p"
  chance :: "'p \<Rightarrow> 'q"
  is_prob :: "'q \<Rightarrow> bool"
  seed_from_u64 :: "u64 \<Rightarrow> 'g"
  gen_bool :: "'q \<Rightarrow> 'g \<Rightarrow> bool \<times> 'g"
  parse_f64 :: "string \<Rightarrow> 'p option"

text \<open>\<open>Rng::gen_bool\<close> panics outside that range, before it draws.\<close>

definition draw_bool :: "('p, 'q, 'g) chaos_std \<Rightarrow> 'q \<Rightarrow> 'g \<Rightarrow> fault + bool \<times> 'g" where
  "draw_bool R q g = (if is_prob R q then Inr (gen_bool R q g) else Inl Panicked)"

record 'p chaos_config =
  packets :: nat
  batch_size :: nat
  payload_len :: nat
  loss_percent :: 'p
  corrupt_percent :: 'p
  duplicate_percent :: 'p
  rng_seed :: u64

definition parse_or_default :: "(string \<Rightarrow> 'a option) \<Rightarrow> string list \<Rightarrow> string \<Rightarrow> 'a \<Rightarrow> 'a" where
  "parse_or_default parse_value args flag dflt =
     (case position flag args of None \<Rightarrow> dflt
      | Some idx \<Rightarrow> (case get_arg args (idx + 1) of None \<Rightarrow> dflt
         | Some v \<Rightarrow> (case parse_value v of None \<Rightarrow> dflt | Some x \<Rightarrow> x)))"

datatype 'p chaos_args = ShowHelp | Configured "'p chaos_config"

definition parse_config :: "('p, 'q, 'g) chaos_std \<Rightarrow> string list \<Rightarrow> 'p chaos_args" where
  "parse_config R args =
     (if list_ex (\<lambda>arg. arg = ''--help'' \<or> arg = ''-h'') args then ShowHelp
      else Configured
        \<lparr>packets = parse_or_default ok_usize args ''--packets'' 20000,
         batch_size = parse_or_default ok_usize args ''--batch-size'' 64,
         payload_len = parse_or_default ok_usize args ''--payload-len'' 512,
         loss_percent = parse_or_default (parse_f64 R) args ''--loss-percent'' (float R 5),
         corrupt_percent = parse_or_default (parse_f64 R) args ''--corrupt-percent'' (float R 2),
         duplicate_percent = parse_or_default (parse_f64 R) args ''--duplicate-percent'' (float R 1),
         rng_seed = parse_or_default (\<lambda>v. map_option of_nat (ok_usize v)) args ''--seed'' 1337\<rparr>)"

subsection \<open>The forwarder and the packets\<close>

definition chaos_route :: "nat \<Rightarrow> route_entry" where
  "chaos_route now = \<lparr>dest_id = fill_arr 2, next_hop_id = fill_arr 3, metric = 1, last_seen = now,
     channel_count = 1, alternate_channels = [], mcr_epoch = 1\<rparr>"

text \<open>\<open>t0\<close> and \<open>t1\<close> are the readings of the clock by the harness and by the table.\<close>

definition build_forwarder ::
    "crypto_lib \<Rightarrow> (string \<Rightarrow> string option) \<Rightarrow> nat \<Rightarrow> nat \<Rightarrow> node \<Rightarrow> fault + forwarder \<times> node" where
  "build_forwarder L env t0 t1 nd =
     (let (kc, w) = nd;
          (t, ep) = update_route t1 (chaos_route t0) (table_new, epoch w);
          (f, kc) = forwarder_new L env t kc;
          per_packet = HEADER_SIZE + TAG_SIZE + 512
      in bindr (ensure_arena_capacity (per_packet * 64) f) (\<lambda>f. Inr (f, kc, w\<lparr>epoch := ep\<rparr>)))"

text \<open>The buffer of a packet is a \<open>Vec\<close>, which panics when its size is out of range.\<close>

definition build_packet :: "nat \<Rightarrow> u64 \<Rightarrow> fault + bytes" where
  "build_packet n seq =
     (if \<not> vec_fits 1 (HEADER_SIZE + (n + TAG_SIZE)) then Inl Panicked
      else
        let packet = new_header_buffer (n + TAG_SIZE);
            header = \<lparr>src_id = fill_arr 1, dst_id = fill_arr 2, flow_label = 7, seq_num = seq,
                      session_id = fill_arr 0, flags = 0, payload_length = of_nat n\<rparr>
        in case marshal_into header packet of
             Inl e \<Rightarrow> Inl Panicked
           | Inr packet \<Rightarrow>
               Inr (overwrite HEADER_SIZE (map (\<lambda>i. of_nat (i AND 0xFF)) [0..<length packet - HEADER_SIZE]) packet))"

definition build_packet_template :: "nat \<Rightarrow> fault + bytes" where
  "build_packet_template n = build_packet n 0"

definition set_packet_seq :: "u64 \<Rightarrow> bytes \<Rightarrow> bytes" where
  "set_packet_seq seq packet =
     (case HeaderView_view packet of Inl e \<Rightarrow> packet | Inr view \<Rightarrow> set_seq_num seq view @ drop HEADER_SIZE packet)"

definition corrupt_packet :: "bytes \<Rightarrow> bytes" where
  "corrupt_packet packet =
     (let packet = overwrite 32 (replicate 32 9) packet in
      if HEADER_SIZE + 4 < length packet then take (length packet - 4) packet else packet)"

subsection \<open>The harness\<close>

text \<open>The state of \<open>main\<close>. A batch is remembered by the statistics the forwarder returned, which
  the harness drops, and by what the mock socket was given to send; the latency samples are as
  many as the batches.\<close>

record 'g chaos_state =
  cs_rng :: 'g
  cs_dropped :: nat
  cs_corrupted :: nat
  cs_duplicated :: nat
  cs_pending :: "bytes list"
  cs_total :: nat
  cs_batches :: "(fw_stats \<times> bytes list) list"
  cs_fwd :: forwarder
  cs_proc :: process

definition chaos_start :: "'g \<Rightarrow> forwarder \<Rightarrow> process \<Rightarrow> 'g chaos_state" where
  "chaos_start g f w = \<lparr>cs_rng = g, cs_dropped = 0, cs_corrupted = 0, cs_duplicated = 0, cs_pending = [],
     cs_total = 0, cs_batches = [], cs_fwd = f, cs_proc = w\<rparr>"

definition chaos_batch ::
    "crypto_lib \<Rightarrow> nat \<Rightarrow> (nat \<times> nat) list \<Rightarrow> 'g chaos_state \<Rightarrow> fault + 'g chaos_state" where
  "chaos_batch L threads sched s =
     (let total = cs_total s + length (cs_pending s);
          (polled, sock) = mock_poll 64 (build_socket (cs_pending s))
      in bindr (process_batch L threads sched polled (cs_fwd s) (cs_proc s)) (\<lambda>(st, sent, f, w).
         bindr (case sent of None \<Rightarrow> Inr sock | Some (buf, offs) \<Rightarrow> mock_send buf offs sock) (\<lambda>sock.
         Inr (s\<lparr>cs_pending := [], cs_total := total, cs_batches := cs_batches s @ [(st, m_sent sock)],
                cs_fwd := f, cs_proc := w\<rparr>))))"

definition chaos_step ::
    "('p, 'q, 'g) chaos_std \<Rightarrow> 'p chaos_config \<Rightarrow> bytes \<Rightarrow> crypto_lib \<Rightarrow> nat \<Rightarrow> (nat \<times> nat) list \<Rightarrow>
       'g chaos_state \<Rightarrow> nat \<Rightarrow> fault + 'g chaos_state" where
  "chaos_step R cfg template L threads sched s seq =
     (let loss_prob = chance R (loss_percent cfg);
          corrupt_prob = chance R (corrupt_percent cfg);
          duplicate_prob = chance R (duplicate_percent cfg)
      in bindr (draw_bool R loss_prob (cs_rng s)) (\<lambda>(lose, g).
         if lose then Inr (s\<lparr>cs_rng := g, cs_dropped := cs_dropped s + 1\<rparr>)
         else
           let packet = set_packet_seq (of_nat seq) template
           in bindr (draw_bool R corrupt_prob g) (\<lambda>(corrupt, g).
              let s = (if corrupt then s\<lparr>cs_corrupted := cs_corrupted s + 1\<rparr> else s);
                  packet = (if corrupt then corrupt_packet packet else packet);
                  pending = cs_pending s @ [packet]
              in bindr (draw_bool R duplicate_prob g) (\<lambda>(dup, g).
                 let s = (if dup then s\<lparr>cs_duplicated := cs_duplicated s + 1\<rparr> else s);
                     pending = (if dup then pending @ [last pending] else pending);
                     s = s\<lparr>cs_rng := g, cs_pending := pending\<rparr>
                 in if length pending < max (batch_size cfg) 1 then Inr s else chaos_batch L threads sched s))))"

text \<open>The vectors made at the start: a latency takes 16 bytes, a frame waiting 24. Those made for each
  later batch have the size of the first.\<close>

definition chaos_main ::
    "('p, 'q, 'g) chaos_std \<Rightarrow> 'p chaos_config \<Rightarrow> crypto_lib \<Rightarrow> (string \<Rightarrow> string option) \<Rightarrow> nat \<Rightarrow> (nat \<times> nat) list \<Rightarrow>
       nat \<Rightarrow> nat \<Rightarrow> node \<Rightarrow> fault + 'g chaos_state" where
  "chaos_main R cfg L env threads sched t0 t1 nd =
     (let g = seed_from_u64 R (rng_seed cfg) in
      bindr (build_forwarder L env t0 t1 nd) (\<lambda>(f, kc, w).
      if \<not> (vec_fits 16 (packets cfg) \<and> vec_fits 24 (max (batch_size cfg) 1)) then Inl Panicked
      else
        bindr (build_packet_template (payload_len cfg)) (\<lambda>template.
        bindr (loop_r (chaos_step R cfg template L threads sched) (chaos_start g f w) [0..<packets cfg]) (\<lambda>s.
        if cs_pending s \<noteq> [] then chaos_batch L threads sched s else Inr s))))"

text \<open>The percentile of the latencies. \<open>rank pct n\<close> is \<open>((pct / 100.0) * (n - 1.0)).round() as usize\<close>
  in floating point.\<close>

definition percentile_ns :: "('p \<Rightarrow> nat \<Rightarrow> nat) \<Rightarrow> nat list \<Rightarrow> 'p \<Rightarrow> nat" where
  "percentile_ns rank samples pct =
     (if samples = [] then 0
      else let s = sort samples; idx = min (rank pct (length s)) (length s - 1) in s ! idx)"

text \<open>Whatever rounding gives, it is one of the samples, and a higher rank gives no lower latency.\<close>

lemma percentile_ns_bounds:
  "samples \<noteq> [] \<Longrightarrow> percentile_ns rank samples pct \<in> set samples"
  "rank p (length samples) \<le> rank q (length samples) \<Longrightarrow> percentile_ns rank samples p \<le> percentile_ns rank samples q"
proof -
  have at: "percentile_ns rank samples pct = sort samples ! min (rank pct (length samples)) (length samples - 1)"
    if "samples \<noteq> []" for pct
    using that by (simp add: percentile_ns_def Let_def)
  have in_range: "samples \<noteq> [] \<Longrightarrow> min k (length samples - 1) < length (sort samples)" for k
    by (cases samples) simp_all
  show "samples \<noteq> [] \<Longrightarrow> percentile_ns rank samples pct \<in> set samples"
    using nth_mem [OF in_range] by (simp add: at)
  assume le: "rank p (length samples) \<le> rank q (length samples)"
  show "percentile_ns rank samples p \<le> percentile_ns rank samples q"
  proof (cases "samples = []")
    case False
    with le in_range [OF False] show ?thesis unfolding at [OF False] by (intro sorted_nth_mono sorted_sort) simp_all
  qed (simp add: percentile_ns_def)
qed

subsection \<open>Specification\<close>

text \<open>The fate of each packet, drawn from the generator alone, and the frames that come of it. Whether a
  corrupted or duplicated packet is drawn at all depends on the draws before it.\<close>

datatype fate = Lost | Through bool bool

definition draw_fate :: "('p, 'q, 'g) chaos_std \<Rightarrow> 'p chaos_config \<Rightarrow> 'g \<Rightarrow> fate \<times> 'g" where
  "draw_fate R cfg g =
     (let (lose, g) = gen_bool R (chance R (loss_percent cfg)) g in
      if lose then (Lost, g)
      else let (corrupt, g) = gen_bool R (chance R (corrupt_percent cfg)) g;
               (dup, g) = gen_bool R (chance R (duplicate_percent cfg)) g
           in (Through corrupt dup, g))"

fun draw_fates :: "('p, 'q, 'g) chaos_std \<Rightarrow> 'p chaos_config \<Rightarrow> nat \<Rightarrow> 'g \<Rightarrow> fate list \<times> 'g" where
  "draw_fates R cfg 0 g = ([], g)"
| "draw_fates R cfg (Suc n) g = (let (x, g) = draw_fate R cfg g; (xs, g) = draw_fates R cfg n g in (x # xs, g))"

fun copies :: "fate \<Rightarrow> nat" where
  "copies Lost = 0"
| "copies (Through c d) = (if d then 2 else 1)"

fun is_corrupt :: "fate \<Rightarrow> bool" where
  "is_corrupt Lost = False"
| "is_corrupt (Through c d) = c"

fun is_duplicated :: "fate \<Rightarrow> bool" where
  "is_duplicated Lost = False"
| "is_duplicated (Through c d) = d"

definition draws_valid :: "('p, 'q, 'g) chaos_std \<Rightarrow> 'p chaos_config \<Rightarrow> fate list \<Rightarrow> bool" where
  "draws_valid R cfg xs \<longleftrightarrow> xs = [] \<or> is_prob R (chance R (loss_percent cfg)) \<and>
     (list_all (\<lambda>x. x = Lost) xs \<or> is_prob R (chance R (corrupt_percent cfg)) \<and> is_prob R (chance R (duplicate_percent cfg)))"

definition frame_of :: "bytes \<Rightarrow> nat \<Rightarrow> fate \<Rightarrow> bytes" where
  "frame_of template seq x =
     (let packet = set_packet_seq (of_nat seq) template in if is_corrupt x then corrupt_packet packet else packet)"

fun frames_from :: "bytes \<Rightarrow> nat \<Rightarrow> fate list \<Rightarrow> bytes list" where
  "frames_from template seq [] = []"
| "frames_from template seq (x # xs) = replicate (copies x) (frame_of template seq x) @ frames_from template (seq + 1) xs"

subsection \<open>Packets\<close>

definition chaos_header :: "nat \<Rightarrow> u64 \<Rightarrow> bool \<Rightarrow> header" where
  "chaos_header n seq corrupt = \<lparr>src_id = fill_arr 1, dst_id = fill_arr (if corrupt then 9 else 2), flow_label = 7,
     seq_num = seq, session_id = fill_arr 0, flags = 0, payload_length = of_nat n\<rparr>"

definition payload_pattern :: "nat \<Rightarrow> bytes" where
  "payload_pattern n = map (\<lambda>i. of_nat (i AND 0xFF)) [0..<n]"

lemma length_pattern [simp]: "length (payload_pattern n) = n"
  by (simp add: payload_pattern_def)

lemma build_packet_layout:
  "build_packet n seq = (if vec_fits 1 (112 + n) then Inr (header_bytes (chaos_header n seq False) @ payload_pattern (n + 16))
     else Inl Panicked)"
proof -
  let ?h = "chaos_header n seq False"
  have "marshal_into ?h (new_header_buffer (n + TAG_SIZE)) = Inr (header_bytes ?h @ replicate (n + 16) 0)"
    by (subst marshal_into_layout) (simp_all add: new_header_buffer_def HEADER_SIZE_def TAG_SIZE_def)
  moreover have "overwrite HEADER_SIZE (payload_pattern (n + 16)) (header_bytes ?h @ replicate (n + 16) 0)
      = header_bytes ?h @ payload_pattern (n + 16)"
    by (simp add: overwrite_def HEADER_SIZE_def)
  moreover have "16 + n = n + 16" "HEADER_SIZE + (n + TAG_SIZE) = 112 + n" by (simp_all add: HEADER_SIZE_def TAG_SIZE_def)
  ultimately show ?thesis
    by (cases "vec_fits 1 (112 + n)")
      (simp_all only: build_packet_def chaos_header_def Let_def HEADER_SIZE_def payload_pattern_def sum.case length_append
        length_header_bytes length_replicate add_diff_cancel_left' if_False if_True not_not not_True_eq_False not_False_eq_True)
qed

lemma template_made:
  "build_packet_template n = Inr template \<Longrightarrow> template = header_bytes (chaos_header n 0 False) @ payload_pattern (n + 16)"
  by (simp add: build_packet_template_def build_packet_layout split: if_splits)

lemma set_packet_seq_layout: "set_packet_seq q (header_bytes h @ rest) = header_bytes (h\<lparr>seq_num := q\<rparr>) @ rest"
proof -
  have "HeaderView_view (header_bytes h @ rest) = Inr (header_bytes h)" by (simp add: HeaderView_view_ok)
  then show ?thesis by (simp add: set_packet_seq_def set_header_bytes HEADER_SIZE_def)
qed

lemma corrupt_packet_layout:
  assumes "4 < length rest"
  shows "corrupt_packet (header_bytes h @ rest) = header_bytes (h\<lparr>dst_id := fill_arr 9\<rparr>) @ take (length rest - 4) rest"
proof -
  have "overwrite 32 (replicate 32 9) (header_bytes h) = header_bytes (h\<lparr>dst_id := fill_arr 9\<rparr>)"
    using set_header_bytes(2) [of "fill_arr 9" h] by (simp add: set_dst_id_def DST_OFFSET_def)
  then have "overwrite 32 (replicate 32 9) (header_bytes h @ rest) = header_bytes (h\<lparr>dst_id := fill_arr 9\<rparr>) @ rest"
    by (simp add: overwrite_append1)
  then show ?thesis using assms by (simp add: corrupt_packet_def HEADER_SIZE_def)
qed

text \<open>Every frame of the harness: a whole header and, cut or not, at least the payload it
  announces.\<close>

lemma frame_layout:
  assumes "build_packet_template n = Inr template"
  shows "frame_of template seq x = header_bytes (chaos_header n (of_nat seq) (is_corrupt x))
     @ take (n + 16 - (if is_corrupt x then 4 else 0)) (payload_pattern (n + 16))"
proof -
  have t: "template = header_bytes (chaos_header n 0 False) @ payload_pattern (n + 16)"
    by (rule template_made [OF assms])
  have "4 < length (payload_pattern (n + 16))" by simp
  note c = corrupt_packet_layout [OF this]
  show ?thesis
    unfolding t frame_of_def Let_def set_packet_seq_layout c by (simp add: chaos_header_def)
qed

lemma frame_fields:
  assumes "build_packet_template n = Inr template"
  shows "length (frame_of template seq x) = 112 + n - (if is_corrupt x then 4 else 0)"
    "ref_dst_id (frame_of template seq x) = fill_arr (if is_corrupt x then 9 else 2)"
    "ref_length (frame_of template seq x) = of_nat n" "ref_seq_num (frame_of template seq x) = of_nat seq"
    "parse (frame_of template seq x) = Inr (chaos_header n (of_nat seq) (is_corrupt x))"
  unfolding frame_layout [OF assms] ref_header_bytes parse_header_bytes by (simp_all add: chaos_header_def)

lemma frame_present:
  assumes "build_packet_template n = Inr template" "n mod 2 ^ 16 \<noteq> 0"
  shows "payload_present (frame_of template seq x)"
proof -
  have "unat (of_nat n :: u16) = n mod 2 ^ 16" by (simp add: unat_of_nat)
  moreover have "n mod 65536 \<le> 12 + n" "n mod 65536 \<le> 16 + n" by (rule trans_le_add2, simp)+
  ultimately show ?thesis
    using assms(2) by (simp add: payload_present_def frame_fields [OF assms(1)] HEADER_SIZE_def)
qed

text \<open>What the forwarder makes of a frame.\<close>

definition chaos_table :: "table \<Rightarrow> bool" where
  "chaos_table t \<longleftrightarrow> table_wf t \<and> (\<exists>e. routes_of t = [fill_arr 2 \<mapsto> e] \<and> alternate_channels e = [])"

lemma frame_outcome:
  assumes "lib_ok L" "chaos_table t" "build_packet_template n = Inr template" "n mod 2 ^ 16 \<noteq> 0"
  shows "snd (primary_spec L t (Some s) (frame_of template seq x)) = (if is_corrupt x then Missed else Encrypted)"
proof -
  let ?p = "frame_of template seq x"
  from assms(2) obtain e where e: "routes_of t = [fill_arr 2 \<mapsto> e]" "alternate_channels e = []" by (auto simp: chaos_table_def)
  then have sc: "single_channel t" by (simp add: single_channel_def)
  note f = frame_fields [OF assms(3), of seq x]
  have "unat (of_nat n :: u16) < 2 ^ 16" using unsigned_less [of "of_nat n :: u16"] by simp
  then have "length (payload_of ?p) \<le> 2 ^ 16"
    using payload_of_length [of ?p] frame_present [OF assms(3,4), of seq x] by (simp add: f)
  then have p: "length (payload_of ?p) \<le> PAYLOAD_LIMIT" by (simp add: PAYLOAD_LIMIT_def)
  from lib_ok_seal [OF assms(1) limit_le_gcm [OF p]]
  obtain c t' where "seal L (aead s) (build_nonce s (of_nat seq)) (payload_of ?p) = Some (c, t')" by metis
  with p have "encrypt_into_slice L s (payload_of ?p) (of_nat seq) = Inr (c, t')" by (simp add: encrypt_into_slice_def)
  then show ?thesis
    using frame_present [OF assms(3,4), of seq x]
    by (auto simp: primary_spec_def f HEADER_SIZE_def single_channel_spray [OF sc] hop_of_def e sealed_packet_def
        split: option.splits)
qed

subsection \<open>The loop\<close>

definition batch_spec :: "crypto_lib \<Rightarrow> table \<Rightarrow> session option \<Rightarrow> bytes list \<Rightarrow> fw_stats \<times> bytes list" where
  "batch_spec L t sess frames = (let outs = map (primary_spec L t sess) frames in
     (count_outcomes (map snd outs) (stats_of (length frames)), map fst outs))"

lemma chaos_batch_ok:
  assumes "seal_keeps_length L" "router_ok (Suc k) (cs_fwd s, cs_proc s)"
    and "op_fits (ForwardBatch threads sched (cs_pending s))"
  shows "\<exists>f' w'. chaos_batch L threads sched s = Inr (s\<lparr>cs_pending := [], cs_total := cs_total s + length (cs_pending s),
      cs_batches := cs_batches s @ [batch_spec L (routes (cs_fwd s)) (fsession (cs_fwd s)) (cs_pending s)], cs_fwd := f', cs_proc := w'\<rparr>)
    \<and> router_ok k (f', w') \<and> routes f' = routes (cs_fwd s) \<and> fsession f' = fsession (cs_fwd s)"
proof -
  from batch_keeps_router [OF assms] obtain st sent f' w' where b:
    "process_batch L threads sched (cs_pending s) (cs_fwd s) (cs_proc s) = Inr (st, sent, f', w')"
    "router_ok k (f', w')" "routes f' = routes (cs_fwd s)" "fsession f' = fsession (cs_fwd s)"
    "(st, case sent of None \<Rightarrow> [] | Some x \<Rightarrow> sent_packets x) = batch_spec L (routes (cs_fwd s)) (fsession (cs_fwd s)) (cs_pending s)"
    "\<And>buf offs. sent = Some (buf, offs) \<Longrightarrow> list_all (\<lambda>p. fst p + snd p \<le> length buf) offs"
    by (auto simp: batch_spec_def Let_def)
  show ?thesis
  proof (cases sent)
    case None
    with b(1-4) b(5) [symmetric] show ?thesis
      by (intro exI [of _ f'] exI [of _ w']) (simp add: chaos_batch_def mock_poll_def build_socket_def bindr_def)
  next
    case (Some x)
    obtain buf offs where x: "x = (buf, offs)" by fastforce
    with b(6) Some have "list_all (\<lambda>(off, len). off + len \<le> length buf) offs" by (simp add: split_def)
    with b(1-4) b(5) [symmetric] Some x show ?thesis
      by (intro exI [of _ f'] exI [of _ w'])
        (simp add: chaos_batch_def mock_poll_def build_socket_def mock_send_def bindr_def sent_packets_def)
  qed
qed

lemma frames_from_append:
  "frames_from template seq (xs @ ys) = frames_from template seq xs @ frames_from template (seq + length xs) ys"
  by (induction xs arbitrary: seq) simp_all

lemma frames_from_length:
  assumes "build_packet_template n = Inr template"
  shows "p \<in> set (frames_from template seq xs) \<Longrightarrow> length p \<le> 112 + n"
  by (induction xs arbitrary: seq) (auto simp: frame_fields [OF assms])

lemma frames_fit:
  assumes "\<And>p. p \<in> set frames \<Longrightarrow> length p \<le> 112 + n" "length frames \<le> m" "m * (128 + n) \<le> 2 ^ 60"
  shows "op_fits (ForwardBatch threads sched frames)"
proof -
  have "sum_list (map length frames) \<le> length frames * (112 + n)"
    using assms(1) by (induction frames) fastforce+
  then have "sum_list (map length frames) + length frames * 16 \<le> length frames * (128 + n)" by (simp add: algebra_simps)
  also have "\<dots> \<le> m * (128 + n)" using assms(2) by (rule mult_le_mono1)
  finally show ?thesis using assms(3) by (simp add: TAG_SIZE_def)
qed

definition chaos_inv ::
    "'p chaos_config \<Rightarrow> bytes \<Rightarrow> crypto_lib \<Rightarrow> table \<Rightarrow> session option \<Rightarrow> nat \<Rightarrow> fate list \<Rightarrow> 'g chaos_state \<Rightarrow> bool" where
  "chaos_inv cfg template L t sess k xs s \<longleftrightarrow>
     router_ok k (cs_fwd s, cs_proc s) \<and> routes (cs_fwd s) = t \<and> fsession (cs_fwd s) = sess
     \<and> length (cs_pending s) < max (batch_size cfg) 1
     \<and> cs_dropped s = length (filter (\<lambda>x. x = Lost) xs) \<and> cs_corrupted s = length (filter is_corrupt xs)
     \<and> cs_duplicated s = length (filter is_duplicated xs)
     \<and> (\<exists>groups. concat groups @ cs_pending s = frames_from template 0 xs \<and> cs_batches s = map (batch_spec L t sess) groups
          \<and> cs_total s = length (concat groups)
          \<and> (\<forall>g \<in> set groups. max (batch_size cfg) 1 \<le> length g \<and> length g \<le> max (batch_size cfg) 1 + 1))"

lemma router_ok_less: "router_ok (Suc k) fw \<Longrightarrow> router_ok k fw"
  by (auto simp: router_ok_def)

lemma chaos_step_ok:
  assumes L: "seal_keeps_length L" and tm: "build_packet_template (payload_len cfg) = Inr template"
    and fit: "(max (batch_size cfg) 1 + 1) * (128 + payload_len cfg) \<le> 2 ^ 60"
    and inv: "chaos_inv cfg template L t sess (Suc k) xs s" and draw: "draw_fate R cfg (cs_rng s) = (x, g)"
    and valid: "draws_valid R cfg [x]"
  shows "\<exists>s'. chaos_step R cfg template L threads sched s (length xs) = Inr s' \<and> chaos_inv cfg template L t sess k (xs @ [x]) s'
    \<and> cs_rng s' = g"
proof (cases x)
  case Lost
  then obtain g' where d: "gen_bool R (chance R (loss_percent cfg)) (cs_rng s) = (True, g)"
    using draw by (auto simp: draw_fate_def Let_def split: prod.splits if_splits)
  then show ?thesis
    using inv router_ok_less [of k] valid
    by (auto simp: chaos_step_def chaos_inv_def Lost frames_from_append draws_valid_def draw_bool_def bindr_def)
next
  case (Through c d)
  then obtain g1 g2 where d: "gen_bool R (chance R (loss_percent cfg)) (cs_rng s) = (False, g1)"
    "gen_bool R (chance R (corrupt_percent cfg)) g1 = (c, g2)" "gen_bool R (chance R (duplicate_percent cfg)) g2 = (d, g)"
    using draw by (auto simp: draw_fate_def Let_def split: prod.splits if_splits)
  let ?B = "max (batch_size cfg) 1"
  define fr pend s1 where "fr = frame_of template (length xs) x" and "pend = cs_pending s @ replicate (copies x) fr"
    and "s1 = s\<lparr>cs_corrupted := cs_corrupted s + (if c then 1 else 0), cs_duplicated := cs_duplicated s + (if d then 1 else 0),
       cs_rng := g, cs_pending := pend\<rparr>"
  have step: "chaos_step R cfg template L threads sched s (length xs) =
      (if length pend < ?B then Inr s1 else chaos_batch L threads sched s1)"
    using valid by (simp add: chaos_step_def d Let_def s1_def pend_def fr_def Through frame_of_def numeral_eq_Suc less_max_iff_disj
        draws_valid_def draw_bool_def bindr_def)
  from inv obtain groups where gr: "concat groups @ cs_pending s = frames_from template 0 xs"
    "cs_batches s = map (batch_spec L t sess) groups" "cs_total s = length (concat groups)"
    "\<And>g. g \<in> set groups \<Longrightarrow> ?B \<le> length g \<and> length g \<le> ?B + 1" by (auto simp: chaos_inv_def)
  have ok: "router_ok (Suc k) (cs_fwd s1, cs_proc s1)" "routes (cs_fwd s1) = t" "fsession (cs_fwd s1) = sess"
    "length (cs_pending s) < ?B" using inv by (simp_all add: chaos_inv_def s1_def)
  have cnt: "cs_dropped s1 = length (filter (\<lambda>x. x = Lost) (xs @ [x]))" "cs_corrupted s1 = length (filter is_corrupt (xs @ [x]))"
    "cs_duplicated s1 = length (filter is_duplicated (xs @ [x]))" using inv by (auto simp: chaos_inv_def s1_def Through)
  have frs: "concat groups @ pend = frames_from template 0 (xs @ [x])"
    using gr(1) by (simp add: frames_from_append pend_def fr_def)
  have ln: "length (concat groups) + length pend = length (frames_from template 0 (xs @ [x]))"
    unfolding frs [symmetric] by simp
  have len: "length pend \<le> ?B + 1" using ok(4) by (simp add: pend_def Through)
  show ?thesis
  proof (cases "length pend < ?B")
    case True
    have "chaos_inv cfg template L t sess k (xs @ [x]) s1"
      unfolding chaos_inv_def using router_ok_less [OF ok(1)] ok(2,3) cnt True frs gr(2-4)
      by (auto simp: s1_def)
    then show ?thesis using step True by (simp add: s1_def)
  next
    case False
    have "length p \<le> 112 + payload_len cfg" if "p \<in> set pend" for p
      using frames_from_length [OF tm, of p 0 "xs @ [x]"] that frs by (metis in_set_conv_decomp append_assoc)
    then have "op_fits (ForwardBatch threads sched (cs_pending s1))"
      using frames_fit [of pend "payload_len cfg" "?B + 1" threads sched] len fit by (simp add: s1_def)
    from chaos_batch_ok [OF L ok(1) this] obtain f' w' where b:
      "chaos_batch L threads sched s1 = Inr (s1\<lparr>cs_pending := [], cs_total := cs_total s1 + length (cs_pending s1),
         cs_batches := cs_batches s1 @ [batch_spec L t sess (cs_pending s1)], cs_fwd := f', cs_proc := w'\<rparr>)"
      "router_ok k (f', w')" "routes f' = t" "fsession f' = sess"
      using ok(2,3) by auto
    let ?s' = "s1\<lparr>cs_pending := [], cs_total := cs_total s1 + length (cs_pending s1),
         cs_batches := cs_batches s1 @ [batch_spec L t sess (cs_pending s1)], cs_fwd := f', cs_proc := w'\<rparr>"
    have "\<exists>gs. concat gs @ cs_pending ?s' = frames_from template 0 (xs @ [x])
        \<and> cs_batches ?s' = map (batch_spec L t sess) gs \<and> cs_total ?s' = length (concat gs)
        \<and> (\<forall>g \<in> set gs. ?B \<le> length g \<and> length g \<le> ?B + 1)"
      using frs ln gr(2-4) len False by (intro exI [of _ "groups @ [pend]"]) (auto simp: s1_def)
    moreover have "length (cs_pending ?s') < ?B" by simp
    ultimately have "chaos_inv cfg template L t sess k (xs @ [x]) ?s'"
      unfolding chaos_inv_def using b(2-4) cnt by simp
    then show ?thesis using step False b(1) by (simp add: s1_def)
  qed
qed

lemma draws_valid_Cons: "draws_valid R cfg (x # xs) \<longleftrightarrow> draws_valid R cfg [x] \<and> draws_valid R cfg xs"
  by (auto simp: draws_valid_def)

lemma chaos_step_panics:
  assumes "draw_fate R cfg (cs_rng s) = (x, g)" "\<not> draws_valid R cfg [x]"
  shows "chaos_step R cfg template L threads sched s seq = Inl Panicked"
  using assms
  by (auto simp: chaos_step_def draw_fate_def draws_valid_def draw_bool_def bindr_def Let_def split: prod.splits if_splits)

lemma chaos_loop_ok:
  assumes L: "seal_keeps_length L" and tm: "build_packet_template (payload_len cfg) = Inr template"
    and fit: "(max (batch_size cfg) 1 + 1) * (128 + payload_len cfg) \<le> 2 ^ 60"
  shows "chaos_inv cfg template L t sess (n + k) xs s \<Longrightarrow> draw_fates R cfg n (cs_rng s) = (ys, g) \<Longrightarrow>
    if draws_valid R cfg ys
    then \<exists>s'. loop_r (chaos_step R cfg template L threads sched) s [length xs..<length xs + n] = Inr s'
      \<and> chaos_inv cfg template L t sess k (xs @ ys) s'
    else loop_r (chaos_step R cfg template L threads sched) s [length xs..<length xs + n] = Inl Panicked"
proof (induction n arbitrary: xs s ys)
  case 0
  then show ?case by (simp add: draws_valid_def)
next
  case (Suc n)
  obtain x g1 where d: "draw_fate R cfg (cs_rng s) = (x, g1)" by fastforce
  obtain zs g2 where ds: "draw_fates R cfg n g1 = (zs, g2)" by fastforce
  from Suc.prems(2) d ds have ys: "ys = x # zs" "g2 = g" by simp_all
  have upt: "[length xs..<length xs + Suc n] = length xs # [length (xs @ [x])..<length (xs @ [x]) + n]"
    by (simp add: upt_conv_Cons del: upt_Suc)
  show ?case
  proof (cases "draws_valid R cfg [x]")
    case False
    then show ?thesis
      unfolding upt ys(1) using chaos_step_panics [OF d False] by (simp add: draws_valid_Cons [of R cfg x zs] del: upt_Suc)
  next
    case True
    from Suc.prems(1) have "chaos_inv cfg template L t sess (Suc (n + k)) xs s" by simp
    from chaos_step_ok [OF L tm fit this d True] obtain s1 where s1:
      "chaos_step R cfg template L threads sched s (length xs) = Inr s1" "chaos_inv cfg template L t sess (n + k) (xs @ [x]) s1"
      "cs_rng s1 = g1" by blast
    from Suc.IH [OF s1(2), of zs] ds s1(3) ys(2) show ?thesis
      unfolding upt ys(1) using s1(1) True by (simp add: draws_valid_Cons [of R cfg x zs] del: upt_Suc split: if_splits)
  qed
qed

lemma build_forwarder_ok:
  assumes "lib_ok L" "primary_env env" "fresh_node w" "unat (epoch w) + Suc k < 2 ^ 64"
  shows "\<exists>f kc' s. build_forwarder L env t0 t1 (kc, w) = Inr (f, kc', w\<lparr>epoch := epoch w + 1\<rparr>)
    \<and> router_ok k (f, w\<lparr>epoch := epoch w + 1\<rparr>) \<and> chaos_table (routes f) \<and> fsession f = Some s"
proof -
  obtain t ep where u: "update_route t1 (chaos_route t0) (table_new, epoch w) = (t, ep)" by fastforce
  obtain f kc' where f: "forwarder_new L env t kc = (f, kc')" by fastforce
  note t = table_wf_update [OF table_wf_new u]
  then have ct: "chaos_table t" unfolding chaos_table_def
    by (intro conjI exI [of _ "(chaos_route t0)\<lparr>last_seen := t1\<rparr>"]) (simp_all add: routes_of_new chaos_route_def)
  from f have fw: "f = fst (forwarder_with_session L env t (replicate 32 0x42) (ascii ''datapath-default'') kc)"
    by (simp add: forwarder_new_def)
  note parts = forwarder_with_session_parts [of L env t "replicate 32 0x42" "ascii ''datapath-default''" kc, folded fw]
  obtain s where s: "fsession f = Some s"
    using session_made [OF assms(1), of "replicate 32 0x42" "ascii ''datapath-default''" kc] parts(5) by auto
  let ?n = "(HEADER_SIZE + TAG_SIZE + 512) * 64"
  have "arena_reserve ?n (arena f) = Inr (arena f)"
    by (simp add: parts(2) arena_reserve_def arena_len_def ARENA_INIT_def HEADER_SIZE_def TAG_SIZE_def)
  then have e: "ensure_arena_capacity ?n f = Inr f" by (simp add: ensure_arena_capacity_def bindr_def)
  have ep: "unat (epoch w + 1) = unat (epoch w) + 1" using assms(4) by (simp add: unat_word_ariths)
  then have "0 < epoch w + 1" by (simp add: word_gt_0 unat_eq_0 [symmetric])
  then have "fresh_node (w\<lparr>epoch := epoch w + 1\<rparr>)" using assms(3) by (simp add: fresh_node_def)
  then have "router_ok k (f, w\<lparr>epoch := epoch w + 1\<rparr>)"
    using fresh_proc_ok t(1) assms(2,4) ep by (simp add: router_ok_def parts primary_env_def ARENA_INIT_def)
  moreover have "build_forwarder L env t0 t1 (kc, w) = Inr (f, kc', w\<lparr>epoch := epoch w + 1\<rparr>)"
    using e by (simp add: build_forwarder_def u f t(3) Let_def bindr_def)
  ultimately show ?thesis using ct s parts(1) by auto
qed

lemma draw_fates_length: "length (fst (draw_fates R cfg n g)) = n"
  by (induction n arbitrary: g) (simp_all add: Let_def split_def)

lemma batch_sums:
  "sum_list (map (received \<circ> fst \<circ> batch_spec L t sess) groups) = length (concat groups)"
  "sum_list (map (encrypted \<circ> fst \<circ> batch_spec L t sess) groups)
     = length (filter (\<lambda>k. k = Encrypted) (map (snd \<circ> primary_spec L t sess) (concat groups)))"
  "sum_list (map (route_misses \<circ> fst \<circ> batch_spec L t sess) groups)
     = length (filter (\<lambda>k. k = Missed) (map (snd \<circ> primary_spec L t sess) (concat groups)))"
  by (induction groups) (simp_all add: batch_spec_def Let_def count_outcomes_def stats_of_def comp_def)

lemma frames_outcomes:
  assumes "lib_ok L" "chaos_table t" "build_packet_template n = Inr template" "n mod 2 ^ 16 \<noteq> 0"
  shows "map (snd \<circ> primary_spec L t (Some s)) (frames_from template seq xs)
    = concat (map (\<lambda>x. replicate (copies x) (if is_corrupt x then Missed else Encrypted)) xs)"
  by (induction xs arbitrary: seq) (simp_all add: frame_outcome [OF assms] map_replicate_const)

lemma count_outcomes_of_fates:
  "length (filter (\<lambda>k. k = Encrypted) (concat (map (\<lambda>x. replicate (copies x) (if is_corrupt x then Missed else Encrypted)) xs)))
     = sum_list (map copies (filter (\<lambda>x. \<not> is_corrupt x) xs))"
  "length (filter (\<lambda>k. k = Missed) (concat (map (\<lambda>x. replicate (copies x) (if is_corrupt x then Missed else Encrypted)) xs)))
     = sum_list (map copies (filter is_corrupt xs))"
  by (induction xs) simp_all

lemma length_frames_from:
  "length (frames_from template seq xs) + length (filter (\<lambda>x. x = Lost) xs) = length xs + length (filter is_duplicated xs)"
proof (induction xs arbitrary: seq)
  case (Cons x xs)
  from Cons.IH [of "seq + 1"] show ?case by (cases x) auto
qed simp

text \<open>The state at the end, after the last partial batch if there is one.\<close>

lemma chaos_main_ok:
  fixes R :: "('p, 'q, 'g) chaos_std"
  assumes "lib_ok L" and "primary_env env" and "fresh_node w" and "unat (epoch w) + packets cfg + 2 < 2 ^ 64"
    and "(max (batch_size cfg) 1 + 1) * (128 + payload_len cfg) \<le> 2 ^ 60" and "vec_fits 16 (packets cfg)"
  defines "xs \<equiv> fst (draw_fates R cfg (packets cfg) (seed_from_u64 R (rng_seed cfg)))"
  shows "if \<not> draws_valid R cfg xs then chaos_main R cfg L env threads sched t0 t1 (kc, w) = Inl Panicked else \<exists>s' gs t se template. chaos_main R cfg L env threads sched t0 t1 (kc, w) = Inr s' \<and> cs_pending s' = []
      \<and> chaos_table t \<and> build_packet_template (payload_len cfg) = Inr template
      \<and> cs_dropped s' = length (filter (\<lambda>x. x = Lost) xs) \<and> cs_corrupted s' = length (filter is_corrupt xs)
      \<and> cs_duplicated s' = length (filter is_duplicated xs)
      \<and> concat gs = frames_from template 0 xs \<and> cs_batches s' = map (batch_spec L t (Some se)) gs
      \<and> cs_total s' = length (concat gs)
      \<and> (\<forall>b \<in> set (butlast gs). length b \<in> {max (batch_size cfg) 1, max (batch_size cfg) 1 + 1})"
proof -
  let ?B = "max (batch_size cfg) 1" and ?w = "w\<lparr>epoch := epoch w + 1\<rparr>" and ?g = "seed_from_u64 R (rng_seed cfg)"
  have Ls: "seal_keeps_length L" by (rule lib_ok_length [OF assms(1)])
  have "unat (epoch w) + Suc (packets cfg + 1) < 2 ^ 64" using assms(4) by simp
  from build_forwarder_ok [OF assms(1-3) this] obtain f kc' se where f:
    "build_forwarder L env t0 t1 (kc, w) = Inr (f, kc', ?w)" "router_ok (packets cfg + 1) (f, ?w)" "chaos_table (routes f)"
    "fsession f = Some se" by blast
  have "1 * (128 + payload_len cfg) \<le> (?B + 1) * (128 + payload_len cfg)" "(?B + 1) * 4 \<le> (?B + 1) * (128 + payload_len cfg)"
    by (intro mult_le_mono; simp)+
  from this [THEN le_trans, OF assms(5)] have "112 + payload_len cfg \<le> 2 ^ 60" "?B \<le> 2 ^ 58" by simp_all
  then have room: "vec_fits 1 (112 + payload_len cfg)" "vec_fits 24 ?B" by (simp_all add: vec_fits_def ISIZE_MAX_def)
  then obtain template where tm: "build_packet_template (payload_len cfg) = Inr template"
    by (simp add: build_packet_template_def build_packet_layout)
  have start: "chaos_inv cfg template L (routes f) (Some se) (packets cfg + 1) [] (chaos_start ?g f ?w)"
    using f(2,4) by (simp add: chaos_inv_def chaos_start_def)
  obtain g where g: "draw_fates R cfg (packets cfg) ?g = (xs, g)" by (metis xs_def prod.collapse)
  have rng: "cs_rng (chaos_start ?g f ?w) = ?g" by (simp add: chaos_start_def)
  note loop = chaos_loop_ok [OF Ls tm assms(5) start, where R = R, unfolded rng, OF g]
  show ?thesis
  proof (cases "draws_valid R cfg xs")
  case False
  then show ?thesis using loop by (simp add: chaos_main_def Let_def f(1) tm room [simplified] assms(6) bindr_def)
  next
  case True
  from loop True obtain s where s:
    "loop_r (chaos_step R cfg template L threads sched) (chaos_start ?g f ?w) [0..<packets cfg] = Inr s"
    "chaos_inv cfg template L (routes f) (Some se) 1 xs s" by auto
  have main: "chaos_main R cfg L env threads sched t0 t1 (kc, w) =
      (if cs_pending s \<noteq> [] then chaos_batch L threads sched s else Inr s)"
    by (simp add: chaos_main_def Let_def f(1) tm s(1) room [simplified] assms(6) bindr_def)
  from s(2) obtain groups where gr: "concat groups @ cs_pending s = frames_from template 0 xs"
    "cs_batches s = map (batch_spec L (routes f) (Some se)) groups" "cs_total s = length (concat groups)"
    "\<And>g. g \<in> set groups \<Longrightarrow> ?B \<le> length g \<and> length g \<le> ?B + 1" by (auto simp: chaos_inv_def)
  from s(2) have st: "router_ok (Suc 0) (cs_fwd s, cs_proc s)" "routes (cs_fwd s) = routes f" "fsession (cs_fwd s) = Some se"
    "length (cs_pending s) < ?B" "cs_dropped s = length (filter (\<lambda>x. x = Lost) xs)"
    "cs_corrupted s = length (filter is_corrupt xs)" "cs_duplicated s = length (filter is_duplicated xs)"
    by (simp_all add: chaos_inv_def)
  have "\<exists>s' gs. chaos_main R cfg L env threads sched t0 t1 (kc, w) = Inr s' \<and> cs_pending s' = []
      \<and> cs_dropped s' = cs_dropped s \<and> cs_corrupted s' = cs_corrupted s \<and> cs_duplicated s' = cs_duplicated s
      \<and> concat gs = frames_from template 0 xs \<and> cs_batches s' = map (batch_spec L (routes f) (Some se)) gs
      \<and> cs_total s' = length (concat gs) \<and> (\<forall>b \<in> set (butlast gs). length b \<in> {?B, ?B + 1})"
  proof (cases "cs_pending s = []")
    case True
    have "length b \<in> {?B, ?B + 1}" if "b \<in> set (butlast groups)" for b
      using gr(4) [of b] in_set_butlastD [OF that] by (auto simp: le_Suc_eq)
    then show ?thesis using True main gr(1-3) by (intro exI [of _ s] exI [of _ groups]) simp
  next
    case False
    have "length p \<le> 112 + payload_len cfg" if "p \<in> set (cs_pending s)" for p
      using frames_from_length [OF tm, of p 0 xs] that gr(1) [symmetric] by simp
    then have "op_fits (ForwardBatch threads sched (cs_pending s))"
      using frames_fit [of "cs_pending s" "payload_len cfg" "?B + 1" threads sched] st(4) assms(5) by simp
    from chaos_batch_ok [OF Ls st(1) this] obtain f' w' where b:
      "chaos_batch L threads sched s = Inr (s\<lparr>cs_pending := [], cs_total := cs_total s + length (cs_pending s),
         cs_batches := cs_batches s @ [batch_spec L (routes f) (Some se) (cs_pending s)], cs_fwd := f', cs_proc := w'\<rparr>)"
      by (auto simp: st(2,3))
    have "length g \<in> {?B, ?B + 1}" if "g \<in> set groups" for g
      using gr(4) [OF that] by (auto simp: le_Suc_eq)
    moreover have "length (concat groups) + length (cs_pending s) = length (frames_from template 0 xs)"
      unfolding gr(1) [symmetric] by simp
    ultimately show ?thesis
      using False main b gr(1-3)
      by (intro exI [of _ "s\<lparr>cs_pending := [], cs_total := cs_total s + length (cs_pending s),
         cs_batches := cs_batches s @ [batch_spec L (routes f) (Some se) (cs_pending s)], cs_fwd := f', cs_proc := w'\<rparr>"]
         exI [of _ "groups @ [cs_pending s]"]) simp
  qed
  then show ?thesis using True f(3) tm st(5-7) by simp metis
  qed
qed

subsection \<open>Properties\<close>

text \<open>C6. The chaos harness accounts for every fault it injects, for any random generator, when the
  environment leaves the forwarder in primary mode, the payload length is not a multiple of
  \<open>2 ^ 16\<close> (the length field of the header is then not zero) and the vectors fit. A percentage that is
  not a number survives the clamping, and the run panics exactly when it comes to draw with it.
  Otherwise the run ends without a fault; what it prints as dropped, corrupted and duplicated is
  what the generator decided, packet by packet; the packets sent and dropped together are those
  requested and duplicated; every copy of an intact packet is encrypted and every copy of a
  corrupted one is a route miss; and every batch but the last holds the batch size or, after a
  duplicate, one more.\<close>

theorem chaos_accounts_for_faults:
  fixes R :: "('p, 'q, 'g) chaos_std"
  assumes "lib_ok L" and "primary_env env" and "fresh_node w" and "unat (epoch w) + packets cfg + 2 < 2 ^ 64"
    and "(max (batch_size cfg) 1 + 1) * (128 + payload_len cfg) \<le> 2 ^ 60" and "payload_len cfg mod 2 ^ 16 \<noteq> 0"
    and "vec_fits 16 (packets cfg)"
  defines "xs \<equiv> fst (draw_fates R cfg (packets cfg) (seed_from_u64 R (rng_seed cfg)))"
  shows "if \<not> draws_valid R cfg xs then chaos_main R cfg L env threads sched t0 t1 (kc, w) = Inl Panicked
    else \<exists>s. chaos_main R cfg L env threads sched t0 t1 (kc, w) = Inr s
    \<and> cs_dropped s = length (filter (\<lambda>x. x = Lost) xs) \<and> cs_corrupted s = length (filter is_corrupt xs)
    \<and> cs_duplicated s = length (filter is_duplicated xs) \<and> cs_pending s = []
    \<and> cs_total s + cs_dropped s = packets cfg + cs_duplicated s
    \<and> sum_list (map (received \<circ> fst) (cs_batches s)) = cs_total s
    \<and> sum_list (map (encrypted \<circ> fst) (cs_batches s)) = sum_list (map copies (filter (\<lambda>x. \<not> is_corrupt x) xs))
    \<and> sum_list (map (route_misses \<circ> fst) (cs_batches s)) = sum_list (map copies (filter is_corrupt xs))
    \<and> (\<forall>b \<in> set (butlast (cs_batches s)). received (fst b) \<in> {max (batch_size cfg) 1, max (batch_size cfg) 1 + 1})"
proof (cases "draws_valid R cfg xs")
  case False
  then show ?thesis using chaos_main_ok [OF assms(1-5,7), where R = R, folded xs_def] by simp
next
  case True
  let ?B = "max (batch_size cfg) 1"
  from chaos_main_ok [OF assms(1-5,7), where R = R, folded xs_def, unfolded eqTrueI [OF True] not_True_eq_False if_False]
  obtain s' gs t se template where e:
    "chaos_main R cfg L env threads sched t0 t1 (kc, w) = Inr s'" "cs_pending s' = []" "chaos_table t"
    "build_packet_template (payload_len cfg) = Inr template" "cs_dropped s' = length (filter (\<lambda>x. x = Lost) xs)"
    "cs_corrupted s' = length (filter is_corrupt xs)" "cs_duplicated s' = length (filter is_duplicated xs)"
    "concat gs = frames_from template 0 xs" "cs_batches s' = map (batch_spec L t (Some se)) gs"
    "cs_total s' = length (concat gs)" "\<forall>b \<in> set (butlast gs). length b \<in> {?B, ?B + 1}" by blast
  note sums = batch_sums [of L t "Some se" gs, unfolded e(8) frames_outcomes [OF assms(1) e(3,4) assms(6)] count_outcomes_of_fates]
  have "received (fst (batch_spec L t se' g)) = length g" for t se' g
    by (simp add: batch_spec_def Let_def count_outcomes_def stats_of_def)
  then have "\<forall>b \<in> set (butlast (cs_batches s')). received (fst b) \<in> {?B, ?B + 1}"
    using e(11) by (simp add: e(9) map_butlast [symmetric])
  moreover have "cs_total s' + cs_dropped s' = packets cfg + cs_duplicated s'"
    using length_frames_from [of template 0 xs] draw_fates_length [of R cfg "packets cfg" "seed_from_u64 R (rng_seed cfg)"]
    by (simp add: e(5,7,8,10) xs_def)
  ultimately show ?thesis using True e(1,2,5-7) sums by (simp add: e(8-10) comp_assoc)
qed

text \<open>A scripted generator: the seed is the list of its answers, a percentage is either a number or not.\<close>

definition scripted :: "bool list \<Rightarrow> (bool, bool, bool list) chaos_std" where
  "scripted flips = \<lparr>float = (\<lambda>_. True), chance = id, is_prob = id, seed_from_u64 = (\<lambda>_. flips), gen_bool = (\<lambda>_ g. (hd g, tl g)),
     parse_f64 = (\<lambda>v. Some (v \<noteq> ''NaN''))\<rparr>"

definition three_packets :: "bool chaos_config" where
  "three_packets = \<lparr>packets = 3, batch_size = 2, payload_len = 4, loss_percent = True, corrupt_percent = True, duplicate_percent = True,
     rng_seed = 1337\<rparr>"

definition three_flips :: "bool list" where
  "three_flips = [True, False, True, True, False, False, False]"

theorem chaos_accounts_for_faults_witness:
  "(\<exists>s. chaos_main (scripted three_flips) three_packets toy_lib (\<lambda>_. None) 4 [] 5 6 (Map.empty, example_process) = Inr s
     \<and> cs_dropped s = 1 \<and> cs_corrupted s = 1 \<and> cs_duplicated s = 1 \<and> cs_total s = 3
     \<and> sum_list (map (encrypted \<circ> fst) (cs_batches s)) = 1 \<and> sum_list (map (route_misses \<circ> fst) (cs_batches s)) = 2)
   \<and> chaos_main (scripted three_flips) (three_packets\<lparr>loss_percent := False\<rparr>) toy_lib (\<lambda>_. None) 4 [] 5 6 (Map.empty, example_process)
     = Inl Panicked"
proof -
  let ?nan = "three_packets\<lparr>loss_percent := False\<rparr>"
  have xs: "fst (draw_fates (scripted three_flips) three_packets (packets three_packets)
      (seed_from_u64 (scripted three_flips) (rng_seed three_packets))) = [Lost, Through True True, Through False False]"
    "fst (draw_fates (scripted three_flips) ?nan (packets ?nan)
      (seed_from_u64 (scripted three_flips) (rng_seed ?nan))) = [Lost, Through True True, Through False False]"
    by (simp_all add: three_packets_def scripted_def three_flips_def draw_fate_def Let_def numeral_eq_Suc)
  have v: "draws_valid (scripted three_flips) three_packets [Lost, Through True True, Through False False]"
    "\<not> draws_valid (scripted three_flips) ?nan [Lost, Through True True, Through False False]"
    by (simp_all add: draws_valid_def scripted_def three_packets_def)
  have h: "unat (epoch example_process) + packets cfg + 2 < 2 ^ 64"
    "(max (batch_size cfg) 1 + 1) * (128 + payload_len cfg) \<le> 2 ^ 60" "payload_len cfg mod 2 ^ 16 \<noteq> 0"
    "vec_fits 16 (packets cfg)" if "cfg = three_packets \<or> cfg = ?nan" for cfg
    using that by (auto simp: three_packets_def example_process_def vec_fits_def ISIZE_MAX_def)
  note run = chaos_accounts_for_faults [OF toy_lib_ok example_node(2,1) h, where R = "scripted three_flips"
      and threads = 4 and sched = "[]" and ?t0.0 = 5 and ?t1.0 = 6 and kc = Map.empty]
  from run [of three_packets, unfolded xs] run [of ?nan, unfolded xs] v show ?thesis by (force simp: three_packets_def)
qed

text \<open>The arguments: the first occurrence of a flag counts, and a value that does not parse, or is
  missing, is the default.\<close>

lemma parse_config_examples:
  "parse_config (scripted []) [''chaos'', ''--packets'', ''3'', ''--packets'', ''x'', ''--batch-size''] =
     Configured \<lparr>packets = 3, batch_size = 64, payload_len = 512, loss_percent = True, corrupt_percent = True, duplicate_percent = True, rng_seed = 1337\<rparr>"
  "parse_config (scripted []) [''chaos'', ''--packets'', ''-h''] = ShowHelp"
  by (simp_all add: parse_config_def parse_or_default_def scripted_def get_arg_def ok_usize_def parse_usize_def digit_of_def)

end
