(* ===== verification/Alloc_Probe.thy ===== *)
theory Alloc_Probe
  imports Chaos
begin

text \<open>
  The allocation probe (\<open>bench/src/bin/datapath_alloc_probe.rs\<close>): a global allocator that counts
  what goes through it in four atomic counters, and a run of the slice path of the forwarder
  over a socket of templates. The system allocator is the environment: an event says whether
  it returned memory. \<open>update_peak\<close> is a compare-and-exchange loop that any number of threads
  run at once; it is cut into its loads and exchanges and shown to end and to leave the
  maximum.
\<close>

subsection \<open>The peak of several threads\<close>

text \<open>Where a call of \<open>update_peak\<close> stands: before its load, in the loop with the value it saw
  last, or done. The loop condition is local, so a turn of the loop is one access.\<close>

datatype peak_pc = PeakLoad u64 | PeakLoop u64 u64 | PeakDone u64

fun peak_micro :: "peak_pc \<Rightarrow> u64 \<Rightarrow> peak_pc \<times> u64" where
  "peak_micro (PeakLoad candidate) a = (PeakLoop candidate a, a)"
| "peak_micro (PeakLoop candidate prev) a =
     (if prev < candidate then
        (if a = prev then (PeakDone candidate, candidate) else (PeakLoop candidate a, a))
      else (PeakDone candidate, a))"
| "peak_micro (PeakDone candidate) a = (PeakDone candidate, a)"

text \<open>A schedule names the thread that moves next.\<close>

fun peak_run :: "nat list \<Rightarrow> peak_pc list \<times> u64 \<Rightarrow> peak_pc list \<times> u64" where
  "peak_run [] s = s"
| "peak_run (i # sched) (pcs, a) =
     (if i < length pcs then (let (pc, a) = peak_micro (pcs ! i) a in peak_run sched (pcs[i := pc], a))
      else peak_run sched (pcs, a))"

fun candidate_of :: "peak_pc \<Rightarrow> u64" where
  "candidate_of (PeakLoad c) = c"
| "candidate_of (PeakLoop c prev) = c"
| "candidate_of (PeakDone c) = c"

fun peak_at :: "u64 set \<Rightarrow> u64 \<Rightarrow> peak_pc \<Rightarrow> bool" where
  "peak_at V a (PeakLoad c) \<longleftrightarrow> True"
| "peak_at V a (PeakLoop c prev) \<longleftrightarrow> prev \<le> a \<and> (prev = a \<or> a \<in> V)"
| "peak_at V a (PeakDone c) \<longleftrightarrow> c \<le> a"

text \<open>Turns left: a failed exchange has seen a larger value, and only the candidates of the
  threads are ever stored.\<close>

fun peak_left :: "u64 set \<Rightarrow> peak_pc \<Rightarrow> nat" where
  "peak_left V (PeakLoad c) = card V + 2"
| "peak_left V (PeakLoop c prev) = 1 + card {v \<in> V. prev < v}"
| "peak_left V (PeakDone c) = 0"

definition peak_inv :: "u64 \<Rightarrow> u64 list \<Rightarrow> peak_pc list \<times> u64 \<Rightarrow> bool" where
  "peak_inv a0 cs s \<longleftrightarrow> (case s of (pcs, a) \<Rightarrow> map candidate_of pcs = cs \<and> a0 \<le> a \<and> a \<in> insert a0 (set cs)
     \<and> (\<forall>pc \<in> set pcs. peak_at (set cs) a pc))"

lemma peak_micro_props:
  assumes "peak_micro pc a = (pc', a')" "peak_at V a pc" "candidate_of pc \<in> V" "finite V"
  shows "candidate_of pc' = candidate_of pc" "a \<le> a'" "a' = a \<or> a' = candidate_of pc" "peak_at V a' pc'"
    "peak_left V pc \<noteq> 0 \<Longrightarrow> peak_left V pc' < peak_left V pc"
proof -
  have mono: "card {v \<in> V. a < v} < card {v \<in> V. p < v}" if "p < a" "a \<in> V" for p
  proof (rule psubset_card_mono)
    show "finite {v \<in> V. p < v}" using assms(4) by simp
    show "{v \<in> V. a < v} \<subset> {v \<in> V. p < v}" using that by (auto intro: less_trans)
  qed
  have all: "card {v \<in> V. a < v} \<le> card V" using assms(4) by (intro card_mono) auto
  show "candidate_of pc' = candidate_of pc" "a \<le> a'" "a' = a \<or> a' = candidate_of pc" "peak_at V a' pc'"
    using assms(1-3) by (cases pc; auto split: if_splits)+
  show "peak_left V pc' < peak_left V pc" if "peak_left V pc \<noteq> 0"
  proof (cases pc)
    case (PeakLoad c)
    then show ?thesis using assms(1) all by auto
  next
    case (PeakLoop c prev)
    show ?thesis
    proof (cases "prev < c \<and> a \<noteq> prev")
      case True
      with assms(1,2) PeakLoop mono [of prev] show ?thesis by (auto simp: le_less)
    next
      case False
      with assms(1) PeakLoop show ?thesis by (auto split: if_splits)
    qed
  next
    case (PeakDone c)
    with that show ?thesis by simp
  qed
qed

lemma peak_at_mono: "peak_at V a pc \<Longrightarrow> a \<le> a' \<Longrightarrow> a' = a \<or> a' \<in> V \<Longrightarrow> peak_at V a' pc"
  by (cases pc) auto

lemma peak_inv_step:
  assumes "peak_inv a0 cs (pcs, a)" "i < length pcs" "peak_micro (pcs ! i) a = (pc', a')"
  shows "peak_inv a0 cs (pcs[i := pc'], a')" "peak_left (set cs) (pcs ! i) \<noteq> 0 \<Longrightarrow> peak_left (set cs) pc' < peak_left (set cs) (pcs ! i)"
proof -
  from assms(1) have cs: "map candidate_of pcs = cs" "a0 \<le> a" "a \<in> insert a0 (set cs)" "\<And>pc. pc \<in> set pcs \<Longrightarrow> peak_at (set cs) a pc"
    by (simp_all add: peak_inv_def)
  have c: "candidate_of (pcs ! i) \<in> set cs" using cs(1) assms(2) by auto
  note m = peak_micro_props [OF assms(3) cs(4) [OF nth_mem [OF assms(2)]] c finite_set]
  from m(5) show "peak_left (set cs) (pcs ! i) \<noteq> 0 \<Longrightarrow> peak_left (set cs) pc' < peak_left (set cs) (pcs ! i)" .
  have "map candidate_of (pcs[i := pc']) = cs" using cs(1) assms(2) m(1) by (metis map_update list_update_id nth_map)
  moreover have "peak_at (set cs) a' pc" if "pc \<in> set (pcs[i := pc'])" for pc
    using set_update_subset_insert [of pcs i pc'] that m(2-4) c cs(4) peak_at_mono [of "set cs" a pc a'] by auto
  ultimately show "peak_inv a0 cs (pcs[i := pc'], a')" using cs(2,3) m(2,3) c by (auto simp: peak_inv_def)
qed

lemma peak_left_done: "peak_left V pc = 0 \<longleftrightarrow> (\<exists>c. pc = PeakDone c)"
  by (cases pc) simp_all

lemma peak_run_inv: "peak_inv a0 cs s \<Longrightarrow> peak_inv a0 cs (peak_run sched s)"
proof (induction sched arbitrary: s)
  case (Cons i sched)
  obtain pcs a where s: "s = (pcs, a)" by fastforce
  obtain pc' a' where m: "peak_micro (pcs ! i) a = (pc', a')" by fastforce
  show ?case using Cons.IH Cons.prems peak_inv_step(1) [of a0 cs pcs a i pc' a'] by (simp add: s m)
qed simp

lemma peak_run_left:
  "peak_inv a0 cs (pcs, a) \<Longrightarrow> j < length pcs \<Longrightarrow>
   peak_left (set cs) (fst (peak_run sched (pcs, a)) ! j) \<le> peak_left (set cs) (pcs ! j) - count_list sched j"
proof (induction sched arbitrary: pcs a)
  case (Cons i sched)
  show ?case
  proof (cases "i < length pcs")
    case True
    obtain pc' a' where m: "peak_micro (pcs ! i) a = (pc', a')" by fastforce
    note st = peak_inv_step [OF Cons.prems(1) True m]
    have zero: "peak_left (set cs) pc' = 0" if "peak_left (set cs) (pcs ! i) = 0"
    proof -
      from that obtain c where "pcs ! i = PeakDone c" by (auto simp: peak_left_done)
      with m have "pc' = PeakDone c" by simp
      then show ?thesis by simp
    qed
    have "peak_left (set cs) (fst (peak_run sched (pcs[i := pc'], a')) ! j) \<le> peak_left (set cs) (pcs[i := pc'] ! j) - count_list sched j"
      using Cons.IH [OF st(1)] Cons.prems(2) by simp
    moreover have "peak_left (set cs) pc' \<le> peak_left (set cs) (pcs ! i) - 1"
      using st(2) zero by (cases "peak_left (set cs) (pcs ! i) = 0") auto
    ultimately show ?thesis using True m Cons.prems(2) by (cases "i = j") auto
  next
    case False
    then have "i \<noteq> j" using Cons.prems(2) by auto
    with False Cons show ?thesis by simp
  qed
qed simp

lemma length_peak_run [simp]: "length (fst (peak_run sched s)) = length (fst s)"
  by (induction sched s rule: peak_run.induct) (simp_all add: Let_def split: prod.split)

subsection \<open>The counters\<close>

record alloc_counters =
  cur_allocs :: u64
  peak_allocs :: u64
  cur_bytes :: u64
  peak_bytes :: u64

definition saturating_add :: "u64 \<Rightarrow> u64 \<Rightarrow> u64" where
  "saturating_add a b = (if a + b < a then - 1 else a + b)"

text \<open>\<open>update_peak\<close> when no other thread interferes.\<close>

definition update_peak :: "u64 \<Rightarrow> u64 \<Rightarrow> u64" where
  "update_peak a candidate = snd (peak_run [0, 0] ([PeakLoad candidate], a))"

lemma update_peak_max: "update_peak a candidate = max a candidate"
  by (auto simp: update_peak_def max_def)

text \<open>The calls of the allocator; the flag says whether the system returned memory. Sizes are in
  bytes, and a reallocation has the old and the new one.\<close>

datatype alloc_event = Alloc nat bool | Dealloc nat | Realloc nat nat bool

fun track :: "alloc_event \<Rightarrow> alloc_counters \<Rightarrow> alloc_counters" where
  "track (Alloc size_b ok) c =
     (if ok then
        let prev = cur_bytes c; c = c\<lparr>cur_allocs := cur_allocs c + 1\<rparr>;
            c = c\<lparr>cur_bytes := prev + of_nat size_b\<rparr>; now = saturating_add prev (of_nat size_b);
            c = c\<lparr>peak_allocs := update_peak (peak_allocs c) (cur_allocs c)\<rparr>
        in c\<lparr>peak_bytes := update_peak (peak_bytes c) now\<rparr>
      else c)"
| "track (Dealloc size_b) c = c\<lparr>cur_allocs := cur_allocs c - 1, cur_bytes := cur_bytes c - of_nat size_b\<rparr>"
| "track (Realloc old new ok) c =
     (if ok then
        (if (of_nat old :: u64) \<le> of_nat new then
           let added = of_nat new - of_nat old; prev = cur_bytes c; c = c\<lparr>cur_bytes := prev + added\<rparr>
           in c\<lparr>peak_bytes := update_peak (peak_bytes c) (saturating_add prev added)\<rparr>
         else c\<lparr>cur_bytes := cur_bytes c - (of_nat old - of_nat new)\<rparr>)
      else c)"

definition reset_alloc_counters :: "alloc_counters \<Rightarrow> alloc_counters" where
  "reset_alloc_counters c = \<lparr>cur_allocs = 0, peak_allocs = 0, cur_bytes = 0, peak_bytes = 0\<rparr>"

definition snapshot_alloc_counters :: "alloc_counters \<Rightarrow> u64 \<times> u64 \<times> u64 \<times> u64" where
  "snapshot_alloc_counters c = (cur_allocs c, cur_bytes c, peak_allocs c, peak_bytes c)"

definition counters_zero :: alloc_counters where
  "counters_zero = \<lparr>cur_allocs = 0, peak_allocs = 0, cur_bytes = 0, peak_bytes = 0\<rparr>"

text \<open>The specification: the sizes of the blocks that are live.\<close>

fun live_step :: "alloc_event \<Rightarrow> nat multiset \<Rightarrow> nat multiset" where
  "live_step (Alloc n ok) M = (if ok then add_mset n M else M)"
| "live_step (Dealloc n) M = M - {#n#}"
| "live_step (Realloc old new ok) M = (if ok then add_mset new (M - {#old#}) else M)"

fun legal :: "alloc_event \<Rightarrow> nat multiset \<Rightarrow> bool" where
  "legal (Alloc n ok) M = True"
| "legal (Dealloc n) M = (n \<in># M)"
| "legal (Realloc old new ok) M = (old \<in># M)"

text \<open>Only live blocks are freed, and there is never more than the address space.\<close>

fun legal_trace :: "nat multiset \<Rightarrow> alloc_event list \<Rightarrow> bool" where
  "legal_trace M [] = True"
| "legal_trace M (e # es) = (legal e M \<and> size (live_step e M) < 2 ^ 64 \<and> \<Sum>\<^sub># (live_step e M) < 2 ^ 64
     \<and> legal_trace (live_step e M) es)"

fun highest :: "(nat multiset \<Rightarrow> nat) \<Rightarrow> nat multiset \<Rightarrow> alloc_event list \<Rightarrow> nat" where
  "highest f M [] = f M"
| "highest f M (e # es) = max (f M) (highest f (live_step e M) es)"

definition counts :: "alloc_counters \<Rightarrow> nat multiset \<Rightarrow> bool" where
  "counts c M \<longleftrightarrow> unat (cur_allocs c) = size M \<and> unat (cur_bytes c) = \<Sum>\<^sub># M
     \<and> size M \<le> unat (peak_allocs c) \<and> \<Sum>\<^sub># M \<le> unat (peak_bytes c)"

lemma unat_max: "unat (max a b) = max (unat a) (unat (b :: 'a :: len word))"
  by (simp add: max_def word_le_nat_alt)

lemma unat_of_small: "n < 2 ^ 64 \<Longrightarrow> unat (of_nat n :: u64) = n"
  by (simp add: unat_of_nat)

lemma unat_add_small: "unat a + n < 2 ^ 64 \<Longrightarrow> unat (a + of_nat n :: u64) = unat a + n"
  by (simp add: unat_word_ariths unat_of_nat mod_add_right_eq)

lemma unat_sub_small: "n \<le> unat a \<Longrightarrow> unat (a - of_nat n :: u64) = unat a - n"
proof -
  assume n: "n \<le> unat a"
  have "unat a < 2 ^ 64" using unsigned_less [of a] by simp
  with n have "unat (of_nat n :: u64) = n" by (simp add: unat_of_nat)
  with n show ?thesis by (simp add: unat_sub_if')
qed

lemma saturating_add_small: "unat a + n < 2 ^ 64 \<Longrightarrow> saturating_add a (of_nat n) = a + of_nat n"
  using unat_add_small [of a n] by (simp add: saturating_add_def word_less_nat_alt)

text \<open>One event: the counters keep counting and the peaks take the new amount in.\<close>

definition tracked :: "alloc_counters \<Rightarrow> alloc_counters \<Rightarrow> nat multiset \<Rightarrow> bool" where
  "tracked c c' M \<longleftrightarrow> unat (cur_allocs c') = size M \<and> unat (cur_bytes c') = \<Sum>\<^sub># M
     \<and> unat (peak_allocs c') = max (unat (peak_allocs c)) (size M) \<and> unat (peak_bytes c') = max (unat (peak_bytes c)) (\<Sum>\<^sub># M)"

lemma tracked_counts: "tracked c c' M \<Longrightarrow> counts c' M"
  by (simp add: tracked_def counts_def)

lemma tracked_same: "counts c M \<Longrightarrow> tracked c c M"
  by (simp add: tracked_def counts_def max_absorb1)

lemma track_alloc:
  assumes "counts c M" "size M + 1 < 2 ^ 64" "\<Sum>\<^sub># M + n < 2 ^ 64"
  shows "tracked c (track (Alloc n True) c) (add_mset n M)"
proof -
  have b: "unat (cur_bytes c) + n < 2 ^ 64" "unat (cur_allocs c) + 1 < 2 ^ 64" using assms by (simp_all add: counts_def)
  note b = unat_add_small [OF b(1)] saturating_add_small [OF b(1)] unat_add_small [OF b(2)]
  show ?thesis using assms(1) b by (simp add: tracked_def counts_def Let_def update_peak_max unat_max add.commute)
qed

lemma track_dealloc:
  assumes "counts c (add_mset n M)"
  shows "tracked c (track (Dealloc n) c) M"
proof -
  have "n \<le> unat (cur_bytes c)" "1 \<le> unat (cur_allocs c)" using assms by (simp_all add: counts_def)
  from unat_sub_small [OF this(1)] unat_sub_small [OF this(2)] show ?thesis
    using assms by (simp add: tracked_def counts_def max_absorb1)
qed

lemma track_realloc:
  assumes "counts c (add_mset old M)" "new + \<Sum>\<^sub># M < 2 ^ 64"
  shows "tracked c (track (Realloc old new True) c) (add_mset new M)"
proof -
  have c: "old + \<Sum>\<^sub># M = unat (cur_bytes c)" using assms(1) by (simp add: counts_def)
  moreover have "unat (cur_bytes c) < 2 ^ 64" using unsigned_less [of "cur_bytes c"] by simp
  ultimately have "old < 2 ^ 64" by simp
  with assms(2) have u: "unat (of_nat old :: u64) = old" "unat (of_nat new :: u64) = new" by (simp_all add: unat_of_nat)
  show ?thesis
  proof (cases "old \<le> new")
    case True
    have "unat (cur_bytes c) + (new - old) < 2 ^ 64" using assms(2) c True by simp
    note b = unat_add_small [OF this] saturating_add_small [OF this]
    have "(of_nat new - of_nat old :: u64) = of_nat (new - old)" using True by (simp add: of_nat_diff)
    then have "track (Realloc old new True) c = c\<lparr>cur_bytes := cur_bytes c + of_nat (new - old),
        peak_bytes := max (peak_bytes c) (cur_bytes c + of_nat (new - old))\<rparr>"
      using True u by (simp add: Let_def update_peak_max b(2) word_le_nat_alt del: of_nat_diff)
    moreover have "unat (cur_bytes c + of_nat (new - old)) = new + \<Sum>\<^sub># M" unfolding b(1) using c True by simp
    ultimately show ?thesis using assms(1) by (simp add: tracked_def counts_def unat_max max_absorb1 del: of_nat_diff)
  next
    case False
    have "old - new \<le> unat (cur_bytes c)" using c by simp
    note b = unat_sub_small [OF this]
    have "(of_nat old - of_nat new :: u64) = of_nat (old - new)" using False by (simp add: of_nat_diff)
    then have "track (Realloc old new True) c = c\<lparr>cur_bytes := cur_bytes c - of_nat (old - new)\<rparr>"
      using False u by (simp add: word_le_nat_alt del: of_nat_diff)
    moreover have "unat (cur_bytes c - of_nat (old - new)) = new + \<Sum>\<^sub># M" unfolding b using c False by simp
    ultimately show ?thesis
      using assms(1) False by (simp add: tracked_def counts_def max_absorb1 del: of_nat_diff)
  qed
qed

lemma track_counts:
  assumes "counts c M" "legal e M" "size (live_step e M) < 2 ^ 64" "\<Sum>\<^sub># (live_step e M) < 2 ^ 64"
  shows "tracked c (track e c) (live_step e M)"
proof (cases e)
  case (Alloc n ok)
  then show ?thesis using assms track_alloc [of c M n] tracked_same [OF assms(1)] by (cases ok) (simp_all add: add.commute del: track.simps(1), simp)
next
  case (Dealloc n)
  then obtain M' where "M = add_mset n M'" using assms(2) by (auto dest: multi_member_split)
  then show ?thesis using Dealloc assms(1) track_dealloc by simp
next
  case (Realloc old new ok)
  then obtain M' where "M = add_mset old M'" using assms(2) by (auto dest: multi_member_split)
  then show ?thesis
    using Realloc assms(1,4) track_realloc [of c old M' new] tracked_same [OF assms(1)] by (cases ok) (simp_all del: track.simps(3), simp)
qed

lemma track_trace:
  "counts c M \<Longrightarrow> legal_trace M es \<Longrightarrow>
   counts (fold track es c) (fold live_step es M)
   \<and> unat (peak_allocs (fold track es c)) = max (unat (peak_allocs c)) (highest size M es)
   \<and> unat (peak_bytes (fold track es c)) = max (unat (peak_bytes c)) (highest sum_mset M es)"
proof (induction es arbitrary: c M)
  case Nil
  then show ?case by (simp add: counts_def max_absorb1)
next
  case (Cons e es)
  then have l: "legal e M" "size (live_step e M) < 2 ^ 64" "\<Sum>\<^sub># (live_step e M) < 2 ^ 64" "legal_trace (live_step e M) es" by simp_all
  note t = track_counts [OF Cons.prems(1) l(1-3)]
  then have p: "unat (peak_allocs (track e c)) = max (unat (peak_allocs c)) (size (live_step e M))"
    "unat (peak_bytes (track e c)) = max (unat (peak_bytes c)) (\<Sum>\<^sub># (live_step e M))" by (simp_all add: tracked_def)
  from Cons.prems(1) have "size M \<le> unat (peak_allocs c)" "\<Sum>\<^sub># M \<le> unat (peak_bytes c)" by (simp_all add: counts_def)
  moreover have "f M \<le> highest f M es" for f M es by (cases es) simp_all
  moreover have "max (max p u) h = max p (max u0 h)" if "u \<le> h" "u0 \<le> p" for p u h u0 :: nat using that by (simp add: max_def)
  ultimately show ?case using Cons.IH [OF tracked_counts [OF t] l(4)] by (simp add: p)
qed

subsection \<open>The probe\<close>

text \<open>The socket of templates polls copies of all its templates, whatever the maximum; its
  \<open>poll_slices\<close> is the code of the default one.\<close>

record slice_socket =
  templates :: "bytes list"

definition slice_socket_reset :: "bytes list \<Rightarrow> slice_socket \<Rightarrow> slice_socket" where
  "slice_socket_reset frames s = s\<lparr>templates := frames\<rparr>"

definition slice_socket_poll :: "nat \<Rightarrow> slice_socket \<Rightarrow> bytes list" where
  "slice_socket_poll max_n s = templates s"

definition probe_packet :: "nat \<Rightarrow> u64 \<Rightarrow> fault + bytes" where
  "probe_packet n seq =
     (let buf = new_header_buffer n;
          header = \<lparr>src_id = fill_arr 1, dst_id = fill_arr 2, flow_label = 1, seq_num = seq,
                    session_id = fill_arr 0, flags = 0, payload_length = of_nat n\<rparr>
      in case marshal_into header buf of
           Inl e \<Rightarrow> Inl Panicked
         | Inr buf \<Rightarrow> Inr (overwrite HEADER_SIZE (map (\<lambda>i. of_nat (i AND 0xFF)) [0..<length buf - HEADER_SIZE]) buf))"

fun probe_packets :: "nat \<Rightarrow> nat list \<Rightarrow> fault + bytes list" where
  "probe_packets n [] = Inr []"
| "probe_packets n (seq # seqs) =
     bindr (probe_packet n (of_nat seq)) (\<lambda>p. bindr (probe_packets n seqs) (\<lambda>ps. Inr (p # ps)))"

text \<open>The same route as in the chaos harness, and no extra capacity.\<close>

definition probe_forwarder :: "crypto_lib \<Rightarrow> (string \<Rightarrow> string option) \<Rightarrow> nat \<Rightarrow> nat \<Rightarrow> node \<Rightarrow> forwarder \<times> node" where
  "probe_forwarder L env t0 t1 nd =
     (let (kc, w) = nd;
          (t, ep) = update_route t1 (chaos_route t0) (table_new, epoch w);
          (f, kc) = forwarder_new L env t kc
      in (f, kc, w\<lparr>epoch := ep\<rparr>))"

text \<open>\<open>args\<close> starts with the name of the program.\<close>

definition probe_sizes :: "string list \<Rightarrow> nat list \<times> nat list" where
  "probe_sizes args =
     (let single_packet_count = Option.bind (get_arg args 1) ok_usize;
          single_payload_len = Option.bind (get_arg args 2) ok_usize
      in (case single_packet_count of Some p \<Rightarrow> [p] | None \<Rightarrow> [16, 64, 256],
          case single_payload_len of Some p \<Rightarrow> [p] | None \<Rightarrow> [64, 128, 256, 512, 1024]))"

definition probe_case ::
    "crypto_lib \<Rightarrow> (string \<Rightarrow> string option) \<Rightarrow> nat \<Rightarrow> nat \<Rightarrow> node \<Rightarrow> nat \<Rightarrow> nat \<Rightarrow> fault + fw_stats \<times> node" where
  "probe_case L env t0 t1 nd packet_count n =
     (let (f, kc, w) = probe_forwarder L env t0 t1 nd; packet_len = HEADER_SIZE + n in
      bindr (probe_packets n [0..<packet_count]) (\<lambda>ps.
      let ring = SliceRing_new (packet_count * 4) packet_len;
          socket = slice_socket_reset ps \<lparr>templates = []\<rparr>
      in bindr (process_batch_slices L (slice_socket_poll 64 socket) ring f w) (\<lambda>(st, sent, ring, f, w). Inr (st, kc, w))))"

fun probe_main ::
    "crypto_lib \<Rightarrow> (string \<Rightarrow> string option) \<Rightarrow> (nat \<Rightarrow> nat) \<Rightarrow> node \<Rightarrow> (nat \<times> nat) list \<Rightarrow> fault + fw_stats list" where
  "probe_main L env clock nd [] = Inr []"
| "probe_main L env clock nd ((packet_count, n) # rest) =
     bindr (probe_case L env (clock 0) (clock 1) nd packet_count n) (\<lambda>(st, nd).
     bindr (probe_main L env (\<lambda>i. clock (i + 2)) nd rest) (\<lambda>sts. Inr (st # sts)))"

definition probe_header :: "nat \<Rightarrow> nat \<Rightarrow> header" where
  "probe_header n seq = \<lparr>src_id = fill_arr 1, dst_id = fill_arr 2, flow_label = 1, seq_num = of_nat seq,
     session_id = fill_arr 0, flags = 0, payload_length = of_nat n\<rparr>"

definition probe_bytes :: "nat \<Rightarrow> nat \<Rightarrow> bytes" where
  "probe_bytes n seq = header_bytes (probe_header n seq) @ payload_pattern n"

lemma probe_packet_layout: "probe_packet n (of_nat seq) = Inr (probe_bytes n seq)"
proof -
  have "marshal_into (probe_header n seq) (new_header_buffer n) = Inr (header_bytes (probe_header n seq) @ replicate n 0)"
    by (subst marshal_into_layout) (simp_all add: new_header_buffer_def HEADER_SIZE_def)
  moreover have "overwrite HEADER_SIZE (payload_pattern n) (header_bytes (probe_header n seq) @ replicate n 0) = probe_bytes n seq"
    by (simp add: overwrite_def HEADER_SIZE_def probe_bytes_def)
  ultimately show ?thesis
    by (simp only: probe_packet_def probe_header_def Let_def HEADER_SIZE_def payload_pattern_def sum.case length_append
        length_header_bytes length_replicate add_diff_cancel_left' if_False)
qed

lemma probe_packets_layout: "probe_packets n seqs = Inr (map (probe_bytes n) seqs)"
  by (induction seqs) (simp_all add: probe_packet_layout)

lemma probe_fields:
  "length (probe_bytes n seq) = 96 + n" "ref_dst_id (probe_bytes n seq) = fill_arr 2" "ref_length (probe_bytes n seq) = of_nat n"
  unfolding probe_bytes_def ref_header_bytes by (simp_all add: probe_header_def)

lemma probe_outcome:
  assumes "lib_ok L" "chaos_table t" "n mod 2 ^ 16 \<noteq> 0"
  shows "snd (plain_spec L t (Some s) (probe_bytes n seq)) = Encrypted"
proof -
  let ?p = "probe_bytes n seq"
  have u: "unat (of_nat n :: u16) = n mod 2 ^ 16" by (simp add: unat_of_nat)
  then have pres: "payload_present ?p" using assms(3) by (simp add: payload_present_def probe_fields HEADER_SIZE_def)
  have "length (payload_of ?p) \<le> 2 ^ 16"
    using payload_of_length [of ?p] pres u mod_less_divisor [of "2 ^ 16" n] by (simp add: probe_fields)
  then have p: "length (payload_of ?p) \<le> PAYLOAD_LIMIT" by (simp add: PAYLOAD_LIMIT_def)
  from lib_ok_seal [OF assms(1) limit_le_gcm [OF p]]
  obtain c t' where "seal L (aead s) (build_nonce s (ref_seq_num ?p)) (payload_of ?p) = Some (c, t')" by metis
  with p have e: "encrypt_into_slice L s (payload_of ?p) (ref_seq_num ?p) = Inr (c, t')" by (simp add: encrypt_into_slice_def)
  from assms(2) have "route_hit t ?p" by (auto simp: chaos_table_def route_hit_def probe_fields hop_of_def HEADER_SIZE_def)
  with e pres show ?thesis by (simp add: plain_spec_def probe_fields HEADER_SIZE_def)
qed

subsection \<open>Properties\<close>

text \<open>C29. Concurrent calls of \<open>update_peak\<close> end and lose nothing. However \<open>n\<close> threads interleave, a
  thread that gets \<open>n + 2\<close> turns has returned, whatever the others do; and once each has
  returned, the peak is the maximum of its old value and all their candidates.\<close>

theorem concurrent_peak_is_maximum:
  assumes "\<forall>i < length cs. length cs + 2 \<le> count_list sched i"
  shows "peak_run sched (map PeakLoad cs, a0) = (map PeakDone cs, Max (insert a0 (set cs)))"
proof -
  let ?s = "peak_run sched (map PeakLoad cs, a0)"
  have start: "peak_inv a0 cs (map PeakLoad cs, a0)" by (auto simp: peak_inv_def comp_def)
  obtain pcs a where s: "?s = (pcs, a)" by fastforce
  from peak_run_inv [OF start, of sched] s have inv: "map candidate_of pcs = cs" "a0 \<le> a" "a \<in> insert a0 (set cs)"
    "\<And>pc. pc \<in> set pcs \<Longrightarrow> peak_at (set cs) a pc" by (simp_all add: peak_inv_def)
  have len: "length pcs = length cs" using inv(1) by auto
  have "peak_left (set cs) (pcs ! j) = 0" if "j < length cs" for j
  proof -
    have "peak_left (set cs) (map PeakLoad cs ! j) \<le> length cs + 2" using that card_length [of cs] by simp
    moreover have "length cs + 2 \<le> count_list sched j" using assms that by blast
    ultimately show ?thesis using peak_run_left [OF start, of j sched] that s by simp
  qed
  then have done': "pcs ! j = PeakDone (cs ! j)" if "j < length cs" for j
    using that inv(1) len by (metis candidate_of.simps(3) nth_map peak_left_done)
  then have pcs: "pcs = map PeakDone cs" using len by (intro nth_equalityI) simp_all
  have "c \<le> a" if "c \<in> set cs" for c using inv(4) [of "PeakDone c"] that pcs by auto
  then have "a = Max (insert a0 (set cs))" using inv(2,3) by (intro Max_eqI [symmetric]) auto
  with s pcs show ?thesis by simp
qed

theorem concurrent_peak_is_maximum_witness:
  "peak_run [0, 1, 1, 0, 2, 0, 0, 1, 1, 1, 2, 2, 2, 2, 0] (map PeakLoad [5, 9, 7], 6) = (map PeakDone [5, 9, 7], 9)"
proof -
  have "\<forall>i < length [5, 9, 7 :: u64]. length [5, 9, 7 :: u64] + 2 \<le> count_list [0, 1, 1, 0, 2, 0, 0, 1, 1, 1, 2, 2, 2, 2, 0] i"
    by (auto simp: less_Suc_eq numeral_eq_Suc)
  from concurrent_peak_is_maximum [OF this, of 6] show ?thesis by simp
qed

text \<open>Between resets the counters of the probe are exact: if the memory that is freed or
  reallocated was allocated since the reset and all of it fits the address space, the
  counters are the number of live blocks and their bytes, and the peaks are the largest that
  these ever were, through every allocation, release, growth, shrinking and failure.\<close>

theorem probe_counters_exact:
  assumes "legal_trace {#} es"
  shows "let c = fold track es (reset_alloc_counters c0); M = fold live_step es {#} in
    unat (cur_allocs c) = size M \<and> unat (cur_bytes c) = \<Sum>\<^sub># M
    \<and> unat (peak_allocs c) = highest size {#} es \<and> unat (peak_bytes c) = highest sum_mset {#} es"
proof -
  have "counts (reset_alloc_counters c0) {#}" by (simp add: counts_def reset_alloc_counters_def)
  from track_trace [OF this assms] show ?thesis by (simp add: counts_def Let_def) (simp add: reset_alloc_counters_def)
qed

theorem probe_counters_exact_witness:
  "snapshot_alloc_counters (fold track [Alloc 100 True, Alloc 50 True, Realloc 100 300 True, Dealloc 50, Alloc 7 False]
     (reset_alloc_counters counters_zero)) = (1, 300, 2, 350)"
proof -
  let ?es = "[Alloc 100 True, Alloc 50 True, Realloc 100 300 True, Dealloc 50, Alloc 7 False]"
  have l: "legal_trace {#} ?es" by simp
  have h: "highest size {#} ?es = 2" "highest sum_mset {#} ?es = 350" "fold live_step ?es {#} = {#300#}" by simp_all
  let ?c = "fold track ?es (reset_alloc_counters counters_zero)"
  from probe_counters_exact [OF l, of counters_zero, unfolded h Let_def]
  have "unat (cur_allocs ?c) = unat (1 :: u64)" "unat (cur_bytes ?c) = unat (300 :: u64)" "unat (peak_allocs ?c) = unat (2 :: u64)"
    "unat (peak_bytes ?c) = unat (350 :: u64)" by simp_all
  then show ?thesis by (simp only: snapshot_alloc_counters_def prod.inject word_unat_eq_iff simp_thms)
qed

text \<open>A reset forgets memory that is still live. Freeing \<open>d\<close> bytes allocated before the reset takes
  the counters below zero: they wrap around, and the next allocation, of \<open>n\<close> bytes, sets the
  peak to nearly the whole address space, where it stays.\<close>

theorem reset_forgets_live_memory:
  fixes c0 :: alloc_counters
  assumes "0 < d" and "d < 2 ^ 64" and "n < 2 ^ 64"
  defines "c \<equiv> fold track [Dealloc d, Alloc n True] (reset_alloc_counters c0)"
  shows "unat (peak_bytes c) = (if n < d then 2 ^ 64 - d + n else 2 ^ 64 - 1) \<and> cur_allocs (track (Dealloc d) (reset_alloc_counters c0)) = - 1"
proof -
  have u: "unat (of_nat d :: u64) = d" "unat (of_nat n :: u64) = n" using assms(2,3) by (simp_all add: unat_of_nat)
  have "unat (0 - of_nat d :: u64) = 2 ^ 64 - d" using assms(1) u(1) by (subst unat_sub_if') simp
  then have m: "unat (- (of_nat d :: u64)) = 2 ^ 64 - d" by simp
  have pk: "peak_bytes c = saturating_add (- of_nat d) (of_nat n)"
    by (simp add: c_def reset_alloc_counters_def Let_def update_peak_max)
  show ?thesis
  proof (cases "n < d")
    case True
    then have "unat (- of_nat d + of_nat n :: u64) = 2 ^ 64 - d + n" using unat_add_small [of "- of_nat d" n] m assms(2) by simp
    then show ?thesis using True m by (simp add: pk saturating_add_def word_less_nat_alt reset_alloc_counters_def)
  next
    case False
    then have "unat (of_nat n - of_nat d :: u64) = n - d" using unat_sub_small [of d "of_nat n"] u(2) by simp
    then have "unat (- of_nat d + of_nat n :: u64) = n - d" by simp
    moreover have "n - d < 2 ^ 64 - d" using assms(2,3) False by linarith
    ultimately have "saturating_add (- of_nat d) (of_nat n) = - 1" using m by (simp add: saturating_add_def word_less_nat_alt)
    then show ?thesis using False by (simp add: pk reset_alloc_counters_def unsigned_minus_1_eq_mask mask_eq_exp_minus_1)
  qed
qed

theorem reset_forgets_live_memory_witness:
  "unat (peak_bytes (fold track [Dealloc 4096, Alloc 64 True] (reset_alloc_counters counters_zero))) = 2 ^ 64 - 4032"
  using reset_forgets_live_memory [of 4096 64 counters_zero] by simp

text \<open>A case of the probe: every template is encrypted.\<close>

theorem probe_case_encrypts:
  assumes "lib_ok L" and "fresh_node w" and "unat (epoch w) + 1 < 2 ^ 64" and "n mod 2 ^ 16 \<noteq> 0"
    and "0 < packet_count" and "packet_count * (112 + n) \<le> 2 ^ 60"
  shows "\<exists>kc' w'. probe_case L env t0 t1 (kc, w) packet_count n =
    Inr (\<lparr>received = packet_count, forwarded = 0, encrypted = packet_count, route_misses = 0\<rparr>, kc', w')"
proof -
  obtain t ep where u: "update_route t1 (chaos_route t0) (table_new, epoch w) = (t, ep)" by fastforce
  obtain f kc' where f: "forwarder_new L env t kc = (f, kc')" by fastforce
  note t = table_wf_update [OF table_wf_new u]
  have ct: "chaos_table t" unfolding chaos_table_def using t
    by (intro conjI exI [of _ "(chaos_route t0)\<lparr>last_seen := t1\<rparr>"]) (simp_all add: routes_of_new chaos_route_def)
  from f have fw: "f = fst (forwarder_with_session L env t (replicate 32 0x42) (ascii ''datapath-default'') kc)"
    by (simp add: forwarder_new_def)
  note parts = forwarder_with_session_parts [of L env t "replicate 32 0x42" "ascii ''datapath-default''" kc, folded fw]
  obtain s where s: "fsession f = Some s"
    using session_made [OF assms(1), of "replicate 32 0x42" "ascii ''datapath-default''" kc] parts(5) by auto
  let ?w = "w\<lparr>epoch := ep\<rparr>" and ?ps = "map (probe_bytes n) [0..<packet_count]" and ?ring = "SliceRing_new (packet_count * 4) (96 + n)"
  have "unat ep = unat (epoch w) + 1" using t(3) assms(3) by (simp add: unat_word_ariths)
  then have "0 < ep" by (simp add: word_gt_0 unat_eq_0 [symmetric])
  then have pok: "proc_ok (routes f) ?w" using assms(2) by (intro fresh_proc_ok) (simp add: fresh_node_def)
  have lens: "sum_list (map length ?ps) + length ?ps * TAG_SIZE = packet_count * (112 + n)"
    by (simp add: comp_def probe_fields sum_list_triv TAG_SIZE_def algebra_simps)
  have "arena_fits (sum_list (map length ?ps) + length ?ps * TAG_SIZE) (arena f)"
    unfolding lens using assms(6) by (simp add: arena_fits_def parts(2) ARENA_INIT_def)
  from serial_batch_result [OF lib_ok_length [OF assms(1)] pok this] obtain sent f' w' where
    b: "serial_batch L ?ps f ?w = Inr (count_outcomes (map snd (map (plain_spec L t (Some s)) ?ps)) (stats_of (length ?ps)), sent, f', w')"
    by (auto simp: batch_result_def parts(1) s)
  have st: "count_outcomes (map snd (map (plain_spec L t (Some s)) ?ps)) (stats_of (length ?ps)) =
      \<lparr>received = packet_count, forwarded = 0, encrypted = packet_count, route_misses = 0\<rparr>"
    by (simp add: count_outcomes_def stats_of_def comp_def probe_outcome [OF assms(1) ct assms(4)])
  have sz: "slot_size ?ring = 96 + n" "ring_capacity ?ring = packet_count * 4" by (simp_all add: ring_capacity_def SliceRing_new_def)
  have cut: "map (take (96 + n)) ?ps = ?ps" by (simp add: probe_fields)
  have "process_batch_slices L ?ps ?ring f ?w = Inr (\<lparr>received = packet_count, forwarded = 0, encrypted = packet_count, route_misses = 0\<rparr>,
      sent, case poll_slices ?ps ?ring of Inr ring' \<Rightarrow> ring' | Inl _ \<Rightarrow> ?ring, f', w')"
    unfolding slices_exact [OF ring_ok_new] sz cut b st using assms(5) by simp
  then show ?thesis
    by (simp add: probe_case_def probe_forwarder_def u f probe_packets_layout slice_socket_reset_def slice_socket_poll_def Let_def
        HEADER_SIZE_def)
qed

end
