(* ===== verification/Bench.thy ===== *)
theory Bench
  imports Prelude
begin

unbundle bit_operations_syntax

text \<open>
  The micro-benchmarks (\<open>bench/src/lib.rs\<close>, \<open>bench/src/token_bench.rs\<close>): filling a buffer with a
  pattern in chunks, and counting tokens with saturating arithmetic. Elapsed times and the rates
  computed from them are clock readings and floating point, and are left out.
\<close>

subsection \<open>The pattern\<close>

text \<open>The constant table, filled by a \<open>while\<close> loop at compile time.\<close>

function pattern_loop :: "nat \<Rightarrow> bytes \<Rightarrow> bytes" where
  "pattern_loop i ar = (if i < 256 then pattern_loop (i + 1) (ar[i := of_nat i]) else ar)"
  by auto
termination by (relation "measure (\<lambda>(i, ar). 256 - i)") auto

declare pattern_loop.simps [simp del]

definition PATTERN_256 :: bytes where
  "PATTERN_256 = pattern_loop 0 (replicate 256 0)"

text \<open>Whole chunks of 256 bytes first, then the remainder, if there is one.\<close>

function fill_pattern :: "bytes \<Rightarrow> bytes" where
  "fill_pattern buffer =
     (if 256 \<le> length buffer then PATTERN_256 @ fill_pattern (drop 256 buffer)
      else if buffer \<noteq> [] then take (length buffer) PATTERN_256
      else [])"
  by auto
termination by (relation "measure length") auto

declare fill_pattern.simps [simp del]

definition alloc_and_fill :: "nat \<Rightarrow> bytes" where
  "alloc_and_fill n = fill_pattern (replicate n 0)"

record bench_sample =
  sample_size :: nat
  sample_iterations :: nat

text \<open>One size: the buffer is filled as often as there are iterations. The buffer is returned
  beside the sample: it is what \<open>black_box\<close> sees.\<close>

definition run_bench_with_sizes :: "nat list \<Rightarrow> nat \<Rightarrow> (bench_sample \<times> bytes) list" where
  "run_bench_with_sizes sizes iterations =
     map (\<lambda>n. (\<lparr>sample_size = n, sample_iterations = iterations\<rparr>, (fill_pattern ^^ iterations) (replicate n 0))) sizes"

definition run_bench :: "(bench_sample \<times> bytes) list" where
  "run_bench = run_bench_with_sizes [1024, 8 * 1024, 64 * 1024] 100"

lemma pattern_loop_fills:
  "i \<le> 256 \<Longrightarrow> length ar = 256 \<Longrightarrow> (\<And>j. j < i \<Longrightarrow> ar ! j = of_nat j) \<Longrightarrow> pattern_loop i ar = map of_nat [0..<256]"
proof (induction i ar rule: pattern_loop.induct)
  case (1 i ar)
  show ?case
  proof (cases "i < 256")
    case True
    have "(ar[i := of_nat i]) ! j = of_nat j" if "j < i + 1" for j
      using 1(3,4) that True by (cases "j = i") simp_all
    with 1(1) [OF True] 1(3) True show ?thesis by (subst pattern_loop.simps) simp
  next
    case False
    with 1(2) have "i = 256" by simp
    with 1(3,4) have "ar = map of_nat [0..<256]" by (intro nth_equalityI) simp_all
    then show ?thesis using False by (subst pattern_loop.simps) simp
  qed
qed

lemma PATTERN_256_eq: "PATTERN_256 = map of_nat [0..<256]"
  unfolding PATTERN_256_def by (intro pattern_loop_fills) simp_all

text \<open>Filling in chunks is filling byte by byte: byte \<open>i\<close> of the buffer becomes \<open>i\<close> modulo 256,
  for a buffer of any length, whole chunks or not and empty included, and whatever it held
  before.\<close>

theorem fill_pattern_bytes: "fill_pattern buffer = map of_nat [0..<length buffer]"
proof (induction buffer rule: fill_pattern.induct)
  case (1 buffer)
  show ?case
  proof (cases "256 \<le> length buffer")
    case True
    have "map of_nat [256..<length buffer] = (map of_nat [0..<length buffer - 256] :: bytes)"
    proof (rule nth_equalityI)
      fix i assume "i < length (map of_nat [256..<length buffer] :: bytes)"
      then show "(map of_nat [256..<length buffer] :: bytes) ! i = map of_nat [0..<length buffer - 256] ! i" by simp
    qed simp
    moreover have "[0..<length buffer] = [0..<256] @ [256..<length buffer]"
      using True by (metis le_add_diff_inverse upt_add_eq_append zero_le)
    ultimately show ?thesis using 1 True by (subst fill_pattern.simps) (simp add: PATTERN_256_eq del: upt_conv_Cons)
  next
    case False
    then show ?thesis by (subst fill_pattern.simps) (simp add: PATTERN_256_eq take_map min_def)
  qed
qed

subsection \<open>Tokens\<close>

type_synonym usize = "64 word"

definition sat_add :: "nat \<Rightarrow> nat \<Rightarrow> nat" where "sat_add a b = min (a + b) usize_max"
definition sat_mul :: "nat \<Rightarrow> nat \<Rightarrow> nat" where "sat_mul a b = min (a * b) usize_max"

text \<open>The tokens counted, and the checksum that keeps the loops alive.\<close>

definition run_token_bench :: "nat \<Rightarrow> nat \<Rightarrow> nat \<Rightarrow> nat \<times> usize" where
  "run_token_bench prompt_tokens completion_tokens iterations =
     (let tokens_per_iteration = sat_add prompt_tokens completion_tokens;
          checksum = fold (\<lambda>round checksum.
            fold (\<lambda>token_index checksum. checksum + ((of_nat token_index XOR of_nat round) + 1)) [0..<tokens_per_iteration] checksum)
            [0..<iterations] 0
      in (sat_mul tokens_per_iteration iterations, checksum))"

definition run_token_bench_multi :: "(nat \<times> nat) list \<Rightarrow> nat \<Rightarrow> (nat \<times> usize) list" where
  "run_token_bench_multi configs iterations = map (\<lambda>(p, c). run_token_bench p c iterations) configs"

record token_bench_config =
  prompt_size :: nat
  completion_size :: nat
  bench_iterations :: nat
  warmup_iterations :: nat

definition token_bench_default :: token_bench_config where
  "token_bench_default = \<lparr>prompt_size = 128, completion_size = 512, bench_iterations = 10, warmup_iterations = 3\<rparr>"

lemma token_count_exact:
  "(p + c) * n \<le> usize_max \<Longrightarrow> 0 < n \<Longrightarrow> fst (run_token_bench p c n) = (p + c) * n"
proof -
  assume a: "(p + c) * n \<le> usize_max" "0 < n"
  have "p + c \<le> (p + c) * n" using a(2) by simp
  with a(1) have "p + c \<le> usize_max" by (rule le_trans [rotated])
  with a(1) show ?thesis by (simp add: run_token_bench_def Let_def sat_add_def sat_mul_def)
qed

end
