(* ===== verification/Tunnel.thy ===== *)
theory Tunnel
  imports Bridge_Run Kex
begin

text \<open>
  The crates together, from end to end: two parties run the key exchange of \<open>crypto/src/kex.rs\<close>, the
  initiator makes a forwarder with the secret it got (\<open>Forwarder::with_session\<close> of
  \<open>datapath/src/lib.rs\<close>), and the responder makes a session from its own (\<open>crypto/src/session.rs\<close>),
  reads the header (\<open>wire/src/lib.rs\<close>) and opens the payload. A forwarder always has a session,
  because deriving one does not fail; so a second forwarder on the way seals what it forwards again.
\<close>

subsection \<open>The parties\<close>

text \<open>The secrets that the initiator and the responder end up with, from the randomness of both.\<close>

definition exchange :: "kex_lib \<Rightarrow> 32 barr \<times> bytes \<Rightarrow> 32 barr \<times> bytes \<times> bytes \<Rightarrow> (bytes \<times> bytes) option" where
  "exchange K rng_i rng_r =
     (case rng_i of (xi, gi) \<Rightarrow> case rng_r of (xr, gr, rng) \<Rightarrow>
      case (HybridKEX_new K xi gi, HybridKEX_new K xr gr) of
        (Inr initiator, Inr responder) \<Rightarrow>
          (case respond K rng (public_key initiator) responder of
             (Inr (msg, combined_resp), _) \<Rightarrow>
               (case finish K msg initiator of
                  (Inr combined_init, _) \<Rightarrow> Some (bytes_of combined_init, bytes_of combined_resp)
                | _ \<Rightarrow> None)
           | _ \<Rightarrow> None)
      | _ \<Rightarrow> None)"

lemma exchange_secrets:
  assumes "kex_ok K"
  shows "\<exists>secret. exchange K rng_i rng_r = Some (secret, secret)"
proof -
  obtain xi gi xr gr rng where r: "rng_i = (xi, gi)" "rng_r = (xr, gr, rng)" by (metis prod_cases3 surj_pair)
  obtain init resp where new: "HybridKEX_new K xi gi = Inr init" "HybridKEX_new K xr gr = Inr resp"
    unfolding HybridKEX_new_def Let_def split_def by blast
  from exchange_agrees [OF assms(1) new, of rng] obtain msg ss where
    "respond K rng (public_key init) resp = (Inr (msg, ss), resp\<lparr>x25519_priv := None\<rparr>)"
    "finish K msg init = (Inr ss, init\<lparr>x25519_priv := None\<rparr>)" by blast
  then show ?thesis by (simp add: exchange_def r new)
qed

text \<open>The cache of a process holds no other session's material under the key of a request: so it is
  in a process that has made no session yet.\<close>

definition own_entry :: "crypto_lib \<Rightarrow> hkdf_cache \<Rightarrow> bytes \<Rightarrow> bytes \<Rightarrow> bool" where
  "own_entry L kc secret info \<longleftrightarrow>
     (case kc (derive_cache_key L secret info) of None \<Rightarrow> True | Some e \<Rightarrow> derive_session_material L secret info = Inr e)"

definition own_session :: "crypto_lib \<Rightarrow> bytes \<Rightarrow> bytes \<Rightarrow> session" where
  "own_session L secret info = session_of (projr (derive_session_material L secret info))"

lemma new_is_own:
  assumes "lib_ok L" "own_entry L kc secret info"
  shows "fst (HybridSession_new L secret info kc) = Inr (own_session L secret info)"
  using derive_total [OF assms(1), of secret info] assms(2)
  by (auto simp: HybridSession_new_def own_entry_def own_session_def Let_def split: option.splits)

subsection \<open>Hops\<close>

text \<open>A hop makes its forwarder from its environment, its routes and its secret, and forwards one
  batch in its process, on the threads it has.\<close>

record hop =
  hop_env :: "string \<Rightarrow> string option"
  hop_table :: table
  hop_secret :: bytes
  hop_info :: bytes
  hop_cache :: hkdf_cache
  hop_proc :: process
  hop_threads :: nat
  hop_sched :: "(nat \<times> nat) list"

definition hop_fwd :: "crypto_lib \<Rightarrow> hop \<Rightarrow> forwarder" where
  "hop_fwd L r = fst (forwarder_with_session L (hop_env r) (hop_table r) (hop_secret r) (hop_info r) (hop_cache r))"

lemma hop_fwd_new:
  "hop_secret r = replicate 32 0x42 \<Longrightarrow> hop_info r = ascii ''datapath-default'' \<Longrightarrow>
     hop_fwd L r = fst (forwarder_new L (hop_env r) (hop_table r) (hop_cache r))"
  by (simp add: hop_fwd_def forwarder_new_def)

definition hop_send :: "crypto_lib \<Rightarrow> hop \<Rightarrow> bytes list \<Rightarrow> fault + bytes list" where
  "hop_send L r frames =
     bindr (process_batch L (hop_threads r) (hop_sched r) frames (hop_fwd L r) (hop_proc r)) (\<lambda>(st, sent, f, w).
       Inr (case sent of None \<Rightarrow> [] | Some s \<Rightarrow> sent_packets s))"

definition receive :: "crypto_lib \<Rightarrow> session \<Rightarrow> bytes \<Rightarrow> (header \<times> bytes) option" where
  "receive L s frame =
     (case parse frame of
        Inl _ \<Rightarrow> None
      | Inr h \<Rightarrow> (case session_decrypt L s (drop HEADER_SIZE frame) (seq_num h) of Inl _ \<Rightarrow> None | Inr p \<Rightarrow> Some (h, p)))"

text \<open>A hop is ready for a batch of frames of the lengths \<open>ns\<close>: its caches are coherent, MCR is disabled or
  in primary mode, and the frames fit in memory.\<close>

definition hop_ready :: "crypto_lib \<Rightarrow> hop \<Rightarrow> nat list \<Rightarrow> bool" where
  "hop_ready L r ns \<longleftrightarrow> proc_ok (hop_table r) (hop_proc r) \<and> own_entry L (hop_cache r) (hop_secret r) (hop_info r)
     \<and> (if get_mcr_enabled (hop_env r) then get_mcr_spray_mode (hop_env r) \<noteq> ''full'' else valid_schedule (length ns) (hop_sched r))
     \<and> sum_list ns + length ns * TAG_SIZE \<le> 2 ^ 60"

abbreviation hop_session :: "crypto_lib \<Rightarrow> hop \<Rightarrow> session" where
  "hop_session L r \<equiv> own_session L (hop_secret r) (hop_info r)"

text \<open>Only primary mode moves a packet to the next hop of its route.\<close>

definition hop_header :: "hop \<Rightarrow> header \<Rightarrow> header" where
  "hop_header r h = (if get_mcr_enabled (hop_env r) then next_header (hop_table r) h else h)"

lemma hop_header_fields [simp]:
  "flow_label (hop_header r h) = flow_label h" "seq_num (hop_header r h) = seq_num h"
  "payload_length (hop_header r h) = payload_length h"
  by (simp_all add: hop_header_def next_header_def split: option.split)

definition hop_spec :: "crypto_lib \<Rightarrow> hop \<Rightarrow> nat \<Rightarrow> bytes \<Rightarrow> bytes \<times> outcome" where
  "hop_spec L r n =
     (if get_mcr_enabled (hop_env r) then primary_spec
      else if n < PARALLEL_BATCH_THRESHOLD \<or> hop_threads r \<le> 1 then plain_spec else owned_spec)
     L (hop_table r) (Some (hop_session L r))"

lemma hop_parts:
  assumes "lib_ok L" "own_entry L (hop_cache r) (hop_secret r) (hop_info r)"
  shows "routes (hop_fwd L r) = hop_table r" "fsession (hop_fwd L r) = Some (hop_session L r)"
    "cap (arena (hop_fwd L r)) = ARENA_INIT" "mcr_enabled (hop_fwd L r) = get_mcr_enabled (hop_env r)"
    "mcr_spray_mode (hop_fwd L r) = get_mcr_spray_mode (hop_env r)"
  using new_is_own [OF assms] by (simp_all add: hop_fwd_def forwarder_with_session_parts)

lemma hop_sends:
  assumes "lib_ok L" "hop_ready L r (map length frames)"
  shows "hop_send L r frames = Inr (map (fst \<circ> hop_spec L r (length frames)) frames)"
proof -
  from assms(2) have own: "own_entry L (hop_cache r) (hop_secret r) (hop_info r)" and pok: "proc_ok (hop_table r) (hop_proc r)"
    by (simp_all add: hop_ready_def)
  note p = hop_parts [OF assms(1) own]
  have fit: "arena_fits (sum_list (map length frames) + length frames * TAG_SIZE) (arena (hop_fwd L r))"
    using assms(2) by (simp add: hop_ready_def arena_fits_def p ARENA_INIT_def)
  note Ls = lib_ok_length [OF assms(1)]
  show ?thesis
  proof (cases "frames = []")
    case True
    then show ?thesis
      using assms(2) by (simp add: hop_send_def process_batch_def process_batch_mcr_def process_batch_plain_def p hop_ready_def
          split: if_splits)
  next
    case ne: False
    show ?thesis
    proof (cases "get_mcr_enabled (hop_env r)")
      case True
      then have "mcr_result (routes (hop_fwd L r)) (map (primary_spec L (routes (hop_fwd L r)) (fsession (hop_fwd L r))) frames)
          (length frames) (hop_fwd L r) (hop_proc r) (process_batch L (hop_threads r) (hop_sched r) frames (hop_fwd L r) (hop_proc r))"
        using primary_batch [OF Ls _ ne, of "hop_fwd L r" "hop_proc r"] pok fit assms(2) by (simp add: p hop_ready_def)
      with True show ?thesis
        by (auto simp: mcr_result_def batch_result_def hop_send_def bindr_def hop_spec_def p comp_def)
    next
      case False
      then have "batch_result (routes (hop_fwd L r))
          (map ((if length frames < PARALLEL_BATCH_THRESHOLD \<or> hop_threads r \<le> 1 then plain_spec else owned_spec)
             L (routes (hop_fwd L r)) (fsession (hop_fwd L r))) frames)
          (length frames) (hop_proc r) (process_batch_plain L (hop_threads r) (hop_sched r) frames (hop_fwd L r) (hop_proc r))"
        using plain_batch [OF Ls _ ne, of "hop_fwd L r" "hop_proc r" "hop_sched r" "hop_threads r"] pok fit assms(2)
        by (simp add: p hop_ready_def)
      with False show ?thesis
        by (auto simp: batch_result_def hop_send_def process_batch_def bindr_def hop_spec_def p comp_def)
    qed
  qed
qed

subsection \<open>Messages\<close>

text \<open>A message with its header and its whole payload, which there is.\<close>

definition message_ok :: "table \<Rightarrow> header \<times> bytes \<Rightarrow> bool" where
  "message_ok t m \<longleftrightarrow> (case m of (h, p) \<Rightarrow> length p = unat (payload_length h) \<and> p \<noteq> [] \<and> spray_hop_of t (dst_id h) (flow_label h) \<noteq> None)"

definition frame_of_message :: "header \<times> bytes \<Rightarrow> bytes" where
  "frame_of_message m = (case m of (h, p) \<Rightarrow> header_bytes h @ p)"

text \<open>What the session of a hop makes of a payload.\<close>

definition hop_seal :: "crypto_lib \<Rightarrow> hop \<Rightarrow> u64 \<Rightarrow> bytes \<Rightarrow> bytes \<times> 16 barr" where
  "hop_seal L r q p = the (seal L (aead (hop_session L r)) (build_nonce (hop_session L r) q) p)"

lemma hop_seal_ok:
  assumes "lib_ok L" "length p \<le> PAYLOAD_LIMIT"
  shows "encrypt_into_slice L (hop_session L r) p q = Inr (hop_seal L r q p)" "length (fst (hop_seal L r q p)) = length p"
proof -
  obtain ct tag where c: "seal L (aead (hop_session L r)) (build_nonce (hop_session L r) q) p = Some (ct, tag)" "length ct = length p"
    using lib_ok_seal [OF assms(1) limit_le_gcm [OF assms(2)]] by metis
  then show "encrypt_into_slice L (hop_session L r) p q = Inr (hop_seal L r q p)" "length (fst (hop_seal L r q p)) = length p"
    using assms(2) by (simp_all add: encrypt_into_slice_def hop_seal_def)
qed

lemma length_u16: "length p = unat (x :: u16) \<Longrightarrow> length p \<le> PAYLOAD_LIMIT"
proof -
  assume l: "length p = unat x"
  have "unat x < 2 ^ 16" using unsigned_less [of x] by simp
  with l show "length p \<le> PAYLOAD_LIMIT" by (simp add: PAYLOAD_LIMIT_def)
qed

text \<open>A frame with more behind the header than the payload it announces. The payload is sealed and the
  tag comes after it; what followed the payload stays behind the tag in primary mode, and is cut, or
  overwritten by the tag, with MCR disabled.\<close>

lemma hop_on_frame:
  assumes "lib_ok L" "length c = unat (payload_length h)" "c \<noteq> []" "length rest \<le> TAG_SIZE"
    and "spray_hop_of (hop_table r) (dst_id h) (flow_label h) \<noteq> None"
  shows "fst (hop_spec L r n (header_bytes h @ c @ rest)) = header_bytes (hop_header r h) @ fst (hop_seal L r (seq_num h) c)
    @ bytes_of (snd (hop_seal L r (seq_num h) c)) @ (if get_mcr_enabled (hop_env r) then rest else [])"
proof -
  let ?p = "header_bytes h @ c @ rest"
  obtain ct tag where s: "hop_seal L r (seq_num h) c = (ct, tag)" by fastforce
  from hop_seal_ok [OF assms(1) length_u16 [OF assms(2)], of r "seq_num h"] s
  have e: "encrypt_into_slice L (hop_session L r) c (seq_num h) = Inr (ct, tag)" "length ct = length c" by simp_all
  obtain d where d: "spray_hop_of (hop_table r) (dst_id h) (flow_label h) = Some d" using assms(5) by auto
  have pos: "0 < unat (payload_length h)" using assms(2,3) by (metis length_greater_0_conv)
  have f: "payload_present ?p" "payload_of ?p = c"
    using assms(2) pos by (simp_all add: payload_present_def payload_of_def ref_header_bytes HEADER_SIZE_def subslice_def)
  have "hop_of (hop_table r) (dst_id h) \<noteq> None" using assms(5) by (simp add: spray_hop_of_def hop_of_def)
  then have hit: "route_hit (hop_table r) ?p" by (simp add: route_hit_def ref_header_bytes)
  have cut: "drop (HEADER_SIZE + unat (payload_length h) + TAG_SIZE) ?p = []" "drop (HEADER_SIZE + unat (payload_length h)) ?p = rest"
    using assms(2,4) by (simp_all add: HEADER_SIZE_def TAG_SIZE_def)
  show ?thesis
    using f hit e d cut
    by (simp add: hop_spec_def primary_spec_def plain_spec_def owned_spec_def sealed_packet_def ref_header_bytes s Let_def
        rewrite_header_bytes hop_header_def next_header_def)
      (simp add: HEADER_SIZE_def)
qed

text \<open>What a hop sends when it is given messages.\<close>

definition sealed_frame :: "crypto_lib \<Rightarrow> hop \<Rightarrow> header \<times> bytes \<Rightarrow> bytes" where
  "sealed_frame L r m = (case m of (h, p) \<Rightarrow> case hop_seal L r (seq_num h) p of (ct, tag) \<Rightarrow>
     header_bytes (hop_header r h) @ ct @ bytes_of tag)"

lemma edge_sends:
  assumes "lib_ok L" "list_all (message_ok (hop_table r)) msgs" "hop_ready L r (map (length \<circ> frame_of_message) msgs)"
  shows "hop_send L r (map frame_of_message msgs) = Inr (map (sealed_frame L r) msgs)"
proof -
  have "fst (hop_spec L r n (frame_of_message m)) = sealed_frame L r m" if "m \<in> set msgs" for n m
    using that assms(2) hop_on_frame [OF assms(1), of "snd m" "fst m" "[]" r n]
    by (auto simp: list_all_iff message_ok_def frame_of_message_def sealed_frame_def split: prod.splits)
  then show ?thesis using hop_sends [OF assms(1), of r "map frame_of_message msgs"] assms(3) by simp
qed

lemma receive_sealed:
  assumes "lib_ok L" "length p = unat (payload_length h)"
  shows "receive L (hop_session L r) (sealed_frame L r (h, p)) = Some (hop_header r h, p)"
proof -
  obtain ct tag where s: "hop_seal L r (seq_num h) p = (ct, tag)" by fastforce
  note l = length_u16 [OF assms(2)]
  from hop_seal_ok [OF assms(1) l, of r "seq_num h"] s
  have "encrypt_into_slice L (hop_session L r) p (seq_num h) = Inr (ct, tag)" by simp
  then have "session_encrypt L (hop_session L r) p (seq_num h) = Inr (ct @ bytes_of tag)" by (simp add: into_slice_eq)
  with session_channel.dec_enc [OF assms(1) l] have "session_decrypt L (hop_session L r) (ct @ bytes_of tag) (seq_num h) = Inr p" by blast
  then show ?thesis by (simp add: receive_def sealed_frame_def s parse_header_bytes HEADER_SIZE_def)
qed

subsection \<open>A second forwarder\<close>

text \<open>AES-GCM encrypts in counter mode: a keystream that depends on the key and the nonce only is added
  to the plaintext.\<close>

definition counter_mode :: "crypto_lib \<Rightarrow> bool" where
  "counter_mode L \<longleftrightarrow> (\<exists>ks. \<forall>k n p c t. seal L k n p = Some (c, t) \<longrightarrow> c = map (\<lambda>i. p ! i XOR ks k n i) [0..<length p])"

lemma counter_mode_twice:
  assumes "counter_mode L" "seal L k n p = Some (c, t)" "seal L k n c = Some (c', t')"
  shows "c' = p"
proof -
  from assms(1) obtain ks where "\<forall>k n p c t. seal L k n p = Some (c, t) \<longrightarrow> c = map (\<lambda>i. p ! i XOR ks k n i) [0..<length p]"
    unfolding counter_mode_def by blast
  note ks = this [rule_format]
  have c: "c = map (\<lambda>i. p ! i XOR ks k n i) [0..<length p]" by (rule ks [OF assms(2)])
  have "c' = map (\<lambda>i. c ! i XOR ks k n i) [0..<length c]" by (rule ks [OF assms(3)])
  also have "\<dots> = map (\<lambda>i. p ! i) [0..<length p]" by (auto simp: c xor.assoc)
  finally show ?thesis by (simp add: map_nth)
qed

definition resealed_frame :: "crypto_lib \<Rightarrow> hop \<Rightarrow> hop \<Rightarrow> header \<times> bytes \<Rightarrow> bytes" where
  "resealed_frame L a b m = (case m of (h, p) \<Rightarrow>
     case hop_seal L a (seq_num h) p of (ct1, tag1) \<Rightarrow> case hop_seal L b (seq_num h) ct1 of (ct2, tag2) \<Rightarrow>
     header_bytes (hop_header b (hop_header a h)) @ ct2 @ bytes_of tag2 @ (if get_mcr_enabled (hop_env b) then bytes_of tag1 else []))"

lemma second_hop:
  assumes "lib_ok L" "message_ok t (h, p)"
    and "spray_hop_of (hop_table b) (dst_id (hop_header a h)) (flow_label h) \<noteq> None"
  shows "fst (hop_spec L b n (sealed_frame L a (h, p))) = resealed_frame L a b (h, p)"
proof -
  obtain ct tag where s: "hop_seal L a (seq_num h) p = (ct, tag)" by fastforce
  have p: "length p = unat (payload_length h)" "p \<noteq> []" using assms(2) by (simp_all add: message_ok_def)
  have c: "length ct = length p" using hop_seal_ok(2) [OF assms(1) length_u16 [OF p(1)], of a "seq_num h"] s by simp
  then have "ct \<noteq> []" "length ct = unat (payload_length (hop_header a h))" using p by auto
  from hop_on_frame [OF assms(1) this(2,1), of "bytes_of tag" b n] assms(3) show ?thesis
    by (simp add: sealed_frame_def resealed_frame_def s TAG_SIZE_def split_def)
qed

lemma sealed_frame_length:
  assumes "lib_ok L" "message_ok t m"
  shows "length (sealed_frame L a m) = length (frame_of_message m) + TAG_SIZE"
proof -
  obtain h p where m: "m = (h, p)" by fastforce
  have "length p = unat (payload_length h)" using assms(2) m by (simp add: message_ok_def)
  from hop_seal_ok(2) [OF assms(1) length_u16 [OF this], of a "seq_num h"] show ?thesis
    by (simp add: sealed_frame_def frame_of_message_def m TAG_SIZE_def split_def)
qed

lemma same_key_exposes:
  assumes "lib_ok L" "counter_mode L" "length p = unat (payload_length h)"
    and "hop_secret b = hop_secret a" "hop_info b = hop_info a"
  shows "take (length p) (drop HEADER_SIZE (resealed_frame L a b (h, p))) = p"
proof -
  obtain c1 t1 where s1: "hop_seal L a (seq_num h) p = (c1, t1)" by fastforce
  obtain c2 t2 where s2: "hop_seal L b (seq_num h) c1 = (c2, t2)" by fastforce
  note l = length_u16 [OF assms(3)]
  have c1: "length c1 = length p" using hop_seal_ok(2) [OF assms(1) l, of a "seq_num h"] s1 by simp
  let ?s = "own_session L (hop_secret a) (hop_info a)"
  have "length c1 \<le> PAYLOAD_LIMIT" using l c1 by simp
  with l have "seal L (aead ?s) (build_nonce ?s (seq_num h)) p = Some (c1, t1)"
    "seal L (aead ?s) (build_nonce ?s (seq_num h)) c1 = Some (c2, t2)"
    using hop_seal_ok(1) [OF assms(1), of p a "seq_num h"] hop_seal_ok(1) [OF assms(1), of c1 b "seq_num h"] s1 s2
    by (auto simp: encrypt_into_slice_def assms(4,5) split: option.splits if_splits)
  then have "c2 = p" by (rule counter_mode_twice [OF assms(2)])
  then show ?thesis by (simp add: resealed_frame_def s1 s2 HEADER_SIZE_def)
qed

subsection \<open>A small network\<close>

definition hello :: "header \<times> bytes" where
  "hello = (header_new\<lparr>dst_id := fill_arr 1, seq_num := 7, payload_length := 2\<rparr>, [4, 5])"

definition second_table :: table where
  "second_table = fst (update_route 5 (example_route\<lparr>dest_id := fill_arr 2\<rparr>) (example_table, 3))"

text \<open>A hop in a process that has done nothing yet, with MCR disabled or in its default mode.\<close>

definition new_hop :: "bool \<Rightarrow> table \<Rightarrow> bytes \<Rightarrow> bytes \<Rightarrow> hop" where
  "new_hop mcr t secret info = \<lparr>hop_env = (if mcr then (\<lambda>_. None) else [''MOHAWK_MCR_ENABLED'' \<mapsto> ''0'']), hop_table = t,
     hop_secret = secret, hop_info = info, hop_cache = Map.empty, hop_proc = example_process, hop_threads = 4, hop_sched = [(0, 1)]\<rparr>"

lemma new_hop_ready: "n \<le> 1000 \<Longrightarrow> hop_ready L (new_hop mcr t secret info) [n]"
  using fresh_proc_ok [OF example_node(1)]
  by (simp add: hop_ready_def new_hop_def own_entry_def get_mcr_enabled_def get_mcr_spray_mode_def TAG_SIZE_def valid_schedule_def)

lemma new_hop_parts [simp]:
  "hop_table (new_hop mcr t secret info) = t" "hop_secret (new_hop mcr t secret info) = secret"
  "hop_info (new_hop mcr t secret info) = info" "get_mcr_enabled (hop_env (new_hop mcr t secret info)) = mcr"
  by (simp_all add: new_hop_def get_mcr_enabled_def)

lemma hello_ok: "message_ok example_table hello" "next_header example_table (fst hello) = (fst hello)\<lparr>dst_id := fill_arr 2\<rparr>"
  "length (frame_of_message hello) = 98"
proof -
  have hop: "spray_hop_of example_table (fill_arr 1) 0 = Some (fill_arr 2)"
    by (simp add: spray_hop_of_def routes_of_example) (simp add: example_route_def spray_order_def channels_def Let_def)
  then show "message_ok example_table hello" "next_header example_table (fst hello) = (fst hello)\<lparr>dst_id := fill_arr 2\<rparr>"
    "length (frame_of_message hello) = 98"
    by (simp_all add: hello_def message_ok_def next_header_def header_new_def frame_of_message_def)
qed

lemma second_route: "spray_hop_of second_table (fill_arr 2) f \<noteq> None"
proof -
  obtain ep where "update_route 5 (example_route\<lparr>dest_id := fill_arr 2\<rparr>) (example_table, 3) = (second_table, ep)"
    unfolding second_table_def by (metis prod.collapse)
  from table_wf_update(2) [OF example_table_wf this] show ?thesis by (simp add: spray_hop_of_def)
qed

lemma toy_counter_mode: "counter_mode toy_lib"
proof -
  have "map (\<lambda>b. b XOR x) p = map (\<lambda>i. p ! i XOR x) [0..<length p]" for x and p :: bytes
    by (intro nth_equalityI) simp_all
  then show ?thesis
    unfolding counter_mode_def by (intro exI [of _ "\<lambda>k n i. bytes_of k ! 0"]) (auto simp: toy_lib_def split: if_splits)
qed

subsection \<open>Properties\<close>

text \<open>C4. The tunnel: the initiator makes its forwarder with the secret of the key exchange, and whatever
  messages the forwarder is given in a batch come out at the responder, which makes its session
  with the secret it got itself, in order, each with its payload and its header, except that in
  primary mode the destination is the one the route selected. The forwarder is in primary mode or
  has MCR disabled, the destinations are routed, and no other forwarder lies between.\<close>

theorem tunnel_delivers:
  assumes "kex_ok K" and "lib_ok L" and "exchange K rng_i rng_r = Some (hop_secret a, secret)"
    and "own_entry L kc secret (hop_info a)" and "list_all (message_ok (hop_table a)) msgs"
    and "hop_ready L a (map (length \<circ> frame_of_message) msgs)"
  shows "\<exists>s arrived. fst (HybridSession_new L secret (hop_info a) kc) = Inr s
    \<and> hop_send L a (map frame_of_message msgs) = Inr arrived
    \<and> map (receive L s) arrived = map (\<lambda>(h, p). Some (hop_header a h, p)) msgs"
proof -
  have "secret = hop_secret a" using exchange_secrets [OF assms(1), of rng_i rng_r] assms(3) by auto
  then have "fst (HybridSession_new L secret (hop_info a) kc) = Inr (hop_session L a)"
    using new_is_own [OF assms(2,4)] by simp
  moreover have "map (receive L (hop_session L a)) (map (sealed_frame L a) msgs) = map (\<lambda>(h, p). Some (hop_header a h, p)) msgs"
    using assms(5) receive_sealed [OF assms(2)] by (auto simp: list_all_iff message_ok_def)
  ultimately show ?thesis using edge_sends [OF assms(2,5,6)] by blast
qed

theorem tunnel_delivers_witness:
  "\<exists>si sr s arrived. exchange toy_kex (fill_arr 3, [1, 2]) (fill_arr 4, [5], [6]) = Some (si, sr)
    \<and> fst (HybridSession_new toy_lib sr [9] Map.empty) = Inr s
    \<and> hop_send toy_lib (new_hop True example_table si [9]) [frame_of_message hello] = Inr arrived
    \<and> map (receive toy_lib s) arrived = [Some ((fst hello)\<lparr>dst_id := fill_arr 2\<rparr>, [4, 5])]"
proof -
  obtain secret where e: "exchange toy_kex (fill_arr 3, [1, 2]) (fill_arr 4, [5], [6]) = Some (secret, secret)"
    using exchange_secrets [OF toy_kex_ok] by blast
  let ?a = "new_hop True example_table secret [9]"
  have h: "exchange toy_kex (fill_arr 3, [1, 2]) (fill_arr 4, [5], [6]) = Some (hop_secret ?a, secret)"
    "own_entry toy_lib Map.empty secret (hop_info ?a)" "list_all (message_ok (hop_table ?a)) [hello]"
    "hop_ready toy_lib ?a (map (length \<circ> frame_of_message) [hello])"
    using e new_hop_ready hello_ok by (simp_all add: own_entry_def)
  have "snd hello = [4, 5]" by (simp add: hello_def)
  with tunnel_delivers [OF toy_kex_ok toy_lib_ok h] e hello_ok(2) show ?thesis
    by (auto simp: hop_header_def case_prod_unfold)
qed

text \<open>C5. A second forwarder on the way does not relay: it has a session of its own, takes the first
  bytes behind the header, as many as the header announces, for a plaintext, and seals them again;
  the tag of the first forwarder follows the new one at the end of the frame in primary mode and is
  cut with MCR disabled. When both forwarders have the same secret, as two forwarders of \<open>Forwarder::new\<close> do, the
  nonce is the same too, and with a cipher in counter mode, which AES-GCM is, the second seal undoes
  the first: the payload of every message leaves the second forwarder in the clear.\<close>

theorem second_forwarder_reseals:
  assumes "lib_ok L" and "list_all (message_ok (hop_table a)) msgs"
    and "hop_ready L a (map (length \<circ> frame_of_message) msgs)"
    and "hop_ready L b (map (\<lambda>m. length (frame_of_message m) + TAG_SIZE) msgs)"
    and "list_all (\<lambda>(h, p). spray_hop_of (hop_table b) (dst_id (hop_header a h)) (flow_label h) \<noteq> None) msgs"
  shows "\<exists>sent last. hop_send L a (map frame_of_message msgs) = Inr sent \<and> hop_send L b sent = Inr last
    \<and> last = map (resealed_frame L a b) msgs
    \<and> (hop_secret b = hop_secret a \<and> hop_info b = hop_info a \<and> counter_mode L \<longrightarrow>
         list_all2 (\<lambda>(h, p) frame. take (length p) (drop HEADER_SIZE frame) = p) msgs last)"
proof -
  have m: "\<And>m. m \<in> set msgs \<Longrightarrow> message_ok (hop_table a) m" using assms(2) by (simp add: list_all_iff)
  have lens: "map length (map (sealed_frame L a) msgs) = map (\<lambda>m. length (frame_of_message m) + TAG_SIZE) msgs"
    using sealed_frame_length [OF assms(1) m] by simp
  have "hop_ready L b (map length (map (sealed_frame L a) msgs))" unfolding lens by (rule assms(4))
  then have "hop_send L b (map (sealed_frame L a) msgs) = Inr (map (fst \<circ> hop_spec L b (length msgs)) (map (sealed_frame L a) msgs))"
    using hop_sends [OF assms(1), of b "map (sealed_frame L a) msgs"] by simp
  also have "map (fst \<circ> hop_spec L b (length msgs)) (map (sealed_frame L a) msgs) = map (resealed_frame L a b) msgs"
    using assms(5) second_hop [OF assms(1)] m by (fastforce simp: list_all_iff)
  finally have "hop_send L b (map (sealed_frame L a) msgs) = Inr (map (resealed_frame L a b) msgs)" .
  moreover have "list_all2 (\<lambda>(h, p) frame. take (length p) (drop HEADER_SIZE frame) = p) msgs (map (resealed_frame L a b) msgs)"
    if "hop_secret b = hop_secret a \<and> hop_info b = hop_info a \<and> counter_mode L"
    using that m same_key_exposes [OF assms(1)] by (auto simp: list_all2_map2 list_all2_same message_ok_def)
  ultimately show ?thesis using edge_sends [OF assms(1-3)] by blast
qed

text \<open>Two forwarders with the secret and the label that \<open>Forwarder::new\<close> uses.\<close>

theorem second_forwarder_reseals_witness:
  "\<exists>sent frame. hop_send toy_lib (new_hop True example_table (replicate 32 0x42) (ascii ''datapath-default'')) [frame_of_message hello] = Inr sent
    \<and> hop_send toy_lib (new_hop True second_table (replicate 32 0x42) (ascii ''datapath-default'')) sent = Inr [frame]
    \<and> subslice HEADER_SIZE 2 frame = [4, 5]"
proof -
  let ?a = "new_hop True example_table (replicate 32 0x42) (ascii ''datapath-default'')"
  let ?b = "new_hop True second_table (replicate 32 0x42) (ascii ''datapath-default'')"
  have h: "list_all (message_ok (hop_table ?a)) [hello]" "hop_ready toy_lib ?a (map (length \<circ> frame_of_message) [hello])"
    "hop_ready toy_lib ?b (map (\<lambda>m. length (frame_of_message m) + TAG_SIZE) [hello])"
    "list_all (\<lambda>(h, p). spray_hop_of (hop_table ?b) (dst_id (hop_header ?a h)) (flow_label h) \<noteq> None) [hello]"
    using new_hop_ready hello_ok second_route by (simp_all add: TAG_SIZE_def hop_header_def case_prod_unfold)
  note r = second_forwarder_reseals [OF toy_lib_ok h]
  obtain hd where hd: "hello = (hd, [4, 5])" by (simp add: hello_def)
  have same: "hop_secret ?b = hop_secret ?a \<and> hop_info ?b = hop_info ?a \<and> counter_mode toy_lib"
    using toy_counter_mode by simp
  from r same obtain sent last where s: "hop_send toy_lib ?a (map frame_of_message [hello]) = Inr sent"
    "hop_send toy_lib ?b sent = Inr last" "last = map (resealed_frame toy_lib ?a ?b) [hello]"
    and e: "list_all2 (\<lambda>(h, p) frame. take (length p) (drop HEADER_SIZE frame) = p) [hello] last" by blast
  from e s(3) have "subslice HEADER_SIZE 2 (resealed_frame toy_lib ?a ?b hello) = [4, 5]" by (simp add: hd subslice_def numeral_2_eq_2)
  with s show ?thesis by simp
qed

end
