(* ===== verification/Free_List_Race.thy ===== *)
theory Free_List_Race
  imports Free_List
begin

text \<open>
  The free list of frames when its two operations and \<open>set_headroom\<close> run at the same time
  (\<open>afxdp/src/socket.rs\<close>, \<open>FreeList\<close>): its methods take a shared reference, its fields are
  atomics, and the code calls it lock-free. \<open>try_push\<close> and \<open>try_pop\<close> are cut into their loads
  and stores, in the order of the code, and a list of events interleaves one caller of each
  with changes of the headroom. Loads and stores take effect one at a time: with one caller
  on each side the release stores of the counters and the acquire loads of them give what
  the proofs use. With two callers on one side the list is not safe.
\<close>

subsection \<open>The operations, one memory access at a time\<close>

text \<open>Where a call is, with what it has loaded.\<close>

datatype fl_push_pc =
    Push_Start u64
  | Push_Tail u64 u64
  | Push_Both u64 u64 u64
  | Push_Room u64 u64
  | Push_Stored u64 u64
  | Push_Done u64 bool

datatype fl_pop_pc =
    Pop_Start
  | Pop_Head u64
  | Pop_Both u64 u64
  | Pop_Slot u64 u64
  | Pop_Done "u64 option"

fun try_push_micro :: "free_list \<Rightarrow> fl_push_pc \<Rightarrow> free_list \<times> fl_push_pc" where
  "try_push_micro fl (Push_Start v) = (fl, Push_Tail v (fl_tail fl))"
| "try_push_micro fl (Push_Tail v t) = (fl, Push_Both v t (fl_head fl))"
| "try_push_micro fl (Push_Both v t h) =
     (fl, if of_nat (length (fl_buf fl)) - fl_headroom fl \<le> t - h then Push_Done v False else Push_Room v t)"
| "try_push_micro fl (Push_Room v t) = (fl\<lparr>fl_buf := (fl_buf fl)[unat t AND fl_mask fl := v]\<rparr>, Push_Stored v t)"
| "try_push_micro fl (Push_Stored v t) = (fl\<lparr>fl_tail := t + 1\<rparr>, Push_Done v True)"
| "try_push_micro fl (Push_Done v r) = (fl, Push_Done v r)"

fun try_pop_micro :: "free_list \<Rightarrow> fl_pop_pc \<Rightarrow> free_list \<times> fl_pop_pc" where
  "try_pop_micro fl Pop_Start = (fl, Pop_Head (fl_head fl))"
| "try_pop_micro fl (Pop_Head h) = (fl, Pop_Both h (fl_tail fl))"
| "try_pop_micro fl (Pop_Both h t) = (fl, if h = t then Pop_Done None else Pop_Slot h (fl_buf fl ! (unat h AND fl_mask fl)))"
| "try_pop_micro fl (Pop_Slot h v) = (fl\<lparr>fl_head := h + 1\<rparr>, Pop_Done (Some v))"
| "try_pop_micro fl (Pop_Done r) = (fl, Pop_Done r)"

text \<open>Undisturbed, the steps are the operation.\<close>

fun run_push :: "nat \<Rightarrow> free_list \<times> fl_push_pc \<Rightarrow> free_list \<times> fl_push_pc" where
  "run_push 0 s = s"
| "run_push (Suc n) (fl, p) = run_push n (try_push_micro fl p)"

fun run_pop :: "nat \<Rightarrow> free_list \<times> fl_pop_pc \<Rightarrow> free_list \<times> fl_pop_pc" where
  "run_pop 0 s = s"
| "run_pop (Suc n) (fl, p) = run_pop n (try_pop_micro fl p)"

lemma push_alone: "run_push 5 (fl, Push_Start v) = (case try_push v fl of (r, fl') \<Rightarrow> (fl', Push_Done v r))"
  by (simp add: eval_nat_numeral try_push_def Let_def)

lemma pop_alone: "run_pop 4 (fl, Pop_Start) = (case try_pop fl of (r, fl') \<Rightarrow> (fl', Pop_Done r))"
  by (simp add: eval_nat_numeral try_pop_def Let_def)

subsection \<open>One caller on each side\<close>

text \<open>\<open>race_taken\<close> and \<open>race_given\<close> record the frames whose push and whose pop have returned.\<close>

record fl_race =
  race_list :: free_list
  race_push :: fl_push_pc
  race_pop :: fl_pop_pc
  race_taken :: "u64 list"
  race_given :: "u64 list"

datatype fl_event = Push_Call u64 | Push_Step | Pop_Call | Pop_Step | Headroom u64

fun push_over :: "fl_push_pc \<Rightarrow> bool" where
  "push_over (Push_Done v r) = True"
| "push_over _ = False"

fun pop_over :: "fl_pop_pc \<Rightarrow> bool" where
  "pop_over (Pop_Done r) = True"
| "pop_over _ = False"

fun taken_by :: "fl_push_pc \<Rightarrow> u64 list" where
  "taken_by (Push_Done v True) = [v]"
| "taken_by _ = []"

fun given_by :: "fl_pop_pc \<Rightarrow> u64 list" where
  "given_by (Pop_Done (Some v)) = [v]"
| "given_by _ = []"

text \<open>A call begins when the one before has returned, and a step belongs to a call.\<close>

fun race_event :: "fl_event \<Rightarrow> fl_race \<Rightarrow> fl_race" where
  "race_event (Push_Call v) s = (if push_over (race_push s) then s\<lparr>race_push := Push_Start v\<rparr> else s)"
| "race_event Pop_Call s = (if pop_over (race_pop s) then s\<lparr>race_pop := Pop_Start\<rparr> else s)"
| "race_event Push_Step s =
     (if push_over (race_push s) then s
      else case try_push_micro (race_list s) (race_push s) of (fl, p) \<Rightarrow>
        s\<lparr>race_list := fl, race_push := p, race_taken := race_taken s @ taken_by p\<rparr>)"
| "race_event Pop_Step s =
     (if pop_over (race_pop s) then s
      else case try_pop_micro (race_list s) (race_pop s) of (fl, p) \<Rightarrow>
        s\<lparr>race_list := fl, race_pop := p, race_given := race_given s @ given_by p\<rparr>)"
| "race_event (Headroom h) s = s\<lparr>race_list := set_headroom h (race_list s)\<rparr>"

definition race_from :: "free_list \<Rightarrow> fl_race" where
  "race_from fl = \<lparr>race_list = fl, race_push = Push_Done 0 False, race_pop = Pop_Done None, race_taken = [], race_given = []\<rparr>"

definition race_run :: "fl_event list \<Rightarrow> fl_race \<Rightarrow> fl_race" where
  "race_run evs = fold race_event evs"

text \<open>The headrooms that are set stay within the buffer.\<close>

definition headroom_within :: "nat \<Rightarrow> fl_event \<Rightarrow> bool" where
  "headroom_within n ev = (case ev of Headroom h \<Rightarrow> unat h \<le> n | _ \<Rightarrow> True)"

subsection \<open>The list between two accesses\<close>

lemma fl_contents_headroom [simp]: "fl_contents (fl\<lparr>fl_headroom := h\<rparr>) = fl_contents fl" "fl_used (fl\<lparr>fl_headroom := h\<rparr>) = fl_used fl"
  by (simp_all add: fl_contents_def fl_used_def)

lemma fl_ok_headroom: "fl_ok fl \<Longrightarrow> unat h \<le> length (fl_buf fl) \<Longrightarrow> fl_ok (fl\<lparr>fl_headroom := h\<rparr>)"
  by (simp add: fl_ok_def)

definition tail_slot :: "free_list \<Rightarrow> nat" where
  "tail_slot fl = unat (fl_tail fl) AND fl_mask fl"

lemma tail_slot_mod: "fl_ok fl \<Longrightarrow> tail_slot fl = (unat (fl_head fl) + fl_used fl) mod length (fl_buf fl)"
  using fl_mask_mod [of fl "fl_tail fl"] fl_word_mod [of fl "fl_head fl" "fl_used fl"]
  by (simp add: tail_slot_def fl_used_def)

text \<open>Storing into the slot at the tail of a list with room changes nothing of its contents.\<close>

lemma store_slot:
  assumes "fl_ok fl" "fl_used fl < length (fl_buf fl)"
  shows "fl_ok (fl\<lparr>fl_buf := (fl_buf fl)[tail_slot fl := v]\<rparr>)"
    "fl_contents (fl\<lparr>fl_buf := (fl_buf fl)[tail_slot fl := v]\<rparr>) = fl_contents fl"
    "(fl_buf fl)[tail_slot fl := v] ! tail_slot fl = v"
proof -
  let ?n = "length (fl_buf fl)"
  have lt: "tail_slot fl < ?n"
    unfolding tail_slot_mod [OF assms(1)] using assms(2) by (intro mod_less_divisor) (rule le_less_trans [OF le0])
  then show "(fl_buf fl)[tail_slot fl := v] ! tail_slot fl = v" by simp
  show "fl_ok (fl\<lparr>fl_buf := (fl_buf fl)[tail_slot fl := v]\<rparr>)"
    using assms(1) by (simp add: fl_ok_def) (simp add: fl_used_def)
  have "(fl_buf fl)[tail_slot fl := v] ! ((unat (fl_head fl) + i) mod ?n) = fl_buf fl ! ((unat (fl_head fl) + i) mod ?n)"
    if "i < fl_used fl" for i
    using mod_apart [of i "fl_used fl" ?n "unat (fl_head fl)"] that assms(2)
    by (intro nth_list_update_neq) (auto simp: tail_slot_mod [OF assms(1)])
  then show "fl_contents (fl\<lparr>fl_buf := (fl_buf fl)[tail_slot fl := v]\<rparr>) = fl_contents fl"
    unfolding fl_contents_def by (simp add: fl_used_def)
qed

text \<open>Advancing the tail publishes what the slot holds; advancing the head gives the first entry
  away.\<close>

lemma store_tail:
  assumes "fl_ok fl" "fl_used fl < length (fl_buf fl)"
  shows "fl_ok (fl\<lparr>fl_tail := fl_tail fl + 1\<rparr>)"
    "fl_contents (fl\<lparr>fl_tail := fl_tail fl + 1\<rparr>) = fl_contents fl @ [fl_buf fl ! tail_slot fl]"
    "fl_used (fl\<lparr>fl_tail := fl_tail fl + 1\<rparr>) = fl_used fl + 1"
proof -
  let ?fl = "fl\<lparr>fl_headroom := 0\<rparr>" and ?v = "fl_buf fl ! tail_slot fl"
  have ok: "fl_ok ?fl" by (rule fl_ok_headroom [OF assms(1)]) simp
  have "fl_used ?fl < fl_limit ?fl" using assms(2) by (simp add: fl_limit_def)
  from try_push_taken [OF ok this, of ?v] obtain fl' where t: "try_push ?v ?fl = (True, fl')" "fl_ok fl'"
    "fl_contents fl' = fl_contents fl @ [?v]" "fl_used fl' = fl_used fl + 1" by auto
  have "fl' = ?fl\<lparr>fl_tail := fl_tail fl + 1\<rparr>"
    using t(1) by (auto simp: try_push_def Let_def tail_slot_def split: if_splits)
  then have e: "fl' = (fl\<lparr>fl_tail := fl_tail fl + 1\<rparr>)\<lparr>fl_headroom := 0\<rparr>" by simp
  then have h: "fl\<lparr>fl_tail := fl_tail fl + 1\<rparr> = fl'\<lparr>fl_headroom := fl_headroom fl\<rparr>" by simp
  show "fl_contents (fl\<lparr>fl_tail := fl_tail fl + 1\<rparr>) = fl_contents fl @ [?v]"
    "fl_used (fl\<lparr>fl_tail := fl_tail fl + 1\<rparr>) = fl_used fl + 1" using t(3,4) by (simp_all add: h)
  have "length (fl_buf fl') = length (fl_buf fl)" by (simp add: e)
  with assms(1) show "fl_ok (fl\<lparr>fl_tail := fl_tail fl + 1\<rparr>)" unfolding h by (intro fl_ok_headroom t(2)) (simp add: fl_ok_def)
qed

lemma store_head:
  assumes "fl_ok fl" "fl_contents fl = v # vs"
  shows "fl_ok (fl\<lparr>fl_head := fl_head fl + 1\<rparr>)" "fl_contents (fl\<lparr>fl_head := fl_head fl + 1\<rparr>) = vs"
    "fl_buf fl ! (unat (fl_head fl) AND fl_mask fl) = v" "fl_head fl \<noteq> fl_tail fl"
proof -
  from try_pop_exact [OF assms(1)] assms(2) obtain fl' where p: "try_pop fl = (Some v, fl')" "fl_ok fl'" "fl_contents fl' = vs"
    by auto
  from p(1) have "fl' = fl\<lparr>fl_head := fl_head fl + 1\<rparr>" "fl_buf fl ! (unat (fl_head fl) AND fl_mask fl) = v" "fl_head fl \<noteq> fl_tail fl"
    by (auto simp: try_pop_def Let_def split: if_splits)
  with p(2,3) show "fl_ok (fl\<lparr>fl_head := fl_head fl + 1\<rparr>)" "fl_contents (fl\<lparr>fl_head := fl_head fl + 1\<rparr>) = vs"
    "fl_buf fl ! (unat (fl_head fl) AND fl_mask fl) = v" "fl_head fl \<noteq> fl_tail fl" by simp_all
qed

subsection \<open>What every reachable state keeps\<close>

definition push_inv :: "free_list \<Rightarrow> fl_push_pc \<Rightarrow> bool" where
  "push_inv fl p = (case p of
     Push_Start v \<Rightarrow> True
   | Push_Tail v t \<Rightarrow> t = fl_tail fl
   | Push_Both v t h \<Rightarrow> t = fl_tail fl \<and> fl_used fl \<le> unat (t - h)
   | Push_Room v t \<Rightarrow> t = fl_tail fl \<and> fl_used fl < length (fl_buf fl)
   | Push_Stored v t \<Rightarrow> t = fl_tail fl \<and> fl_used fl < length (fl_buf fl) \<and> fl_buf fl ! tail_slot fl = v
   | Push_Done v r \<Rightarrow> True)"

definition pop_inv :: "free_list \<Rightarrow> fl_pop_pc \<Rightarrow> bool" where
  "pop_inv fl p = (case p of
     Pop_Start \<Rightarrow> True
   | Pop_Head h \<Rightarrow> h = fl_head fl
   | Pop_Both h t \<Rightarrow> h = fl_head fl \<and> (h \<noteq> t \<longrightarrow> fl_contents fl \<noteq> [])
   | Pop_Slot h v \<Rightarrow> h = fl_head fl \<and> fl_contents fl \<noteq> [] \<and> hd (fl_contents fl) = v
   | Pop_Done r \<Rightarrow> True)"

definition race_inv :: "nat \<Rightarrow> u64 list \<Rightarrow> fl_race \<Rightarrow> bool" where
  "race_inv n q s \<longleftrightarrow> fl_ok (race_list s) \<and> length (fl_buf (race_list s)) = n
     \<and> push_inv (race_list s) (race_push s) \<and> pop_inv (race_list s) (race_pop s)
     \<and> race_given s @ fl_contents (race_list s) = q @ race_taken s"

lemma inv_starts [simp]: "push_inv fl (Push_Start v)" "push_inv fl (Push_Done v r)" "pop_inv fl Pop_Start" "pop_inv fl (Pop_Done r')"
  by (simp_all add: push_inv_def pop_inv_def)

lemma head_eq_tail: "fl_head fl = fl_tail fl \<longleftrightarrow> fl_contents fl = []"
proof -
  have "fl_contents fl = [] \<longleftrightarrow> fl_used fl = 0" by (metis fl_length length_0_conv)
  then show ?thesis by (auto simp: fl_used_def unat_eq_0)
qed

lemma head_advance_used:
  assumes "fl_ok fl" "fl_contents fl = v # vs"
  shows "fl_used fl = Suc (fl_used (fl\<lparr>fl_head := fl_head fl + 1\<rparr>))"
  using store_head(2) [OF assms] assms(2) by (metis fl_length length_Cons)

lemma tail_slot_simps [simp]:
  "tail_slot (fl\<lparr>fl_head := h\<rparr>) = tail_slot fl" "tail_slot (fl\<lparr>fl_headroom := hr\<rparr>) = tail_slot fl"
  "tail_slot (fl\<lparr>fl_buf := b\<rparr>) = tail_slot fl"
  by (simp_all add: tail_slot_def)

lemma push_step_inv:
  assumes "fl_ok fl" "push_inv fl p" "pop_inv fl o'" "\<not> push_over p" "try_push_micro fl p = (fl', p')"
  shows "fl_ok fl' \<and> length (fl_buf fl') = length (fl_buf fl) \<and> push_inv fl' p' \<and> pop_inv fl' o'
    \<and> fl_contents fl' = fl_contents fl @ taken_by p'"
proof (cases p)
  case (Push_Both v t h)
  have "fl_used fl < length (fl_buf fl)" if "\<not> of_nat (length (fl_buf fl)) - fl_headroom fl \<le> t - h"
  proof -
    have "unat (t - h) < fl_limit fl" using that unat_limit [OF assms(1)] by (simp add: word_le_nat_alt)
    moreover from assms(2) have "fl_used fl \<le> unat (t - h)" unfolding Push_Both push_inv_def by clarsimp
    moreover have "fl_limit fl \<le> length (fl_buf fl)" by (simp add: fl_limit_def)
    ultimately show ?thesis by linarith
  qed
  then show ?thesis using assms Push_Both by (auto simp: push_inv_def)
next
  case (Push_Room v t)
  with assms(2) have t: "t = fl_tail fl" "fl_used fl < length (fl_buf fl)" by (simp_all add: push_inv_def)
  have e: "fl' = fl\<lparr>fl_buf := (fl_buf fl)[tail_slot fl := v]\<rparr>" "p' = Push_Stored v t"
    using assms(5) Push_Room t(1) by (simp_all add: tail_slot_def)
  from store_slot [OF assms(1) t(2), of v] t assms(3) show ?thesis
    unfolding e by (auto simp: push_inv_def pop_inv_def fl_used_def split: fl_pop_pc.splits)
next
  case (Push_Stored v t)
  with assms(2) have t: "t = fl_tail fl" "fl_used fl < length (fl_buf fl)" "fl_buf fl ! tail_slot fl = v"
    by (simp_all add: push_inv_def)
  have e: "fl' = fl\<lparr>fl_tail := fl_tail fl + 1\<rparr>" "p' = Push_Done v True" using assms(5) Push_Stored t(1) by simp_all
  from store_tail [OF assms(1) t(2)] t(3) assms(3) show ?thesis
    unfolding e by (auto simp: push_inv_def pop_inv_def split: fl_pop_pc.splits)
qed (use assms in \<open>auto simp: push_inv_def fl_used_def\<close>)

lemma pop_step_inv:
  assumes "fl_ok fl" "push_inv fl p" "pop_inv fl o'" "\<not> pop_over o'" "try_pop_micro fl o' = (fl', o2)"
  shows "fl_ok fl' \<and> length (fl_buf fl') = length (fl_buf fl) \<and> push_inv fl' p \<and> pop_inv fl' o2
    \<and> fl_contents fl = given_by o2 @ fl_contents fl'"
proof (cases o')
  case (Pop_Both h t)
  then show ?thesis using assms store_head(3) [OF assms(1)] by (cases "fl_contents fl") (auto simp: pop_inv_def)
next
  case (Pop_Slot h v)
  with assms(3) obtain vs where c: "h = fl_head fl" "fl_contents fl = v # vs"
    by (auto simp: pop_inv_def neq_Nil_conv)
  have e: "fl' = fl\<lparr>fl_head := fl_head fl + 1\<rparr>" "o2 = Pop_Done (Some v)" using assms(5) Pop_Slot c(1) by simp_all
  from store_head [OF assms(1) c(2)] head_advance_used [OF assms(1) c(2)] c(2) assms(2) show ?thesis
    unfolding e by (auto simp: push_inv_def pop_inv_def split: fl_push_pc.splits)
qed (use assms in \<open>auto simp: pop_inv_def head_eq_tail\<close>)

lemma race_event_inv:
  assumes "race_inv n q s" "headroom_within n ev"
  shows "race_inv n q (race_event ev s)"
proof (cases ev)
  case (Headroom h)
  then show ?thesis using assms fl_ok_headroom [of "race_list s" h]
    by (auto simp: race_inv_def headroom_within_def set_headroom_def push_inv_def pop_inv_def split: fl_push_pc.splits fl_pop_pc.splits)
next
  case Push_Step
  show ?thesis
    using assms(1) push_step_inv [of "race_list s" "race_push s" "race_pop s"]
    by (auto simp: race_inv_def Push_Step split: prod.split)
next
  case Pop_Step
  show ?thesis
    using assms(1) pop_step_inv [of "race_list s" "race_push s" "race_pop s"]
    by (auto simp: race_inv_def Pop_Step split: prod.split)
qed (use assms(1) in \<open>auto simp: race_inv_def\<close>)

lemma race_run_inv:
  "race_inv n q s \<Longrightarrow> list_all (headroom_within n) evs \<Longrightarrow> race_inv n q (race_run evs s)"
  unfolding race_run_def by (induction evs arbitrary: s) (simp_all add: race_event_inv)

lemma race_from_inv: "fl_ok fl \<Longrightarrow> race_inv (length (fl_buf fl)) (fl_contents fl) (race_from fl)"
  by (simp add: race_inv_def race_from_def)

subsection \<open>Calls that return\<close>

text \<open>How many accesses a call still makes at most.\<close>

fun push_left :: "fl_push_pc \<Rightarrow> nat" where
  "push_left (Push_Start v) = 5"
| "push_left (Push_Tail v t) = 4"
| "push_left (Push_Both v t h) = 3"
| "push_left (Push_Room v t) = 2"
| "push_left (Push_Stored v t) = 1"
| "push_left (Push_Done v r) = 0"

fun pop_left :: "fl_pop_pc \<Rightarrow> nat" where
  "pop_left Pop_Start = 4"
| "pop_left (Pop_Head h) = 3"
| "pop_left (Pop_Both h t) = 2"
| "pop_left (Pop_Slot h v) = 1"
| "pop_left (Pop_Done r) = 0"

lemma left_over: "push_over p \<longleftrightarrow> push_left p = 0" "pop_over o' \<longleftrightarrow> pop_left o' = 0"
  by (cases p; simp) (cases o'; simp)

lemma push_left_step: "push_left (snd (try_push_micro fl p)) \<le> push_left p - 1"
  by (cases p) simp_all

lemma pop_left_step: "pop_left (snd (try_pop_micro fl p)) \<le> pop_left p - 1"
  by (cases p) simp_all

text \<open>A pop that began on the entry \<open>v\<close> keeps it in sight until it has it.\<close>

definition pop_aims :: "u64 \<Rightarrow> fl_race \<Rightarrow> bool" where
  "pop_aims v s \<longleftrightarrow> (case race_pop s of
     Pop_Start \<Rightarrow> fl_contents (race_list s) \<noteq> [] \<and> hd (fl_contents (race_list s)) = v
   | Pop_Head h \<Rightarrow> fl_contents (race_list s) \<noteq> [] \<and> hd (fl_contents (race_list s)) = v
   | Pop_Both h t \<Rightarrow> h \<noteq> t \<and> hd (fl_contents (race_list s)) = v
   | Pop_Slot h w \<Rightarrow> w = v
   | Pop_Done r \<Rightarrow> r = Some v)"

lemma pop_aims_event:
  assumes "race_inv n q s" "pop_aims v s" "ev \<noteq> Pop_Call"
  shows "pop_aims v (race_event ev s)"
proof (cases ev)
  case Push_Step
  obtain fl p where m: "try_push_micro (race_list s) (race_push s) = (fl, p)" by fastforce
  show ?thesis
  proof (cases "push_over (race_push s)")
    case False
    with push_step_inv [of "race_list s" "race_push s" "race_pop s", OF _ _ _ False m] assms(1)
    have c: "fl_contents fl = fl_contents (race_list s) @ taken_by p" by (simp add: race_inv_def)
    have "fl_contents (race_list s) \<noteq> [] \<or> (\<exists>h w. race_pop s = Pop_Slot h w) \<or> (\<exists>r. race_pop s = Pop_Done r)"
      using assms(1,2) by (auto simp: race_inv_def pop_inv_def pop_aims_def split: fl_pop_pc.splits)
    with assms(2) m False c show ?thesis by (auto simp: Push_Step pop_aims_def hd_append split: fl_pop_pc.splits)
  qed (use assms(2) in \<open>simp add: Push_Step\<close>)
next
  case Pop_Step
  have i: "fl_ok (race_list s)" "pop_inv (race_list s) (race_pop s)" using assms(1) by (simp_all add: race_inv_def)
  show ?thesis
  proof (cases "race_pop s")
    case (Pop_Both h t)
    with i(2) assms(2) obtain vs where c: "h = fl_head (race_list s)" "h \<noteq> t" "fl_contents (race_list s) = v # vs"
      by (auto simp: pop_inv_def pop_aims_def neq_Nil_conv)
    with store_head(3) [OF i(1) c(3)] show ?thesis using assms(2) by (simp add: Pop_Step pop_aims_def Pop_Both)
  qed (use i assms(2) in \<open>auto simp: Pop_Step pop_aims_def pop_inv_def head_eq_tail\<close>)
qed (use assms in \<open>auto simp: pop_aims_def set_headroom_def split: fl_pop_pc.splits\<close>)

lemma pop_left_run:
  "Pop_Call \<notin> set evs \<Longrightarrow> pop_left (race_pop (race_run evs s)) \<le> pop_left (race_pop s) - count_list evs Pop_Step"
proof (induction evs arbitrary: s)
  case (Cons ev evs)
  have "pop_left (race_pop (race_event ev s)) \<le> pop_left (race_pop s) - (if ev = Pop_Step then 1 else 0)"
    using Cons.prems pop_left_step [of "race_list s" "race_pop s"]
    by (cases ev) (auto simp: left_over set_headroom_def split: prod.split)
  with Cons.IH [of "race_event ev s"] Cons.prems show ?case by (auto simp: race_run_def split: if_splits)
qed (simp add: race_run_def)

lemma push_left_run:
  "(\<And>v. Push_Call v \<notin> set evs) \<Longrightarrow> push_left (race_push (race_run evs s)) \<le> push_left (race_push s) - count_list evs Push_Step"
proof (induction evs arbitrary: s)
  case (Cons ev evs)
  have "push_left (race_push (race_event ev s)) \<le> push_left (race_push s) - (if ev = Push_Step then 1 else 0)"
    using Cons.prems push_left_step [of "race_list s" "race_push s"]
    by (cases ev) (auto simp: left_over set_headroom_def split: prod.split)
  with Cons.IH [of "race_event ev s"] Cons.prems show ?case by (auto simp: race_run_def split: if_splits)
qed (simp add: race_run_def)

lemma pop_aims_run:
  "race_inv n q s \<Longrightarrow> pop_aims v s \<Longrightarrow> list_all (headroom_within n) evs \<Longrightarrow> Pop_Call \<notin> set evs \<Longrightarrow> pop_aims v (race_run evs s)"
proof (induction evs arbitrary: s)
  case (Cons ev evs)
  have "race_inv n q (race_event ev s)" "pop_aims v (race_event ev s)"
    using race_event_inv [OF Cons.prems(1)] pop_aims_event [OF Cons.prems(1,2)] Cons.prems(3,4) by auto
  with Cons.IH Cons.prems show ?case by (simp add: race_run_def)
qed (simp add: race_run_def)

subsection \<open>Two callers on one side\<close>

text \<open>Two threads that both call \<open>try_pop\<close>, or both call \<open>try_push\<close>; the schedule says whose
  access is next.\<close>

fun two_pops :: "bool list \<Rightarrow> free_list \<times> fl_pop_pc \<times> fl_pop_pc \<Rightarrow> free_list \<times> fl_pop_pc \<times> fl_pop_pc" where
  "two_pops [] s = s"
| "two_pops (first # bs) (fl, a, b) =
     two_pops bs (if first then case try_pop_micro fl a of (fl', a') \<Rightarrow> (fl', a', b)
                  else case try_pop_micro fl b of (fl', b') \<Rightarrow> (fl', a, b'))"

fun two_pushes :: "bool list \<Rightarrow> free_list \<times> fl_push_pc \<times> fl_push_pc \<Rightarrow> free_list \<times> fl_push_pc \<times> fl_push_pc" where
  "two_pushes [] s = s"
| "two_pushes (first # bs) (fl, a, b) =
     two_pushes bs (if first then case try_push_micro fl a of (fl', a') \<Rightarrow> (fl', a', b)
                    else case try_push_micro fl b of (fl', b') \<Rightarrow> (fl', a, b'))"

text \<open>Every list with an entry gives it to both of two poppers, and a list with room accepts the
  frames of both of two pushers and keeps one.\<close>

lemma two_poppers_share:
  assumes "fl_ok fl" "fl_contents fl = v # vs"
  shows "\<exists>fl'. two_pops [True, False, True, False, True, False, True, False] (fl, Pop_Start, Pop_Start)
      = (fl', Pop_Done (Some v), Pop_Done (Some v)) \<and> fl_contents fl' = vs"
  using store_head [OF assms] by simp

lemma two_pushers_lose:
  assumes "fl_ok fl" "fl_used fl < fl_limit fl"
  shows "\<exists>fl'. two_pushes [True, False, True, False, True, False, True, False, True, False] (fl, Push_Start v, Push_Start w)
      = (fl', Push_Done v True, Push_Done w True) \<and> fl_contents fl' = fl_contents fl @ [w]"
proof -
  have lt: "fl_used fl < length (fl_buf fl)" using assms(2) by (simp add: fl_limit_def)
  define f1 where "f1 = fl\<lparr>fl_buf := (fl_buf fl)[tail_slot fl := v]\<rparr>"
  define f2 where "f2 = f1\<lparr>fl_buf := (fl_buf f1)[tail_slot f1 := w]\<rparr>"
  have len: "length (fl_buf f1) = length (fl_buf fl)" "length (fl_buf f2) = length (fl_buf fl)"
    by (simp_all add: f1_def f2_def)
  have slot: "tail_slot f1 = tail_slot fl" "tail_slot f2 = tail_slot fl" by (simp_all add: f1_def f2_def)
  have tail: "fl_tail f1 = fl_tail fl" "fl_tail f2 = fl_tail fl" by (simp_all add: f1_def f2_def)
  have used: "fl_used f1 = fl_used fl" "fl_used f2 = fl_used fl" by (simp_all add: f1_def f2_def fl_used_def)
  note 1 = store_slot [OF assms(1) lt, of v, folded f1_def]
  from lt have "fl_used f1 < length (fl_buf f1)" by (simp only: used len)
  note 2 = store_slot [OF 1(1) this, of w, folded f2_def]
  from lt have "fl_used f2 < length (fl_buf f2)" by (simp only: used len)
  note 3 = store_tail [OF 2(1) this]
  have "fl_buf f2 ! tail_slot f2 = w" using 2(3) by (simp add: f2_def)
  with 3(2) 2(2) 1(2) have c: "fl_contents (f2\<lparr>fl_tail := fl_tail fl + 1\<rparr>) = fl_contents fl @ [w]"
    by (simp add: tail)
  have "unat (fl_tail fl - fl_head fl) < fl_limit fl" using assms(2) by (simp add: fl_used_def)
  then have "\<not> of_nat (length (fl_buf fl)) - fl_headroom fl \<le> fl_tail fl - fl_head fl"
    by (simp add: word_le_nat_alt unat_limit [OF assms(1)])
  then have "two_pushes [True, False, True, False, True, False, True, False, True, False] (fl, Push_Start v, Push_Start w)
      = (f2\<lparr>fl_tail := fl_tail fl + 1\<rparr>, Push_Done v True, Push_Done w True)"
    by (simp add: f1_def f2_def tail_slot_def)
  with c show ?thesis by blast
qed

subsection \<open>Properties\<close>

text \<open>C27. With one thread that pushes and one that pops, the free list is a queue whatever the order of
  their loads and stores and of the changes of the headroom, as long as every headroom that is
  set, and the one it starts with, is at most the capacity: the frames given out and the frames in
  the list are those it had and those it took, in order, each once, and it never holds more than
  its capacity. A pop that began returns within four accesses of its own whatever the other
  thread does, with the first entry of the list at its begin if there was one; a push returns
  within five. The code does not enforce the bound: the control endpoint sets any headroom, and
  above the capacity a full list overwrites its entries (\<open>free_list_overrun\<close>).\<close>

theorem free_list_interleaved:
  fixes fl :: free_list and evs more :: "fl_event list"
  defines "s \<equiv> race_run evs (race_from fl)"
  defines "s' \<equiv> race_run more s"
  assumes "fl_ok fl" and "list_all (headroom_within (length (fl_buf fl))) (evs @ more)"
  shows "race_given s @ fl_contents (race_list s) = fl_contents fl @ race_taken s
    \<and> fl_used (race_list s) \<le> length (fl_buf fl)
    \<and> (race_pop s = Pop_Start \<and> Pop_Call \<notin> set more \<and> 4 \<le> count_list more Pop_Step
         \<longrightarrow> (\<exists>r. race_pop s' = Pop_Done r \<and> (fl_contents (race_list s) \<noteq> [] \<longrightarrow> r = Some (hd (fl_contents (race_list s))))))
    \<and> ((\<forall>v. Push_Call v \<notin> set more) \<and> 5 \<le> count_list more Push_Step \<longrightarrow> push_over (race_push s'))"
proof -
  let ?n = "length (fl_buf fl)"
  have w: "list_all (headroom_within ?n) evs" "list_all (headroom_within ?n) more" using assms(4) by simp_all
  have i: "race_inv ?n (fl_contents fl) s"
    unfolding s_def by (rule race_run_inv [OF race_from_inv [OF assms(3)] w(1)])
  then have q: "race_given s @ fl_contents (race_list s) = fl_contents fl @ race_taken s" "fl_used (race_list s) \<le> ?n"
    by (auto simp: race_inv_def fl_ok_def)
  have "\<exists>r. race_pop s' = Pop_Done r \<and> (fl_contents (race_list s) \<noteq> [] \<longrightarrow> r = Some (hd (fl_contents (race_list s))))"
    if p: "race_pop s = Pop_Start" "Pop_Call \<notin> set more" "4 \<le> count_list more Pop_Step"
  proof -
    from pop_left_run [OF p(2), of s] p(1,3) have "pop_over (race_pop s')" by (simp add: s'_def left_over)
    then obtain r where r: "race_pop s' = Pop_Done r" by (auto elim: pop_over.elims)
    have "r = Some (hd (fl_contents (race_list s)))" if "fl_contents (race_list s) \<noteq> []"
    proof -
      have "pop_aims (hd (fl_contents (race_list s))) s" using p(1) that by (simp add: pop_aims_def)
      from pop_aims_run [OF i this w(2) p(2)] r show ?thesis by (simp add: s'_def [symmetric] pop_aims_def)
    qed
    with r show ?thesis by blast
  qed
  moreover have "push_over (race_push s')" if "\<forall>v. Push_Call v \<notin> set more" "5 \<le> count_list more Push_Step"
  proof -
    have "push_left (race_push s) \<le> 5" by (cases "race_push s") simp_all
    with push_left_run [of more s] that show ?thesis by (simp add: s'_def left_over)
  qed
  ultimately show ?thesis using q by blast
qed

text \<open>A push that stops between its two stores while a pop takes the only entry, and a headroom that is
  raised meanwhile.\<close>

definition race_example :: "fl_event list" where
  "race_example = [Push_Call 4096, Push_Step, Push_Step, Push_Step, Push_Step, Push_Step, Push_Call 6144, Push_Step, Push_Step,
     Headroom 2, Push_Step, Push_Step, Pop_Call]"

theorem free_list_interleaved_witness:
  "let s = race_run race_example (race_from \<lparr>fl_buf = [0, 0, 0, 0], fl_mask = 3, fl_head = 0, fl_tail = 0, fl_headroom = 0\<rparr>);
     s' = race_run [Pop_Step, Pop_Step, Push_Step, Pop_Step, Pop_Step] s
   in race_taken s = [4096] \<and> race_pop s' = Pop_Done (Some 4096) \<and> fl_contents (race_list s) = [4096]"
proof -
  let ?fl = "\<lparr>fl_buf = [0, 0, 0, 0], fl_mask = 3, fl_head = 0, fl_tail = 0, fl_headroom = 0\<rparr> :: free_list"
  let ?more = "[Pop_Step, Pop_Step, Push_Step, Pop_Step, Pop_Step]"
  let ?s = "race_run race_example (race_from ?fl)"
  have ok: "fl_ok ?fl" by (simp add: fl_ok_def fl_used_def is_power_of_two.simps)
  have w: "list_all (headroom_within (length (fl_buf ?fl))) (race_example @ ?more)"
    by (simp add: race_example_def headroom_within_def)
  have e: "race_pop ?s = Pop_Start" "race_taken ?s = [4096]" "race_given ?s = []" by code_simp+
  have c: "fl_contents ?fl = []" by (simp add: fl_contents_def fl_used_def)
  have "fl_contents (race_list ?s) = [4096]" "race_pop (race_run ?more ?s) = Pop_Done (Some 4096)"
    using free_list_interleaved [OF ok w] e c by auto
  with e(2) show ?thesis by (simp add: Let_def)
qed

end
