(* ===== verification/Assertions.thy ===== *)
theory Assertions
  imports Prelude
begin

text \<open>
  What the unit tests of the repository assert with: \<open>expect\<close> and \<open>unwrap\<close> of a result or an
  option, alone or with the state the call leaves behind, and \<open>is_err\<close>. A test is a boolean
  function that is true when no assertion of it fails; \<open>Tests_Crypto\<close>, \<open>Tests_Routing\<close>,
  \<open>Tests_Afxdp\<close> and \<open>Tests_Datapath\<close> translate the tests of the crates this way.
\<close>

definition expect :: "'e + 'a \<Rightarrow> ('a \<Rightarrow> bool) \<Rightarrow> bool" where
  "expect r k = (case r of Inl _ \<Rightarrow> False | Inr x \<Rightarrow> k x)"

definition expect_st :: "('e + 'a) \<times> 's \<Rightarrow> ('a \<Rightarrow> 's \<Rightarrow> bool) \<Rightarrow> bool" where
  "expect_st p k = (case p of (Inl _, _) \<Rightarrow> False | (Inr x, s) \<Rightarrow> k x s)"

definition expect_some :: "'a option \<Rightarrow> ('a \<Rightarrow> bool) \<Rightarrow> bool" where
  "expect_some r k = (case r of None \<Rightarrow> False | Some x \<Rightarrow> k x)"

definition is_err :: "'e + 'a \<Rightarrow> bool" where "is_err r = (case r of Inl _ \<Rightarrow> True | Inr _ \<Rightarrow> False)"

lemma expect_simps [simp]: "expect (Inr x) k = k x" "\<not> expect (Inl e) k"
  "expect_st (Inr x, s) k' = k' x s" "\<not> expect_st (Inl e, s) k'"
  "expect_some (Some y) k'' = k'' y" "\<not> expect_some None k''" "is_err (Inl e)" "\<not> is_err (Inr x)"
  by (simp_all add: expect_def expect_st_def expect_some_def is_err_def)

end
