(* ===== verification/Tests_Crypto.thy ===== *)
theory Tests_Crypto
  imports Kex Hardening Assertions
begin

text \<open>
  The unit tests of the crate \<open>crypto\<close> (the \<open>tests\<close> modules of \<open>kex.rs\<close>, \<open>session.rs\<close>,
  \<open>security_hardening.rs\<close> and \<open>lib.rs\<close>), translated as boolean functions of what they do not
  fix: the libraries, the randomness drawn, the clock and what the process-wide cache and
  counter hold when a test starts (the tests of a crate share one process). The lemmas show
  which of them pass whatever these are, and on what the other two depend.
\<close>

subsection \<open>The tests of the key exchange\<close>

text \<open>The randomness of one party: the X25519 scalar, the ML-KEM seed and that of the
  encapsulation.\<close>

type_synonym party = "32 barr \<times> bytes \<times> bytes"

definition hybrid_kex_full_round_trip :: "kex_lib \<Rightarrow> party \<Rightarrow> party \<Rightarrow> bool" where
  "hybrid_kex_full_round_trip K i r =
     (case i of (xi, gi, _) \<Rightarrow> case r of (xr, gr, rng) \<Rightarrow>
      expect (HybridKEX_new K xi gi) (\<lambda>init.
      let init_pub = public_key init in
      length init_pub = INITIATOR_PUB_LEN \<and>
      expect (HybridKEX_new K xr gr) (\<lambda>resp.
      expect_st (respond K rng init_pub resp) (\<lambda>(resp_msg, ss_resp) resp.
      length resp_msg = RESPONDER_MSG_LEN \<and> length (bytes_of ss_resp) = SESSION_SECRET_LEN \<and>
      expect_st (finish K resp_msg init) (\<lambda>ss_init init.
      length (bytes_of ss_init) = SESSION_SECRET_LEN \<and> ss_init = ss_resp)))))"

definition different_sessions_produce_different_secrets ::
    "kex_lib \<Rightarrow> party \<Rightarrow> party \<Rightarrow> party \<Rightarrow> party \<Rightarrow> bool" where
  "different_sessions_produce_different_secrets K pi1 pi2 pr1 pr2 =
     (case pi1 of (x1, g1, _) \<Rightarrow> case pi2 of (x2, g2, _) \<Rightarrow>
      case pr1 of (y1, h1, rng1) \<Rightarrow> case pr2 of (y2, h2, rng2) \<Rightarrow>
      expect (HybridKEX_new K x1 g1) (\<lambda>i1. expect (HybridKEX_new K x2 g2) (\<lambda>i2.
      expect (HybridKEX_new K y1 h1) (\<lambda>r1. expect (HybridKEX_new K y2 h2) (\<lambda>r2.
      expect_st (respond K rng1 (public_key i1) r1) (\<lambda>(resp_msg1, ss1) r1.
      expect_st (respond K rng2 (public_key i2) r2) (\<lambda>(resp_msg2, ss2) r2.
      expect_st (finish K resp_msg1 i1) (\<lambda>ss1_init i1.
      expect_st (finish K resp_msg2 i2) (\<lambda>ss2_init i2.
      ss1 = ss1_init \<and> ss2 = ss2_init \<and> ss1 \<noteq> ss2)))))))))"

definition bad_inputs_are_rejected :: "kex_lib \<Rightarrow> party \<Rightarrow> party \<Rightarrow> party \<Rightarrow> bool" where
  "bad_inputs_are_rejected K p p2 pr =
     (case p of (x, g, rng) \<Rightarrow> case p2 of (x2, g2, _) \<Rightarrow> case pr of (y, h, rng_r) \<Rightarrow>
      expect (HybridKEX_new K x g) (\<lambda>kex.
      is_err (fst (respond K rng (replicate 10 0) kex)) \<and>
      expect (HybridKEX_new K x2 g2) (\<lambda>kex2. expect (HybridKEX_new K y h) (\<lambda>r.
      let pub2 = public_key kex2 in
      expect_st (respond K rng_r pub2 r) (\<lambda>_ r.
      is_err (fst (finish K (replicate 10 0) kex2)))))))"

text \<open>The exchange of a pair of parties, as \<open>exchange_agrees\<close> has it.\<close>

lemma kex_pair:
  assumes "kex_ok K"
  obtains i r msg ss where "HybridKEX_new K xi gi = Inr i" "HybridKEX_new K xr gr = Inr r"
    "respond K rng (public_key i) r = (Inr (msg, ss), r\<lparr>x25519_priv := None\<rparr>)" "length msg = RESPONDER_MSG_LEN"
    "finish K msg i = (Inr ss, i\<lparr>x25519_priv := None\<rparr>)" "length (public_key i) = INITIATOR_PUB_LEN"
proof -
  obtain i r where n: "HybridKEX_new K xi gi = Inr i" "HybridKEX_new K xr gr = Inr r"
    unfolding HybridKEX_new_def Let_def split_def by blast
  from exchange_agrees [OF assms n, of rng] obtain msg ss where
    "respond K rng (public_key i) r = (Inr (msg, ss), r\<lparr>x25519_priv := None\<rparr>)" "length msg = RESPONDER_MSG_LEN"
    "finish K msg i = (Inr ss, i\<lparr>x25519_priv := None\<rparr>)" by blast
  moreover have "length (public_key i) = INITIATOR_PUB_LEN" by (simp add: public_key_eq INITIATOR_PUB_LEN_def MLKEM768_EK_LEN_def)
  ultimately show ?thesis using n that by blast
qed

lemma hybrid_kex_full_round_trip_passes: "kex_ok K \<Longrightarrow> hybrid_kex_full_round_trip K i r"
proof -
  assume K: "kex_ok K"
  obtain xi gi a xr gr rng where p: "i = (xi, gi, a)" "r = (xr, gr, rng)" by (metis prod_cases3)
  show ?thesis
    by (rule kex_pair [OF K, of xi gi xr gr rng])
      (simp add: hybrid_kex_full_round_trip_def p SESSION_SECRET_LEN_def)
qed

lemma bad_inputs_are_rejected_passes: "kex_ok K \<Longrightarrow> bad_inputs_are_rejected K p p2 pr"
proof -
  assume K: "kex_ok K"
  obtain x g rng x2 g2 a y h rng_r where p: "p = (x, g, rng)" "p2 = (x2, g2, a)" "pr = (y, h, rng_r)" by (metis prod_cases3)
  obtain kex where k: "HybridKEX_new K x g = Inr kex" unfolding HybridKEX_new_def Let_def split_def by blast
  show ?thesis
    by (rule kex_pair [OF K, of x2 g2 y h rng_r])
      (simp add: bad_inputs_are_rejected_def p k respond_def [of _ _ "replicate 10 0"] finish_def [of _ "replicate 10 0"]
        is_err_def INITIATOR_PUB_LEN_def RESPONDER_MSG_LEN_def MLKEM768_EK_LEN_def MLKEM768_CT_LEN_def)
qed

text \<open>Two sessions that agree on all their randomness have the same secret: what the test asserts
  is that the secrets drawn differ, and nothing else can make it fail.\<close>

definition responder_secret :: "kex_lib \<Rightarrow> party \<Rightarrow> party \<Rightarrow> 64 barr option" where
  "responder_secret K i r =
     (case i of (xi, gi, _) \<Rightarrow> case r of (xr, gr, rng) \<Rightarrow>
      (case (HybridKEX_new K xi gi, HybridKEX_new K xr gr) of
         (Inr init, Inr resp) \<Rightarrow> (case respond K rng (public_key init) resp of (Inr (_, ss), _) \<Rightarrow> Some ss | _ \<Rightarrow> None)
       | _ \<Rightarrow> None))"

lemma different_sessions_iff:
  assumes "kex_ok K"
  shows "different_sessions_produce_different_secrets K pi1 pi2 pr1 pr2 \<longleftrightarrow>
    responder_secret K pi1 pr1 \<noteq> responder_secret K pi2 pr2"
proof -
  obtain x1 g1 a1 x2 g2 a2 y1 h1 rng1 y2 h2 rng2 where p: "pi1 = (x1, g1, a1)" "pi2 = (x2, g2, a2)"
    "pr1 = (y1, h1, rng1)" "pr2 = (y2, h2, rng2)" by (metis prod_cases3)
  show ?thesis
    by (rule kex_pair [OF assms, of x1 g1 y1 h1 rng1], rule kex_pair [OF assms, of x2 g2 y2 h2 rng2])
      (simp add: different_sessions_produce_different_secrets_def responder_secret_def p)
qed

subsection \<open>The tests of the session\<close>

definition round_trip_and_cache :: "crypto_lib \<Rightarrow> hkdf_cache \<Rightarrow> bool" where
  "round_trip_and_cache L cache =
     (let combined = replicate 64 0x42; info = ascii ''session-info'' in
      expect_st (prederive_session L combined info cache) (\<lambda>_ cache.
      expect_st (HybridSession_new L combined info cache) (\<lambda>sess cache.
      expect (session_encrypt L sess (ascii ''hello'') 1) (\<lambda>ct.
      expect (session_decrypt L sess ct 1) (\<lambda>pt.
      pt = ascii ''hello'')))))"

definition encrypt_to_is_zero_alloc_and_round_trips :: "crypto_lib \<Rightarrow> hkdf_cache \<Rightarrow> bool" where
  "encrypt_to_is_zero_alloc_and_round_trips L cache =
     (let combined = replicate 64 0x99; info = ascii ''zero-alloc-test'' in
      expect_st (HybridSession_new L combined info cache) (\<lambda>sess cache.
      let plaintext = ascii ''zero alloc payload''; cap = length plaintext + TAG_SIZE in
      expect (encrypt_to L sess cap plaintext 42) (\<lambda>buf.
      length buf = length plaintext + TAG_SIZE \<and>
      expect (session_decrypt L sess buf 42) (\<lambda>pt.
      pt = plaintext))))"

definition in_place_and_short_ciphertext_checks :: "crypto_lib \<Rightarrow> hkdf_cache \<Rightarrow> bool" where
  "in_place_and_short_ciphertext_checks L cache =
     (let combined = replicate 64 0x24; info = ascii ''inplace-info'' in
      expect_st (HybridSession_new L combined info cache) (\<lambda>sess cache.
      expect (encrypt_in_place L sess (ascii ''payload'') 7) (\<lambda>payload.
      expect_st (HybridSession_new L combined info cache) (\<lambda>sess2 cache.
      expect (session_decrypt L sess2 payload 7) (\<lambda>pt.
      pt = ascii ''payload'' \<and>
      session_decrypt L sess2 [1, 2, 3] 0 = Inl CiphertextTooShort)))))"

definition encrypt_into_slice_mutates_in_place :: "crypto_lib \<Rightarrow> hkdf_cache \<Rightarrow> bool" where
  "encrypt_into_slice_mutates_in_place L cache =
     (let combined = replicate 64 0x55; info = ascii ''slice-encrypt-info'' in
      expect_st (HybridSession_new L combined info cache) (\<lambda>sess cache.
      let original = ascii ''slice payload'' in
      expect (encrypt_into_slice L sess original 11) (\<lambda>(payload, tag).
      payload \<noteq> original \<and>
      expect (session_decrypt L sess (payload @ bytes_of tag) 11) (\<lambda>pt.
      pt = original))))"

text \<open>Whatever the cache holds, a session can be made, and making it again gives the same one.\<close>

lemma secret_session_made:
  assumes "lib_ok L"
  obtains sess cache' where "HybridSession_new L s i cache = (Inr sess, cache')"
    "HybridSession_new L s i cache' = (Inr sess, cache')"
proof -
  obtain e where e: "derive_session_material L s i = Inr e" using derive_total [OF assms] by blast
  show ?thesis
  proof (cases "cache (derive_cache_key L s i)")
    case None
    then show ?thesis
      by (intro that [of "session_of e" "cache(derive_cache_key L s i \<mapsto> e)"]) (simp_all add: HybridSession_new_def Let_def e)
  next
    case (Some a)
    then show ?thesis by (intro that [of "session_of a" cache]) (simp_all add: HybridSession_new_def)
  qed
qed

lemma prederived:
  assumes "lib_ok L" "s \<noteq> []" "i \<noteq> []"
  obtains cache' where "prederive_session L s i cache = (Inr (), cache')"
proof -
  obtain e where "derive_session_material L s i = Inr e" using derive_total [OF assms(1)] by blast
  with assms(2,3) show ?thesis
    using that by (cases "cache (derive_cache_key L s i)") (simp_all add: prederive_session_def Let_def)
qed

lemma session_opens:
  assumes "lib_ok L" "length p \<le> 1000"
  obtains ct where "session_encrypt L s p q = Inr ct" "session_decrypt L s ct q = Inr p" "length ct = length p + 16"
proof -
  have "length p \<le> PAYLOAD_LIMIT" using assms(2) by (simp add: PAYLOAD_LIMIT_def)
  with session_channel.enc_total [OF assms(1), of p s q] that show ?thesis by metis
qed

lemma ascii_length [simp]: "length (ascii s) = length s"
  by (simp add: ascii_def)

lemma ascii_Nil [simp]: "ascii s = [] \<longleftrightarrow> s = []"
  by (simp add: ascii_def)

lemma round_trip_and_cache_passes:
  assumes "lib_ok L"
  shows "round_trip_and_cache L cache"
proof -
  let ?s = "replicate 64 0x42" and ?i = "ascii ''session-info''"
  obtain cache1 where c: "prederive_session L ?s ?i cache = (Inr (), cache1)"
    by (rule prederived [OF assms, of ?s ?i cache]) simp_all
  obtain sess cache2 where s: "HybridSession_new L ?s ?i cache1 = (Inr sess, cache2)" by (rule secret_session_made [OF assms])
  obtain ct where t: "session_encrypt L sess (ascii ''hello'') 1 = Inr ct" "session_decrypt L sess ct 1 = Inr (ascii ''hello'')"
    by (rule session_opens [OF assms, of "ascii ''hello''" sess 1]) simp_all
  show ?thesis unfolding round_trip_and_cache_def Let_def c s expect_simps t ..
qed

lemma encrypt_to_passes:
  assumes "lib_ok L"
  shows "encrypt_to_is_zero_alloc_and_round_trips L cache"
proof -
  obtain sess cache2 where s: "HybridSession_new L (replicate 64 0x99) (ascii ''zero-alloc-test'') cache = (Inr sess, cache2)"
    by (rule secret_session_made [OF assms])
  let ?p = "ascii ''zero alloc payload''"
  obtain ct where t: "session_encrypt L sess ?p 42 = Inr ct" "session_decrypt L sess ct 42 = Inr ?p" "length ct = length ?p + 16"
    by (rule session_opens [OF assms, of ?p sess 42]) simp_all
  from t(1) have "encrypt_to L sess (length ?p + TAG_SIZE) ?p 42 = Inr ct"
    by (auto simp: session_encrypt_def encrypt_to_def split: if_splits option.splits)
  with s t(2,3) show ?thesis
    unfolding encrypt_to_is_zero_alloc_and_round_trips_def Let_def by (simp add: TAG_SIZE_def)
qed

lemma in_place_passes:
  assumes "lib_ok L"
  shows "in_place_and_short_ciphertext_checks L cache"
proof -
  obtain sess cache2 where s: "HybridSession_new L (replicate 64 0x24) (ascii ''inplace-info'') cache = (Inr sess, cache2)"
    "HybridSession_new L (replicate 64 0x24) (ascii ''inplace-info'') cache2 = (Inr sess, cache2)"
    by (rule secret_session_made [OF assms])
  let ?p = "ascii ''payload''"
  obtain ct where t: "session_encrypt L sess ?p 7 = Inr ct" "session_decrypt L sess ct 7 = Inr ?p"
    by (rule session_opens [OF assms, of ?p sess 7]) simp_all
  have "session_decrypt L sess [1, 2, 3] 0 = Inl CiphertextTooShort" by (simp add: session_decrypt_def TAG_SIZE_def)
  with t show ?thesis
    unfolding in_place_and_short_ciphertext_checks_def Let_def s expect_simps in_place_eq by simp
qed

text \<open>The fourth passes exactly when sealing changes the payload, which the documented laws of an
  AEAD do not promise for one key and one payload.\<close>

lemma into_slice_test_iff:
  assumes "lib_ok L"
  shows "encrypt_into_slice_mutates_in_place L cache \<longleftrightarrow>
    (\<forall>sess ct tag. fst (HybridSession_new L (replicate 64 0x55) (ascii ''slice-encrypt-info'') cache) = Inr sess
       \<and> encrypt_into_slice L sess (ascii ''slice payload'') 11 = Inr (ct, tag) \<longrightarrow> ct \<noteq> ascii ''slice payload'')"
proof -
  obtain sess cache2 where s: "HybridSession_new L (replicate 64 0x55) (ascii ''slice-encrypt-info'') cache = (Inr sess, cache2)"
    by (rule secret_session_made [OF assms])
  let ?p = "ascii ''slice payload''"
  obtain c where t: "session_encrypt L sess ?p 11 = Inr c" "session_decrypt L sess c 11 = Inr ?p"
    by (rule session_opens [OF assms, of ?p sess 11]) simp_all
  from t(1) obtain ct tag where e: "encrypt_into_slice L sess ?p 11 = Inr (ct, tag)" "c = ct @ bytes_of tag"
    unfolding into_slice_eq by (auto split: sum.splits prod.splits)
  show ?thesis
    unfolding encrypt_into_slice_mutates_in_place_def Let_def s using e t(2) by simp
qed

subsection \<open>The tests of the hardening\<close>

text \<open>\<open>counter\<close> is the process-wide sequence number, the other numbers are the clock.\<close>

definition seq_and_throttle_helpers_work :: "u64 \<Rightarrow> int \<Rightarrow> bool" where
  "seq_and_throttle_helpers_work counter now \<longleftrightarrow>
     \<not> check_sequence_number_overflow 1 0 \<and> check_sequence_number_overflow 10 10
     \<and> 0 < snd (increment_global_seq counter)
     \<and> (let throttle = DoSThrottle_new 1000000 in fst (allow_packet now throttle))"

definition kex_state_tracks_retries_and_sequences :: "nat \<Rightarrow> nat \<Rightarrow> bool" where
  "kex_state_tracks_retries_and_sequences now now1 =
     (let state = HybridKEXState_new now (fill_arr 1) in
      expect_st (check_timeout now1 state) (\<lambda>_ state.
      expect_st (increment_seq_counter state) (\<lambda>seq state.
      seq = 1 \<and>
      expect_st (check_retries state) (\<lambda>_ state.
      let state = reset_retry state in
      expect_st (check_retries state) (\<lambda>_ state.
      let state = cleanup state in kex_started state = 0)))))"

definition sliding_window_eviction_and_replay_detection :: "nat \<Rightarrow> bool" where
  "sliding_window_eviction_and_replay_detection now =
     (let state = HybridKEXState_new now (fill_arr 2);
          (seqs, state) = take_seqs MAX_REPLAY_WINDOW state in
      seqs = map (\<lambda>i. Inr (of_nat i)) [1..<MAX_REPLAY_WINDOW + 1] \<and>
      expect_st (increment_seq_counter state) (\<lambda>next_seq state.
      next_seq = of_nat (MAX_REPLAY_WINDOW + 1) \<and>
      (let state = state\<lparr>seq_counter := 10\<rparr>; (r, state) = increment_seq_counter state in
       is_err r \<and>
       (let state = state\<lparr>seq_counter := 0\<rparr> in
        expect_st (increment_seq_counter state) (\<lambda>seq state. seq = 1)))))"

text \<open>\<open>security_state_and_throttle_flow\<close> of \<open>lib.rs\<close>.\<close>

definition security_state_and_throttle_flow :: "nat \<Rightarrow> nat \<Rightarrow> int \<Rightarrow> bool" where
  "security_state_and_throttle_flow now now1 clock =
     (let state = HybridKEXState_new now (fill_arr 7) in
      expect_st (check_timeout now1 state) (\<lambda>_ state.
      expect_st (increment_seq_counter state) (\<lambda>seq state.
      seq = 1 \<and>
      (let state = reset_retry state in
       expect_st (check_retries state) (\<lambda>_ state.
       let throttle = DoSThrottle_new 1000000 in fst (allow_packet clock throttle))))))"

lemma first_packet: "fst (allow_packet now (DoSThrottle_new r))"
  by (simp add: allow_packet_def DoSThrottle_new_def Let_def)

lemma helpers_pass_iff: "seq_and_throttle_helpers_work counter now \<longleftrightarrow> counter \<noteq> - 1"
proof -
  have "0 < counter + 1 \<longleftrightarrow> counter \<noteq> - 1" by (simp add: word_gt_0 eq_neg_iff_add_eq_0)
  then show ?thesis
    unfolding seq_and_throttle_helpers_work_def check_sequence_number_overflow_def increment_global_seq_def
    using first_packet by (simp add: Let_def)
qed

lemma check_timeout_fresh:
  "check_timeout now1 (HybridKEXState_new now sid) =
    (if now + HANDSHAKE_TIMEOUT < now1 then (Inl HandshakeTimeout, HybridKEXState_new now sid)
     else (Inr (), HybridKEXState_new now sid\<lparr>timeout := now1 + HANDSHAKE_TIMEOUT\<rparr>))"
  by (simp add: check_timeout_def HybridKEXState_new_def)

lemma first_seq:
  "increment_seq_counter (HybridKEXState_new now sid\<lparr>timeout := t\<rparr>) =
    (Inr 1, HybridKEXState_new now sid\<lparr>timeout := t, seq_counter := 1, seq_window := (replicate 64 0)[0 := 1], seq_window_len := 1\<rparr>)"
  by (simp add: increment_seq_counter_def HybridKEXState_new_def Let_def sat_succ_def window_append_def set_at_def
      MAX_REPLAY_WINDOW_def)

lemma fresh_retries [simp]: "retry_count (HybridKEXState_new now sid) = 0"
  by (simp add: HybridKEXState_new_def)

lemma kex_state_test_iff:
  "kex_state_tracks_retries_and_sequences now now1 \<longleftrightarrow> now1 \<le> now + HANDSHAKE_TIMEOUT"
  unfolding kex_state_tracks_retries_and_sequences_def Let_def check_timeout_fresh
  by (cases "now + HANDSHAKE_TIMEOUT < now1") (simp_all add: first_seq check_retries_def reset_retry_def cleanup_def)

lemma security_flow_iff:
  "security_state_and_throttle_flow now now1 clock \<longleftrightarrow> now1 \<le> now + HANDSHAKE_TIMEOUT"
  unfolding security_state_and_throttle_flow_def Let_def check_timeout_fresh
  by (cases "now + HANDSHAKE_TIMEOUT < now1") (simp_all add: first_seq check_retries_def reset_retry_def first_packet)

text \<open>The state after \<open>k\<close> calls of \<open>increment_seq_counter\<close>: the window holds the last 64 numbers.\<close>

definition numbered :: "nat \<Rightarrow> kex_state \<Rightarrow> bool" where
  "numbered k st \<longleftrightarrow> window_ok st \<and> seq_counter st = of_nat k \<and> window st = map of_nat [Suc (k - 64)..<Suc k]"

lemma numbered_new: "numbered 0 (HybridKEXState_new now sid)"
  using window_ok_new by (simp add: numbered_def HybridKEXState_new_def)

lemma numbered_step:
  assumes "numbered k st" "k < 1000"
  shows "\<exists>st'. increment_seq_counter st = (Inr (of_nat (Suc k)), st') \<and> numbered (Suc k) st'"
proof -
  let ?W = "window st" and ?seq = "of_nat (Suc k) :: u64"
  have n: "window_ok st" "seq_counter st = of_nat k" "?W = map of_nat [Suc (k - 64)..<Suc k]"
    using assms(1) by (simp_all only: numbered_def)
  have lt: "(of_nat i :: u64) < ?seq" if "i < Suc k" for i
    using that assms(2) of_nat_less64 [of i "Suc k"] by (simp del: of_nat_Suc)
  then have less: "x < ?seq" if "x \<in> set ?W" for x using that by (auto simp: n(3) simp del: of_nat_Suc)
  then have notin: "?seq \<notin> set ?W" by auto
  have "sat_succ (seq_counter st) = ?seq"
  proof -
    have "of_nat k \<noteq> (- 1 :: u64)" using of_nat_less64 [of k "2 ^ 64 - 1"] assms(2) unfolding max64 by auto
    then show ?thesis by (simp add: sat_succ_def n(2))
  qed
  with increment_refines [OF n(1)] notin obtain st' where st': "increment_seq_counter st = (Inr ?seq, st')"
    "window st' = insort ?seq (evict_oldest ?W)" "window_ok st'" "seq_counter st' = ?seq" by auto
  have "evict_oldest ?W = map of_nat [Suc (Suc k - 64)..<Suc k]"
  proof (cases "k < 64")
    case False
    then have "Suc k - 64 = Suc (k - 64)" by simp
    with False show ?thesis
      by (simp add: evict_oldest_def n(3) MAX_REPLAY_WINDOW_def map_tl [symmetric] tl_upt del: upt_Suc)
  qed (simp add: evict_oldest_def n(3) MAX_REPLAY_WINDOW_def del: upt_Suc)
  moreover have "insort ?seq (map of_nat [a..<Suc k]) = map of_nat [a..<Suc (Suc k)]" if "a \<le> Suc k" for a
  proof -
    have "\<forall>x \<in> set (map of_nat [a..<Suc k]). x < ?seq" using lt by (auto simp del: of_nat_Suc)
    then have "insort ?seq (map of_nat [a..<Suc k]) = map of_nat [a..<Suc k] @ [?seq]"
      unfolding insort_takeWhile by (simp add: takeWhile_eq_all_conv [THEN iffD2] dropWhile_eq_Nil_conv [THEN iffD2] del: of_nat_Suc upt_Suc)
    then show ?thesis using that by (simp del: of_nat_Suc)
  qed
  ultimately have "window st' = map of_nat [Suc (Suc k - 64)..<Suc (Suc k)]"
    using st'(2) by (simp del: of_nat_Suc upt_Suc)
  with st' show ?thesis by (auto simp: numbered_def simp del: of_nat_Suc upt_Suc)
qed

lemma numbered_take:
  "numbered k st \<Longrightarrow> k + n \<le> 1000 \<Longrightarrow>
    \<exists>st'. take_seqs n st = (map (\<lambda>i. Inr (of_nat i)) [Suc k..<Suc (k + n)], st') \<and> numbered (k + n) st'"
proof (induction n arbitrary: k st)
  case (Suc n)
  then have "k < 1000" by simp
  from numbered_step [OF Suc.prems(1) this] obtain st1 where
    s: "increment_seq_counter st = (Inr (of_nat (Suc k)), st1)" "numbered (Suc k) st1" by blast
  from Suc.IH [OF s(2)] Suc.prems(2) obtain st2 where
    "take_seqs n st1 = (map (\<lambda>i. Inr (of_nat i)) [Suc (Suc k)..<Suc (Suc k + n)], st2)" "numbered (Suc k + n) st2" by auto
  with s(1) show ?case by (simp add: upt_conv_Cons del: upt_Suc of_nat_Suc)
qed simp

lemma sliding_window_passes: "sliding_window_eviction_and_replay_detection now"
proof -
  obtain st where st: "take_seqs 64 (HybridKEXState_new now (fill_arr 2)) = (map (\<lambda>i. Inr (of_nat i)) [1..<65], st)" "numbered 64 st"
    using numbered_take [OF numbered_new, of 64] by auto
  obtain st1 where st1: "increment_seq_counter st = (Inr (of_nat (Suc 64)), st1)" "numbered (Suc 64) st1"
    using numbered_step [OF st(2)] by auto
  have "Suc (Suc 64 - 64) = 2" "Suc (Suc 64) = 66" by simp_all
  with st1(2) have w: "window_ok st1" "window st1 = map of_nat [2..<66]" by (simp_all only: numbered_def)
  let ?st = "st1\<lparr>seq_counter := 10\<rparr>"
  have "11 \<in> set (window ?st)"
  proof -
    have "(11 :: u64) = of_nat 11" "(11 :: nat) \<in> set [2..<66]" by simp_all
    then show ?thesis unfolding window_counter w(2) set_map by (metis imageI)
  qed
  moreover have "sat_succ (seq_counter ?st) = 11" by (simp add: sat_succ_def)
  ultimately obtain st2 where st2: "increment_seq_counter ?st = (Inl ReplayDetected, st2)" "window st2 = window st1" "window_ok st2"
    using increment_refines [of ?st] w(1) by (auto simp: window_ok_counter window_counter)
  let ?st2 = "st2\<lparr>seq_counter := 0\<rparr>"
  have "1 \<notin> set (window ?st2)"
  proof -
    have "(1 :: u64) \<noteq> of_nat i" if "i \<in> set [2..<66]" for i
      using that of_nat_less64 [of 1 i] by auto
    then show ?thesis unfolding window_counter st2(2) w(2) by auto
  qed
  moreover have "sat_succ (seq_counter ?st2) = 1" by (simp add: sat_succ_def)
  ultimately obtain st3 where st3: "increment_seq_counter ?st2 = (Inr 1, st3)"
    using increment_refines [of ?st2] st2(3) by (auto simp: window_ok_counter window_counter)
  show ?thesis
    unfolding sliding_window_eviction_and_replay_detection_def Let_def MAX_REPLAY_WINDOW_def st(1)
    by (simp add: st1 st2 st3 is_err_def del: upt_Suc of_nat_Suc)
qed

subsection \<open>Properties\<close>

text \<open>\<open>kex_and_session_flow\<close> of \<open>lib.rs\<close>.\<close>

definition kex_and_session_flow :: "kex_lib \<Rightarrow> crypto_lib \<Rightarrow> party \<Rightarrow> party \<Rightarrow> hkdf_cache \<Rightarrow> bool" where
  "kex_and_session_flow K L i r cache =
     (case i of (xi, gi, _) \<Rightarrow> case r of (xr, gr, rng) \<Rightarrow>
      expect (HybridKEX_new K xi gi) (\<lambda>initiator.
      let init_pub = public_key initiator in
      expect (HybridKEX_new K xr gr) (\<lambda>responder.
      expect_st (respond K rng init_pub responder) (\<lambda>(resp_msg, combined_resp) responder.
      expect_st (finish K resp_msg initiator) (\<lambda>combined_init initiator.
      combined_init = combined_resp \<and>
      expect_st (HybridSession_new L (bytes_of combined_init) (ascii ''session-info'') cache) (\<lambda>sess cache.
      expect (session_encrypt L sess (ascii ''hello'') 1) (\<lambda>ct.
      expect (session_decrypt L sess ct 1) (\<lambda>pt.
      pt = ascii ''hello''))))))))"

lemma kex_and_session_flow_passes:
  assumes "kex_ok K" "lib_ok L"
  shows "kex_and_session_flow K L i r cache"
proof -
  obtain xi gi a xr gr rng where p: "i = (xi, gi, a)" "r = (xr, gr, rng)" by (metis prod_cases3)
  show ?thesis
  proof (rule kex_pair [OF assms(1), of xi gi xr gr rng])
    fix init resp msg ss
    assume k: "HybridKEX_new K xi gi = Inr init" "HybridKEX_new K xr gr = Inr resp"
      "respond K rng (public_key init) resp = (Inr (msg, ss), resp\<lparr>x25519_priv := None\<rparr>)"
      "finish K msg init = (Inr ss, init\<lparr>x25519_priv := None\<rparr>)"
    obtain sess cache2 where s: "HybridSession_new L (bytes_of ss) (ascii ''session-info'') cache = (Inr sess, cache2)"
      by (rule secret_session_made [OF assms(2)])
    obtain ct where t: "session_encrypt L sess (ascii ''hello'') 1 = Inr ct" "session_decrypt L sess ct 1 = Inr (ascii ''hello'')"
      by (rule session_opens [OF assms(2), of "ascii ''hello''" sess 1]) simp_all
    show ?thesis by (simp add: kex_and_session_flow_def p k s t)
  qed
qed

text \<open>C40. When each test of the crate passes, with correct primitives, for any randomness and whatever
  other tests of the process have left in the cache. Without further conditions: the round trip of
  the exchange, the rejection of bad inputs, three of the four tests of the session, the flow of
  \<open>lib.rs\<close> and the sliding window. The test that draws two secrets passes exactly when they differ; the
  one that seals in place and expects other bytes passes exactly when the cipher does not map its
  payload to itself, which no law of an AEAD promises for a single key; those with a clock pass
  exactly when not more than the handshake timeout goes by between two lines, the one with the
  process-wide counter exactly when the counter does not wrap around.\<close>

theorem crypto_tests_pass:
  assumes "kex_ok K" and "lib_ok L"
  shows "hybrid_kex_full_round_trip K i r \<and> bad_inputs_are_rejected K i r r'
    \<and> (different_sessions_produce_different_secrets K i i' r r' \<longleftrightarrow> responder_secret K i r \<noteq> responder_secret K i' r')
    \<and> round_trip_and_cache L cache \<and> encrypt_to_is_zero_alloc_and_round_trips L cache
    \<and> in_place_and_short_ciphertext_checks L cache \<and> kex_and_session_flow K L i r cache
    \<and> (encrypt_into_slice_mutates_in_place L cache \<longleftrightarrow>
         (\<forall>sess ct tag. fst (HybridSession_new L (replicate 64 0x55) (ascii ''slice-encrypt-info'') cache) = Inr sess
            \<and> encrypt_into_slice L sess (ascii ''slice payload'') 11 = Inr (ct, tag) \<longrightarrow> ct \<noteq> ascii ''slice payload''))
    \<and> (seq_and_throttle_helpers_work counter now \<longleftrightarrow> counter \<noteq> - 1)
    \<and> (kex_state_tracks_retries_and_sequences t0 t1 \<longleftrightarrow> t1 \<le> t0 + HANDSHAKE_TIMEOUT)
    \<and> (security_state_and_throttle_flow t0 t1 now \<longleftrightarrow> t1 \<le> t0 + HANDSHAKE_TIMEOUT)
    \<and> sliding_window_eviction_and_replay_detection t0"
  unfolding into_slice_test_iff [OF assms(2)]
  using hybrid_kex_full_round_trip_passes [OF assms(1)] bad_inputs_are_rejected_passes [OF assms(1)]
    different_sessions_iff [OF assms(1)] round_trip_and_cache_passes [OF assms(2)] encrypt_to_passes [OF assms(2)]
    in_place_passes [OF assms(2)] kex_and_session_flow_passes [OF assms] helpers_pass_iff kex_state_test_iff
    security_flow_iff sliding_window_passes by simp

theorem crypto_tests_pass_witness:
  "hybrid_kex_full_round_trip toy_kex (fill_arr 1, [2], [3]) (fill_arr 4, [5], [6])
    \<and> round_trip_and_cache toy_lib Map.empty \<and> sliding_window_eviction_and_replay_detection 0"
  using crypto_tests_pass [OF toy_kex_ok toy_lib_ok] by blast

end
