(* ===== verification/Tests_Routing.thy ===== *)
theory Tests_Routing
  imports Route_World Route_Policy Assertions
begin

text \<open>
  The unit tests of \<open>routing/src/lib.rs\<close>, as boolean functions of the clock, of the global
  epoch and of the caches of the thread they run on, which earlier tests of the process have
  filled: entries of other tables, all from epochs that are not in the future.
\<close>

subsection \<open>The tests\<close>

definition test_route :: "node_id \<Rightarrow> node_id \<Rightarrow> 32 word \<Rightarrow> u8 \<Rightarrow> node_id list \<Rightarrow> route_entry" where
  "test_route dest nh m n alts = \<lparr>dest_id = dest, next_hop_id = nh, metric = m, last_seen = 0, channel_count = n,
     alternate_channels = alts, mcr_epoch = 1\<rparr>"

definition update_and_lookup :: "nat \<Rightarrow> u64 \<Rightarrow> thread_cache \<Rightarrow> bool" where
  "update_and_lookup now ep c =
     (let t = table_new; dest = fill_arr 3; nh = fill_arr 7;
          (t, ep) = update_route now (test_route dest nh 0 1 []) (t, ep) in
      expect_some (fst (lookup_next_hop t ep c dest 0)) (\<lambda>got. got = nh))"

definition predictive_choice :: "nat \<Rightarrow> u64 \<Rightarrow> thread_cache \<Rightarrow> bool" where
  "predictive_choice now ep c =
     (let t = table_new;
          (t, ep) = update_route now (test_route (fill_arr 1) (fill_arr 9) 0 1 []) (t, ep);
          (t, ep) = update_route now (test_route (fill_arr 2) (fill_arr 8) 0 1 []) (t, ep);
          src = fill_arr 4; dst = fill_arr 99 in
      expect_some (fst (predictive_next_hop t ep c src dst 7)) (\<lambda>choice.
      choice = fill_arr 9 \<or> choice = fill_arr 8))"

definition test_lookup_spray_single :: "nat \<Rightarrow> u64 \<Rightarrow> bool" where
  "test_lookup_spray_single now ep =
     (let t = table_new; dest = fill_arr 10; nh0 = fill_arr 20; nh1 = fill_arr 21; nh2 = fill_arr 22 in
      lookup_spray_single t dest 0 0 = None \<and>
      (let (t, ep) = update_route now (test_route dest nh0 1 1 []) (t, ep) in
       expect_some (lookup_spray_single t dest 0 0) (\<lambda>nh. nh = nh0) \<and>
       expect_some (lookup_spray_single t dest 0 1) (\<lambda>nh. nh = nh0) \<and>
       (let (t, ep) = update_route now (test_route dest nh0 1 3 [nh1, nh2]) (t, ep) in
        list_all (\<lambda>flow_label.
          let full_spray = lookup_spray t dest flow_label in
          length full_spray = 3 \<and>
          list_all (\<lambda>ch_idx. expect_some (lookup_spray_single t dest flow_label ch_idx) (\<lambda>single.
            single = fst (full_spray ! (ch_idx mod length full_spray)))) [0..<5])
        (map of_nat [0..<10]))))"

fun buf_matches :: "table \<Rightarrow> node_id \<Rightarrow> u32 list \<Rightarrow> (node_id \<times> bool) list \<Rightarrow> bool" where
  "buf_matches t dest [] buf = True"
| "buf_matches t dest (flow_label # fs) buf =
     (let vec_out = lookup_spray t dest flow_label;
          (buf_count, buf) = lookup_spray_buf t dest flow_label buf in
      buf_count = length vec_out \<and> take buf_count buf = vec_out \<and> buf_matches t dest fs buf)"

definition test_lookup_spray_buf_matches_lookup_spray :: "nat \<Rightarrow> u64 \<Rightarrow> bool" where
  "test_lookup_spray_buf_matches_lookup_spray now ep =
     (let t = table_new; dest = fill_arr 100; nh0 = fill_arr 200;
          buf = replicate 16 (fill_arr 0, False); (n, buf) = lookup_spray_buf t dest 0 buf in
      n = 0 \<and> lookup_spray t dest 0 = [] \<and>
      (let (t, ep) = update_route now (test_route dest nh0 1 1 []) (t, ep);
           vec_res = lookup_spray t dest 12; (n, buf) = lookup_spray_buf t dest 12 buf in
       n = length vec_res \<and> take n buf = vec_res \<and>
       (let (t, ep) = update_route now (test_route dest nh0 1 4 [fill_arr 201, fill_arr 202, fill_arr 203]) (t, ep) in
        buf_matches t dest (map of_nat [0..<20]) buf)))"

fun primary_twice :: "table \<Rightarrow> u64 \<Rightarrow> node_id \<Rightarrow> u32 list \<Rightarrow> spray_cache \<Rightarrow> bool" where
  "primary_twice t ep dest [] sc = True"
| "primary_twice t ep dest (flow_label # fs) sc =
     (let (first, sc) = lookup_spray_primary t ep sc dest flow_label;
          (second, sc) = lookup_spray_primary t ep sc dest flow_label in
      expect_some first (\<lambda>x. expect_some second (\<lambda>y. x = y)) \<and> primary_twice t ep dest fs sc)"

definition test_lookup_spray_primary_multi_channel_caching :: "nat \<Rightarrow> u64 \<Rightarrow> spray_cache \<Rightarrow> bool" where
  "test_lookup_spray_primary_multi_channel_caching now ep sc =
     (let t = table_new; dest = fill_arr 15;
          (t, ep) = update_route now (test_route dest (fill_arr 30) 1 3 [fill_arr 31, fill_arr 32]) (t, ep) in
      primary_twice t ep dest (map of_nat [1..<5]) sc)"

definition remove_route_and_lookup_policy :: "nat \<Rightarrow> u64 \<Rightarrow> thread_cache \<Rightarrow> bool" where
  "remove_route_and_lookup_policy now ep c =
     (let t = table_new; dest = fill_arr 5; nh = fill_arr 7;
          (t, ep) = update_route now (test_route dest nh 1 1 []) (t, ep);
          (found, c) = lookup_or_predict t ep c (fill_arr 1) dest 0 in
      expect_some found (\<lambda>x. x = nh) \<and>
      (let (t, ep) = remove_route dest (t, ep) in
       fst (lookup_next_hop t ep c dest 0) = None \<and>
       (let router = router_new in
        expect (lookup_policy router (fill_arr 1) (fill_arr 2) 7) (\<lambda>policy. queue_id policy = 0 \<and>
        (let router = update_policy router (fill_arr 1) (fill_arr 2) 7 (fill_arr 9) 3 in
         expect (lookup_policy router (fill_arr 1) (fill_arr 2) 7) (\<lambda>updated.
         queue_id updated = 3 \<and> next_hop updated = fill_arr 9))))))"

subsection \<open>They pass\<close>

text \<open>Caches that other tests have filled: of the right size, no entry from the future.\<close>

definition used_cache :: "u64 \<Rightarrow> thread_cache \<Rightarrow> bool" where
  "used_cache ep c \<longleftrightarrow> length (epochs c) = HOT_CACHE_SIZE \<and> length (dest_ids c) = HOT_CACHE_SIZE
     \<and> length (next_hops c) = HOT_CACHE_SIZE \<and> (\<forall>e \<in> set (epochs c). e \<le> ep)"

definition used_spray :: "u64 \<Rightarrow> spray_cache \<Rightarrow> bool" where
  "used_spray ep c \<longleftrightarrow> length (epochs c) = HOT_CACHE_SIZE \<and> length (dest_ids c) = HOT_CACHE_SIZE
     \<and> length (next_hops c) = HOT_CACHE_SIZE \<and> length (flow_labels c) = HOT_CACHE_SIZE \<and> (\<forall>e \<in> set (epochs c). e \<le> ep)"

definition epochs_left :: "u64 \<Rightarrow> bool" where "epochs_left ep \<longleftrightarrow> 0 < ep \<and> unat ep < 2 ^ 64 - 4"

lemma used_cache_ok:
  assumes "used_cache ep c" "unat ep < 2 ^ 64 - 1"
  shows "cache_ok t (ep + 1) c"
proof -
  have "epochs c ! i < ep + 1" if "i < HOT_CACHE_SIZE" for i
    using assms(1) that by (intro less_bump [OF assms(2)]) (auto simp: used_cache_def)
  with assms(1) show ?thesis by (force simp: used_cache_def cache_ok_def)
qed

lemma used_spray_ok:
  assumes "used_spray ep c" "unat ep < 2 ^ 64 - 1"
  shows "spray_ok t (ep + 1) c"
proof -
  have "epochs c ! i < ep + 1" if "i < HOT_CACHE_SIZE" for i
    using assms(1) that by (intro less_bump [OF assms(2)]) (auto simp: used_spray_def)
  with assms(1) show ?thesis by (force simp: used_spray_def spray_ok_def)
qed

lemma left_bump: "epochs_left ep \<Longrightarrow> unat ep < 2 ^ 64 - 1 \<and> unat (ep + 1) < 2 ^ 64 - 1"
  by (simp add: epochs_left_def unat_word_ariths)

lemma updated:
  assumes "table_wf t"
  obtains t' where "update_route now e (t, ep) = (t', ep + 1)" "table_wf t'"
    "routes_of t' = (routes_of t)(dest_id e \<mapsto> e\<lparr>last_seen := now\<rparr>)"
    "entries t' = btree_insert (dest_id e) (e\<lparr>last_seen := now\<rparr>) (entries t)"
proof -
  obtain t' ep' where u: "update_route now e (t, ep) = (t', ep')" by fastforce
  moreover have "entries t' = btree_insert (dest_id e) (e\<lparr>last_seen := now\<rparr>) (entries t)"
    using u by (auto simp: update_route_def rebuild_predictive_entries_def Let_def)
  ultimately show ?thesis using table_wf_update [OF assms u] that by blast
qed

lemma test_route_fields [simp]: "dest_id (test_route d nh m n alts) = d" "next_hop_id (test_route d nh m n alts) = nh"
  "alternate_channels (test_route d nh m n alts) = alts"
  "channels (test_route d nh m n alts\<lparr>last_seen := now\<rparr>) = nh # alts"
  by (simp_all add: test_route_def channels_def)

lemma update_and_lookup_passes:
  assumes "epochs_left ep" "used_cache ep c"
  shows "update_and_lookup now ep c"
proof -
  let ?e = "test_route (fill_arr 3) (fill_arr 7) 0 1 []"
  obtain t' where u: "update_route now ?e (table_new, ep) = (t', ep + 1)"
    "routes_of t' = (routes_of table_new)(dest_id ?e \<mapsto> ?e\<lparr>last_seen := now\<rparr>)"
    by (rule updated [OF table_wf_new])
  have "cache_ok t' (ep + 1) c" using used_cache_ok left_bump assms by blast
  from next_hop.look_spec [OF this, of "fill_arr 3" 0] u show ?thesis
    by (simp add: update_and_lookup_def hop_of_def)
qed

lemma predictive_choice_passes:
  assumes "epochs_left ep" "used_cache ep c"
  shows "predictive_choice now ep c"
proof -
  let ?e1 = "test_route (fill_arr 1) (fill_arr 9) 0 1 []" and ?e2 = "test_route (fill_arr 2) (fill_arr 8) 0 1 []"
  obtain t1 where u: "update_route now ?e1 (table_new, ep) = (t1, ep + 1)" "table_wf t1"
    "routes_of t1 = (routes_of table_new)(dest_id ?e1 \<mapsto> ?e1\<lparr>last_seen := now\<rparr>)"
    "entries t1 = btree_insert (dest_id ?e1) (?e1\<lparr>last_seen := now\<rparr>) (entries table_new)"
    by (rule updated [OF table_wf_new])
  obtain t2 where v: "update_route now ?e2 (t1, ep + 1) = (t2, ep + 1 + 1)" "table_wf t2"
    "routes_of t2 = (routes_of t1)(dest_id ?e2 \<mapsto> ?e2\<lparr>last_seen := now\<rparr>)"
    "entries t2 = btree_insert (dest_id ?e2) (?e2\<lparr>last_seen := now\<rparr>) (entries t1)"
    by (rule updated [OF u(2)])
  have "cache_ok t2 (ep + 1) c" using used_cache_ok left_bump assms by blast
  then have "cache_ok t2 (ep + 1 + 1) c" using cache_ok_bump left_bump [OF assms(1)] by blast
  then obtain c' where l: "lookup_next_hop t2 (ep + 1 + 1) c (fill_arr 99) 7 = (hop_of t2 (fill_arr 99), c')"
    by (rule next_hop.look_cases)
  have ne: "fill_arr 99 \<noteq> (fill_arr 1 :: node_id)" "fill_arr 99 \<noteq> (fill_arr 2 :: node_id)"
    by (simp_all add: barr_eq_iff)
  then have none: "hop_of t2 (fill_arr 99) = None"
    using u(3) v(3) by (simp add: hop_of_def routes_of_new)
  have hops: "set (predictive_next_hops t2) = {fill_arr 9, fill_arr 8}" "length (predictive_next_hops t2) = 2"
    using v(2,4) u(4) by (auto simp: table_wf_def table_new_def)
  then have n: "length (predictive_next_hops t2) < 2 ^ 64" "predictive_next_hops t2 \<noteq> []" by auto
  from predict_pick_in [OF n(2), of "fast_flow_hash (fill_arr 4) (fill_arr 99) 7"] hops(1)
  show ?thesis
    using predictive_fallback_eq [OF n(1)] u(1) v(1) l none
    by (auto simp: predictive_choice_def predictive_next_hop_def lookup_or_predict_def)
qed

lemma spray_single_passes: "test_lookup_spray_single now ep"
proof -
  let ?e1 = "test_route (fill_arr 10) (fill_arr 20) 1 1 []"
  let ?e2 = "test_route (fill_arr 10) (fill_arr 20) 1 3 [fill_arr 21, fill_arr 22]"
  obtain t1 where u: "update_route now ?e1 (table_new, ep) = (t1, ep + 1)" "table_wf t1"
    "routes_of t1 = (routes_of table_new)(dest_id ?e1 \<mapsto> ?e1\<lparr>last_seen := now\<rparr>)"
    by (rule updated [OF table_wf_new])
  obtain t2 where v: "update_route now ?e2 (t1, ep + 1) = (t2, ep + 1 + 1)"
    "routes_of t2 = (routes_of t1)(dest_id ?e2 \<mapsto> ?e2\<lparr>last_seen := now\<rparr>)"
    by (rule updated [OF u(2)])
  have r1: "routes_of t1 (fill_arr 10) = Some (?e1\<lparr>last_seen := now\<rparr>)" and r2: "routes_of t2 (fill_arr 10) = Some (?e2\<lparr>last_seen := now\<rparr>)"
    using u(3) v(2) by simp_all
  have s1: "lookup_spray_single t1 (fill_arr 10) f k = Some (fill_arr 20)" for f k
    unfolding lookup_spray_single_eq [OF r1] by (simp add: spray_order_def)
  have len: "length (lookup_spray t2 (fill_arr 10) f) = 3" for f
    unfolding lookup_spray_eq [OF r2] by simp
  have s2: "lookup_spray_single t2 (fill_arr 10) f k = Some (fst (lookup_spray t2 (fill_arr 10) f ! (k mod 3)))" for f k
  proof -
    have "k mod 3 < length [0..<3]" by simp
    then show ?thesis unfolding lookup_spray_single_eq [OF r2] lookup_spray_eq [OF r2]
      by (simp only: test_route_fields min_def list.size nth_map) (simp add: nth_upt del: upt_Suc)
  qed
  have "lookup_spray_single table_new (fill_arr 10) 0 0 = None" by (simp add: lookup_spray_single_None routes_of_new)
  then show ?thesis
    unfolding test_lookup_spray_single_def Let_def u(1) v(1) prod.case list_all_iff by (simp add: s1 s2 len)
qed

text \<open>Whatever the buffer of 16 entries holds, it is filled with what \<open>lookup_spray\<close> returns.\<close>

lemma spray_buf_eq:
  assumes "length buf = 16"
  shows "case lookup_spray_buf t d f buf of (n, buf') \<Rightarrow> n = length (lookup_spray t d f) \<and> take n buf' = lookup_spray t d f
    \<and> length buf' = 16"
proof (cases "routes_of t d")
  case None
  then show ?thesis using assms by (simp add: lookup_spray_buf_None lookup_spray_None)
next
  case (Some e)
  obtain n b where r: "lookup_spray_buf t d f buf = (n, b)" by fastforce
  note s = lookup_spray_buf_Some [OF Some, where flow = f and buf = buf, unfolded r fst_conv snd_conv]
  have l: "lookup_spray t d f = map (\<lambda>i. (spray_order e f ! i, i = 0)) [0..<n]"
    unfolding lookup_spray_eq [OF Some] using s(1) assms by simp
  have "n \<le> 16" using s(1) assms by simp
  then have "take n b = lookup_spray t d f"
    unfolding l using s(2,3) assms by (intro nth_equalityI) auto
  then show ?thesis using s(2) assms r l by simp
qed

lemma buf_matches_all: "length buf = 16 \<Longrightarrow> buf_matches t d fs buf"
proof (induction fs arbitrary: buf)
  case (Cons f fs)
  obtain n b where r: "lookup_spray_buf t d f buf = (n, b)" by fastforce
  from spray_buf_eq [OF Cons.prems, of t d f] have b: "n = length (lookup_spray t d f)" "take n b = lookup_spray t d f" "length b = 16"
    unfolding r by auto
  with r Cons.IH [OF b(3)] show ?case by (simp add: Let_def)
qed simp

lemma spray_buf_passes: "test_lookup_spray_buf_matches_lookup_spray now ep"
proof -
  let ?d = "fill_arr 100 :: node_id"
  let ?e1 = "test_route ?d (fill_arr 200) 1 1 []"
  let ?e2 = "test_route ?d (fill_arr 200) 1 4 [fill_arr 201, fill_arr 202, fill_arr 203]"
  let ?buf = "replicate 16 (fill_arr 0, False) :: (node_id \<times> bool) list"
  obtain t1 where u: "update_route now ?e1 (table_new, ep) = (t1, ep + 1)" "table_wf t1"
    by (rule updated [OF table_wf_new])
  obtain t2 where v: "update_route now ?e2 (t1, ep + 1) = (t2, ep + 1 + 1)"
    by (rule updated [OF u(2)])
  obtain n b where r: "lookup_spray_buf t1 ?d 12 ?buf = (n, b)" by fastforce
  have "length ?buf = 16" by simp
  from spray_buf_eq [OF this, of t1 ?d 12] have b: "n = length (lookup_spray t1 ?d 12)" "take n b = lookup_spray t1 ?d 12" "length b = 16"
    unfolding r by auto
  have z: "lookup_spray_buf table_new ?d 0 ?buf = (0, ?buf)" "lookup_spray table_new ?d 0 = []"
    by (simp_all add: lookup_spray_buf_None lookup_spray_None routes_of_new)
  show ?thesis
    unfolding test_lookup_spray_buf_matches_lookup_spray_def Let_def z u(1) v(1) prod.case r
    using b buf_matches_all [OF b(3)] by (simp only: b(1) [symmetric])
qed

lemma primary_twice_all:
  assumes "\<And>f. spray_hop_of t d f \<noteq> None"
  shows "spray_ok t ep sc \<Longrightarrow> primary_twice t ep d fs sc"
proof (induction fs arbitrary: sc)
  case (Cons f fs)
  obtain sc1 where a: "lookup_spray_primary t ep sc d f = (spray_hop_of t d f, sc1)" "spray_ok t ep sc1"
    by (rule spray_primary.look_cases [OF Cons.prems])
  obtain sc2 where b: "lookup_spray_primary t ep sc1 d f = (spray_hop_of t d f, sc2)" "spray_ok t ep sc2"
    by (rule spray_primary.look_cases [OF a(2)])
  from a b Cons.IH [OF b(2)] assms [of f] show ?case by (auto simp: expect_some_def)
qed simp

lemma primary_caching_passes:
  assumes "epochs_left ep" "used_spray ep sc"
  shows "test_lookup_spray_primary_multi_channel_caching now ep sc"
proof -
  let ?e = "test_route (fill_arr 15) (fill_arr 30) 1 3 [fill_arr 31, fill_arr 32]"
  obtain t where u: "update_route now ?e (table_new, ep) = (t, ep + 1)"
    "routes_of t = (routes_of table_new)(dest_id ?e \<mapsto> ?e\<lparr>last_seen := now\<rparr>)"
    by (rule updated [OF table_wf_new])
  have "spray_ok t (ep + 1) sc" using used_spray_ok left_bump assms by blast
  moreover have "spray_hop_of t (fill_arr 15) f \<noteq> None" for f using u(2) by (simp add: spray_hop_of_def)
  ultimately have "primary_twice t (ep + 1) (fill_arr 15) fs sc" for fs by (intro primary_twice_all)
  then show ?thesis unfolding test_lookup_spray_primary_multi_channel_caching_def Let_def u(1) by simp
qed

lemma remove_route_passes:
  assumes "epochs_left ep" "used_cache ep c"
  shows "remove_route_and_lookup_policy now ep c"
proof -
  let ?e = "test_route (fill_arr 5) (fill_arr 7) 1 1 []"
  obtain t where u: "update_route now ?e (table_new, ep) = (t, ep + 1)" "table_wf t"
    "routes_of t = (routes_of table_new)(dest_id ?e \<mapsto> ?e\<lparr>last_seen := now\<rparr>)"
    by (rule updated [OF table_wf_new])
  have "cache_ok t (ep + 1) c" using used_cache_ok left_bump assms by blast
  then obtain c1 where l: "lookup_next_hop t (ep + 1) c (fill_arr 5) 0 = (hop_of t (fill_arr 5), c1)" "cache_ok t (ep + 1) c1"
    by (rule next_hop.look_cases)
  have h: "hop_of t (fill_arr 5) = Some (fill_arr 7)" using u(3) by (simp add: hop_of_def)
  obtain t' ep' where r: "remove_route (fill_arr 5) (t, ep + 1) = (t', ep')" by fastforce
  note w = table_wf_remove [OF u(2) r]
  have "cache_ok t' (ep + 1 + 1) c1" using cache_ok_bump [OF l(2)] left_bump [OF assms(1)] by blast
  from next_hop.look_spec [OF this, of "fill_arr 5" 0] w have g: "fst (lookup_next_hop t' ep' c1 (fill_arr 5) 0) = None"
    by (simp add: hop_of_def)
  have "lookup_policy router_new s d f = Inr \<lparr>next_hop = fill_arr 0, queue_id = 0, priority = 10\<rparr>" for s d f
    by (simp add: lookup_policy_def router_new_def seed_default_policies_def)
  then show ?thesis
    unfolding remove_route_and_lookup_policy_def Let_def u(1) prod.case r lookup_or_predict_def l(1) h
    using g by (simp add: lookup_policy_def [of "router_new(_ \<mapsto> _)"] update_policy_def)
qed

subsection \<open>Properties\<close>

text \<open>The tests of the routing crate pass at any time of the process: whatever tests have run before
  on the same thread, with whatever tables, their entries in the caches are stale once a test
  has made its first route, so no test sees another's routes.\<close>

theorem routing_tests_pass:
  assumes "epochs_left ep" and "used_cache ep c" and "used_spray ep sc"
  shows "update_and_lookup now ep c \<and> predictive_choice now ep c \<and> test_lookup_spray_single now ep
    \<and> test_lookup_spray_buf_matches_lookup_spray now ep \<and> test_lookup_spray_primary_multi_channel_caching now ep sc
    \<and> remove_route_and_lookup_policy now ep c"
  using update_and_lookup_passes [OF assms(1,2)] predictive_choice_passes [OF assms(1,2)] spray_single_passes
    spray_buf_passes primary_caching_passes [OF assms(1,3)] remove_route_passes [OF assms(1,2)] by blast

theorem routing_tests_pass_witness:
  "update_and_lookup 5 1 thread_cache_init \<and> remove_route_and_lookup_policy 5 1 thread_cache_init
    \<and> test_lookup_spray_primary_multi_channel_caching 5 1 spray_cache_init"
proof -
  have "epochs_left 1" "used_cache 1 thread_cache_init" "used_spray 1 spray_cache_init"
    by (simp_all add: epochs_left_def used_cache_def thread_cache_init_def used_spray_def spray_cache_init_def)
  from routing_tests_pass [OF this] show ?thesis by blast
qed

end
