(* ===== verification/Tests_Datapath.thy ===== *)
theory Tests_Datapath
  imports Bridge_Run Forward_Spray Tests_Routing
begin

text \<open>
  The unit tests of \<open>wire/src/lib.rs\<close> and \<open>datapath/src/lib.rs\<close>, as boolean functions of the
  primitives of the session, the environment variables, the thread pool, the clock and the
  process that earlier tests have used. Left out is the test of the address alignment of the
  two aligned buffers. The environment variables are process-wide and only two of the tests
  take the lock that guards them, so the others are shown to pass under any setting.
\<close>

subsection \<open>The tests of the wire format\<close>

definition marshal_and_parse :: "32 barr \<Rightarrow> 32 barr \<Rightarrow> 16 barr \<Rightarrow> bool" where
  "marshal_and_parse src dst sid =
     (let h = \<lparr>src_id = src, dst_id = dst, flow_label = 0xdeadbeef, seq_num = 42, session_id = sid, flags = 1,
            payload_length = 128\<rparr>;
          buf = new_header_buffer (unat (payload_length h)) in
      expect (marshal_into h buf) (\<lambda>buf.
      expect (parse buf) (\<lambda>parsed.
      src_id parsed = src_id h \<and> dst_id parsed = dst_id h \<and> flow_label parsed = flow_label h
      \<and> seq_num parsed = seq_num h \<and> payload_length parsed = payload_length h)))"

definition header_view_round_trip_and_bounds :: bool where
  "header_view_round_trip_and_bounds =
     (let src = fill_arr 1; dst = fill_arr 2; sid = fill_arr 3;
          h = \<lparr>src_id = src, dst_id = dst, flow_label = 0x11223344, seq_num = 0x55667788, session_id = sid, flags = 9,
            payload_length = 64\<rparr>;
          buf = new_header_buffer (unat (payload_length h)) in
      expect (marshal_into h buf) (\<lambda>buf.
      expect (HeaderView_view buf) (\<lambda>view.
      view_src_id view = src \<and> view_dst_id view = dst \<and> view_flow_label view = flow_label h
      \<and> view_seq_num view = seq_num h \<and> view_session_id view = sid \<and> view_flags view = flags h
      \<and> view_length view = payload_length h \<and>
      (let view = set_flags 0x44 view; view = set_length 128 view; buf = overwrite 0 view buf in
       expect (parse buf) (\<lambda>h'. flags h' = 0x44) \<and> expect (parse buf) (\<lambda>h'. payload_length h' = 128)))))"

definition rejects_small_buffer :: bool where
  "rejects_small_buffer =
     (let buf = replicate (HEADER_SIZE - 1) 0 in is_err (parse buf) \<and> is_err (HeaderView_view buf))"

lemma marshalled: "96 \<le> length buf \<Longrightarrow> marshal_into h buf = Inr (header_bytes h @ drop 96 buf)"
  by (rule marshal_into_layout)

lemma marshal_and_parse_passes: "marshal_and_parse src dst sid"
  by (simp add: marshal_and_parse_def Let_def new_header_buffer_def HEADER_SIZE_def marshalled parse_header_bytes)

lemma rejects_small_buffer_passes: "rejects_small_buffer"
  by (simp add: rejects_small_buffer_def parse_def HeaderView_view_def HEADER_SIZE_def)

lemma header_view_passes: "header_view_round_trip_and_bounds"
proof -
  let ?h = "\<lparr>src_id = fill_arr 1, dst_id = fill_arr 2, flow_label = 0x11223344, seq_num = 0x55667788, session_id = fill_arr 3,
    flags = 9, payload_length = 64\<rparr> :: header"
  let ?rest = "replicate 64 0 :: bytes"
  have m: "marshal_into ?h (new_header_buffer 64) = Inr (header_bytes ?h @ ?rest)"
    by (subst marshalled) (simp_all add: new_header_buffer_def HEADER_SIZE_def)
  have v: "HeaderView_view (header_bytes ?h @ ?rest) = Inr (header_bytes ?h)"
    by (simp add: HeaderView_view_def HEADER_SIZE_def)
  have g: "view_src_id (header_bytes ?h) = src_id ?h" "view_dst_id (header_bytes ?h) = dst_id ?h"
    "view_flow_label (header_bytes ?h) = flow_label ?h" "view_seq_num (header_bytes ?h) = seq_num ?h"
    "view_session_id (header_bytes ?h) = session_id ?h" "view_flags (header_bytes ?h) = flags ?h"
    "view_length (header_bytes ?h) = payload_length ?h"
    using view_getters(8-14) [OF parse_header_bytes [of ?h "[]"]] by (simp_all add: min_def)
  have s: "overwrite 0 (set_length 128 (set_flags 0x44 (header_bytes ?h))) (header_bytes ?h @ ?rest) =
      header_bytes (?h\<lparr>flags := 0x44, payload_length := 128\<rparr>) @ ?rest"
    unfolding set_header_bytes by (simp add: overwrite_def)
  show ?thesis
    unfolding header_view_round_trip_and_bounds_def Let_def
    using m v g s parse_header_bytes by simp
qed

subsection \<open>The tests of the forwarder\<close>

text \<open>The packet of the tests: a header and four bytes, whatever length the header announces.\<close>

definition test_header :: "u32 \<Rightarrow> u16 \<Rightarrow> header" where
  "test_header flow n = \<lparr>src_id = fill_arr 1, dst_id = fill_arr 2, flow_label = flow, seq_num = 1, session_id = fill_arr 0,
     flags = 0, payload_length = n\<rparr>"

definition test_packet :: "u32 \<Rightarrow> u16 \<Rightarrow> wire_error + bytes" where
  "test_packet flow n =
     bindr (marshal_into (test_header flow n) (new_header_buffer 4)) (\<lambda>buf.
       Inr (overwrite HEADER_SIZE [1, 2, 3, 4] buf))"

text \<open>A table with one route, as the tests make it, and the forwarder over it: with the epoch that the
  update has moved.\<close>

definition test_forwarder ::
    "crypto_lib \<Rightarrow> (string \<Rightarrow> string option) \<Rightarrow> nat \<Rightarrow> u8 \<Rightarrow> node_id list \<Rightarrow> hkdf_cache \<Rightarrow> process \<Rightarrow> forwarder \<times> hkdf_cache \<times> process" where
  "test_forwarder L env now n alts kc w =
     (let (rt, ep) = update_route now (test_route (fill_arr 2) (fill_arr 3) 1 n alts) (table_new, epoch w);
          (fwd, kc) = forwarder_new L env rt kc
      in (fwd, kc, w\<lparr>epoch := ep\<rparr>))"

definition forwarder_encrypts_and_sends ::
    "crypto_lib \<Rightarrow> nat \<Rightarrow> (nat \<times> nat) list \<Rightarrow> (string \<Rightarrow> string option) \<Rightarrow> nat \<Rightarrow> hkdf_cache \<Rightarrow> process \<Rightarrow> bool" where
  "forwarder_encrypts_and_sends L threads sched env now kc w =
     (let (fwd, kc, w) = test_forwarder L env now 1 [] kc w in
      expect (test_packet 1 4) (\<lambda>buf.
      expect (run_on_mock L threads sched fwd (build_socket [buf]) w) (\<lambda>(stats, sock, w).
      received stats = 1 \<and> encrypted stats = 1 \<and> m_sent sock \<noteq> [])))"

definition forwarder_rejects_truncated_payloads ::
    "crypto_lib \<Rightarrow> nat \<Rightarrow> (nat \<times> nat) list \<Rightarrow> (string \<Rightarrow> string option) \<Rightarrow> nat \<Rightarrow> hkdf_cache \<Rightarrow> process \<Rightarrow> bool" where
  "forwarder_rejects_truncated_payloads L threads sched env now kc w =
     (let (fwd, kc, w) = test_forwarder L env now 1 [] kc w in
      expect (test_packet 1 8) (\<lambda>buf.
      expect (run_on_mock L threads sched fwd (build_socket [buf]) w) (\<lambda>(stats, sock, w).
      received stats = 1 \<and> encrypted stats = 0 \<and> route_misses stats = 1 \<and> forwarded stats = 1 \<and> length (m_sent sock) = 1)))"

definition slice_ring_clamps_overlong_frames :: bool where
  "slice_ring_clamps_overlong_frames =
     (let ring = SliceRing_new 1 4; (frames, sock) = mock_poll 64 (build_socket [[1, 2, 3, 4, 5, 6]]) in
      expect (poll_slices frames ring) (\<lambda>ring.
      length (active ring) = 1 \<and> active ring = [0] \<and> slot ring 0 = [1, 2, 3, 4]))"

definition process_batch_slices_encrypts_and_sends ::
    "crypto_lib \<Rightarrow> (string \<Rightarrow> string option) \<Rightarrow> nat \<Rightarrow> hkdf_cache \<Rightarrow> process \<Rightarrow> bool" where
  "process_batch_slices_encrypts_and_sends L env now kc w =
     (let (fwd, kc, w) = test_forwarder L env now 1 [] kc w in
      expect (test_packet 1 4) (\<lambda>buf.
      let (frames, sock) = mock_poll 64 (build_socket [buf]); ring = SliceRing_new 1 (HEADER_SIZE + 4 + TAG_SIZE) in
      expect (process_batch_slices L frames ring fwd w) (\<lambda>(stats, sent, ring, fwd, w).
      received stats = 1 \<and> encrypted stats = 1 \<and> route_misses stats = 0 \<and> forwarded stats = 0 \<and>
      expect_some sent (\<lambda>(buf, offs). expect (mock_send buf offs sock) (\<lambda>sock.
      map length (m_sent sock) = [HEADER_SIZE + 4 + TAG_SIZE])))))"

definition mcr_full_spray_duplicates_outputs ::
    "crypto_lib \<Rightarrow> nat \<Rightarrow> (nat \<times> nat) list \<Rightarrow> (string \<Rightarrow> string option) \<Rightarrow> nat \<Rightarrow> hkdf_cache \<Rightarrow> process \<Rightarrow> bool" where
  "mcr_full_spray_duplicates_outputs L threads sched env now kc w =
     (let env = env(''MOHAWK_MCR_SPRAY_MODE'' \<mapsto> ''full'', ''MOHAWK_MCR_ENABLED'' \<mapsto> ''1'');
          (fwd, kc, w) = test_forwarder L env now 3 [fill_arr 4, fill_arr 5] kc w in
      expect (test_packet 1 4) (\<lambda>buf.
      expect (run_on_mock L threads sched fwd (build_socket [buf]) w) (\<lambda>(stats, sock, w).
      received stats = 1 \<and> encrypted stats = 3 \<and> length (m_sent sock) = 3)))"

text \<open>The loop of the last test, with the next hops it has seen.\<close>

fun balance_flows ::
    "crypto_lib \<Rightarrow> nat \<Rightarrow> (nat \<times> nat) list \<Rightarrow> (string \<Rightarrow> string option) \<Rightarrow> nat \<Rightarrow> u32 list \<Rightarrow> bytes set \<Rightarrow> hkdf_cache \<Rightarrow> process \<Rightarrow> bool" where
  "balance_flows L threads sched env now [] unique_next_hops kc w = (1 < card unique_next_hops)"
| "balance_flows L threads sched env now (flow # fs) unique_next_hops kc w =
     (let (fwd, kc, w) = test_forwarder L env now 3 [fill_arr 4, fill_arr 5] kc w in
      expect (test_packet flow 4) (\<lambda>buf.
      expect (run_on_mock L threads sched fwd (build_socket [buf]) w) (\<lambda>(stats, sock, w).
      received stats = 1 \<and> encrypted stats = 1 \<and> length (m_sent sock) = 1 \<and>
      (let sent_pkt = m_sent sock ! 0; next_hop = subslice 32 32 sent_pkt in
       balance_flows L threads sched env now fs (insert next_hop unique_next_hops) kc w))))"

definition mcr_primary_spray_balances_flows ::
    "crypto_lib \<Rightarrow> nat \<Rightarrow> (nat \<times> nat) list \<Rightarrow> (string \<Rightarrow> string option) \<Rightarrow> nat \<Rightarrow> hkdf_cache \<Rightarrow> process \<Rightarrow> bool" where
  "mcr_primary_spray_balances_flows L threads sched env now kc w =
     (let env = env(''MOHAWK_MCR_SPRAY_MODE'' \<mapsto> ''primary'', ''MOHAWK_MCR_ENABLED'' \<mapsto> ''1'') in
      balance_flows L threads sched env now (map of_nat [0..<10]) {} kc w)"

subsection \<open>One packet in any mode\<close>

lemma test_packet_eq: "test_packet flow n = Inr (header_bytes (test_header flow n) @ [1, 2, 3, 4])"
proof -
  have "marshal_into (test_header flow n) (new_header_buffer 4) = Inr (header_bytes (test_header flow n) @ [0, 0, 0, 0])"
    by (subst marshalled) (simp_all add: new_header_buffer_def HEADER_SIZE_def numeral_eq_Suc)
  then show ?thesis by (simp add: test_packet_def bindr_def overwrite_def HEADER_SIZE_def)
qed

definition test_bytes :: "u32 \<Rightarrow> u16 \<Rightarrow> bytes" where "test_bytes flow n = header_bytes (test_header flow n) @ [1, 2, 3, 4]"

lemma test_fields:
  "length (test_bytes flow n) = 100" "ref_dst_id (test_bytes flow n) = fill_arr 2" "ref_length (test_bytes flow n) = n"
  "ref_seq_num (test_bytes flow n) = 1" "ref_flow_label (test_bytes flow n) = flow" "ref_src_id (test_bytes flow n) = fill_arr 1"
  "payload_present (test_bytes flow n) \<longleftrightarrow> 0 < unat n \<and> unat n \<le> 4"
proof -
  show f: "length (test_bytes flow n) = 100" "ref_dst_id (test_bytes flow n) = fill_arr 2" "ref_length (test_bytes flow n) = n"
    "ref_seq_num (test_bytes flow n) = 1" "ref_flow_label (test_bytes flow n) = flow" "ref_src_id (test_bytes flow n) = fill_arr 1"
    unfolding test_bytes_def ref_header_bytes by (simp_all add: test_header_def)
  show "payload_present (test_bytes flow n) \<longleftrightarrow> 0 < unat n \<and> unat n \<le> 4"
    unfolding payload_present_def f HEADER_SIZE_def by auto
qed

text \<open>What a forwarder sends for one packet, by its mode.\<close>

definition mode_outs :: "crypto_lib \<Rightarrow> forwarder \<Rightarrow> bytes \<Rightarrow> (bytes \<times> outcome) list" where
  "mode_outs L f p =
     (if \<not> mcr_enabled f then [plain_spec L (routes f) (fsession f) p]
      else if mcr_spray_mode f \<noteq> ''full'' then [primary_spec L (routes f) (fsession f) p]
      else full_spec L (routes f) (fsession f) p)"

lemma sent_by_mock: "mock_send (concat outs) (offsets_from 0 outs) m = Inr (m\<lparr>m_sent := outs\<rparr>)"
proof -
  have "list_all (\<lambda>(off, len). off + len \<le> length (concat outs)) (offsets_from 0 outs)"
    using offsets_from_bounds [of 0 outs] by (simp add: case_prod_unfold)
  then show ?thesis using sent_packets_offsets [of outs] by (simp add: mock_send_def sent_packets_def)
qed

lemma result_on_mock:
  assumes "batch_result t outs 1 w (process_batch L threads sched [p] f w)"
  shows "\<exists>w' f' sent. run_on_mock L threads sched f (build_socket [p]) w =
      Inr (count_outcomes (map snd outs) (stats_of 1), \<lparr>m_frames = [], m_sent = map fst outs\<rparr>, w')
    \<and> proc_ok t w' \<and> process_batch L threads sched [p] f w = Inr (count_outcomes (map snd outs) (stats_of 1), Some sent, f', w')"
proof -
  from assms obtain f' w' where r: "process_batch L threads sched [p] f w =
      Inr (count_outcomes (map snd outs) (stats_of 1), Some (concat (map fst outs), offsets_from 0 (map fst outs)), f', w')"
    "proc_ok t w'" unfolding batch_result_def by (metis prod.collapse)
  then show ?thesis by (simp add: run_on_mock_def build_socket_def mock_poll_def bindr_def sent_by_mock)
qed

lemma one_packet:
  assumes "lib_ok L" "proc_ok (routes f) w" "cap (arena f) \<le> 2 ^ 61" "length p = 100"
    and "length (channels_of (routes f) p) \<le> 3"
  shows "batch_result (routes f) (mode_outs L f p) 1 w (process_batch L threads sched [p] f w)"
proof -
  note L = lib_ok_length [OF assms(1)]
  have fits: "arena_fits (sum_list (map length [p]) + length [p] * TAG_SIZE) (arena f)"
    "arena_fits ((sum_list (map length [p]) + length [p] * TAG_SIZE) * 3) (arena f)"
    using assms(3,4) by (simp_all add: arena_fits_def TAG_SIZE_def)
  have small: "length [p] < PARALLEL_BATCH_THRESHOLD \<or> threads \<le> 1" by (simp add: PARALLEL_BATCH_THRESHOLD_def)
  consider (plain) "\<not> mcr_enabled f" | (primary) "mcr_enabled f" "mcr_spray_mode f \<noteq> ''full''"
    | (full) "mcr_enabled f" "mcr_spray_mode f = ''full''" by blast
  then show ?thesis
  proof cases
    case plain
    then show ?thesis using serial_batch_result [OF L assms(2) fits(1)] small
      by (simp add: process_batch_def process_batch_plain_def mode_outs_def)
  next
    case primary
    then show ?thesis using primary_batch [OF L assms(2) _ primary fits(1), of threads sched]
      by (simp add: mcr_result_def mode_outs_def)
  next
    case full
    then show ?thesis using full_spray_three_channels [OF L assms(2) _ full small fits(2), of sched] assms(5)
      by (simp add: mcr_result_def mode_outs_def)
  qed
qed

text \<open>A table with the one route of the tests.\<close>

definition routes_two :: "node_id list \<Rightarrow> table \<Rightarrow> bool" where
  "routes_two alts t \<longleftrightarrow> table_wf t \<and> length (entries t) = 1
     \<and> (\<exists>n now. routes_of t = [fill_arr 2 \<mapsto> test_route (fill_arr 2) (fill_arr 3) 1 n alts\<lparr>last_seen := now\<rparr>])"

lemma fallback_routes:
  assumes "routes_two alts t"
  shows "lookup_predictive_fallback t s d f \<noteq> None"
proof -
  have "length (predictive_next_hops t) = 1" using assms by (simp add: routes_two_def table_wf_def)
  then show ?thesis by (auto simp: lookup_predictive_fallback_def Let_def)
qed

lemma two_channels:
  assumes "routes_two alts t" "length alts \<le> 2"
  shows "channels_of t (test_bytes flow n) \<noteq> []" "length (channels_of t (test_bytes flow n)) = Suc (length alts)"
    "hop_of t (fill_arr 2) = Some (fill_arr 3)"
    "spray_hop_of t (fill_arr 2) flow = Some ((fill_arr 3 # alts) ! (unat flow mod Suc (length alts)))"
proof -
  from assms(1) obtain k now where r: "routes_of t (fill_arr 2) = Some (test_route (fill_arr 2) (fill_arr 3) 1 k alts\<lparr>last_seen := now\<rparr>)"
    by (auto simp: routes_two_def)
  let ?e = "test_route (fill_arr 2) (fill_arr 3) 1 k alts\<lparr>last_seen := now\<rparr>"
  show len: "length (channels_of t (test_bytes flow n)) = Suc (length alts)"
    using assms(2) lookup_spray_eq [OF r] by (simp add: channels_of_def test_fields)
  then show "channels_of t (test_bytes flow n) \<noteq> []" by auto
  show "hop_of t (fill_arr 2) = Some (fill_arr 3)" by (simp add: hop_of_def r)
  have "spray_order ?e flow ! 0 = channels ?e ! (unat flow mod length (channels ?e))"
    by (rule trans [OF nth_spray_order]) simp_all
  then show "spray_hop_of t (fill_arr 2) flow = Some ((fill_arr 3 # alts) ! (unat flow mod Suc (length alts)))"
    by (simp add: spray_hop_of_def r)
qed

lemma sealed_ok:
  assumes "lib_ok L" "0 < unat n" "unat n \<le> 4"
  obtains ct tag where "encrypt_into_slice L s (payload_of (test_bytes flow n)) 1 = Inr (ct, tag)" "length ct = unat n"
proof -
  have l: "length (payload_of (test_bytes flow n)) = unat n"
    using assms(3) by (simp add: payload_of_def test_fields HEADER_SIZE_def subslice_def)
  then have p: "length (payload_of (test_bytes flow n)) \<le> PAYLOAD_LIMIT" using assms(3) by (simp add: PAYLOAD_LIMIT_def)
  from lib_ok_seal [OF assms(1) limit_le_gcm [OF p]] obtain c t where
    "seal L (aead s) (build_nonce s 1) (payload_of (test_bytes flow n)) = Some (c, t)" "length c = length (payload_of (test_bytes flow n))"
    by metis
  with p l that show ?thesis by (simp add: encrypt_into_slice_def)
qed

text \<open>Whole payloads are encrypted and truncated ones missed, in every mode, once per channel in full
  spray.\<close>

lemma test_outcomes:
  assumes "lib_ok L" "routes_two alts (routes f)" "length alts \<le> 2" "fsession f = Some s" "n = 4 \<or> n = 8"
  shows "map snd (mode_outs L f (test_bytes flow n)) =
    replicate (if mcr_enabled f \<and> mcr_spray_mode f = ''full'' then Suc (length alts) else 1) (if n = 4 then Encrypted else Missed)"
proof -
  let ?t = "routes f" and ?p = "test_bytes flow n"
  note c = two_channels [OF assms(2,3)]
  have u: "unat n = (if n = 4 then 4 else 8)" using assms(5) by auto
  have pres: "payload_present ?p \<longleftrightarrow> n = 4" using u assms(5) by (auto simp: test_fields)
  have hit: "route_hit ?t ?p" "hit_for ?t ?p d" for d
    using fallback_routes [OF assms(2)] by (auto simp: route_hit_def hit_for_def)
  have enc: "\<exists>ct tag. encrypt_into_slice L s (payload_of ?p) 1 = Inr (ct, tag)" if "n = 4"
  proof -
    have "0 < unat n" "unat n \<le> 4" using that by simp_all
    then show ?thesis using sealed_ok [OF assms(1)] by metis
  qed
  have one: "snd (plain_spec L ?t (Some s) ?p) = (if n = 4 then Encrypted else Missed)"
    "snd (primary_spec L ?t (Some s) ?p) = (if n = 4 then Encrypted else Missed)"
    "snd (copy_spec L (Some s) True nh ?p) = (if n = 4 then Encrypted else Missed)" for nh
    using pres hit u enc assms(5) c(4)
    by (auto simp: plain_spec_def primary_spec_def copy_spec_def sealed_packet_def test_fields HEADER_SIZE_def Let_def)
  have full: "map snd (full_spec L ?t (Some s) ?p) = replicate (Suc (length alts)) (if n = 4 then Encrypted else Missed)"
    using c(1,2) hit(2) one(3) by (simp add: full_spec_def test_fields HEADER_SIZE_def comp_def map_replicate_const)
  show ?thesis using one full by (cases "n = 4") (simp_all add: mode_outs_def assms(4))
qed

subsection \<open>They pass\<close>

text \<open>A process that earlier tests have used.\<close>

definition used_process :: "process \<Rightarrow> bool" where
  "used_process w \<longleftrightarrow> (\<forall>th. used_cache (epoch w) (tcaches w th)) \<and> (\<forall>th. used_spray (epoch w) (scaches w th))"

lemma proc_ok_used: "proc_ok t w \<Longrightarrow> used_process w"
  by (auto simp: used_process_def proc_ok_def cache_ok_def spray_ok_def used_cache_def used_spray_def in_set_conv_nth)

lemma test_forwarder_ok:
  assumes "lib_ok L" "used_process w" "unat (epoch w) < 2 ^ 64 - 1"
    and "test_forwarder L env now n alts kc w = (fwd, kc', w')"
  obtains s where "routes_two alts (routes fwd)" "fsession fwd = Some s" "proc_ok (routes fwd) w'"
    "arena fwd = \<lparr>content = [], cap = ARENA_INIT\<rparr>" "mcr_enabled fwd = get_mcr_enabled env"
    "mcr_spray_mode fwd = get_mcr_spray_mode env" "epoch w' = epoch w + 1"
proof -
  let ?e = "test_route (fill_arr 2) (fill_arr 3) 1 n alts"
  obtain t where u: "update_route now ?e (table_new, epoch w) = (t, epoch w + 1)" "table_wf t"
    "routes_of t = (routes_of table_new)(dest_id ?e \<mapsto> ?e\<lparr>last_seen := now\<rparr>)"
    "entries t = btree_insert (dest_id ?e) (?e\<lparr>last_seen := now\<rparr>) (entries table_new)"
    by (rule updated [OF table_wf_new])
  have two: "routes_two alts t" using u(2-4) by (auto simp: routes_two_def routes_of_new) (simp add: table_new_def)
  have f: "fwd = fst (forwarder_with_session L env t (replicate 32 0x42) (ascii ''datapath-default'') kc)"
    "w' = w\<lparr>epoch := epoch w + 1\<rparr>"
    using assms(4) u(1) by (auto simp: test_forwarder_def forwarder_new_def split: prod.splits)
  note parts = forwarder_with_session_parts [of L env t "replicate 32 0x42" "ascii ''datapath-default''" kc, folded f(1)]
  obtain s where "fst (HybridSession_new L (replicate 32 0x42) (ascii ''datapath-default'') kc) = Inr s"
    using session_made [OF assms(1)] by blast
  moreover have "proc_ok t w'"
    using assms(2,3) used_cache_ok used_spray_ok unfolding proc_ok_def used_process_def f(2) by simp
  ultimately show ?thesis using that [of s] two parts f(2) by simp
qed

text \<open>What one packet does on the forwarder of the tests.\<close>

lemma test_run:
  assumes "lib_ok L" "used_process w" "unat (epoch w) < 2 ^ 64 - 1" "length alts \<le> 2" "n = 4 \<or> n = 8"
    and "test_forwarder L env now k alts kc w = (fwd, kc', w')"
  defines "m \<equiv> (if get_mcr_enabled env \<and> get_mcr_spray_mode env = ''full'' then Suc (length alts) else 1)"
  shows "\<exists>outs w2. run_on_mock L threads sched fwd (build_socket [test_bytes flow n]) w' =
      Inr (count_outcomes (replicate m (if n = 4 then Encrypted else Missed)) (stats_of 1), \<lparr>m_frames = [], m_sent = outs\<rparr>, w2)
    \<and> length outs = m \<and> outs = map fst (mode_outs L fwd (test_bytes flow n)) \<and> used_process w2
    \<and> (get_mcr_enabled env \<and> get_mcr_spray_mode env \<noteq> ''full'' \<longrightarrow> epoch w2 = epoch w + 1)"
proof -
  obtain s where f: "routes_two alts (routes fwd)" "fsession fwd = Some s" "proc_ok (routes fwd) w'"
    "arena fwd = \<lparr>content = [], cap = ARENA_INIT\<rparr>" "mcr_enabled fwd = get_mcr_enabled env"
    "mcr_spray_mode fwd = get_mcr_spray_mode env" "epoch w' = epoch w + 1"
    by (rule test_forwarder_ok [OF assms(1-3,6)])
  have ch: "length (channels_of (routes fwd) (test_bytes flow n)) \<le> 3"
    using two_channels(2) [OF f(1) assms(4)] assms(4) by simp
  have cap: "cap (arena fwd) \<le> 2 ^ 61" by (simp add: f(4) ARENA_INIT_def)
  from result_on_mock [OF one_packet [OF assms(1) f(3) cap test_fields(1) ch]] obtain w2 f' sent where
    r: "run_on_mock L threads sched fwd (build_socket [test_bytes flow n]) w' =
      Inr (count_outcomes (map snd (mode_outs L fwd (test_bytes flow n))) (stats_of 1),
        \<lparr>m_frames = [], m_sent = map fst (mode_outs L fwd (test_bytes flow n))\<rparr>, w2)"
    "proc_ok (routes fwd) w2" "process_batch L threads sched [test_bytes flow n] fwd w' =
      Inr (count_outcomes (map snd (mode_outs L fwd (test_bytes flow n))) (stats_of 1), Some sent, f', w2)" by blast
  have o': "map snd (mode_outs L fwd (test_bytes flow n)) = replicate m (if n = 4 then Encrypted else Missed)"
    using test_outcomes [OF assms(1) f(1) assms(4) f(2) assms(5)] by (simp add: m_def f(5,6))
  then have "length (mode_outs L fwd (test_bytes flow n)) = m" by (metis length_map length_replicate)
  moreover have "epoch w2 = epoch w + 1" if "get_mcr_enabled env" "get_mcr_spray_mode env \<noteq> ''full''"
    using primary_own_caches [OF r(3)] that f(5-7) by simp
  ultimately show ?thesis using r(1,2) o' proc_ok_used by (simp add: r(1) o')
qed

lemma encrypts_passes:
  assumes "lib_ok L" "used_process w" "unat (epoch w) < 2 ^ 64 - 1"
  shows "forwarder_encrypts_and_sends L threads sched env now kc w"
    and "forwarder_rejects_truncated_payloads L threads sched env now kc w"
proof -
  obtain fwd kc' w' where f: "test_forwarder L env now 1 [] kc w = (fwd, kc', w')" by (metis prod_cases3)
  have m: "(if get_mcr_enabled env \<and> get_mcr_spray_mode env = ''full'' then Suc (length ([] :: node_id list)) else 1) = 1"
    by simp
  from test_run [OF assms _ _ f, of 4 threads sched 1, unfolded m] show "forwarder_encrypts_and_sends L threads sched env now kc w"
    by (auto simp: f forwarder_encrypts_and_sends_def test_packet_eq test_bytes_def [symmetric] count_outcomes_def stats_of_def)
  from test_run [OF assms _ _ f, of 8 threads sched 1, unfolded m]
  show "forwarder_rejects_truncated_payloads L threads sched env now kc w"
    by (auto simp: f forwarder_rejects_truncated_payloads_def test_packet_eq test_bytes_def [symmetric] count_outcomes_def stats_of_def)
qed

lemma full_spray_test_passes:
  assumes "lib_ok L" "used_process w" "unat (epoch w) < 2 ^ 64 - 1"
  shows "mcr_full_spray_duplicates_outputs L threads sched env now kc w"
proof -
  let ?env = "env(''MOHAWK_MCR_SPRAY_MODE'' \<mapsto> ''full'', ''MOHAWK_MCR_ENABLED'' \<mapsto> ''1'')"
  have e: "get_mcr_enabled ?env" "get_mcr_spray_mode ?env = ''full''" by (simp_all add: get_mcr_enabled_def get_mcr_spray_mode_def)
  obtain fwd kc' w' where f: "test_forwarder L ?env now 3 [fill_arr 4, fill_arr 5] kc w = (fwd, kc', w')" by (metis prod_cases3)
  from test_run [OF assms, of "[fill_arr 4, fill_arr 5]" 4 ?env now 3 kc fwd kc' w' threads sched 1] f e
  show ?thesis
    by (auto simp: mcr_full_spray_duplicates_outputs_def test_packet_eq test_bytes_def [symmetric] count_outcomes_def stats_of_def
        simp del: fun_upd_apply)
qed

lemma clamps_passes: "slice_ring_clamps_overlong_frames"
  by (simp add: slice_ring_clamps_overlong_frames_def mock_poll_def build_socket_def poll_slices_def poll_slice_def
      ring_clear_def SliceRing_new_def claim_def slot_write_def set_len_def bindr_def slot_def subslice_def overwrite_def
      numeral_eq_Suc)

lemma slices_test_passes:
  assumes "lib_ok L" "used_process w" "unat (epoch w) < 2 ^ 64 - 1"
  shows "process_batch_slices_encrypts_and_sends L env now kc w"
proof -
  obtain fwd kc' w' where f: "test_forwarder L env now 1 [] kc w = (fwd, kc', w')" by (metis prod_cases3)
  obtain s where p: "routes_two [] (routes fwd)" "fsession fwd = Some s" "proc_ok (routes fwd) w'"
    "arena fwd = \<lparr>content = [], cap = ARENA_INIT\<rparr>" by (rule test_forwarder_ok [OF assms f])
  let ?p = "test_bytes 1 4" and ?ring = "SliceRing_new 1 (HEADER_SIZE + 4 + TAG_SIZE)"
  have fits: "arena_fits (sum_list (map length [?p]) + length [?p] * TAG_SIZE) (arena fwd)"
    by (simp add: arena_fits_def p(4) ARENA_INIT_def test_fields TAG_SIZE_def)
  from serial_batch_result [OF lib_ok_length [OF assms(1)] p(3) fits] obtain sent f' w2 where
    r: "serial_batch L [?p] fwd w' = Inr (count_outcomes [snd (plain_spec L (routes fwd) (Some s) ?p)] (stats_of 1), Some sent, f', w2)"
    "sent = (concat [fst (plain_spec L (routes fwd) (Some s) ?p)], offsets_from 0 [fst (plain_spec L (routes fwd) (Some s) ?p)])"
    unfolding batch_result_def p(2) by auto
  have k: "ring_capacity ?ring = 1" "slot_size ?ring = 116" "take 116 ?p = ?p"
    by (simp_all add: ring_capacity_def SliceRing_new_def HEADER_SIZE_def TAG_SIZE_def test_fields)
  have "process_batch_slices L [?p] ?ring fwd w' =
      Inr (count_outcomes [snd (plain_spec L (routes fwd) (Some s) ?p)] (stats_of 1), Some sent,
        case poll_slices [?p] ?ring of Inr ring' \<Rightarrow> ring' | Inl _ \<Rightarrow> ?ring, f', w2)"
    using slices_exact [OF ring_ok_new, of L "[?p]" 1 "HEADER_SIZE + 4 + TAG_SIZE" fwd w'] unfolding k by (simp add: r(1) k(3))
  moreover obtain ct tag where e: "encrypt_into_slice L s (payload_of ?p) 1 = Inr (ct, tag)" "length ct = unat (4 :: u16)"
    by (rule sealed_ok [OF assms(1), of 4 s 1]) simp_all
  moreover have "route_hit (routes fwd) ?p" using fallback_routes [OF p(1)] by (simp add: route_hit_def)
  ultimately have *: "process_batch_slices L [?p] ?ring fwd w' =
      Inr (count_outcomes [Encrypted] (stats_of 1), Some sent,
        case poll_slices [?p] ?ring of Inr ring' \<Rightarrow> ring' | Inl _ \<Rightarrow> ?ring, f', w2)"
    "plain_spec L (routes fwd) (Some s) ?p = (take 96 ?p @ ct @ bytes_of tag, Encrypted)"
    by (simp_all add: plain_spec_def test_fields HEADER_SIZE_def)
  have "sent = (concat [take 96 ?p @ ct @ bytes_of tag], offsets_from 0 [take 96 ?p @ ct @ bytes_of tag])"
    using r(2) *(2) by simp
  with *(1) sent_by_mock [of "[take 96 ?p @ ct @ bytes_of tag]"] e(2) show ?thesis
    by (simp add: process_batch_slices_encrypts_and_sends_def f test_packet_eq test_bytes_def [symmetric] mock_poll_def
        build_socket_def count_outcomes_def stats_of_def test_fields HEADER_SIZE_def TAG_SIZE_def)
qed

text \<open>The next hop of a flow over the three channels.\<close>

definition flow_hop :: "u32 \<Rightarrow> bytes" where
  "flow_hop flow = bytes_of (([fill_arr 3, fill_arr 4, fill_arr 5] :: node_id list) ! (unat flow mod 3))"

lemma dst_on_wire: "subslice 32 32 (header_bytes h @ rest) = bytes_of (dst_id h)"
  by (simp add: header_bytes_def subslice_def)

lemma primary_hop:
  assumes "lib_ok L" "routes_two [fill_arr 4, fill_arr 5] (routes f)" "fsession f = Some s" "mcr_enabled f" "mcr_spray_mode f \<noteq> ''full''"
  shows "subslice 32 32 (fst (mode_outs L f (test_bytes flow 4) ! 0)) = flow_hop flow"
proof -
  let ?p = "test_bytes flow 4" and ?d = "([fill_arr 3, fill_arr 4, fill_arr 5] :: node_id list) ! (unat flow mod 3)"
  have hop: "spray_hop_of (routes f) (fill_arr 2) flow = Some ?d"
    using two_channels(4) [OF assms(2), of flow] by simp
  obtain ct tag where e: "encrypt_into_slice L s (payload_of ?p) 1 = Inr (ct, tag)"
    by (rule sealed_ok [OF assms(1), of 4 s flow]) simp_all
  have "fst (primary_spec L (routes f) (Some s) ?p) = header_bytes (test_header flow 4\<lparr>dst_id := ?d\<rparr>) @ ct @ bytes_of tag"
    using e hop
    by (simp add: primary_spec_def sealed_packet_def test_fields HEADER_SIZE_def Let_def)
      (simp add: test_bytes_def rewrite_header_bytes)
  with assms(3-5) show ?thesis by (simp add: mode_outs_def dst_on_wire flow_hop_def)
qed

lemma balance_flows_iff:
  assumes "lib_ok L" "get_mcr_enabled env" "get_mcr_spray_mode env \<noteq> ''full''"
  shows "used_process w \<Longrightarrow> unat (epoch w) + length fs < 2 ^ 64 - 1 \<Longrightarrow>
    balance_flows L threads sched env now fs S kc w \<longleftrightarrow> 1 < card (S \<union> flow_hop ` set fs)"
proof (induction fs arbitrary: S kc w)
  case (Cons flow fs)
  then have lt: "unat (epoch w) < 2 ^ 64 - 1" by simp
  let ?alts = "[fill_arr 4, fill_arr 5] :: node_id list"
  have m: "(if get_mcr_enabled env \<and> get_mcr_spray_mode env = ''full'' then Suc (length ?alts) else 1) = 1"
    using assms(3) by simp
  obtain fwd kc' w' where f: "test_forwarder L env now 3 ?alts kc w = (fwd, kc', w')" by (metis prod_cases3)
  obtain s where p: "routes_two ?alts (routes fwd)" "fsession fwd = Some s" "mcr_enabled fwd = get_mcr_enabled env"
    "mcr_spray_mode fwd = get_mcr_spray_mode env" by (rule test_forwarder_ok [OF assms(1) Cons.prems(1) lt f])
  from test_run [OF assms(1) Cons.prems(1) lt _ _ f, of 4 threads sched flow, unfolded m] assms(2,3) obtain outs w2 where
    r: "run_on_mock L threads sched fwd (build_socket [test_bytes flow 4]) w' =
      Inr (count_outcomes [Encrypted] (stats_of 1), \<lparr>m_frames = [], m_sent = outs\<rparr>, w2)"
    "length outs = 1" "outs = map fst (mode_outs L fwd (test_bytes flow 4))" "used_process w2" "epoch w2 = epoch w + 1"
    by auto
  have "subslice 32 32 (outs ! 0) = flow_hop flow"
    using primary_hop [OF assms(1) p(1,2)] p(3,4) assms(2,3) r(2,3) by simp
  moreover have "unat (epoch w2) + length fs < 2 ^ 64 - 1"
    using Cons.prems(2) lt by (simp add: r(5) unat_word_ariths)
  ultimately show ?case
    using r(1,2) Cons.IH [OF r(4)]
    by (simp add: f test_packet_eq test_bytes_def [symmetric] count_outcomes_def stats_of_def Let_def)
qed simp

lemma balances_passes:
  assumes "lib_ok L" "used_process w" "unat (epoch w) < 2 ^ 64 - 11"
  shows "mcr_primary_spray_balances_flows L threads sched env now kc w"
proof -
  let ?env = "env(''MOHAWK_MCR_SPRAY_MODE'' \<mapsto> ''primary'', ''MOHAWK_MCR_ENABLED'' \<mapsto> ''1'')"
  have e: "get_mcr_enabled ?env" "get_mcr_spray_mode ?env \<noteq> ''full''" by (simp_all add: get_mcr_enabled_def get_mcr_spray_mode_def)
  let ?S = "{} \<union> flow_hop ` set (map of_nat [0..<10])"
  have "of_nat 0 = (0 :: u32)" "of_nat 1 = (1 :: u32)" "0 \<in> {0..<10 :: nat}" "1 \<in> {0..<10 :: nat}" by simp_all
  then have "flow_hop 0 \<in> ?S" "flow_hop 1 \<in> ?S" unfolding set_map set_upt Un_empty_left by (metis imageI)+
  moreover have "flow_hop 0 \<noteq> flow_hop 1" by (simp add: flow_hop_def)
  moreover have "finite ?S" by simp
  ultimately have "card {flow_hop 0, flow_hop 1} \<le> card ?S" by (intro card_mono) auto
  with \<open>flow_hop 0 \<noteq> flow_hop 1\<close> have "1 < card ?S" by simp
  with balance_flows_iff [OF assms(1) e assms(2), of "map of_nat [0..<10]" threads sched now "{}" kc] assms(3) show ?thesis
    unfolding mcr_primary_spray_balances_flows_def Let_def by simp
qed

subsection \<open>Properties\<close>

text \<open>C38. The tests of the wire format, of routing and of the forwarder pass for every correct AEAD,
  thread pool and clock and whatever earlier tests have left in the caches of a thread and in the
  session cache: stale entries are never seen by a later test. Those that do not take the lock of
  the environment pass under every setting another test may have made at that moment, full spray
  or MCR disabled included.\<close>

theorem datapath_tests_pass:
  assumes "lib_ok L" and "used_process w" and "0 < epoch w" "unat (epoch w) < 2 ^ 64 - 11"
  shows "marshal_and_parse src dst sid \<and> header_view_round_trip_and_bounds \<and> rejects_small_buffer
    \<and> update_and_lookup now (epoch w) (tcaches w th) \<and> predictive_choice now (epoch w) (tcaches w th)
    \<and> test_lookup_spray_single now (epoch w) \<and> test_lookup_spray_buf_matches_lookup_spray now (epoch w)
    \<and> test_lookup_spray_primary_multi_channel_caching now (epoch w) (scaches w th)
    \<and> remove_route_and_lookup_policy now (epoch w) (tcaches w th)
    \<and> forwarder_encrypts_and_sends L threads sched env now kc w
    \<and> forwarder_rejects_truncated_payloads L threads sched env now kc w
    \<and> slice_ring_clamps_overlong_frames
    \<and> process_batch_slices_encrypts_and_sends L env now kc w
    \<and> mcr_full_spray_duplicates_outputs L threads sched env now kc w
    \<and> mcr_primary_spray_balances_flows L threads sched env now kc w"
proof -
  have "unat (epoch w) < 2 ^ 64 - 1" using assms(4) by simp
  note w = assms(1,2) this
  have "epochs_left (epoch w)" "used_cache (epoch w) (tcaches w th)" "used_spray (epoch w) (scaches w th)"
    using assms(2-4) by (simp_all add: epochs_left_def used_process_def)
  note routing = routing_tests_pass [OF this]
  show ?thesis
    by (simp add: routing marshal_and_parse_passes header_view_passes rejects_small_buffer_passes encrypts_passes [OF w] clamps_passes
      slices_test_passes [OF w] full_spray_test_passes [OF w] balances_passes [OF assms(1,2,4)])
qed

theorem datapath_tests_pass_witness:
  "forwarder_encrypts_and_sends toy_lib 4 [] Map.empty 5 Map.empty example_process
    \<and> forwarder_rejects_truncated_payloads toy_lib 4 [] [''MOHAWK_MCR_SPRAY_MODE'' \<mapsto> ''full''] 5 Map.empty example_process
    \<and> mcr_primary_spray_balances_flows toy_lib 4 [] Map.empty 5 Map.empty example_process"
proof -
  have "used_process example_process" using proc_ok_used proc_ok_example by blast
  moreover have "0 < epoch example_process" "unat (epoch example_process) < 2 ^ 64 - 11" by (simp_all add: example_process_def)
  ultimately show ?thesis using datapath_tests_pass [OF toy_lib_ok] by blast
qed

end
