(* ===== verification/Tests_Afxdp.thy ===== *)
theory Tests_Afxdp
  imports Control Session Assertions
begin

text \<open>
  The unit tests of \<open>afxdp/src/rings.rs\<close> and \<open>afxdp/src/socket.rs\<close>: rings over a boxed buffer of zero
  bytes, the free list under churn, sends over a ring in memory, and the registry of sockets. The
  settings of the process (\<open>MOHAWK_FREELIST_HEADROOM\<close>) and the memory that \<open>mmap\<close> gives are
  arguments. The test with four sender threads and a reclaimer is the theory \<open>Tests_Stress\<close>.
\<close>

subsection \<open>Memory cells\<close>

declare le_bytes_0 [simp del]

lemma write32 [simp]:
  "unat off + 4 \<le> map_size r \<Longrightarrow> map_size r = length mem \<Longrightarrow> write_u32_at r off v mem = Inr (overwrite (unat off) (le_bytes v) mem)"
  by (simp add: write_u32_at_def)

lemma read32 [simp]:
  "unat off + 4 \<le> map_size r \<Longrightarrow> map_size r = length mem \<Longrightarrow> read_u32_at r off mem = Inr (le_val (subslice (unat off) 4 mem))"
  by (simp add: read_u32_at_def)

lemma read64 [simp]:
  "unat off + 8 \<le> map_size r \<Longrightarrow> map_size r = length mem \<Longrightarrow> read_u64_at r off mem = Inr (slot_at (unat off) mem 0)"
  by (simp add: read_u64_at_def peek_def slot_at_def)

lemma bytes_of_u64s_snoc: "bytes_of_u64s (xs @ [x]) = bytes_of_u64s xs @ le_bytes x"
  by (simp add: bytes_of_u64s_def)

lemma overwrite_more:
  "off + length xs + length ys \<le> length buf \<Longrightarrow>
   overwrite (off + length xs) ys (overwrite off xs buf) = overwrite off (xs @ ys) buf"
proof -
  assume "off + length xs + length ys \<le> length buf"
  moreover have "overwrite (off + length xs) ys (overwrite off xs buf) =
      overwrite (length (take off buf @ xs) + 0) ys ((take off buf @ xs) @ drop (off + length xs) buf)"
    using calculation by (simp add: overwrite_def)
  ultimately show ?thesis unfolding overwrite_append2 by (simp add: overwrite_def ac_simps)
qed

lemma loop_r_append: "loop_r step s (xs @ ys) = bindr (loop_r step s xs) (\<lambda>s. loop_r step s ys)"
  by (induction xs arbitrary: s) (simp_all add: bindr_def split: sum.splits)

text \<open>The tests write descriptors one by one; together they are one array.\<close>

definition write_descs :: "ring_mmap \<Rightarrow> u64 \<Rightarrow> u64 list \<Rightarrow> bytes \<Rightarrow> ring_fault + bytes" where
  "write_descs r desc xs mem = loop_r (\<lambda>mem (i, x). write_u64_at r (desc + of_nat (i * 8)) x mem) mem (enumerate 0 xs)"

lemma write_descs_eq:
  assumes "unat desc + 8 * length xs \<le> map_size r" "map_size r = length mem" "length mem < 2 ^ 64"
  shows "write_descs r desc xs mem = Inr (overwrite (unat desc) (bytes_of_u64s xs) mem)"
  using assms(1)
proof (induction xs rule: rev_induct)
  case Nil
  then show ?case by (simp add: write_descs_def)
next
  case (snoc x xs)
  let ?m = "overwrite (unat desc) (bytes_of_u64s xs) mem" and ?o = "desc + of_nat (length xs * 8)"
  have o: "unat ?o = unat desc + 8 * length xs"
  proof -
    have "unat (of_nat (length xs * 8) :: u64) = length xs * 8"
      using snoc.prems assms(2,3) by (subst unat_of_nat) simp
    then show ?thesis using snoc.prems assms(2,3) by (simp add: unat_word_ariths(1) del: of_nat_mult)
  qed
  have len: "length ?m = length mem" using snoc.prems assms(2) by (simp add: length_overwrite)
  have "write_descs r desc xs mem = Inr ?m" using snoc by simp
  then have "write_descs r desc (xs @ [x]) mem = write_u64_at r ?o x ?m"
    by (simp add: write_descs_def enumerate_append_eq loop_r_append split: sum.split)
  also have "\<dots> = Inr (overwrite (unat desc + length (bytes_of_u64s xs)) (le_bytes x) ?m)"
    using o len snoc.prems assms(2) by (simp add: write_u64_at_def put_raw_def)
  also have "\<dots> = Inr (overwrite (unat desc) (bytes_of_u64s (xs @ [x])) mem)"
    using snoc.prems assms(2) by (subst overwrite_more) (simp_all add: bytes_of_u64s_snoc)
  finally show ?case .
qed

text \<open>A ring whose items lie in order from the start of the array.\<close>

lemma ring_pop_flat:
  assumes "ring_cons meta mem = 0" "ring_avail meta mem \<le> msk + 1"
    and "meta + 8 \<le> length mem" "desc + 8 * (msk + 1) \<le> length mem"
  shows "ring_pop meta desc msk k mem = Inr (map (slot_at desc mem) [0..<min (ring_avail meta mem) k],
    if ring_avail meta mem = 0 then mem else overwrite (meta + 4) (le_bytes (of_nat (min (ring_avail meta mem) k) :: u32)) mem)"
proof -
  let ?a = "ring_avail meta mem" let ?n = "min ?a k"
  have c: "peek32 meta mem = Inr (ring_prod meta mem)" "peek32 (meta + 4) mem = Inr 0"
    using assms(1,3) by (simp_all add: ring_prod_def ring_cons_def)
  have a: "unat (ring_prod meta mem) = ?a" using assms(1) by (simp add: ring_avail_def)
  have n: "min ?n (msk + 1) = ?n" "?n * 8 + desc \<le> length mem" "desc + 8 * ?n \<le> length mem"
    using assms(2,4) by (auto simp: min_def)
  have s: "u64s_of ?n (subslice desc (?n * 8) mem) = map (slot_at desc mem) [0..<?n]"
    using u64s_of_slots [OF n(3), of "[]"] by (simp add: mult.commute)
  have "subslice desc 0 mem = []" by (simp add: subslice_def)
  then show ?thesis
    using n s assms(3) by (simp add: ring_pop_def c a Let_def peek_def add.commute)
qed

lemma ring_push_flat:
  assumes "unat (ring_prod meta mem) AND msk = p" "p + length xs \<le> msk + 1" "ring_avail meta mem + length xs \<le> msk + 1" "xs \<noteq> []"
    and "meta + 8 \<le> length mem" "desc + 8 * (msk + 1) \<le> length mem" 
  shows "ring_push meta desc msk xs mem = Inr (length xs,
    overwrite meta (le_bytes (ring_prod meta mem + of_nat (length xs))) (overwrite (desc + 8 * p) (bytes_of_u64s xs) mem))"
proof -
  have c: "peek32 meta mem = Inr (ring_prod meta mem)" "peek32 (meta + 4) mem = Inr (ring_cons meta mem)"
    using assms(5) by (simp_all add: ring_prod_def ring_cons_def)
  have a: "unat (ring_prod meta mem - ring_cons meta mem) = ring_avail meta mem" by (simp add: ring_avail_def)
  have n: "min (msk + 1 - ring_avail meta mem) (length xs) = length xs" "min (length xs) (msk + 1 - p) = length xs"
    "msk + 1 - ring_avail meta mem \<noteq> 0"
    using assms(2,3,4) length_greater_0_conv [of xs] by (auto simp: min_def simp del: length_greater_0_conv)
  have l: "desc + p * 8 + length (bytes_of_u64s xs) \<le> length mem" using assms(2,6) by simp
  then have w: "put_raw (desc + p * 8) (bytes_of_u64s xs) mem = Inr (overwrite (desc + 8 * p) (bytes_of_u64s xs) mem)"
    by (simp add: put_raw_def mult.commute)
  have len: "length (overwrite (desc + 8 * p) (bytes_of_u64s xs) mem) = length mem"
    using l by (intro length_overwrite) (simp add: mult.commute)
  show ?thesis
    unfolding ring_push_def c bindr_simps Let_def a assms(1) n using w len assms(5) n(3) by simp
qed

subsection \<open>The tests of the rings\<close>

definition test_rx_pop_advances_consumer :: bool where
  "test_rx_pop_advances_consumer =
     (let mem = replicate 4096 0;
          offs = \<lparr>o_rx = 0, o_rx_desc = 128, o_tx = 0, o_tx_desc = 128 + 64, o_fill = 0, o_fill_desc = 128 + 128,
            o_comp = 0, o_comp_desc = 0\<rparr>;
          ring = RingMmap_new (length mem) offs in
      expect (write_u32_at ring (o_rx offs) 4 mem) (\<lambda>mem.
      expect (write_u32_at ring (o_rx offs + 4) 0 mem) (\<lambda>mem.
      expect (write_descs ring (o_rx_desc offs) (map (\<lambda>i. 100 + of_nat i * 100) [0..<4]) mem) (\<lambda>mem.
      expect (rx_pop ring 2 mem) (\<lambda>(popped, mem).
      length popped = 2 \<and> popped ! 0 = 100 \<and> popped ! 1 = 200 \<and>
      expect (read_u32_at ring (o_rx offs + 4) mem) (\<lambda>cons. cons = 2))))))"

definition test_tx_push_writes_descriptors_and_advances_prod :: bool where
  "test_tx_push_writes_descriptors_and_advances_prod =
     (let mem = replicate 4096 0;
          offs = \<lparr>o_rx = 0, o_rx_desc = 128, o_tx = 64, o_tx_desc = 256, o_fill = 0, o_fill_desc = 256 + 8 * 8,
            o_comp = 0, o_comp_desc = 0\<rparr>;
          ring = RingMmap_new (length mem) offs in
      expect (write_u32_at ring (o_tx offs) 0 mem) (\<lambda>mem.
      expect (write_u32_at ring (o_tx offs + 4) 0 mem) (\<lambda>mem.
      let addrs = [1000, 2000, 3000] in
      expect (tx_push ring addrs mem) (\<lambda>(pushed, mem).
      pushed = 3 \<and>
      list_all (\<lambda>(i, addr). expect (read_u64_at ring (o_tx_desc offs + of_nat (i * 8)) mem) (\<lambda>v. v = addr)) (enumerate 0 addrs) \<and>
      expect (read_u32_at ring (o_tx offs) mem) (\<lambda>prod. prod = 3)))))"

definition test_comp_pop_and_fill_push :: bool where
  "test_comp_pop_and_fill_push =
     (let mem = replicate 8192 0;
          offs = \<lparr>o_rx = 0, o_rx_desc = 128, o_tx = 64, o_tx_desc = 256, o_fill = 512, o_fill_desc = 512 + 16,
            o_comp = 1024, o_comp_desc = 1024 + 16\<rparr>;
          ring = RingMmap_new (length mem) offs in
      expect (write_u32_at ring (o_comp offs) 3 mem) (\<lambda>mem.
      expect (write_u32_at ring (o_comp offs + 4) 0 mem) (\<lambda>mem.
      expect (write_descs ring (o_comp_desc offs) (map (\<lambda>i. 1000 + of_nat i * 100) [0..<3]) mem) (\<lambda>mem.
      expect (write_u32_at ring (o_fill offs) 0 mem) (\<lambda>mem.
      expect (write_u32_at ring (o_fill offs + 4) 0 mem) (\<lambda>mem.
      expect (comp_pop ring 2 mem) (\<lambda>(popped, mem).
      length popped = 2 \<and> popped ! 0 = 1000 \<and> popped ! 1 = 1100 \<and>
      expect (read_u32_at ring (o_comp offs + 4) mem) (\<lambda>cons. cons = 2) \<and>
      (let addrs = [2000, 3000] in
      expect (fill_push ring addrs mem) (\<lambda>(pushed, mem).
      pushed = 2 \<and>
      list_all (\<lambda>(i, addr). expect (read_u64_at ring (o_fill_desc offs + of_nat (i * 8)) mem) (\<lambda>v. v = addr)) (enumerate 0 addrs) \<and>
      expect (read_u32_at ring (o_fill offs) mem) (\<lambda>prod. prod = 2))))))))))"

text \<open>The cells of a ring after a write elsewhere, and after one over the ring's own cells.\<close>

lemmas cell_defs = ring_prod_def ring_cons_def ring_avail_def slot_at_def

lemma slot_base: "slot_at (desc + 8 * i) mem 0 = slot_at desc mem i"
  by (simp add: slot_at_def)

lemma slot_written:
  assumes "desc + 8 * length xs \<le> length mem" "i < length xs"
  shows "slot_at desc (overwrite desc (bytes_of_u64s xs) mem) i = xs ! i"
  using slot_put [of desc 0 xs mem i] assms by simp

lemma rx_test_passes: "test_rx_pop_advances_consumer"
proof -
  let ?xs = "map (\<lambda>i. 100 + of_nat i * 100) [0..<4] :: u64 list"
  define m1 where "m1 = overwrite 4 (le_bytes (0 :: u32)) (overwrite 0 (le_bytes (4 :: u32)) (replicate 4096 0))"
  define m2 where "m2 = overwrite 128 (bytes_of_u64s ?xs) m1"
  have l: "length m1 = 4096" by (simp add: m1_def length_overwrite)
  then have l2: "length m2 = 4096" by (simp add: m2_def length_overwrite)
  have c: "ring_prod 0 m2 = 4" "ring_cons 0 m2 = 0"
    using l by (simp_all add: cell_defs m2_def slice_overwrite_disjoint)
      (simp_all add: m1_def slice_overwrite_disjoint slice_overwrite_same length_overwrite le_val_le_bytes)
  have s: "slot_at 128 m2 i = ?xs ! i" if "i < 4" for i
    unfolding m2_def using l that by (intro slot_written) simp_all
  have p: "ring_pop 0 128 7 2 m2 = Inr ([100, 200], overwrite 4 (le_bytes (2 :: u32)) m2)"
    using c l2 by (subst ring_pop_flat) (simp_all add: ring_avail_def s upt_rec)
  show ?thesis
    unfolding test_rx_pop_advances_consumer_def Let_def
    using p l l2 by (simp add: RingMmap_new_def write_descs_eq rx_pop_def length_overwrite slice_overwrite_same le_val_le_bytes
      flip: m1_def m2_def)
qed

lemma tx_test_passes: "test_tx_push_writes_descriptors_and_advances_prod"
proof -
  let ?xs = "[1000, 2000, 3000] :: u64 list"
  define m1 where "m1 = overwrite 68 (le_bytes (0 :: u32)) (overwrite 64 (le_bytes (0 :: u32)) (replicate 4096 0))"
  define m2 where "m2 = overwrite 64 (le_bytes (3 :: u32)) (overwrite 256 (bytes_of_u64s ?xs) m1)"
  have l: "length m1 = 4096" by (simp add: m1_def length_overwrite)
  have c: "ring_prod 64 m1 = 0" "ring_cons 64 m1 = 0"
    unfolding m1_def by (simp_all add: cell_defs slice_overwrite_disjoint slice_overwrite_same length_overwrite le_val_le_bytes)
  have p: "ring_push 64 256 7 ?xs m1 = Inr (3, m2)"
    using c l by (subst ring_push_flat [where p = 0]) (simp_all add: ring_avail_def m2_def)
  have l2: "length m2 = 4096" "length (overwrite 256 (bytes_of_u64s ?xs) m1) = 4096" using l by (simp_all add: m2_def length_overwrite)
  have s: "slot_at 256 m2 i = ?xs ! i" if "i < 3" for i
    unfolding m2_def using l l2 that by (subst slot_other) (simp_all add: slot_written)
  have r: "slot_at 256 m2 0 = 1000" "slot_at 264 m2 0 = 2000" "slot_at 272 m2 0 = 3000" "ring_prod 64 m2 = 3"
    using s [of 0] s [of 1] s [of 2] slot_base [of 256 1 m2] slot_base [of 256 2 m2] l2
    by (simp_all add: m2_def ring_prod_def slice_overwrite_same le_val_le_bytes)
  show ?thesis
    unfolding test_tx_push_writes_descriptors_and_advances_prod_def Let_def
    using p l2 r by (simp add: RingMmap_new_def tx_push_def length_overwrite flip: m1_def ring_prod_def)
qed

lemma comp_fill_test_passes: "test_comp_pop_and_fill_push"
proof -
  let ?xs = "map (\<lambda>i. 1000 + of_nat i * 100) [0..<3] :: u64 list" and ?ys = "[2000, 3000] :: u64 list"
  define m1 where "m1 = overwrite 1028 (le_bytes (0 :: u32)) (overwrite 1024 (le_bytes (3 :: u32)) (replicate 8192 0))"
  define m2 where "m2 = overwrite 516 (le_bytes (0 :: u32)) (overwrite 512 (le_bytes (0 :: u32)) (overwrite 1040 (bytes_of_u64s ?xs) m1))"
  define m3 where "m3 = overwrite 1028 (le_bytes (2 :: u32)) m2"
  define m4 where "m4 = overwrite 512 (le_bytes (2 :: u32)) (overwrite 528 (bytes_of_u64s ?ys) m3)"
  have l1: "length m1 = 8192" by (simp add: m1_def length_overwrite)
  then have l2: "length (overwrite 1040 (bytes_of_u64s ?xs) m1) = 8192" "length m2 = 8192" by (simp_all add: m2_def length_overwrite)
  then have l3: "length m3 = 8192" "length (overwrite 528 (bytes_of_u64s ?ys) m3) = 8192" "length m4 = 8192"
    by (simp_all add: m3_def m4_def length_overwrite)
  have c: "ring_prod 1024 m2 = 3" "ring_cons 1024 m2 = 0"
    using l1 l2 unfolding m2_def by (simp_all add: cell_defs slice_overwrite_disjoint length_overwrite)
      (simp_all add: m1_def slice_overwrite_disjoint slice_overwrite_same length_overwrite le_val_le_bytes)
  have s: "slot_at 1040 m2 i = ?xs ! i" if "i < 3" for i
    unfolding m2_def using l1 l2 that by (simp add: slot_other length_overwrite) (subst slot_written; simp)
  have p: "ring_pop 1024 1040 893 2 m2 = Inr ([1000, 1100], m3)"
    using c l2 by (subst ring_pop_flat) (simp_all add: ring_avail_def s upt_rec m3_def)
  have cons: "ring_prod 1028 m3 = 2" using l2 by (simp add: m3_def ring_prod_def slice_overwrite_same le_val_le_bytes)
  have f: "ring_prod 512 m3 = 0" "ring_cons 512 m3 = 0"
    using l1 l2 unfolding m3_def m2_def by (simp_all add: cell_defs slice_overwrite_disjoint slice_overwrite_same length_overwrite le_val_le_bytes)
  have q: "ring_push 512 528 63 ?ys m3 = Inr (2, m4)"
    using f l3 by (subst ring_push_flat [where p = 0]) (simp_all add: ring_avail_def m4_def)
  have t: "slot_at 528 m4 i = ?ys ! i" if "i < 2" for i
    unfolding m4_def using l3 that by (subst slot_other) (simp_all add: slot_written)
  have r: "slot_at 528 m4 0 = 2000" "slot_at 536 m4 0 = 3000" "ring_prod 512 m4 = 2"
    using t [of 0] t [of 1] slot_base [of 528 1 m4] l3
    by (simp_all add: m4_def ring_prod_def slice_overwrite_same le_val_le_bytes)
  show ?thesis
    unfolding test_comp_pop_and_fill_push_def Let_def
    using p q l1 l2 l3 r cons
    by (simp add: RingMmap_new_def comp_pop_def fill_push_def length_overwrite write_descs_eq
      flip: m1_def m2_def ring_prod_def)
qed

subsection \<open>The tests of the free list\<close>

definition freelist_push_pop_roundtrip :: "u64 option \<Rightarrow> bool" where
  "freelist_push_pop_roundtrip env =
     expect (FreeList_with_capacity env 8) (\<lambda>fl.
       let (ok1, fl) = try_push 100 fl; (ok2, fl) = try_push 200 fl;
           (a, fl) = try_pop fl; (b, fl) = try_pop fl; (c, fl) = try_pop fl
       in ok1 \<and> ok2 \<and> a = Some 100 \<and> b = Some 200 \<and> c = None)"

fun push_until_full :: "nat list \<Rightarrow> nat \<Rightarrow> free_list \<Rightarrow> nat \<times> free_list" where
  "push_until_full [] pushed fl = (pushed, fl)"
| "push_until_full (i # is) pushed fl =
     (case try_push (of_nat i) fl of (ok, fl) \<Rightarrow> if ok then push_until_full is (pushed + 1) fl else (pushed, fl))"

function drain :: "nat \<Rightarrow> free_list \<Rightarrow> nat \<times> free_list" where
  "drain popped fl = (case try_pop fl of (None, fl) \<Rightarrow> (popped, fl) | (Some _, fl) \<Rightarrow> drain (popped + 1) fl)"
  by pat_completeness auto

lemma pop_uses_one: "try_pop fl = (Some v, fl') \<Longrightarrow> fl_used fl' < fl_used fl"
proof -
  assume a: "try_pop fl = (Some v, fl')"
  then have ne: "fl_tail fl - fl_head fl \<noteq> 0" and fl': "fl' = fl\<lparr>fl_head := fl_head fl + 1\<rparr>"
    by (auto simp: try_pop_def Let_def split: if_splits)
  have "unat (fl_tail fl - fl_head fl - 1) < unat (fl_tail fl - fl_head fl)"
    using unat_minus_one [OF ne] ne by (simp add: unat_gt_0)
  then show ?thesis by (simp add: fl' fl_used_def diff_diff_eq)
qed

termination drain
  by (relation "measure (\<lambda>(n, fl). fl_used fl)") (auto dest: pop_uses_one [OF sym])

declare drain.simps [simp del]

definition freelist_dynamic_headroom_adjust :: "u64 option \<Rightarrow> bool" where
  "freelist_dynamic_headroom_adjust env =
     expect (FreeList_with_capacity env 8) (\<lambda>fl.
       let (pushed, fl) = push_until_full [0..<length (fl_buf fl) * 2] 0 fl;
           new_headroom = length (fl_buf fl) div 2; fl = set_headroom (of_nat new_headroom) fl;
           (popped, fl) = drain 0 fl
       in popped = pushed)"

text \<open>One round of the churn: take frames from the list, or in turn when it is empty; publish them on
  the completion ring; reclaim them.\<close>

fun churn_allocate :: "nat \<Rightarrow> nat \<Rightarrow> nat \<Rightarrow> nat \<Rightarrow> free_list \<Rightarrow> u64 list \<times> nat \<times> free_list" where
  "churn_allocate frame_size frames 0 next_idx fl = ([], next_idx, fl)"
| "churn_allocate frame_size frames (Suc k) next_idx fl =
     (case try_pop fl of
        (Some f, fl) \<Rightarrow> (case churn_allocate frame_size frames k next_idx fl of (fs, next_idx, fl) \<Rightarrow> (f # fs, next_idx, fl))
      | (None, fl) \<Rightarrow>
          let off = of_nat (next_idx * frame_size); next_idx = (next_idx + 1) mod frames in
          (case churn_allocate frame_size frames k next_idx fl of (fs, next_idx, fl) \<Rightarrow> (off # fs, next_idx, fl)))"

definition churn_round :: "ring_mmap \<Rightarrow> nat \<Rightarrow> nat \<Rightarrow> nat \<times> free_list \<times> bytes \<Rightarrow> ring_fault + nat \<times> free_list \<times> bytes" where
  "churn_round ring frame_size frames st =
     (case st of (next_idx, fl, mem) \<Rightarrow>
      case churn_allocate frame_size frames (frames div 2) next_idx fl of (allocated, next_idx, fl) \<Rightarrow>
      let offs = map_offsets ring in
      bindr (write_u32_at ring (o_comp offs) (of_nat (length allocated)) mem) (\<lambda>mem.
      bindr (write_u32_at ring (o_comp offs + 4) 0 mem) (\<lambda>mem.
      bindr (write_descs ring (o_comp_desc offs) allocated mem) (\<lambda>mem.
      bindr (comp_pop ring frames mem) (\<lambda>(reclaimed, mem).
      Inr (next_idx, snd (push_all reclaimed fl), mem))))))"

text \<open>The offsets of the rings that all tests of the socket use.\<close>

definition boxed_offsets :: xsk_offsets where
  "boxed_offsets = \<lparr>o_rx = 0, o_rx_desc = 128, o_tx = 64, o_tx_desc = 256, o_fill = 512, o_fill_desc = 1024,
     o_comp = 2048, o_comp_desc = 4096\<rparr>"

definition frame_numbers :: "nat \<Rightarrow> nat \<Rightarrow> u64 list" where
  "frame_numbers frame_size n = map (\<lambda>i. of_nat (i * frame_size)) [0..<n]"

definition lifecycle_reclaim_under_churn :: "(nat \<Rightarrow> bytes option) \<Rightarrow> u64 option \<Rightarrow> bool" where
  "lifecycle_reclaim_under_churn mmap env =
     (let frame_size = 2048; frames = 16 in
      expect (Umem_new mmap (frame_size * frames) frame_size) (\<lambda>umem.
      let mem = replicate 16384 0; ring = RingMmap_new (length mem) boxed_offsets in
      expect (FreeList_with_capacity env frames) (\<lambda>fl.
      let fl = snd (push_all (frame_numbers frame_size frames) fl) in
      expect (loop_r (\<lambda>st _. churn_round ring frame_size frames st) (0, fl, mem) [0..<64]) (\<lambda>(next_idx, fl, mem).
      let (seen, fl) = pop_up_to (frames + 1) fl in seen \<noteq> []))))"

text \<open>The largest list the tests make has 16 frames.\<close>

lemma list_made:
  assumes "list_fits env k" "n \<le> k"
  obtains fl where "FreeList_with_capacity env n = Inr fl" "fl_ok fl" "fl_contents fl = []" "n \<le> fl_limit fl" "fl_used fl = 0"
  using FreeList_new_ok [OF list_fits_mono [OF assms]] fl_length that by (metis list.size(3))

lemma roundtrip_test_passes:
  assumes "list_fits env 16"
  shows "freelist_push_pop_roundtrip env"
proof -
  obtain fl where fl: "FreeList_with_capacity env 8 = Inr fl" "fl_ok fl" "fl_contents fl = []" "8 \<le> fl_limit fl" "fl_used fl = 0"
    using list_made [OF assms, of 8] by auto
  obtain f1 where f1: "try_push 100 fl = (True, f1)" "fl_ok f1" "fl_contents f1 = [100]" "fl_used f1 = 1" "fl_limit f1 = fl_limit fl"
    using try_push_taken [OF fl(2), of 100] fl(3-5) by auto
  obtain f2 where f2: "try_push 200 f1 = (True, f2)" "fl_ok f2" "fl_contents f2 = [100, 200]"
    using try_push_taken [OF f1(2), of 200] f1(3-5) fl(4) by auto
  obtain f3 where f3: "try_pop f2 = (Some 100, f3)" "fl_ok f3" "fl_contents f3 = [200]"
    using try_pop_exact [OF f2(2)] f2(3) by auto
  obtain f4 where f4: "try_pop f3 = (Some 200, f4)" "fl_ok f4" "fl_contents f4 = []"
    using try_pop_exact [OF f3(2)] f3(3) by auto
  have f5: "try_pop f4 = (None, f4)" using try_pop_exact [OF f4(2)] f4(3) by simp
  show ?thesis by (simp add: freelist_push_pop_roundtrip_def fl(1) f1(1) f2(1) f3(1) f4(1) f5 Let_def)
qed

lemma push_until_full_counts:
  "fl_ok fl \<Longrightarrow> \<exists>k fl'. push_until_full is n fl = (n + k, fl') \<and> fl_ok fl' \<and> fl_used fl' = fl_used fl + k"
proof (induction "is" arbitrary: n fl)
  case (Cons i "is")
  show ?case
  proof (cases "fl_used fl < fl_limit fl")
    case True
    from try_push_taken [OF Cons.prems this, of "of_nat i"] obtain fl1 where
      f: "try_push (of_nat i) fl = (True, fl1)" "fl_ok fl1" "fl_used fl1 = fl_used fl + 1" by blast
    from Cons.IH [OF f(2), of "n + 1"] obtain k fl' where
      "push_until_full is (n + 1) fl1 = (n + 1 + k, fl')" "fl_ok fl'" "fl_used fl' = fl_used fl1 + k" by blast
    then show ?thesis using f by (intro exI [of _ "k + 1"] exI [of _ fl']) simp
  next
    case False
    then show ?thesis using try_push_refused [OF Cons.prems] Cons.prems by (intro exI [of _ 0] exI [of _ fl]) simp
  qed
qed auto

lemma pop_steps:
  "try_pop fl = (if fl_used fl = 0 then (None, fl) else (Some (fl_buf fl ! (unat (fl_head fl) AND fl_mask fl)), fl\<lparr>fl_head := fl_head fl + 1\<rparr>))"
  "fl_used fl \<noteq> 0 \<Longrightarrow> fl_used (fl\<lparr>fl_head := fl_head fl + 1\<rparr>) + 1 = fl_used fl"
proof -
  have "fl_used fl = 0 \<longleftrightarrow> fl_head fl = fl_tail fl" unfolding fl_used_def unat_eq_0 by auto
  then show "try_pop fl = (if fl_used fl = 0 then (None, fl)
      else (Some (fl_buf fl ! (unat (fl_head fl) AND fl_mask fl)), fl\<lparr>fl_head := fl_head fl + 1\<rparr>))"
    by (simp add: try_pop_def Let_def)
  assume "fl_used fl \<noteq> 0"
  then have "fl_tail fl - fl_head fl \<noteq> 0" unfolding fl_used_def by (metis unat_0)
  from unat_minus_one [OF this] \<open>fl_used fl \<noteq> 0\<close> show "fl_used (fl\<lparr>fl_head := fl_head fl + 1\<rparr>) + 1 = fl_used fl"
    by (simp add: fl_used_def diff_diff_eq)
qed

lemma drain_counts: "\<exists>fl'. drain n fl = (n + fl_used fl, fl')"
proof (induction "fl_used fl" arbitrary: n fl)
  case 0
  then show ?case by (subst drain.simps) (simp add: pop_steps(1))
next
  case (Suc u)
  let ?f = "fl\<lparr>fl_head := fl_head fl + 1\<rparr>"
  have u: "fl_used ?f = u" using pop_steps(2) [of fl] Suc(2) by simp
  then obtain fl' where "drain (n + 1) ?f = (n + 1 + u, fl')" using Suc(1) [of ?f "n + 1"] by auto
  then show ?case using Suc(2) by (subst drain.simps) (auto simp: pop_steps(1))
qed

lemma headroom_test_passes:
  assumes "list_fits env 16"
  shows "freelist_dynamic_headroom_adjust env"
proof -
  obtain fl where fl: "FreeList_with_capacity env 8 = Inr fl" "fl_ok fl" "fl_used fl = 0"
    using list_made [OF assms, of 8] by auto
  from push_until_full_counts [OF fl(2), of "[0..<length (fl_buf fl) * 2]" 0] fl(3) obtain f1 where
    f1: "push_until_full [0..<length (fl_buf fl) * 2] 0 fl = (fl_used f1, f1)" by auto
  obtain f2 where f2: "drain 0 (set_headroom (of_nat (length (fl_buf f1) div 2)) f1) = (fl_used f1, f2)"
    using drain_counts [of 0 "set_headroom (of_nat (length (fl_buf f1) div 2)) f1"] by (auto simp: set_headroom_def fl_used_def)
  show ?thesis by (simp add: freelist_dynamic_headroom_adjust_def fl(1) f1 f2 Let_def)
qed

subsection \<open>Churn keeps every frame\<close>

lemma bindr_assoc: "bindr (bindr m f) g = bindr m (\<lambda>x. bindr (f x) g)"
  by (simp add: bindr_def split: sum.splits)

lemma churn_allocate_eq:
  "pop_up_to k fl = (xs, fl') \<Longrightarrow> length xs = k \<Longrightarrow> churn_allocate fs n k next_idx fl = (xs, next_idx, fl')"
proof (induction k arbitrary: fl xs)
  case (Suc k)
  then obtain v f1 where t: "try_pop fl = (Some v, f1)" by (auto split: prod.splits option.splits)
  with Suc.prems obtain ys where y: "pop_up_to k f1 = (ys, fl')" "xs = v # ys" by (auto split: prod.splits)
  with Suc.prems(2) Suc.IH [OF y(1)] t show ?case by simp
qed simp

lemma comp_after_publish:
  assumes "length mem = 16384" "length xs \<le> 1536"
  defines "r \<equiv> RingMmap_new 16384 boxed_offsets"
  shows "\<exists>mem'. bindr (write_u32_at r (o_comp boxed_offsets) (of_nat (length xs)) mem) (\<lambda>mem.
      bindr (write_u32_at r (o_comp boxed_offsets + 4) 0 mem) (\<lambda>mem.
      bindr (write_descs r (o_comp_desc boxed_offsets) xs mem) (\<lambda>mem. comp_pop r k mem))) = Inr (take k xs, mem')
    \<and> length mem' = 16384"
proof -
  define m1 where "m1 = overwrite 2052 (le_bytes (0 :: u32)) (overwrite 2048 (le_bytes (of_nat (length xs) :: u32)) mem)"
  define m2 where "m2 = overwrite 4096 (bytes_of_u64s xs) m1"
  have l: "length m1 = 16384" "length m2 = 16384" using assms(1,2) by (simp_all add: m1_def m2_def length_overwrite)
  have c: "ring_prod 2048 m2 = of_nat (length xs)" "ring_cons 2048 m2 = 0"
    using l assms(1,2) by (simp_all add: cell_defs m2_def slice_overwrite_disjoint)
      (simp_all add: m1_def slice_overwrite_disjoint slice_overwrite_same length_overwrite le_val_le_bytes)
  have a: "ring_avail 2048 m2 = length xs"
    using assms(2) by (simp add: ring_avail_def c unat_of_nat)
  have s: "map (slot_at 4096 m2) [0..<min (length xs) k] = take k xs"
    unfolding m2_def using l(1) assms(2) by (intro nth_equalityI) (auto simp: slot_written)
  have "ring_pop 2048 4096 1535 k m2 = Inr (take k xs,
      if length xs = 0 then m2 else overwrite 2052 (le_bytes (of_nat (min (length xs) k) :: u32)) m2)"
    using c(2) a l(2) assms(2) by (subst ring_pop_flat) (simp_all add: s)
  then show ?thesis
    using l assms(1,2)
    by (simp add: r_def RingMmap_new_def boxed_offsets_def comp_pop_def write_descs_eq length_overwrite flip: m1_def m2_def)
qed

lemma churn_round_ok:
  assumes "fl_ok fl" "fl_used fl = 16" "16 \<le> fl_limit fl" "length mem = 16384"
  shows "\<exists>fl' mem'. churn_round (RingMmap_new 16384 boxed_offsets) 2048 16 (next_idx, fl, mem) = Inr (next_idx, fl', mem')
    \<and> fl_ok fl' \<and> fl_contents fl' = rotate 8 (fl_contents fl) \<and> fl_limit fl' = fl_limit fl \<and> length mem' = 16384"
proof -
  let ?c = "fl_contents fl"
  from pop_up_to_ok [OF assms(1), of 8] obtain f1 where
    f1: "pop_up_to 8 fl = (take 8 ?c, f1)" "fl_ok f1" "fl_contents f1 = drop 8 ?c" "fl_limit f1 = fl_limit fl" by blast
  have t: "length (take 8 ?c) = 8" "fl_used f1 = 8" using assms(2) f1(3) by (simp_all flip: fl_length)
  note al = churn_allocate_eq [OF f1(1) t(1), of 2048 16 next_idx]
  have "length (take 8 ?c) \<le> 1536" using t(1) by simp
  from comp_after_publish [OF assms(4) this, of 16] obtain mem' where
    m: "bindr (write_u32_at (RingMmap_new 16384 boxed_offsets) (o_comp boxed_offsets) (of_nat (length (take 8 ?c))) mem) (\<lambda>mem.
      bindr (write_u32_at (RingMmap_new 16384 boxed_offsets) (o_comp boxed_offsets + 4) 0 mem) (\<lambda>mem.
      bindr (write_descs (RingMmap_new 16384 boxed_offsets) (o_comp_desc boxed_offsets) (take 8 ?c) mem) (\<lambda>mem.
        comp_pop (RingMmap_new 16384 boxed_offsets) 16 mem))) = Inr (take 16 (take 8 ?c), mem')" "length mem' = 16384" by blast
  have "min (fl_limit f1 - fl_used f1) (length (take 8 ?c)) = 8" using t assms(3) f1(4) by simp
  with push_all_ok [OF f1(2), of "take 8 ?c"] f1(3,4) obtain f2 where
    f2: "push_all (take 8 ?c) f1 = (8, f2)" "fl_ok f2" "fl_contents f2 = drop 8 ?c @ take 8 ?c" "fl_limit f2 = fl_limit fl"
    by auto
  have "churn_round (RingMmap_new 16384 boxed_offsets) 2048 16 (next_idx, fl, mem) =
      bindr (Inr (take 16 (take 8 ?c), mem')) (\<lambda>(reclaimed, mem). Inr (next_idx, snd (push_all reclaimed f1), mem))"
    unfolding m(1) [symmetric] by (simp add: churn_round_def al Let_def RingMmap_new_def bindr_assoc)
  then show ?thesis using f2 m(2) assms(2) by (simp add: rotate_drop_take flip: fl_length)
qed

lemma churn_ok:
  assumes "fl_ok fl" "fl_used fl = 16" "16 \<le> fl_limit fl" "length mem = 16384"
  shows "\<exists>fl' mem'. loop_r (\<lambda>st _. churn_round (RingMmap_new 16384 boxed_offsets) 2048 16 st) (next_idx, fl, mem) (rounds :: nat list) =
      Inr (next_idx, fl', mem') \<and> fl_ok fl' \<and> fl_contents fl' = rotate (8 * length rounds) (fl_contents fl)"
  using assms
proof (induction rounds arbitrary: fl mem)
  case (Cons i rounds)
  from churn_round_ok [OF Cons.prems, of next_idx] obtain f1 m1 where r:
    "churn_round (RingMmap_new 16384 boxed_offsets) 2048 16 (next_idx, fl, mem) = Inr (next_idx, f1, m1)" "fl_ok f1"
    "fl_contents f1 = rotate 8 (fl_contents fl)" "fl_limit f1 = fl_limit fl" "length m1 = 16384" by blast
  have "fl_used f1 = 16" using r(3) Cons.prems(2) by (metis fl_length length_rotate)
  with Cons.IH [OF r(2) this _ r(5)] r(1,3,4) Cons.prems(3) show ?case by (auto simp: rotate_rotate add.commute)
qed simp

lemma frames_taken:
  assumes "fl_ok fl" "fl_contents fl = []" "length xs \<le> fl_limit fl"
  obtains fl' where "push_all xs fl = (length xs, fl')" "fl_ok fl'" "fl_contents fl' = xs" "fl_limit fl' = fl_limit fl"
proof -
  have "min (fl_limit fl - fl_used fl) (length xs) = length xs" using assms(2,3) fl_length [of fl] by simp
  with push_all_ok [OF assms(1), of xs] assms(2) that show thesis by auto
qed

text \<open>Nothing is lost or doubled: the last loop of the test finds every frame, in the order it was given.\<close>

lemma churn_returns_all:
  assumes "list_fits env 16"
  shows "\<exists>fl fl' mem'. FreeList_with_capacity env 16 = Inr fl
    \<and> loop_r (\<lambda>st _. churn_round (RingMmap_new 16384 boxed_offsets) 2048 16 st)
        (0, snd (push_all (frame_numbers 2048 16) fl), replicate 16384 0) [0..<64] = Inr (0, fl', mem')
    \<and> fst (pop_up_to 17 fl') = frame_numbers 2048 16"
proof -
  obtain fl where fl: "FreeList_with_capacity env 16 = Inr fl" "fl_ok fl" "fl_contents fl = []" "16 \<le> fl_limit fl"
    using list_made [OF assms, of 16] by auto
  have l: "length (frame_numbers 2048 16) = 16" by (simp add: frame_numbers_def)
  then obtain f1 where f1: "push_all (frame_numbers 2048 16) fl = (16, f1)" "fl_ok f1" "fl_contents f1 = frame_numbers 2048 16"
    "fl_limit f1 = fl_limit fl"
    using frames_taken [OF fl(2,3), of "frame_numbers 2048 16"] fl(4) by auto
  have "fl_used f1 = 16" "16 \<le> fl_limit f1" using f1(3,4) l fl(4) by (simp_all flip: fl_length)
  from churn_ok [OF f1(2) this, of "replicate 16384 0" 0 "[0..<64]"] obtain f2 m2 where f2:
    "loop_r (\<lambda>st _. churn_round (RingMmap_new 16384 boxed_offsets) 2048 16 st) (0, f1, replicate 16384 0) [0..<64] = Inr (0, f2, m2)"
    "fl_ok f2" "fl_contents f2 = rotate 512 (frame_numbers 2048 16)" by (auto simp: f1(3))
  have "rotate 512 (frame_numbers 2048 16) = frame_numbers 2048 16" using rotate_conv_mod [of 512 "frame_numbers 2048 16"] l by simp
  then have "fst (pop_up_to 17 f2) = frame_numbers 2048 16" using pop_up_to_ok [OF f2(2), of 17] f2(3) l by auto
  then show ?thesis using fl(1) f1(1) f2(1) by (intro exI [of _ fl] exI [of _ f2] exI [of _ m2]) simp
qed

text \<open>Memory of the size asked for.\<close>

definition mmap_gives :: "(nat \<Rightarrow> bytes option) \<Rightarrow> bool" where
  "mmap_gives mmap \<longleftrightarrow> mmap 8192 \<noteq> None \<and> mmap 32768 \<noteq> None \<and> mmap 65536 \<noteq> None
     \<and> (\<forall>n m. mmap n = Some m \<longrightarrow> length m = n)"

lemma churn_test_passes:
  assumes "list_fits env 16" "mmap_gives mmap"
  shows "lifecycle_reclaim_under_churn mmap env"
proof -
  obtain u where u: "Umem_new mmap (2048 * 16) 2048 = Inr u"
    using assms(2) by (auto simp: mmap_gives_def Umem_new_def split: option.splits)
  from churn_returns_all [OF assms(1)] obtain fl fl' mem' where
    f: "FreeList_with_capacity env 16 = Inr fl"
      "loop_r (\<lambda>st _. churn_round (RingMmap_new 16384 boxed_offsets) 2048 16 st)
        (0, snd (push_all (frame_numbers 2048 16) fl), replicate 16384 0) [0..<64] = Inr (0, fl', mem')"
      "fst (pop_up_to 17 fl') = frame_numbers 2048 16" by blast
  obtain seen f2 where p: "pop_up_to 17 fl' = (seen, f2)" by fastforce
  moreover have "seen \<noteq> []"
  proof -
    have "seen = frame_numbers 2048 16" using p f(3) by simp
    then show ?thesis by (simp add: frame_numbers_def)
  qed
  ultimately show ?thesis
    unfolding lifecycle_reclaim_under_churn_def Let_def u expect_simps f(1) length_replicate f(2) by simp
qed

subsection \<open>The tests of the socket\<close>

text \<open>A socket over a ring in memory, without descriptors of the system. Its label and the registration
  of its counters play no part in sending.\<close>

definition boxed_socket :: "umem \<Rightarrow> ring_mmap \<Rightarrow> free_list \<Rightarrow> xdp_socket" where
  "boxed_socket umem ring fl = \<lparr>x_umem = umem, x_ring = Some ring, x_next = 0, x_free = fl, x_retries = 0, x_pressure = 0,
     x_counters = SocketCounters_new\<rparr>"

text \<open>\<open>kern\<close> is what happens to the ring while a failed attempt waits.\<close>

definition real_send_copies_into_umem :: "(nat \<Rightarrow> bytes option) \<Rightarrow> u64 option \<Rightarrow> (nat \<Rightarrow> bytes \<Rightarrow> bytes) \<Rightarrow> bool" where
  "real_send_copies_into_umem mmap env kern =
     (let frame_size = 2048; frames = 4 in
      expect (Umem_new mmap (frame_size * frames) frame_size) (\<lambda>umem.
      let mem = replicate 16384 0; ring = RingMmap_new (length mem) boxed_offsets in
      expect (FreeList_with_capacity env frames) (\<lambda>fl.
      let rs = boxed_socket umem ring fl; payload = ascii ''hello_afxdp''; offsets = [(0, length payload)] in
      expect (socket_send kern payload offsets rs mem) (\<lambda>(ok, rs, mem).
      ok \<and> take (length payload) (subslice 0 (u_frame (x_umem rs)) (u_mem (x_umem rs))) = payload
      \<and> x_pressure rs = 0 \<and> x_retries rs = 0))))"

text \<open>The thread of the test moves the consumer to the producer; it does so before the send
  (\<open>early\<close>) or while an attempt waits.\<close>

definition free_tx :: "ring_mmap \<Rightarrow> bytes \<Rightarrow> bytes" where
  "free_tx ring mem =
     (case bindr (read_u32_at ring (o_tx boxed_offsets) mem) (\<lambda>prodv. write_u32_at ring (o_tx boxed_offsets + 4) prodv mem) of
        Inl _ \<Rightarrow> mem | Inr mem \<Rightarrow> mem)"

definition retry_send ::
    "(nat \<Rightarrow> bytes option) \<Rightarrow> u64 option \<Rightarrow> bool \<Rightarrow> (bool \<Rightarrow> xdp_socket \<Rightarrow> bool) \<Rightarrow> bool" where
  "retry_send mmap env early k =
     (let frame_size = 2048; frames = 4 in
      expect (Umem_new mmap (frame_size * frames) frame_size) (\<lambda>umem.
      let mem = replicate 16384 0; ring = RingMmap_new (length mem) boxed_offsets in
      expect (write_u32_at ring (o_tx boxed_offsets) 1 mem) (\<lambda>mem.
      expect (write_u32_at ring (o_tx boxed_offsets + 4) 0 mem) (\<lambda>mem.
      expect (FreeList_with_capacity env frames) (\<lambda>fl.
      let rs = boxed_socket umem ring fl; mem = (if early then free_tx ring mem else mem);
          payload = ascii ''retry_payload''; offsets = [(0, length payload)] in
      expect (socket_send (\<lambda>_. free_tx ring) payload offsets rs mem) (\<lambda>(ok, rs, mem). k ok rs))))))"

definition send_retries_when_tx_is_full_then_succeeds :: "(nat \<Rightarrow> bytes option) \<Rightarrow> u64 option \<Rightarrow> bool \<Rightarrow> bool" where
  "send_retries_when_tx_is_full_then_succeeds mmap env early = retry_send mmap env early (\<lambda>ok rs. ok)"

text \<open>The socket of the test has number \<open>i\<close> in the registry \<open>r\<close>.\<close>

definition register_and_reconfigure_runtime :: "(nat \<Rightarrow> bytes option) \<Rightarrow> u64 option \<Rightarrow> nat \<Rightarrow> registry \<Rightarrow> bool" where
  "register_and_reconfigure_runtime mmap env i r =
     (let frame_size = 1024; frames = 8 in
      expect (Umem_new mmap (frame_size * frames) frame_size) (\<lambda>umem.
      expect (FreeList_with_capacity env frames) (\<lambda>fl.
      let fl = snd (push_all (frame_numbers frame_size frames) fl); label = ''rt-test:0'';
          r = register_socket_instance i (r\<lparr>live := (live r)(i \<mapsto> \<lparr>ls_label = label, ls_poisoned = False, ls_free = fl\<rparr>)\<rparr>);
          snaps = snapshot_freelist_headrooms r; (res, r) = set_freelist_headroom_for label 64 r;
          (applied, r) = set_freelist_headroom_all 128 r;
          r = r\<lparr>live := (live r)(i := None)\<rparr>; snaps2 = snapshot_freelist_headrooms r
      in list_ex (\<lambda>(l, _). l = label) snaps \<and> expect_some res (\<lambda>(old, got). got = 64)
         \<and> list_ex (\<lambda>(l, _, _). l = label) applied \<and> \<not> list_ex (\<lambda>(l, _). l = label) snaps2)))"

lemma boxed_ring: "RingMmap_new 16384 boxed_offsets = \<lparr>map_size = 16384, map_offsets = boxed_offsets, rx_mask = 15, tx_mask = 95,
    fill_mask = 383, comp_mask = 1535\<rparr>"
  by (simp add: RingMmap_new_def boxed_offsets_def)

lemma size_of_map [simp]: "map_size (RingMmap_new n offs) = n"
  by (simp add: RingMmap_new_def Let_def)

lemma send_at_once:
  "send_attempt r buf offs s mem = Inr (True, s', mem') \<Longrightarrow> send_from n kern r buf offs s mem = Inr (True, s', mem')"
  by (cases n) simp_all

lemma boxed_ops:
  "comp_pop (RingMmap_new 16384 boxed_offsets) = ring_pop 2048 4096 1535"
  "tx_push (RingMmap_new 16384 boxed_offsets) = ring_push 64 256 95"
  unfolding boxed_ring by (auto simp: comp_pop_def tx_push_def boxed_offsets_def fun_eq_iff)

text \<open>A send of one packet over a TX ring that is not full, from frame 0: the first attempt succeeds.\<close>

lemma boxed_send:
  assumes "length mem = 16384" "ring_avail 2048 mem = 0" "ring_cons 2048 mem = 0" "ring_avail 64 mem < 96"
    and "fl_contents fl = []" "fl_ok fl" "length (u_mem u) = 8192" "u_len u = 8192" "u_frame u = 2048" "length payload < 2048"
  shows "\<exists>s mem'. socket_send kern payload [(0, length payload)] (boxed_socket u (RingMmap_new 16384 boxed_offsets) fl) mem =
      Inr (True, s, mem') \<and> take (length payload) (subslice 0 (u_frame (x_umem s)) (u_mem (x_umem s))) = payload
    \<and> x_pressure s = 0 \<and> x_retries s = 0"
proof -
  let ?r = "RingMmap_new 16384 boxed_offsets"
  have c: "comp_pop ?r 64 mem = Inr ([], mem)"
    using assms(1-3) by (simp add: boxed_ops ring_pop_flat)
  have t: "try_pop fl = (None, fl)" using try_pop_exact [OF assms(6)] assms(5) by simp
  define q where "q = unat (ring_prod 64 mem) AND 95"
  have q: "q < 96" using and_mask_less [of 96 "unat (ring_prod 64 mem)"] by (simp add: q_def)
  have x: "\<exists>mem'. tx_push ?r [0] mem = Inr (1, mem')"
    using assms(1,4) q by (simp add: boxed_ops ring_push_flat [where p = q] q_def)
  have pl: "take (min (length payload) 2048) (subslice 0 (length payload) payload) = payload"
    using assms(10) by (simp add: subslice_def)
  define s where "s = (boxed_socket u ?r fl)\<lparr>x_next := 1, x_umem := u\<lparr>u_mem := overwrite 0 payload (u_mem u)\<rparr>,
    x_counters := SocketCounters_new\<lparr>c_fallback := 1\<rparr>\<rparr>"
  have st: "stage_packet payload ([], boxed_socket u ?r fl) (0, length payload) = Inr ([0], s)"
    using assms(7-10) pl
    by (simp add: stage_packet_def alloc_frame_def boxed_socket_def t Let_def put_raw_def s_def SocketCounters_new_def)
  from x obtain mem' where x: "tx_push ?r [0] mem = Inr (1, mem')" by blast
  have "send_attempt ?r payload [(0, length payload)] (boxed_socket u ?r fl) mem = Inr (True, s, mem')"
  proof -
    have "(boxed_socket u ?r fl)\<lparr>x_free := fl\<rparr> = boxed_socket u ?r fl" by (simp add: boxed_socket_def)
    then show ?thesis by (simp add: send_attempt_def c st x Let_def)
  qed
  from send_at_once [OF this]
  have "socket_send kern payload [(0, length payload)] (boxed_socket u ?r fl) mem = Inr (True, s, mem')"
    by (simp add: socket_send_def boxed_socket_def)
  moreover have "take (length payload) (subslice 0 (u_frame (x_umem s)) (u_mem (x_umem s))) = payload"
    using assms(7,9,10) by (simp add: s_def subslice_def overwrite_def)
  ultimately show ?thesis by (intro exI [of _ s] exI [of _ mem']) (simp add: s_def boxed_socket_def)
qed

lemma made_umem:
  assumes "mmap_gives mmap" "len = 8192 \<or> len = 32768 \<or> len = 65536" "0 < frame"
  obtains u where "Umem_new mmap len frame = Inr u" "length (u_mem u) = len" "u_len u = len" "u_frame u = frame"
proof -
  from assms(1,2) obtain m where "mmap len = Some m" "length m = len" by (auto simp: mmap_gives_def)
  with assms(3) that show thesis by (simp add: Umem_new_def)
qed

lemma zero_ring: "meta + 8 \<le> n \<Longrightarrow> ring_prod meta (replicate n 0) = 0" "meta + 8 \<le> n \<Longrightarrow> ring_cons meta (replicate n 0) = 0"
proof -
  have z: "le_val (replicate k 0) = 0" for k by (induction k) (simp_all add: le_val_def)
  show "meta + 8 \<le> n \<Longrightarrow> ring_prod meta (replicate n 0) = 0" "meta + 8 \<le> n \<Longrightarrow> ring_cons meta (replicate n 0) = 0"
    by (simp_all add: ring_prod_def ring_cons_def subslice_def z)
qed

lemma copy_test_passes:
  assumes "list_fits env 16" "mmap_gives mmap"
  shows "real_send_copies_into_umem mmap env kern"
proof -
  let ?p = "ascii ''hello_afxdp''"
  obtain u where u: "Umem_new mmap 8192 2048 = Inr u" "length (u_mem u) = 8192" "u_len u = 8192" "u_frame u = 2048"
    using made_umem [OF assms(2), of 8192 2048] by auto
  obtain fl where fl: "FreeList_with_capacity env 4 = Inr fl" "fl_ok fl" "fl_contents fl = []"
    using list_made [OF assms(1), of 4] by auto
  have z: "ring_avail 2048 (replicate 16384 0) = 0" "ring_cons 2048 (replicate 16384 0) = 0" "ring_avail 64 (replicate 16384 0) < 96"
    by (simp_all add: ring_avail_def zero_ring)
  have "length ?p < 2048" by (simp add: ascii_def)
  from boxed_send [OF _ z fl(3,2) u(2-4) this, of kern] obtain s mem' where
    "socket_send kern ?p [(0, length ?p)] (boxed_socket u (RingMmap_new 16384 boxed_offsets) fl) (replicate 16384 0) =
      Inr (True, s, mem')" "take (length ?p) (subslice 0 (u_frame (x_umem s)) (u_mem (x_umem s))) = ?p"
    "x_pressure s = 0" "x_retries s = 0" by auto
  then show ?thesis using u(1) fl(1) unfolding real_send_copies_into_umem_def Let_def by simp
qed

text \<open>The ring of the second test has 96 slots, so it is not full with one item in it: the send does not
  wait, whether or not the thread has run.\<close>

lemma retry_send_immediate:
  assumes "list_fits env 16" "mmap_gives mmap"
  shows "\<exists>s. x_retries s = 0 \<and> x_pressure s = 0 \<and> (\<forall>k. retry_send mmap env early k = k True s)"
proof -
  let ?r = "RingMmap_new 16384 boxed_offsets" and ?p = "ascii ''retry_payload''"
  define m0 where "m0 = overwrite 64 (le_bytes (1 :: u32)) (replicate 16384 (0 :: u8))"
  define m1 where "m1 = overwrite 68 (le_bytes (0 :: u32)) m0"
  define m2 where "m2 = overwrite 68 (le_bytes (1 :: u32)) m1"
  have l: "length m0 = 16384" "length m1 = 16384" "length m2 = 16384" by (simp_all add: m0_def m1_def m2_def length_overwrite)
  have p: "ring_prod 64 m1 = 1" "ring_cons 64 m1 = 0" "ring_prod 64 m2 = 1" "ring_cons 64 m2 = 1"
    using l unfolding m2_def m1_def by (simp_all add: cell_defs slice_overwrite_disjoint slice_overwrite_same le_val_le_bytes)
      (simp_all add: m0_def slice_overwrite_same le_val_le_bytes)
  have z: "ring_prod 2048 m1 = 0" "ring_cons 2048 m1 = 0" "ring_prod 2048 m2 = 0" "ring_cons 2048 m2 = 0"
    using zero_ring [of 2048 16384] unfolding m2_def m1_def m0_def by (simp_all add: cell_defs slice_overwrite_disjoint length_overwrite)
  have o: "o_tx boxed_offsets = 64" by (simp add: boxed_offsets_def)
  have f: "free_tx ?r m1 = m2"
    using l p(1) by (simp add: free_tx_def o m2_def ring_prod_def)
  obtain u where u: "Umem_new mmap 8192 2048 = Inr u" "length (u_mem u) = 8192" "u_len u = 8192" "u_frame u = 2048"
    using made_umem [OF assms(2), of 8192 2048] by auto
  obtain fl where fl: "FreeList_with_capacity env 4 = Inr fl" "fl_ok fl" "fl_contents fl = []"
    using list_made [OF assms(1), of 4] by auto
  define m where "m = (if early then m2 else m1)"
  have a: "length m = 16384" "ring_avail 2048 m = 0" "ring_cons 2048 m = 0" "ring_avail 64 m < 96"
    using l p z by (simp_all add: m_def ring_avail_def)
  have "length ?p < 2048" by (simp add: ascii_def)
  from boxed_send [OF a fl(3,2) u(2-4) this, of "\<lambda>_. free_tx ?r"] obtain s mem' where
    s: "socket_send (\<lambda>_. free_tx ?r) ?p [(0, length ?p)] (boxed_socket u ?r fl) m = Inr (True, s, mem')"
      "x_pressure s = 0" "x_retries s = 0" by auto
  have "retry_send mmap env early k = k True s" for k
    using u(1) fl(1) s(1) [unfolded m_def] f l unfolding retry_send_def Let_def
    by (cases early) (simp_all add: o flip: m0_def m1_def)
  with s(2,3) show ?thesis by blast
qed

lemma retry_test_passes:
  "list_fits env 16 \<Longrightarrow> mmap_gives mmap \<Longrightarrow> send_retries_when_tx_is_full_then_succeeds mmap env early"
  using retry_send_immediate [of env mmap early] by (auto simp: send_retries_when_tx_is_full_then_succeeds_def)

text \<open>Reconfiguring changes headrooms only.\<close>

definition same_sockets :: "(nat \<rightharpoonup> live_socket) \<Rightarrow> (nat \<rightharpoonup> live_socket) \<Rightarrow> bool" where
  "same_sockets lv lv' \<longleftrightarrow> (\<forall>j. map_option (\<lambda>s. (ls_label s, ls_poisoned s)) (lv' j) = map_option (\<lambda>s. (ls_label s, ls_poisoned s)) (lv j))"

lemma same_sockets_put: "lock_instance lv i = Some s \<Longrightarrow> same_sockets lv (put_headroom i s h lv)"
  by (auto simp: same_sockets_def put_headroom_def lock_instance_def split: option.splits if_splits)

lemma same_sockets_trans: "same_sockets lv lv' \<Longrightarrow> same_sockets lv' lv'' \<Longrightarrow> same_sockets lv lv''"
  by (simp add: same_sockets_def)

lemma same_sockets_lock:
  assumes "same_sockets lv lv'"
  shows "map_option ls_label (lock_instance lv' j) = map_option ls_label (lock_instance lv j)"
  using assms [unfolded same_sockets_def, rule_format, of j]
  by (cases "lv j"; cases "lv' j") (auto simp: lock_instance_def)

lemma headrooms_labels: "fst ` set (headrooms reg lv) = {l. \<exists>j \<in> set reg. map_option ls_label (lock_instance lv j) = Some l}"
  by (induction reg) (auto split: option.splits)

lemma headroom_for_found:
  "j \<in> set reg \<Longrightarrow> map_option ls_label (lock_instance lv j) = Some label \<Longrightarrow>
   \<exists>old lv'. headroom_for reg label h lv = (Some (old, h), lv') \<and> same_sockets lv lv'"
  by (induction reg) (auto split: option.splits intro: same_sockets_put)

lemma headroom_all_found:
  "\<exists>applied lv'. headroom_all reg h lv = (applied, lv') \<and> same_sockets lv lv'
   \<and> fst ` set applied = {l. \<exists>j \<in> set reg. map_option ls_label (lock_instance lv j) = Some l}"
proof (induction reg arbitrary: lv)
  case Nil
  then show ?case by (simp add: same_sockets_def)
next
  case (Cons i reg)
  show ?case
  proof (cases "lock_instance lv i")
    case None
    then show ?thesis using Cons.IH [of lv] by auto
  next
    case (Some s)
    let ?lv = "put_headroom i s h lv"
    from Cons.IH [of ?lv] obtain applied lv' where r: "headroom_all reg h ?lv = (applied, lv')" "same_sockets ?lv lv'"
      "fst ` set applied = {l. \<exists>j \<in> set reg. map_option ls_label (lock_instance ?lv j) = Some l}" by blast
    have "same_sockets lv lv'" using same_sockets_trans [OF same_sockets_put [OF Some]] r(2) by blast
    moreover have "fst ` set applied = {l. \<exists>j \<in> set reg. map_option ls_label (lock_instance lv j) = Some l}"
      using r(3) same_sockets_lock [OF same_sockets_put [OF Some]] by simp
    ultimately show ?thesis using r(1) Some by auto
  qed
qed

lemma registry_test_passes:
  assumes "list_fits env 16" "mmap_gives mmap"
    and "\<And>j s. live r j = Some s \<Longrightarrow> ls_label s \<noteq> ''rt-test:0''"
  shows "register_and_reconfigure_runtime mmap env i r"
proof -
  let ?l = "''rt-test:0''"
  obtain u where u: "Umem_new mmap 8192 1024 = Inr u" using made_umem [OF assms(2), of 8192 1024] by auto
  obtain fl where fl: "FreeList_with_capacity env 8 = Inr fl" using list_made [OF assms(1), of 8] by auto
  define fl1 where "fl1 = snd (push_all (frame_numbers 1024 8) fl)"
  define lv where "lv = (live r)(i \<mapsto> \<lparr>ls_label = ?l, ls_poisoned = False, ls_free = fl1\<rparr>)"
  define r1 where "r1 = register_socket_instance i (r\<lparr>live := lv\<rparr>)"
  have r1: "live r1 = lv" "i \<in> set (instances r1)"
    by (auto simp: r1_def register_socket_instance_def Let_def lv_def)
  have li: "map_option ls_label (lock_instance lv i) = Some ?l" by (simp add: lv_def lock_instance_def)
  have "?l \<in> fst ` set (snapshot_freelist_headrooms r1)"
    using r1 li by (auto simp: snapshot_freelist_headrooms_def headrooms_labels)
  then have snaps: "list_ex (\<lambda>(l, _). l = ?l) (snapshot_freelist_headrooms r1)" by (auto simp: list_ex_iff)
  from headroom_for_found [OF r1(2) li, of 64] obtain old lv2 where
    f: "set_freelist_headroom_for ?l 64 r1 = (Some (old, 64), r1\<lparr>live := lv2\<rparr>)" "same_sockets lv lv2"
    by (auto simp: set_freelist_headroom_for_def r1(1))
  from headroom_all_found [of "instances r1" 128 lv2] obtain applied lv3 where
    a: "set_freelist_headroom_all 128 (r1\<lparr>live := lv2\<rparr>) = (applied, r1\<lparr>live := lv3\<rparr>)" "same_sockets lv2 lv3"
      "fst ` set applied = {l. \<exists>j \<in> set (instances r1). map_option ls_label (lock_instance lv2 j) = Some l}"
    by (auto simp: set_freelist_headroom_all_def)
  have "?l \<in> fst ` set applied" unfolding a(3) using r1(2) li same_sockets_lock [OF f(2)] by auto
  then have app: "list_ex (\<lambda>(l, _, _). l = ?l) applied" by (force simp: list_ex_iff)
  have s3: "same_sockets lv lv3" using same_sockets_trans [OF f(2) a(2)] .
  have "?l \<notin> fst ` set (headrooms (instances r1) (lv3(i := None)))"
  proof
    assume "?l \<in> fst ` set (headrooms (instances r1) (lv3(i := None)))"
    then obtain j where j: "map_option ls_label (lock_instance (lv3(i := None)) j) = Some ?l" by (auto simp: headrooms_labels)
    then have ji: "j \<noteq> i" by (auto simp: lock_instance_def)
    with j have "map_option ls_label (lock_instance lv3 j) = Some ?l" by (simp add: lock_instance_def)
    then have "map_option ls_label (lock_instance lv j) = Some ?l" using same_sockets_lock [OF s3] by simp
    then obtain s where "live r j = Some s" "ls_label s = ?l"
      using ji by (auto simp: lv_def lock_instance_def split: option.splits if_splits)
    then show False using assms(3) by blast
  qed
  then have gone: "\<not> list_ex (\<lambda>(l, _). l = ?l) (headrooms (instances r1) (lv3(i := None)))" by (force simp: list_ex_iff)
  show ?thesis
    unfolding register_and_reconfigure_runtime_def Let_def
    using u fl snaps app gone f(1) a(1)
    by (simp add: snapshot_freelist_headrooms_def flip: fl1_def lv_def r1_def)
qed

subsection \<open>The property\<close>

text \<open>C39. The tests of the rings, the free list and the socket pass, given three things of their
  environment: the headroom it sets leaves room for a list of 16 frames (\<open>list_fits\<close>: together at most
  \<open>2 ^ 59\<close>, above which making the list panics), \<open>mmap\<close> succeeds, and no live socket of the registry has the
  label the registry test uses. The send whose comment expects it to meet a full ring, to retry and
  then to succeed does succeed, but at its first attempt and without a retry: the ring is not full,
  whether the thread that empties it has run before the send or would only run while it waits.\<close>

theorem afxdp_tests_pass:
  assumes "list_fits env 16" and "mmap_gives mmap"
    and "\<And>j s. live r j = Some s \<Longrightarrow> ls_label s \<noteq> ''rt-test:0''"
  shows "test_rx_pop_advances_consumer \<and> test_tx_push_writes_descriptors_and_advances_prod \<and> test_comp_pop_and_fill_push
    \<and> freelist_push_pop_roundtrip env \<and> freelist_dynamic_headroom_adjust env \<and> lifecycle_reclaim_under_churn mmap env
    \<and> real_send_copies_into_umem mmap env kern \<and> send_retries_when_tx_is_full_then_succeeds mmap env early
    \<and> retry_send mmap env early (\<lambda>ok rs. x_retries rs = 0 \<and> x_pressure rs = 0)
    \<and> register_and_reconfigure_runtime mmap env i r"
  using rx_test_passes tx_test_passes comp_fill_test_passes roundtrip_test_passes [OF assms(1)] headroom_test_passes [OF assms(1)]
    churn_test_passes [OF assms(1,2)] copy_test_passes [OF assms(1,2)] retry_test_passes [OF assms(1,2)]
    retry_send_immediate [OF assms(1,2), of early] registry_test_passes [OF assms(1,2,3)]
  by auto

theorem afxdp_tests_pass_witness:
  "lifecycle_reclaim_under_churn (\<lambda>n. Some (replicate n 7)) (Some 3)
   \<and> send_retries_when_tx_is_full_then_succeeds (\<lambda>n. Some (replicate n 7)) (Some 3) False
   \<and> register_and_reconfigure_runtime (\<lambda>n. Some (replicate n 7)) (Some 3) 5 \<lparr>instances = [5], live = Map.empty\<rparr>"
  using afxdp_tests_pass [of "Some 3" "\<lambda>n. Some (replicate n 7)" "\<lparr>instances = [5], live = Map.empty\<rparr>" "\<lambda>k m. m" False 5]
  by (simp add: list_fits_Some mmap_gives_def)

end
