(* ===== verification/Tests_Stress.thy ===== *)
theory Tests_Stress
  imports Tests_Afxdp
begin

text \<open>
  The stress test of \<open>afxdp/src/socket.rs\<close>: four threads send 50 packets each over one socket behind a
  mutex while a reclaimer copies TX descriptors to the completion ring. The lock makes each send
  and each round of the reclaimer one step, so a run of the test is a sequence of such steps in any
  order. The test asserts that no thread panics; the model also counts the sends that succeed.
\<close>

subsection \<open>The threads\<close>

definition stress_send :: "ring_mmap \<Rightarrow> xdp_socket \<times> bytes \<Rightarrow> ring_fault + bool \<times> xdp_socket \<times> bytes" where
  "stress_send ring st =
     (let data = replicate 256 0x55; offsets = [(0, 256)] in socket_send (\<lambda>_ mem. mem) data offsets (fst st) (snd st))"

definition reclaim_round :: "ring_mmap \<Rightarrow> bytes \<Rightarrow> ring_fault + bytes" where
  "reclaim_round rm mem =
     (let offs = map_offsets rm in
      bindr (read_u32_at rm (o_tx offs) mem) (\<lambda>prod. bindr (read_u32_at rm (o_tx offs + 4) mem) (\<lambda>cons.
      let avail = unat (ucast prod - ucast cons :: u64) in
      if avail = 0 then Inr mem
      else let cap = max ((unat (o_fill_desc offs) - unat (o_tx_desc offs)) div 8) 1; avail_clamped = min avail cap in
        bindr (loop_r (\<lambda>mem i.
            let idx = (unat cons + i) AND (cap - 1); d_off = o_tx_desc offs + of_nat (idx * 8) in
            bindr (read_u64_at rm d_off mem) (\<lambda>addr. write_u64_at rm (o_comp_desc offs + of_nat (i * 8)) addr mem))
          mem [0..<avail_clamped]) (\<lambda>mem.
        bindr (write_u32_at rm (o_comp offs) (of_nat avail_clamped) mem) (\<lambda>mem.
        write_u32_at rm (o_comp offs + 4) 0 mem)))))"

datatype stress_event = Sender | Reclaimer

text \<open>The state: the socket, the memory of its rings, and how many sends have succeeded.\<close>

definition stress_step :: "ring_mmap \<Rightarrow> xdp_socket \<times> bytes \<times> nat \<Rightarrow> stress_event \<Rightarrow> ring_fault + xdp_socket \<times> bytes \<times> nat" where
  "stress_step ring st ev =
     (case st of (s, mem, sent) \<Rightarrow>
      case ev of
        Sender \<Rightarrow> bindr (stress_send ring (s, mem)) (\<lambda>(ok, s, mem). Inr (s, mem, if ok then sent + 1 else sent))
      | Reclaimer \<Rightarrow> bindr (reclaim_round ring mem) (\<lambda>mem. Inr (s, mem, sent)))"

definition stress_test ::
    "(nat \<Rightarrow> bytes option) \<Rightarrow> u64 option \<Rightarrow> stress_event list \<Rightarrow> (xdp_socket \<Rightarrow> nat \<Rightarrow> bool) \<Rightarrow> bool" where
  "stress_test mmap env evs k =
     (let frame_size = 1024; frames = 64 in
      expect (Umem_new mmap (frame_size * frames) frame_size) (\<lambda>umem.
      let mem = replicate 65536 0; ring = RingMmap_new (length mem) boxed_offsets in
      expect (FreeList_with_capacity env frames) (\<lambda>fl.
      let (taken, fl) = push_all (frame_numbers frame_size frames) fl in
      taken = frames \<and>
      expect (loop_r (stress_step ring) (boxed_socket umem ring fl, mem, 0) evs) (\<lambda>(s, mem, sent). k s sent))))"

text \<open>The test itself: \<open>evs\<close> holds 200 sends and 200 rounds in any order.\<close>

definition stress_concurrent_senders_with_reclaimer :: "(nat \<Rightarrow> bytes option) \<Rightarrow> u64 option \<Rightarrow> stress_event list \<Rightarrow> bool" where
  "stress_concurrent_senders_with_reclaimer mmap env evs = stress_test mmap env evs (\<lambda>s sent. True)"

subsection \<open>The invariant\<close>

text \<open>\<open>n\<close> is the number of packets on the TX ring, whose consumer never moves.\<close>

definition in_umem :: "u64 \<Rightarrow> bool" where
  "in_umem a \<longleftrightarrow> unat a + 1024 \<le> 65536"

definition stress_mem :: "nat \<Rightarrow> bytes \<Rightarrow> bool" where
  "stress_mem n mem \<longleftrightarrow> length mem = 65536 \<and> n \<le> 96 \<and> ring_prod 64 mem = of_nat n \<and> ring_cons 64 mem = 0
     \<and> ring_avail 2048 mem \<le> 96 \<and> (\<forall>j < 96. in_umem (slot_at 256 mem j)) \<and> (\<forall>j < 7680. in_umem (slot_at 4096 mem j))"

definition stress_sock :: "xdp_socket \<Rightarrow> bool" where
  "stress_sock s \<longleftrightarrow> x_ring s = Some (RingMmap_new 65536 boxed_offsets) \<and> fl_ok (x_free s)
     \<and> (\<forall>a \<in> set (fl_contents (x_free s)). in_umem a)
     \<and> length (u_mem (x_umem s)) = 65536 \<and> u_len (x_umem s) = 65536 \<and> u_frame (x_umem s) = 1024"

lemma stress_ring: "RingMmap_new 65536 boxed_offsets = \<lparr>map_size = 65536, map_offsets = boxed_offsets, rx_mask = 15, tx_mask = 95,
    fill_mask = 383, comp_mask = 7679\<rparr>"
  by (simp add: RingMmap_new_def boxed_offsets_def)

lemma stress_ops:
  "comp_pop (RingMmap_new 65536 boxed_offsets) = ring_pop 2048 4096 7679"
  "tx_push (RingMmap_new 65536 boxed_offsets) = ring_push 64 256 95"
  unfolding stress_ring by (auto simp: comp_pop_def tx_push_def boxed_offsets_def fun_eq_iff)

text \<open>Writes that keep it: to the completion counters, to a completion slot, of one packet.\<close>

lemma stress_mem_cells:
  assumes "stress_mem n mem" "off + length src \<le> 65536" "72 \<le> off" "off + length src \<le> 256 \<or> 1024 \<le> off"
    and "off + length src \<le> 4096 \<or> 65536 \<le> off"
    and "ring_avail 2048 (overwrite off src mem) \<le> 96"
  shows "stress_mem n (overwrite off src mem)"
proof -
  have l: "length mem = 65536" using assms(1) by (simp add: stress_mem_def)
  have c: "ring_prod 64 (overwrite off src mem) = ring_prod 64 mem" "ring_cons 64 (overwrite off src mem) = ring_cons 64 mem"
    using l assms(2,3) by (simp_all add: ring_prod_def ring_cons_def slice_overwrite_disjoint)
  have t: "slot_at 256 (overwrite off src mem) j = slot_at 256 mem j" if "j < 96" for j
    using l assms(2,4) that by (intro slot_other) auto
  have d: "slot_at 4096 (overwrite off src mem) j = slot_at 4096 mem j" if "j < 7680" for j
    using l assms(2,5) that by (intro slot_other) auto
  show ?thesis using assms(1,2,6) c t d l by (simp add: stress_mem_def length_overwrite)
qed

lemma one_desc: "bytes_of_u64s [a] = le_bytes a"
  by (simp add: bytes_of_u64s_def)

lemma stress_mem_comp_slot:
  assumes "stress_mem n mem" "i < 7680" "in_umem a"
  shows "stress_mem n (overwrite (4096 + 8 * i) (le_bytes a) mem)"
proof -
  let ?m = "overwrite (4096 + 8 * i) (le_bytes a) mem"
  have l: "length mem = 65536" using assms(1) by (simp add: stress_mem_def)
  have lm: "length ?m = 65536" using l assms(2) by (simp add: length_overwrite)
  have c: "ring_prod 64 ?m = ring_prod 64 mem" "ring_cons 64 ?m = ring_cons 64 mem" "ring_avail 2048 ?m = ring_avail 2048 mem"
    using l assms(2) by (simp_all add: cell_defs slice_overwrite_disjoint)
  have t: "slot_at 256 ?m j = slot_at 256 mem j" if "j < 96" for j
    using l assms(2) that by (intro slot_other) auto
  have d: "slot_at 4096 ?m j = (if j = i then a else slot_at 4096 mem j)" if "j < 7680" for j
    using slot_put [of 4096 i "[a]" mem j] l assms(2) that by (auto simp: one_desc)
  show ?thesis using assms(1,3) c t d lm by (simp add: stress_mem_def)
qed

lemma stress_mem_push:
  assumes "stress_mem n mem" "in_umem f"
  shows "\<exists>mem'. ring_push 64 256 95 [f] mem = Inr (if n < 96 then 1 else 0, mem') \<and> stress_mem (if n < 96 then n + 1 else n) mem'"
proof -
  have l: "length mem = 65536" "ring_prod 64 mem = of_nat n" "ring_cons 64 mem = 0" "n \<le> 96" using assms(1) by (simp_all add: stress_mem_def)
  have u: "unat (of_nat n :: u32) = n" using l(4) by (simp add: unat_of_nat)
  then have a: "ring_avail 64 mem = n" using l(2,3) by (simp add: ring_avail_def)
  show ?thesis
  proof (cases "n < 96")
    case True
    define q where "q = unat (ring_prod 64 mem) AND 95"
    have q: "q < 96" using and_mask_less [of 96 "unat (ring_prod 64 mem)"] by (simp add: q_def)
    define m1 where "m1 = overwrite (256 + 8 * q) (le_bytes f) mem"
    define m2 where "m2 = overwrite 64 (le_bytes (of_nat (n + 1) :: u32)) m1"
    have len: "length m1 = 65536" "length m2 = 65536" using l(1) q by (simp_all add: m1_def m2_def length_overwrite)
    have "ring_push 64 256 95 [f] mem = Inr (1, m2)"
      using l a q True by (subst ring_push_flat [where p = q]) (simp_all add: one_desc m1_def m2_def q_def add.commute)
    moreover have "ring_prod 64 m2 = of_nat (n + 1)" "ring_cons 64 m2 = 0" "ring_avail 2048 m2 = ring_avail 2048 mem"
      using l(1,3) len(1) q unfolding m2_def
      by (simp_all add: cell_defs slice_overwrite_disjoint slice_overwrite_same le_val_le_bytes) (simp_all add: m1_def slice_overwrite_disjoint)
    moreover have "slot_at 256 m2 j = (if j = q then f else slot_at 256 mem j)" if "j < 96" for j
      using slot_put [of 256 q "[f]" mem j] l(1) len(1) q that by (auto simp: one_desc m2_def slot_other m1_def)
    moreover have "slot_at 4096 m2 j = slot_at 4096 mem j" if "j < 7680" for j
      using l(1) len(1) q that by (simp add: m2_def slot_other) (simp add: m1_def slot_other)
    ultimately show ?thesis using assms True len by (intro exI [of _ m2]) (simp add: stress_mem_def)
  next
    case False
    have c: "peek32 64 mem = Inr (of_nat n)" "peek32 68 mem = Inr 0" using l(1-3) by (simp_all add: ring_prod_def ring_cons_def)
    have "ring_push 64 256 95 [f] mem = Inr (0, mem)"
      using l(4) u False by (simp add: ring_push_def c Let_def)
    with False assms(1) show ?thesis by simp
  qed
qed

text \<open>A pop over a ring of any capacity takes descriptors of its array and moves the consumer.\<close>

lemma ring_pop_any:
  assumes "meta + 8 \<le> length mem" "desc + 8 * (msk + 1) \<le> length mem" "ring_avail meta mem \<le> msk + 1"
  shows "\<exists>xs. ring_pop meta desc msk k mem = Inr (xs, overwrite (meta + 4) (le_bytes (ring_cons meta mem + of_nat (min (ring_avail meta mem) k))) mem)
    \<and> set xs \<subseteq> slot_at desc mem ` {..msk}"
proof -
  define a n s n1 where "a = ring_avail meta mem" and "n = min a k" and "s = unat (ring_cons meta mem) AND msk"
    and "n1 = min n (msk + 1 - s)"
  have c: "peek32 meta mem = Inr (ring_prod meta mem)" "peek32 (meta + 4) mem = Inr (ring_cons meta mem)"
    using assms(1) by (simp_all add: ring_prod_def ring_cons_def)
  have a: "unat (ring_prod meta mem - ring_cons meta mem) = a" by (simp add: a_def ring_avail_def)
  have s: "s < msk + 1" using and_mask_less [of "msk + 1" "unat (ring_cons meta mem)"] by (simp add: s_def)
  have n: "n \<le> msk + 1" using assms(3) by (simp add: n_def a_def)
  note cb = chunk_bounds [OF s n, folded n1_def]
  have in1: "desc + 8 * (s + n1) \<le> length mem" and in2: "desc + 8 * (n - n1) \<le> length mem"
    using assms(2) mult_le_mono2 [OF cb(1), of 8] mult_le_mono2 [OF le_trans [OF cb(2) less_imp_le [OF s]], of 8] by simp_all
  let ?xs = "u64s_of n (subslice (desc + 8 * s) (8 * n1) mem @ subslice desc (8 * (n - n1)) mem)"
  have "?xs = map (slot_at desc mem) ([s..<s + n1] @ [0..<n - n1])"
    using slots_from [OF in1] slots_from [of desc 0 "n - n1" mem] in1 in2 cb(3)
      u64s_of_append [of "subslice (desc + 8 * s) (8 * n1) mem" n1 "n - n1" "subslice desc (8 * (n - n1)) mem"]
    by (simp add: length_slice)
  then have xs: "set ?xs \<subseteq> slot_at desc mem ` {..msk}" using cb(1,2) s by auto
  show ?thesis
  proof (cases "a = 0")
    case True
    then have "overwrite (meta + 4) (le_bytes (ring_cons meta mem + of_nat (min a k))) mem = mem"
      using le32.put_get [of "meta + 4" mem] assms(1) by (simp add: ring_cons_def)
    then show ?thesis using True a by (simp add: ring_pop_def c flip: a_def)
  next
    case False
    have "ring_pop meta desc msk k mem = Inr (?xs, overwrite (meta + 4) (le_bytes (ring_cons meta mem + of_nat n)) mem)"
      unfolding ring_pop_def c bindr_simps Let_def a n_def [symmetric] s_def [symmetric] n1_def [symmetric]
      using False assms(1) in1 in2 by (auto simp: peek_def algebra_simps subslice_def)
    with xs show ?thesis unfolding a_def [symmetric] n_def [symmetric] by blast
  qed
qed

lemma stress_comp_pop:
  assumes "stress_mem n mem"
  shows "\<exists>xs mem'. ring_pop 2048 4096 7679 k mem = Inr (xs, mem') \<and> (\<forall>x \<in> set xs. in_umem x) \<and> stress_mem n mem'"
proof -
  have l: "length mem = 65536" "ring_avail 2048 mem \<le> 96" using assms by (simp_all add: stress_mem_def)
  let ?m = "overwrite (2048 + 4) (le_bytes (ring_cons 2048 mem + of_nat (min (ring_avail 2048 mem) k))) mem"
  from ring_pop_any [of 2048 mem 4096 7679 k] l obtain xs where
    p: "ring_pop 2048 4096 7679 k mem = Inr (xs, ?m)" "set xs \<subseteq> slot_at 4096 mem ` {..7679}" by auto
  have "ring_avail 2048 ?m = ring_avail 2048 mem - min (ring_avail 2048 mem) k"
    using counters_after [of 2048 mem] l(1) unfolding ring_avail_def by (simp only: avail_after_pop min.cobounded1)
  then have "stress_mem n ?m" using stress_mem_cells [OF assms, of 2052] l(2) by simp
  moreover have "\<forall>x \<in> set xs. in_umem x" using p(2) assms by (auto simp: stress_mem_def)
  ultimately show ?thesis using p(1) by blast
qed

subsection \<open>Steps\<close>

lemma stress_alloc:
  assumes "stress_sock s"
  shows "\<exists>f s'. alloc_frame s = Inr (f, s') \<and> in_umem f \<and> stress_sock s'"
proof (cases "fl_contents (x_free s)")
  case Nil
  have fl: "fl_ok (x_free s)" and u: "u_frame (x_umem s) = 1024" "u_len (x_umem s) = 65536" using assms by (simp_all add: stress_sock_def)
  have t: "try_pop (x_free s) = (None, x_free s)" using try_pop_exact [OF fl] Nil by simp
  define i where "i = unat (x_next s) mod 64"
  have i: "i < 64" by (simp add: i_def)
  then have "unat (of_nat (i * 1024) :: u64) = i * 1024" by (subst unat_of_nat) simp
  with i have f: "in_umem (of_nat (i * 1024))" by (simp only: in_umem_def)
  define s1 where "s1 = s\<lparr>x_counters := (x_counters s)\<lparr>c_fallback := c_fallback (x_counters s) + 1\<rparr>, x_next := x_next s + 1\<rparr>"
  have "alloc_frame s = Inr (of_nat (i * 1024), s1)"
    using t u by (simp add: alloc_frame_def Let_def i_def s1_def)
  moreover have "stress_sock s1" using assms by (simp add: s1_def stress_sock_def)
  ultimately show ?thesis using f by blast
next
  case (Cons v vs)
  have fl: "fl_ok (x_free s)" using assms by (simp add: stress_sock_def)
  obtain fl' where "try_pop (x_free s) = (Some v, fl')" "fl_ok fl'" "fl_contents fl' = vs"
    using try_pop_exact [OF fl] Cons by auto
  then show ?thesis using assms Cons by (auto simp: alloc_frame_def stress_sock_def)
qed

lemma stress_push_all:
  assumes "stress_sock s" "\<forall>x \<in> set xs. in_umem x" "push_all xs (x_free s) = (m, fl)"
  shows "stress_sock (s\<lparr>x_free := fl, x_counters := c\<rparr>)" "stress_sock (s\<lparr>x_free := fl\<rparr>)"
proof -
  have "fl_ok (x_free s)" using assms(1) by (simp add: stress_sock_def)
  from push_all_ok [OF this, of xs] assms(3)
  have f: "fl_ok fl" "fl_contents fl = fl_contents (x_free s) @ take (min (fl_limit (x_free s) - fl_used (x_free s)) (length xs)) xs" by auto
  have "\<forall>a \<in> set (fl_contents fl). in_umem a" using f(2) assms(1,2) by (auto simp: stress_sock_def dest: in_set_takeD)
  then show "stress_sock (s\<lparr>x_free := fl, x_counters := c\<rparr>)" "stress_sock (s\<lparr>x_free := fl\<rparr>)"
    using f(1) assms(1) by (simp_all add: stress_sock_def)
qed

lemma stress_attempt:
  assumes "stress_sock s" "stress_mem n mem"
  shows "\<exists>s' mem'. send_attempt (RingMmap_new 65536 boxed_offsets) (replicate 256 0x55) [(0, 256)] s mem = Inr (n < 96, s', mem')
    \<and> stress_sock s' \<and> stress_mem (if n < 96 then n + 1 else n) mem'"
proof -
  from stress_comp_pop [OF assms(2), of 64] obtain xs m1 where
    p: "ring_pop 2048 4096 7679 64 mem = Inr (xs, m1)" "\<forall>x \<in> set xs. in_umem x" "stress_mem n m1" by blast
  define s1 where "s1 = s\<lparr>x_free := snd (push_all xs (x_free s))\<rparr>"
  have s1: "stress_sock s1" using stress_push_all(2) [OF assms(1) p(2)] by (simp add: s1_def) (metis prod.collapse)
  from stress_alloc [OF s1] obtain f s2 where a: "alloc_frame s1 = Inr (f, s2)" "in_umem f" "stress_sock s2" by blast
  define m where "m = overwrite (unat f) (replicate 256 0x55) (u_mem (x_umem s2))"
  define s3 where "s3 = s2\<lparr>x_umem := (x_umem s2)\<lparr>u_mem := m\<rparr>\<rparr>"
  have u: "length (u_mem (x_umem s2)) = 65536" "u_frame (x_umem s2) = 1024" using a(3) by (simp_all add: stress_sock_def)
  have st: "stage_packet (replicate 256 0x55) ([], s1) (0, 256) = Inr ([f], s3)"
    using u a(2) by (simp add: stage_packet_def a(1) in_umem_def put_raw_def subslice_def s3_def m_def)
  have "length m = 65536" using u(1) a(2) by (simp add: m_def in_umem_def length_overwrite)
  then have s3: "stress_sock s3" using a(3) by (simp add: s3_def stress_sock_def)
  from stress_mem_push [OF p(3) a(2)] obtain m2 where
    t: "ring_push 64 256 95 [f] m1 = Inr (if n < 96 then 1 else 0, m2)" "stress_mem (if n < 96 then n + 1 else n) m2" by blast
  define s4 where "s4 = s3\<lparr>x_pressure := x_pressure s3 + 1, x_counters := (x_counters s3)\<lparr>c_backpressure := c_backpressure (x_counters s3) + 1\<rparr>\<rparr>"
  have s4: "stress_sock s4" using s3 by (simp add: s4_def stress_sock_def)
  have s5: "stress_sock (give_back [f] s4)"
    using stress_push_all(1) [OF s4, of "[f]"] a(2) by (simp add: give_back_def split: prod.splits)
  have "send_attempt (RingMmap_new 65536 boxed_offsets) (replicate 256 0x55) [(0, 256)] s mem =
      Inr (n < 96, if n < 96 then s3 else give_back [f] s4, m2)"
    by (simp add: send_attempt_def stress_ops p(1) st t(1) Let_def flip: s1_def s4_def)
  with s3 s5 t(2) show ?thesis by (intro exI [of _ "if n < 96 then s3 else give_back [f] s4"] exI [of _ m2]) simp
qed

lemma stress_send_ok:
  assumes "stress_sock s" "stress_mem n mem"
  shows "\<exists>s' mem'. stress_send (RingMmap_new 65536 boxed_offsets) (s, mem) = Inr (n < 96, s', mem')
    \<and> stress_sock s' \<and> stress_mem (if n < 96 then n + 1 else n) mem'"
proof -
  have "\<exists>s' mem'. send_from k (\<lambda>_ mem. mem) (RingMmap_new 65536 boxed_offsets) (replicate 256 0x55) [(0, 256)] s mem = Inr (n < 96, s', mem')
    \<and> stress_sock s' \<and> stress_mem (if n < 96 then n + 1 else n) mem'" for k
    using assms
  proof (induction k arbitrary: s mem)
    case 0
    then show ?case using stress_attempt by simp
  next
    case (Suc k)
    from stress_attempt [OF Suc.prems] obtain s1 m1 where
      a: "send_attempt (RingMmap_new 65536 boxed_offsets) (replicate 256 0x55) [(0, 256)] s mem = Inr (n < 96, s1, m1)"
        "stress_sock s1" "stress_mem (if n < 96 then n + 1 else n) m1" by blast
    show ?case
    proof (cases "n < 96")
      case True
      then show ?thesis using a by simp
    next
      case False
      let ?s = "s1\<lparr>x_retries := x_retries s1 + 1, x_counters := (x_counters s1)\<lparr>c_retry := c_retry (x_counters s1) + 1\<rparr>\<rparr>"
      have "stress_sock ?s" using a(2) by (simp add: stress_sock_def)
      from Suc.IH [OF this, of m1] a(1,3) False show ?thesis by simp
    qed
  qed
  moreover have "x_ring s = Some (RingMmap_new 65536 boxed_offsets)" using assms(1) by (simp add: stress_sock_def)
  ultimately show ?thesis by (simp add: stress_send_def socket_send_def)
qed

lemma reclaim_loop:
  assumes "stress_mem n mem" "length xs \<le> 96" "\<And>i. i \<in> set xs \<Longrightarrow> i < 96"
  shows "\<exists>mem'. loop_r (\<lambda>mem i.
      bindr (read_u64_at (RingMmap_new 65536 boxed_offsets) (256 + of_nat ((i AND 95) * 8)) mem) (\<lambda>addr.
      write_u64_at (RingMmap_new 65536 boxed_offsets) (4096 + of_nat (i * 8)) addr mem)) mem xs = Inr mem'
    \<and> stress_mem n mem'"
  using assms
proof (induction xs arbitrary: mem)
  case (Cons i xs)
  let ?r = "RingMmap_new 65536 boxed_offsets"
  define q where "q = i AND 95"
  have q: "q < 96" using and_mask_less [of 96 i] by (simp add: q_def)
  have i: "i < 96" using Cons.prems(3) by simp
  have l: "length mem = 65536" using Cons.prems(1) by (simp add: stress_mem_def)
  have o: "unat (256 + of_nat (q * 8) :: u64) = 256 + 8 * q" "unat (4096 + of_nat (i * 8) :: u64) = 4096 + 8 * i"
    using q i by (simp_all add: unat_word_ariths(1) unat_of_nat del: of_nat_mult)
  have r: "read_u64_at ?r (256 + of_nat (q * 8)) mem = Inr (slot_at 256 mem q)"
    using q l o(1) by (subst read64) (simp_all add: slot_base del: of_nat_mult)
  have w: "write_u64_at ?r (4096 + of_nat (i * 8)) a mem = Inr (overwrite (4096 + 8 * i) (le_bytes a) mem)" for a
    using i l o(2) by (simp add: write_u64_at_def put_raw_def del: of_nat_mult)
  have "in_umem (slot_at 256 mem q)" using Cons.prems(1) q by (simp add: stress_mem_def)
  with stress_mem_comp_slot [OF Cons.prems(1), of i] i
  have m: "stress_mem n (overwrite (4096 + 8 * i) (le_bytes (slot_at 256 mem q)) mem)" by simp
  show ?case
    using Cons.IH [OF m] Cons.prems(2,3) r [unfolded q_def] w unfolding q_def by simp
qed simp

lemma reclaim_ok:
  assumes "stress_mem n mem"
  shows "\<exists>mem'. reclaim_round (RingMmap_new 65536 boxed_offsets) mem = Inr mem' \<and> stress_mem n mem'"
proof -
  let ?r = "RingMmap_new 65536 boxed_offsets"
  have l: "length mem = 65536" "ring_prod 64 mem = of_nat n" "ring_cons 64 mem = 0" "n \<le> 96" using assms by (simp_all add: stress_mem_def)
  have u: "unat (ucast (of_nat n :: u32) :: u64) = n" using l(4) by (simp add: unsigned_ucast_eq unsigned_of_nat take_bit_nat_eq_self)
  have rd: "read_u32_at ?r 64 mem = Inr (of_nat n)" "read_u32_at ?r 68 mem = Inr 0"
    using l(1-3) by (simp_all add: ring_prod_def ring_cons_def)
  have o: "map_offsets ?r = boxed_offsets" "o_tx boxed_offsets = 64" "o_tx_desc boxed_offsets = 256" "o_fill_desc boxed_offsets = 1024"
    "o_comp boxed_offsets = 2048" "o_comp_desc boxed_offsets = 4096" by (simp_all add: stress_ring) (simp_all add: boxed_offsets_def)
  show ?thesis
  proof (cases "n = 0")
    case True
    then show ?thesis using rd assms by (simp add: reclaim_round_def o)
  next
    case False
    from reclaim_loop [OF assms, of "[0..<n]"] l(4) obtain m1 where
      m1: "loop_r (\<lambda>mem i. bindr (read_u64_at ?r (256 + of_nat ((i AND 95) * 8)) mem) (\<lambda>addr.
        write_u64_at ?r (4096 + of_nat (i * 8)) addr mem)) mem [0..<n] = Inr m1" "stress_mem n m1" by auto
    define m2 where "m2 = overwrite 2048 (le_bytes (of_nat n :: u32)) m1"
    define m3 where "m3 = overwrite 2052 (le_bytes (0 :: u32)) m2"
    have l1: "length m1 = 65536" using m1(2) by (simp add: stress_mem_def)
    then have l2: "length m2 = 65536" by (simp add: m2_def length_overwrite)
    have w: "write_u32_at ?r 2048 (of_nat n) m1 = Inr m2" "write_u32_at ?r 2052 0 m2 = Inr m3"
      using l1 l2 by (simp_all add: m2_def m3_def)
    have "ring_prod 2048 m3 = of_nat n" "ring_cons 2048 m3 = 0"
      using l1 l2 by (simp_all add: cell_defs m3_def slice_overwrite_disjoint slice_overwrite_same le_val_le_bytes)
        (simp add: m2_def slice_overwrite_same le_val_le_bytes)
    then have a: "ring_avail 2048 m3 \<le> 96" using l(4) by (simp add: ring_avail_def unat_of_nat)
    define both where "both = le_bytes (of_nat n :: u32) @ le_bytes (0 :: u32)"
    have "m3 = overwrite 2048 both m1"
      using overwrite_more [of 2048 "le_bytes (of_nat n :: u32)" "le_bytes (0 :: u32)" m1] l1 by (simp add: m3_def m2_def both_def)
    moreover have "length both = 8" by (simp add: both_def)
    ultimately have m3: "stress_mem n m3" using stress_mem_cells [OF m1(2), of 2048 both] a by simp
    have "reclaim_round ?r mem = Inr m3"
      using False l(4) m1(1) w
      by (simp add: reclaim_round_def o rd u Let_def)
    with m3 show ?thesis by blast
  qed
qed

lemma stress_run_ok:
  assumes "stress_sock s" "stress_mem n mem"
  shows "\<exists>s' mem'. loop_r (stress_step (RingMmap_new 65536 boxed_offsets)) (s, mem, n) evs =
      Inr (s', mem', min 96 (n + count_list evs Sender))"
  using assms
proof (induction evs arbitrary: s mem n)
  case Nil
  then show ?case by (simp add: stress_mem_def)
next
  case (Cons ev evs)
  show ?case
  proof (cases ev)
    case Sender
    from stress_send_ok [OF Cons.prems] obtain s1 m1 where
      a: "stress_send (RingMmap_new 65536 boxed_offsets) (s, mem) = Inr (n < 96, s1, m1)"
        "stress_sock s1" "stress_mem (if n < 96 then n + 1 else n) m1" by blast
    have "n \<le> 96" using Cons.prems(2) by (simp add: stress_mem_def)
    with Cons.IH [OF a(2,3)] a(1) show ?thesis by (cases "n < 96") (simp_all add: Sender stress_step_def)
  next
    case Reclaimer
    from reclaim_ok [OF Cons.prems(2)] obtain m1 where
      "reclaim_round (RingMmap_new 65536 boxed_offsets) mem = Inr m1" "stress_mem n m1" by blast
    with Cons.IH [OF Cons.prems(1)] show ?thesis by (simp add: Reclaimer stress_step_def)
  qed
qed

subsection \<open>The property\<close>

text \<open>C25. The stress test panics under no interleaving of its threads, and under every one at most 96
  sends succeed: 96 of the 200 of the test. Its reclaimer publishes completions but never moves the
  consumer of the TX ring, so the ring fills and every later send gives up after its retries, an
  error the test throws away.\<close>

theorem stress_sends_96:
  assumes "list_fits env 64" and "mmap_gives mmap"
  shows "stress_test mmap env evs (\<lambda>s sent. sent = min 96 (count_list evs Sender))
    \<and> stress_concurrent_senders_with_reclaimer mmap env evs"
proof -
  obtain u where u: "Umem_new mmap 65536 1024 = Inr u" "length (u_mem u) = 65536" "u_len u = 65536" "u_frame u = 1024"
    using made_umem [OF assms(2), of 65536 1024] by auto
  obtain fl where fl: "FreeList_with_capacity env 64 = Inr fl" "fl_ok fl" "fl_contents fl = []" "64 \<le> fl_limit fl"
    using list_made [OF assms(1), of 64] by auto
  have "length (frame_numbers 1024 64) = 64" by (simp add: frame_numbers_def)
  then obtain f1 where f1: "push_all (frame_numbers 1024 64) fl = (64, f1)" "fl_ok f1" "fl_contents f1 = frame_numbers 1024 64"
    using frames_taken [OF fl(2,3), of "frame_numbers 1024 64"] fl(4) by auto
  have fa: "in_umem a" if "a \<in> set (frame_numbers 1024 64)" for a
  proof -
    from that obtain i where i: "i < 64" "a = of_nat (i * 1024)" by (auto simp: frame_numbers_def)
    then have "unat a = i * 1024" unfolding i(2) by (subst unat_of_nat) simp
    with i(1) show ?thesis by (simp add: in_umem_def)
  qed
  have s: "stress_sock (boxed_socket u (RingMmap_new 65536 boxed_offsets) f1)"
    using u f1 fa by (simp add: stress_sock_def boxed_socket_def)
  have z: "slot_at d (replicate 65536 0) j = 0" if "d + 8 * j + 8 \<le> 65536" for d j
  proof -
    have "le_val (replicate k 0) = (0 :: u64)" for k by (induction k) (simp_all add: le_val_def)
    then show ?thesis using that by (simp add: slot_at_def subslice_def)
  qed
  have m: "stress_mem 0 (replicate 65536 0)"
    by (simp add: stress_mem_def ring_avail_def zero_ring z in_umem_def)
  from stress_run_ok [OF s m, of evs] obtain s' mem' where
    r: "loop_r (stress_step (RingMmap_new 65536 boxed_offsets)) (boxed_socket u (RingMmap_new 65536 boxed_offsets) f1, replicate 65536 0, 0) evs =
      Inr (s', mem', min 96 (count_list evs Sender))" by auto
  have t: "stress_test mmap env evs k = k s' (min 96 (count_list evs Sender))" for k
    unfolding stress_test_def Let_def length_replicate using u(1) fl(1) f1(1) r by simp
  show ?thesis by (simp add: t stress_concurrent_senders_with_reclaimer_def)
qed

theorem stress_sends_96_witness:
  "stress_test (\<lambda>n. Some (replicate n 0)) None (replicate 200 Sender @ replicate 200 Reclaimer) (\<lambda>s sent. sent = 96)"
proof -
  have "count_list (replicate n x) y = (if x = y then n else 0)" for n and x y :: stress_event by (induction n) auto
  then have "count_list (replicate 200 Sender @ replicate 200 Reclaimer) Sender = 200" by simp
  then show ?thesis
    using stress_sends_96 [of None "\<lambda>n. Some (replicate n 0)" "replicate 200 Sender @ replicate 200 Reclaimer"]
    by (simp add: list_fits_None mmap_gives_def)
qed

end
