(* ===== verification/Tests_Cli.thy ===== *)
theory Tests_Cli
  imports Monitor Control Assertions
begin

text \<open>
  The unit tests of \<open>cli/src/worker.rs\<close> and \<open>cli/src/main.rs\<close>, with the replies of the HTTP server as
  text: \<open>json\<close> is what \<open>serde_json\<close> makes of a result and \<open>prom\<close> what the Prometheus encoder makes of
  the gauges. A request arrives in one read. The build without the feature \<open>real\<close>, which the tests
  run in, has functions in place of the registry of sockets that do nothing.
\<close>

subsection \<open>Replies\<close>

definition json_reply :: "string \<Rightarrow> string" where
  "json_reply body = ''HTTP/1.1 200 OK'' @ crlf @ ''Content-Type: application/json'' @ crlf
     @ ''Content-Length: '' @ show_nat (length body) @ crlf @ crlf @ body"

definition bad_request :: string where
  "bad_request = ''HTTP/1.1 400 Bad Request'' @ crlf @ ''Content-Length: 11'' @ crlf @ crlf @ ''Bad Request''"

definition http_reply :: "(http_response \<Rightarrow> string) \<Rightarrow> string \<Rightarrow> http_response \<Rightarrow> string" where
  "http_reply json prom resp =
     (case resp of
        MetricsPage \<Rightarrow> ''HTTP/1.1 200 OK'' @ crlf @ ''Content-Type: text/plain; version=0.0.4; charset=utf-8'' @ crlf
          @ ''Content-Length: '' @ show_nat (length prom) @ crlf @ crlf @ prom
      | BadRequest \<Rightarrow> bad_request
      | NotFound \<Rightarrow> ''HTTP/1.1 404 Not Found'' @ crlf @ ''Content-Length: 0'' @ crlf @ crlf
      | _ \<Rightarrow> json_reply (json resp))"

subsection \<open>The build without sockets\<close>

definition stub_headroom_all :: "u64 \<Rightarrow> (string \<times> u64 \<times> u64) list" where "stub_headroom_all headroom = []"

definition stub_headroom_for :: "string \<Rightarrow> u64 \<Rightarrow> (u64 \<times> u64) option" where "stub_headroom_for label headroom = None"

definition stub_headrooms :: "(string \<times> u64) list" where "stub_headrooms = []"

definition no_sockets :: registry where "no_sockets = \<lparr>instances = [], live = Map.empty\<rparr>"

lemma stubs_are_empty_registry:
  "set_freelist_headroom_all h no_sockets = (stub_headroom_all h, no_sockets)"
  "set_freelist_headroom_for label h no_sockets = (stub_headroom_for label h, no_sockets)"
  "snapshot_freelist_headrooms no_sockets = stub_headrooms"
  by (simp_all add: set_freelist_headroom_all_def set_freelist_headroom_for_def snapshot_freelist_headrooms_def no_sockets_def
      stub_headroom_all_def stub_headroom_for_def stub_headrooms_def)

subsection \<open>The tests\<close>

definition parses_core_lists_and_ranges :: bool where
  "parses_core_lists_and_ranges = expect (parse_core_list ''0-2,4,6-7'') (\<lambda>cores. cores = [0, 1, 2, 4, 6, 7])"

definition builds_round_robin_worker_plans :: bool where
  "builds_round_robin_worker_plans = (map core_id (build_worker_plan 5 [2, 4]) = [2, 4, 2, 4, 2])"

definition contains :: "string \<Rightarrow> string \<Rightarrow> bool" where "contains s pat \<longleftrightarrow> find_sub pat s \<noteq> None"

definition prometheus_metrics_render_expected_lines :: bool where
  "prometheus_metrics_render_expected_lines =
     (let body = render_prometheus_metrics 42 1234567890 in
      contains body ''# HELP mohawk_packets_processed_total'' \<and> contains body ''# TYPE mohawk_packets_processed_total counter''
      \<and> contains body ''mohawk_packets_processed_total 42'' \<and> contains body ''# TYPE mohawk_metrics_timestamp_seconds gauge''
      \<and> contains body ''mohawk_metrics_timestamp_seconds 1234567890'')"

definition get_control_request :: string where
  "get_control_request = ''GET /control HTTP/1.1'' @ crlf @ ''Host: localhost'' @ crlf @ crlf"

definition post_control_head :: "string \<Rightarrow> string" where
  "post_control_head body = ''POST /control HTTP/1.1'' @ crlf @ ''Host: localhost'' @ crlf @ ''Content-Length: '' @ show_nat (length body)"

definition http_control_endpoints_work :: "(http_response \<Rightarrow> string) \<Rightarrow> string \<Rightarrow> registry \<Rightarrow> bool" where
  "http_control_endpoints_work json prom r =
     (let (resp, r) = handle_request get_control_request r; resp = http_reply json prom resp;
          body = ''headroom=128''; req = post_control_head body @ crlf @ crlf @ body;
          (resp2, r) = handle_request req r; resp2 = http_reply json prom resp2
      in starts_with resp ''HTTP/1.1 200'' \<and> contains resp ''application/json''
         \<and> (starts_with resp2 ''HTTP/1.1 200'' \<or> starts_with resp2 ''HTTP/1.1 400'')
         \<and> (contains resp2 ''application/json'' \<or> contains resp2 ''OK'' \<or> contains resp2 ''Bad Request''))"

subsection \<open>They pass\<close>

lemma find_sub_self: "find_sub p (p @ b) \<noteq> None"
proof -
  have "take (length p) (p @ b) = p" by simp
  then show ?thesis by (cases "p @ b") auto
qed

lemma contains_mid: "contains (a @ p @ b) p"
  unfolding contains_def
proof (induction a)
  case Nil
  then show ?case using find_sub_self [of p b] by simp
next
  case (Cons c a)
  then show ?case by auto
qed

lemma contains_append: "contains s p \<Longrightarrow> contains (s @ t) p"
  using find_sub_append by (fastforce simp: contains_def)

lemma containsI: "s = a @ p @ b \<Longrightarrow> contains s p"
  using contains_mid by simp

lemma core_list_test_passes: "parses_core_lists_and_ranges"
  by (simp add: parses_core_lists_and_ranges_def parse_core_list_def parse_chunk_def parse_core_def parse_usize_def digit_of_def
      trim_def is_blank_def upt_rec)

lemma plan_test_passes: "builds_round_robin_worker_plans"
  by code_simp

text \<open>What the exporter renders, for any count and time.\<close>

lemma rendered_lines:
  "contains (render_prometheus_metrics n t) ''# HELP mohawk_packets_processed_total''"
  "contains (render_prometheus_metrics n t) ''# TYPE mohawk_packets_processed_total counter''"
  "contains (render_prometheus_metrics n t) (''mohawk_packets_processed_total '' @ show_nat (unat n))"
  "contains (render_prometheus_metrics n t) ''# TYPE mohawk_metrics_timestamp_seconds gauge''"
  "contains (render_prometheus_metrics n t) (''mohawk_metrics_timestamp_seconds '' @ show_nat (unat t))"
proof -
  let ?l1 = "''# HELP mohawk_packets_processed_total Total packets processed by the datapath.''"
  let ?l2 = "''# TYPE mohawk_packets_processed_total counter''"
  let ?l3 = "''mohawk_packets_processed_total '' @ show_nat (unat n)"
  let ?l4 = "''# HELP mohawk_metrics_timestamp_seconds Unix timestamp for the current sample.''"
  let ?l5 = "''# TYPE mohawk_metrics_timestamp_seconds gauge''"
  let ?l6 = "''mohawk_metrics_timestamp_seconds '' @ show_nat (unat t)"
  have r: "render_prometheus_metrics n t = ?l1 @ newline @ ?l2 @ newline @ ?l3 @ newline @ ?l4 @ newline @ ?l5 @ newline @ ?l6 @ newline"
    by (simp only: render_prometheus_metrics_def append_assoc)
  have l1: "?l1 = ''# HELP mohawk_packets_processed_total'' @ '' Total packets processed by the datapath.''" by simp
  show "contains (render_prometheus_metrics n t) ''# HELP mohawk_packets_processed_total''"
    unfolding r l1 by (rule containsI [where a = "[]"]) (simp only: append_Nil append_assoc)
  show "contains (render_prometheus_metrics n t) ?l2"
    unfolding r by (rule containsI [where a = "?l1 @ newline"]) (simp only: append_assoc)
  show "contains (render_prometheus_metrics n t) ?l3"
    unfolding r by (rule containsI [where a = "?l1 @ newline @ ?l2 @ newline"]) (simp only: append_assoc)
  show "contains (render_prometheus_metrics n t) ?l5"
    unfolding r by (rule containsI [where a = "?l1 @ newline @ ?l2 @ newline @ ?l3 @ newline @ ?l4 @ newline"]) (simp only: append_assoc)
  show "contains (render_prometheus_metrics n t) ?l6"
    unfolding r by (rule containsI [where a = "?l1 @ newline @ ?l2 @ newline @ ?l3 @ newline @ ?l4 @ newline @ ?l5 @ newline"])
      (simp only: append_assoc)
qed

lemma render_test_passes: "prometheus_metrics_render_expected_lines"
proof -
  have s: "''mohawk_packets_processed_total '' @ show_nat (unat (42 :: u64)) = ''mohawk_packets_processed_total 42''"
    "''mohawk_metrics_timestamp_seconds '' @ show_nat (unat (1234567890 :: u64)) = ''mohawk_metrics_timestamp_seconds 1234567890''"
    by (simp_all add: show_nat.simps char_of_def bit_numeral_rec bit_Suc_0_iff)
  show ?thesis
    unfolding prometheus_metrics_render_expected_lines_def Let_def s [symmetric] by (intro conjI rendered_lines)
qed

lemma starts_in_request: "length p \<le> length data \<Longrightarrow> length data \<le> 4096 \<Longrightarrow> starts_with (request_text data) p = starts_with data p"
  by (simp add: starts_with_def request_text_def)

lemma get_control_reply: "handle_request get_control_request r = (Headrooms (snapshot_freelist_headrooms r), r)"
proof -
  have l: "length get_control_request = 42" by (simp add: get_control_request_def crlf_def)
  have "\<not> starts_with get_control_request ''GET /metrics''" "\<not> starts_with get_control_request ''GET / ''"
    "starts_with get_control_request ''GET /control''" by code_simp+
  then show ?thesis by (simp add: handle_request_def Let_def starts_in_request l)
qed

lemma post_control_refused:
  "handle_request (post_control_head ''headroom=128'' @ crlf @ crlf @ ''headroom=128'') r = (BadRequest, r)"
proof (rule control_post_refuses_final_value)
  show "starts_with (post_control_head ''headroom=128'' @ crlf @ crlf @ ''headroom=128'') ''POST /control''" by code_simp
  show "find_sub (crlf @ crlf) (post_control_head ''headroom=128'' @ crlf @ crlf) = Some (length (post_control_head ''headroom=128''))"
    by code_simp
  show "length (post_control_head ''headroom=128'' @ crlf @ crlf @ ''headroom=128'') < 4096" by code_simp
  show "find_sub ''headroom='' ''headroom=128'' = Some 0" by simp
qed (simp_all add: is_blank_def)

lemma json_reply_shape: "starts_with (json_reply body) ''HTTP/1.1 200''" "contains (json_reply body) ''application/json''"
proof -
  show "starts_with (json_reply body) ''HTTP/1.1 200''" by (simp add: starts_with_def json_reply_def)
  have "contains ((''HTTP/1.1 200 OK'' @ crlf @ ''Content-Type: '') @ ''application/json''
      @ crlf @ ''Content-Length: '' @ show_nat (length body) @ crlf @ crlf @ body) ''application/json''" by (rule contains_mid)
  then show "contains (json_reply body) ''application/json''" by (simp add: json_reply_def)
qed

text \<open>The tests pass in every build and whatever sockets are registered. The test of the server takes a
  400 for a sign that no socket is registered; but its request ends with the value, and such a
  request is refused with any registry.\<close>

theorem cli_tests_pass:
  "parses_core_lists_and_ranges \<and> builds_round_robin_worker_plans \<and> prometheus_metrics_render_expected_lines
   \<and> http_control_endpoints_work json prom r
   \<and> http_reply json prom (fst (handle_request (post_control_head ''headroom=128'' @ crlf @ crlf @ ''headroom=128'') r)) = bad_request"
proof -
  have b: "starts_with bad_request ''HTTP/1.1 400''" "contains bad_request ''Bad Request''" by code_simp+
  have "http_reply json prom (Headrooms hs) = json_reply (json (Headrooms hs))" for hs by (simp add: http_reply_def)
  moreover have "http_reply json prom BadRequest = bad_request" by (simp add: http_reply_def)
  ultimately show ?thesis
    using core_list_test_passes plan_test_passes render_test_passes json_reply_shape b
    by (simp add: http_control_endpoints_work_def get_control_reply post_control_refused)
qed

end
