(* ===== verification/Tests_Bridge.thy ===== *)
theory Tests_Bridge
  imports Bridge Assertions
begin

text \<open>
  The tests of \<open>cli/src/bridge.rs\<close>: they read the contract's files (schema, example request, manifest
  of digests) from the first \<open>bridge\<close> directory they find. The file system is a map from paths to
  contents, a path the list of its parts; \<open>serde_json\<close> and SHA-256 are parameters, and the only law
  the theorem asks of them is that a request survives encoding and decoding.
\<close>

type_synonym path = "string list"

subsection \<open>Finding the files\<close>

definition bridge_candidates :: "path \<Rightarrow> path list" where
  "bridge_candidates manifest_dir =
     [manifest_dir @ [''..'', ''..'', ''bridge''], manifest_dir @ [''..'', ''bridge''], manifest_dir @ [''bridge''],
      [''/'', ''workspaces'', ''bridge''], [''bridge'']]"

definition bridge_root :: "(path \<Rightarrow> bool) \<Rightarrow> path \<Rightarrow> path" where
  "bridge_root exists manifest_dir =
     (let candidates = bridge_candidates manifest_dir in
      case List.find exists candidates of Some p \<Rightarrow> p | None \<Rightarrow> candidates ! 0)"

text \<open>The parent of a path is the path without its last part.\<close>

definition workspace_root :: "(path \<Rightarrow> bool) \<Rightarrow> path \<Rightarrow> path" where
  "workspace_root exists manifest_dir = butlast (bridge_root exists manifest_dir)"

definition sha256_hex :: "(bytes \<Rightarrow> string) \<Rightarrow> bytes \<Rightarrow> string" where
  "sha256_hex digest data = (let normalized = filter (\<lambda>b. b \<noteq> of_char (CHR 0x0D)) data in digest normalized)"

record artifact_digest =
  ad_path :: path
  ad_sha256 :: string

record bridge_manifest =
  bm_contract :: string
  bm_version :: string
  bm_schema :: artifact_digest
  bm_example :: artifact_digest

text \<open>What \<open>serde_json\<close> does: the title of a schema, a request or a manifest from text, and a request to
  a value and back.\<close>

record 'v serde =
  json_title :: "bytes \<Rightarrow> string option option"
  json_request :: "bytes \<Rightarrow> control_request option"
  json_manifest :: "bytes \<Rightarrow> bridge_manifest option"
  to_value :: "control_request \<Rightarrow> 'v option"
  from_value :: "'v \<Rightarrow> control_request option"

definition serde_roundtrips :: "'v serde \<Rightarrow> bool" where
  "serde_roundtrips J \<longleftrightarrow> (\<forall>r. \<exists>v. to_value J r = Some v \<and> from_value J v = Some r)"

subsection \<open>The tests\<close>

definition bridge_contract_artifacts_round_trip :: "'v serde \<Rightarrow> (path \<Rightarrow> bytes option) \<Rightarrow> (path \<Rightarrow> bool) \<Rightarrow> path \<Rightarrow> bool" where
  "bridge_contract_artifacts_round_trip J fs exists manifest_dir =
     (let root = bridge_root exists manifest_dir in
      expect_some (fs (root @ [''bridge_contract.schema.json''])) (\<lambda>schema_data.
      expect_some (json_title J schema_data) (\<lambda>title.
      title = Some ''Mohawk Go-Rust Bridge Contract'' \<and>
      expect_some (fs (root @ [''examples'', ''control_request.example.json''])) (\<lambda>fixture_data.
      expect_some (json_request J fixture_data) (\<lambda>request.
      expect (validate request) (\<lambda>_.
      expect_some (to_value J request) (\<lambda>encoded.
      expect_some (from_value J encoded) (\<lambda>decoded.
      rc_iface (runtime_config decoded) = ''eth0'' \<and> length (route_updates decoded) = 1
      \<and> length (session_updates decoded) = 1))))))))"

definition bridge_contract_manifest_matches_artifacts ::
    "'v serde \<Rightarrow> (bytes \<Rightarrow> string) \<Rightarrow> (path \<Rightarrow> bytes option) \<Rightarrow> (path \<Rightarrow> bool) \<Rightarrow> path \<Rightarrow> bool" where
  "bridge_contract_manifest_matches_artifacts J digest fs exists manifest_dir =
     expect_some (fs (bridge_root exists manifest_dir @ [''bridge_contract.manifest.json''])) (\<lambda>manifest_data.
     expect_some (json_manifest J manifest_data) (\<lambda>manifest.
     bm_contract manifest = ''Mohawk Go-Rust Bridge Contract'' \<and> bm_version manifest = ''bridge_contract.manifest.v2'' \<and>
     (let root = workspace_root exists manifest_dir in
      expect_some (fs (root @ ad_path (bm_schema manifest))) (\<lambda>schema_data.
      expect_some (fs (root @ ad_path (bm_example manifest))) (\<lambda>example_data.
      sha256_hex digest schema_data = ad_sha256 (bm_schema manifest)
      \<and> sha256_hex digest example_data = ad_sha256 (bm_example manifest))))))"

subsection \<open>When they pass\<close>

lemma expect_some_iff: "expect_some r k \<longleftrightarrow> (\<exists>x. r = Some x \<and> k x)"
  by (simp add: expect_some_def split: option.splits)

lemma expect_iff: "expect r k \<longleftrightarrow> (\<exists>x. r = Inr x \<and> k x)"
  by (simp add: expect_def split: sum.splits)

text \<open>The directory that is used: the first that exists, a \<open>bridge\<close> directory beside the repository
  before the repository's own.\<close>

lemma bridge_root_first:
  "bridge_root exists manifest_dir \<in> set (bridge_candidates manifest_dir)"
  "exists (manifest_dir @ [''..'', ''..'', ''bridge'']) \<Longrightarrow> bridge_root exists manifest_dir = manifest_dir @ [''..'', ''..'', ''bridge'']"
proof -
  show "bridge_root exists manifest_dir \<in> set (bridge_candidates manifest_dir)"
    by (auto simp: bridge_root_def Let_def bridge_candidates_def)
qed (simp add: bridge_root_def Let_def bridge_candidates_def)

text \<open>A checkout that ends its lines with CR LF has the same digest.\<close>

definition to_crlf :: "bytes \<Rightarrow> bytes" where
  "to_crlf data = concat (map (\<lambda>b. if b = of_char (CHR 0x0A) then [of_char (CHR 0x0D), b] else [b]) data)"

lemma digest_ignores_line_endings: "sha256_hex digest (to_crlf data) = sha256_hex digest data"
proof -
  have "filter (\<lambda>b. b \<noteq> of_char (CHR 0x0D)) (to_crlf data) = filter (\<lambda>b. b \<noteq> of_char (CHR 0x0D)) data"
    by (induction data) (auto simp: to_crlf_def)
  then show ?thesis by (simp add: sha256_hex_def)
qed

text \<open>A file system that differs in line endings only.\<close>

definition crlf_checkout :: "(path \<Rightarrow> bytes option) \<Rightarrow> (path \<Rightarrow> bytes option) \<Rightarrow> bool" where
  "crlf_checkout fs fs' \<longleftrightarrow> (\<forall>p. fs' p = fs p \<or> fs' p = map_option to_crlf (fs p))"

text \<open>The round trip tests the example file, not the encoder: with an encoder that keeps requests it
  passes exactly when the schema has the title and the example is a valid request of the shape the
  test wants. The test of the manifest is not affected by line endings, given that the parser of
  the manifest is not.\<close>

theorem bridge_tests_decide:
  assumes "serde_roundtrips J" and "crlf_checkout fs fs'" and "\<forall>d. json_manifest J (to_crlf d) = json_manifest J d"
  shows "(bridge_contract_artifacts_round_trip J fs exists dir \<longleftrightarrow>
      (\<exists>s d r. fs (bridge_root exists dir @ [''bridge_contract.schema.json'']) = Some s
        \<and> json_title J s = Some (Some ''Mohawk Go-Rust Bridge Contract'')
        \<and> fs (bridge_root exists dir @ [''examples'', ''control_request.example.json'']) = Some d
        \<and> json_request J d = Some r \<and> validate r = Inr () \<and> rc_iface (runtime_config r) = ''eth0''
        \<and> length (route_updates r) = 1 \<and> length (session_updates r) = 1))
    \<and> (bridge_contract_manifest_matches_artifacts J digest fs' exists dir \<longleftrightarrow>
       bridge_contract_manifest_matches_artifacts J digest fs exists dir)"
proof
  have v: "\<exists>v. to_value J r = Some v \<and> from_value J v = Some r" for r using assms(1) by (simp add: serde_roundtrips_def)
  have w: "expect_some (to_value J r) (\<lambda>e. expect_some (from_value J e) k) = k r" for r k using v [of r] by auto
  show "bridge_contract_artifacts_round_trip J fs exists dir \<longleftrightarrow>
      (\<exists>s d r. fs (bridge_root exists dir @ [''bridge_contract.schema.json'']) = Some s
        \<and> json_title J s = Some (Some ''Mohawk Go-Rust Bridge Contract'')
        \<and> fs (bridge_root exists dir @ [''examples'', ''control_request.example.json'']) = Some d
        \<and> json_request J d = Some r \<and> validate r = Inr () \<and> rc_iface (runtime_config r) = ''eth0''
        \<and> length (route_updates r) = 1 \<and> length (session_updates r) = 1)"
    unfolding bridge_contract_artifacts_round_trip_def Let_def w
    by (simp add: expect_some_iff expect_iff)
  have same: "expect_some (fs' p) k = expect_some (fs p) k" if k: "\<And>d. k (to_crlf d) = k d" for p k
  proof (cases "fs' p = fs p")
    case False
    then have "fs' p = map_option to_crlf (fs p)" using assms(2) unfolding crlf_checkout_def by blast
    then show ?thesis by (cases "fs p") (simp_all only: option.map expect_simps k)
  qed simp
  show "bridge_contract_manifest_matches_artifacts J digest fs' exists dir \<longleftrightarrow>
       bridge_contract_manifest_matches_artifacts J digest fs exists dir"
    unfolding bridge_contract_manifest_matches_artifacts_def Let_def
    by (subst same, simp only: assms(3)) (simp only: same digest_ignores_line_endings)
qed

end
