(* ===== verification/Tests_Bench.thy ===== *)
theory Tests_Bench
  imports Bench
begin

text \<open>
  The unit tests of \<open>bench/src/lib.rs\<close> and \<open>bench/src/token_bench.rs\<close>, without the two assertions on
  rates, which are floating point.
\<close>

definition alloc_and_fill_uses_expected_pattern :: bool where
  "alloc_and_fill_uses_expected_pattern = (alloc_and_fill 8 = [0, 1, 2, 3, 4, 5, 6, 7])"

definition run_bench_with_sizes_returns_matching_samples :: bool where
  "run_bench_with_sizes_returns_matching_samples =
     (let samples = map fst (run_bench_with_sizes [4, 8] 2) in
      length samples = 2 \<and> sample_size (samples ! 0) = 4 \<and> sample_iterations (samples ! 0) = 2
      \<and> sample_size (samples ! 1) = 8 \<and> sample_iterations (samples ! 1) = 2)"

definition multi_bench_tracks_each_configuration :: bool where
  "multi_bench_tracks_each_configuration =
     (let results = run_token_bench_multi [(4, 6), (10, 0)] 3 in
      length results = 2 \<and> fst (results ! 0) = 30 \<and> fst (results ! 1) = 30)"

definition config_defaults_match_expected_sizes :: bool where
  "config_defaults_match_expected_sizes =
     (let config = token_bench_default in
      prompt_size config = 128 \<and> completion_size config = 512 \<and> bench_iterations config = 10 \<and> warmup_iterations config = 3)"

theorem bench_tests_pass:
  "alloc_and_fill_uses_expected_pattern \<and> run_bench_with_sizes_returns_matching_samples
   \<and> multi_bench_tracks_each_configuration \<and> config_defaults_match_expected_sizes"
proof -
  have "fst (run_token_bench 4 6 3) = 30" "fst (run_token_bench 10 0 3) = 30"
    using token_count_exact [of 4 6 3] token_count_exact [of 10 0 3] by simp_all
  then show ?thesis
    by (simp add: alloc_and_fill_uses_expected_pattern_def alloc_and_fill_def fill_pattern_bytes upt_rec
        run_bench_with_sizes_returns_matching_samples_def run_bench_with_sizes_def multi_bench_tracks_each_configuration_def
        run_token_bench_multi_def config_defaults_match_expected_sizes_def token_bench_default_def)
qed

end
