(* ===== verification/Spec2Isabelle.thy ===== *)
theory Spec2Isabelle
  imports Prelude Wire Route_Race Route_Policy Kex Throttle_Race Throttle_Copies Router_Run Forward_Socket Ring_Race Send_Waits
    Cli_Main Monitor Smoke Alloc_Probe Bench Tunnel Free_List_Race Tests_Crypto Tests_Datapath Tests_Stress Tests_Cli
    Tests_Bridge Tests_Bench
begin

text \<open>
  A verification library for the SMIP-MWP datapath (\<open>src/\<close>): a userspace packet forwarder that
  polls frames from an AF_XDP socket, reads the SMIP header, looks the destination up in a
  concurrent route table, encrypts the payload for the session and sends the result out of
  one arena, on one channel or on several (MCR spray).

  The parts and how they interact:
  \<^item> \<open>wire\<close> defines the 96-byte header and three ways to read it; \<open>datapath\<close> uses
    \<open>HeaderViewRef\<close> only;
  \<^item> \<open>routing\<close> holds the routes in 16 shards, in a sorted map and in a list of next hops for
    prediction; each thread caches exact lookups and spray choices, tagged with a global epoch
    that every update advances;
  \<^item> \<open>crypto\<close> derives session keys (HKDF behind a process-wide cache), seals and opens payloads
    (AES-256-GCM with a nonce made of the sequence number), agrees on session secrets
    (X25519 and ML-KEM-768 combined) and has the sequence window, timeouts and throttle of a
    handshake;
  \<^item> \<open>datapath\<close> is the forwarder: an arena with unchecked appends, batch functions for one or
    many threads, spray modes, statistics and profiler;
  \<^item> \<open>afxdp\<close> is the socket below it: opening it, rings shared with the kernel, the free list of UMEM
    frames, sending with back-pressure, the registries through which sockets are observed and
    reconfigured;
  \<^item> \<open>cli\<close> is the program: its options, the bridge that turns a control request into forwarders and
    runs them on pinned workers, the metrics updater, reporter and sockets, and the HTTP control
    endpoint;
  \<^item> \<open>benchmark\<close>, \<open>bench\<close> and \<open>tools\<close> drive these libraries: the chaos harness with its fault
    injection, the allocation probe with a counting allocator, the smoke test of a socket.

  Theories, in the order of the code's layers:
  \<^item> \<open>Prelude\<close>: byte slices, word fields, fixed-length arrays (with the orders and equality the
    maps need), powers of two, and two interfaces: \<open>field_codec\<close> (a field of a buffer) and
    \<open>budget_loop\<close> (a loop whose steps consume a reservation).
  \<^item> \<open>Wire\<close>: \<open>wire/src/lib.rs\<close>; parse and marshal are inverse, the views agree with parse, setters
    change one field.
  \<^item> \<open>Route_Table\<close>, \<open>Route_Lookup\<close>, \<open>Route_World\<close>, \<open>Route_Policy\<close>: \<open>routing/src/lib.rs\<close>. The table
    with its three representations (interfaces \<open>map_store\<close> and \<open>store_mirror\<close>), the lookups, the process
    with the caches of every thread (interface \<open>hop_service\<close>: a cached lookup answers as the
    table does), policies. The process refines a single finite map of routes.
  \<^item> \<open>Route_Race\<close>: the same table with the critical sections of updates, removals and cached lookups
    of any number of threads interleaved (\<open>race_step\<close>). Lookups nobody disturbs are current in
    every reachable state; two writers of one destination can leave shard and map apart.
  \<^item> \<open>Session\<close>, \<open>Kex\<close>, \<open>Hardening\<close>: \<open>crypto/src\<close>. The cryptographic libraries are the records
    \<open>crypto_lib\<close> and the key-exchange primitives, arguments of the definitions; \<open>lib_ok\<close> and its
    like state their documented behaviour (opening what was sealed, lengths, agreement).
    Interfaces \<open>sealed_channel\<close> and \<open>one_shot\<close>. \<open>Throttle_Race\<close>: concurrent calls of the throttle.
    \<open>Throttle_Copies\<close>: the second copy of the throttle agrees with it while the clock goes forward.
  \<^item> \<open>Arena\<close>: \<open>AlignedBuffer\<close> and \<open>SliceRing\<close> of \<open>datapath/src/lib.rs\<close>; an unchecked write past the
    capacity is the fault \<open>OobWrite\<close>, so that memory safety is the absence of a value.
  \<^item> \<open>Forward\<close>, \<open>Forward_Batch\<close>: one packet and whole batches without MCR. \<open>plain_spec\<close> and
    \<open>owned_spec\<close> say what one packet turns into; batches send exactly that, for every schedule of
    the worker threads (interface \<open>cached_worker\<close>).
  \<^item> \<open>Forward_MCR\<close>, \<open>Forward_Spray\<close>: the MCR modes, with \<open>primary_spec\<close> and \<open>full_spec\<close>. Interface
    \<open>exact_writer\<close>: a step appends its outputs when they fit and faults when they do not, which
    also shows when a batch overflows. \<open>Router_Run\<close>: batches with changes of the routes between them;
    whatever a running forwarder keeps, it forwards by a plain map of routes.
  \<^item> \<open>Tunnel\<close>: the crates composed end to end. A key exchange gives both parties a secret (\<open>exchange\<close>),
    the initiator's forwarder, made by \<open>Forward.forwarder_with_session\<close>, seals what it sends
    (\<open>hop_send\<close>), the responder's session opens it (\<open>receive\<close>). A second forwarder on the way has a
    session too and seals again; with the constant secret of \<open>Forwarder::new\<close> on both, a cipher in
    counter mode gives the plaintext back.
  \<^item> \<open>Kernel_Rings\<close>, \<open>Free_List\<close>, \<open>Xdp_Socket\<close>: \<open>afxdp/src\<close>. Rings over the bytes of the mapped
    region and the free list both implement the interface \<open>fifo\<close>; \<open>send\<close> on top of them.
  \<^item> \<open>Ring_Race\<close>: a push and a pop access by access (\<open>push_micro\<close>, \<open>pop_micro\<close>; run without
    interference they are the calls of \<open>Kernel_Rings\<close>), with the kernel consuming and publishing
    between any two accesses. Each call acts as one operation of a bounded queue and returns after
    a bounded number of its own accesses; the order of the accesses that this needs is the code's.
  \<^item> \<open>Free_List_Race\<close>: the calls of the free list access by access (\<open>try_push_micro\<close>, \<open>try_pop_micro\<close>):
    one pusher and one popper share a queue whatever their order; two of a kind do not, and two
    runs show a frame given out twice and a frame lost.
  \<^item> \<open>Send_Waits\<close>: a send across its waits, for any behaviour of the kernel during them: it succeeds
    once there is room, and gives up after the last retry. \<open>Socket_Setup\<close>: \<open>RealSocket::new\<close> and
    \<open>drop\<close> over system calls that may fail (\<open>os_calls\<close>): descriptors, registration, and the state
    \<open>send\<close> starts from.
  \<^item> \<open>Forward_Socket\<close>: a batch over the real socket, from the RX ring to the TX ring.
  \<^item> \<open>Control\<close>, \<open>Metrics\<close>: the registries of \<open>afxdp/src\<close> with their clients in \<open>cli/src/main.rs\<close>, the
    HTTP handler and one round of the gauge updater.
  \<^item> \<open>Workers\<close>, \<open>Bridge\<close>, \<open>Bridge_Run\<close>, \<open>Cli_Main\<close>: \<open>cli/src\<close>. Core lists and the worker plan;
    control requests, the forwarders, workers and telemetry they lead to, down to the batches of
    \<open>Forward_Spray\<close> and the mock socket; what each theorem needs of such a run; \<open>main\<close>.
  \<^item> \<open>Monitor\<close>: the reporter and the metrics socket reading \<open>PACKETS_PROCESSED\<close> while the router of
    \<open>Router_Run\<close> works, the rendered metrics and the profile. \<open>Smoke\<close>: the smoke test,
    \<open>build_socket\<close> with the feature \<open>real\<close> and \<open>RealSocketHandle\<close>, on \<open>Socket_Setup\<close>.
  \<^item> \<open>Chaos\<close>: \<open>benchmark/src/main.rs\<close>; every fault the generator draws is accounted for in what the
    forwarder counts and sends. \<open>Alloc_Probe\<close>: \<open>bench/src/bin\<close>; the counters of the allocator, and
    \<open>update_peak\<close> with the compare-exchange of any number of threads interleaved. \<open>Bench\<close>: the
    pattern and token benchmarks of \<open>bench/src\<close>.
  \<^item> \<open>Tests_Crypto\<close>, \<open>Tests_Routing\<close>, \<open>Tests_Datapath\<close>, \<open>Tests_Afxdp\<close>, \<open>Tests_Stress\<close>, \<open>Tests_Cli\<close>,
    \<open>Tests_Bridge\<close>, \<open>Tests_Bench\<close>: the unit tests of the crates, as boolean functions (assertions from
    \<open>Assertions\<close>) of all they depend on and do not set: randomness, clock, environment, files,
    caches and counters left by other tests, the order of threads. The theorems say when each
    passes, and where a test does not test what its name says.

  Conventions. A byte buffer is a list of 8-bit words; \<open>[u8; N]\<close> is the type \<open>'n barr\<close>. Counters
  and wire fields are words of the code's width; lengths and indices, which the code checks
  or keeps far below \<open>2 ^ 64\<close>, are \<open>nat\<close>, with saturation and overflow written out where the code
  has them. A panic is the fault \<open>Panicked\<close>. The sum in \<open>FreeList::with_capacity\<close>
  is that of a build with overflow checks. Errors are the left side of a sum. A batch function
  takes what \<open>poll\<close> returned and gives what is passed to \<open>send\<close>. Rust's exclusive
  borrows become state passing; the state shared by threads (table, epoch, caches, counters) is the record \<open>process\<close> or \<open>route_world\<close>, and a rayon
  map is a list of pairs (packet, thread).

  Bounds. Batches are proved safe when the bytes to reserve and the arena's capacity are at
  most \<open>2 ^ 61\<close>, half the size at which the layout of an allocation is refused after doubling;
  a vector is made when its bytes are at most \<open>isize::MAX\<close> and panics otherwise (\<open>vec_fits\<close>), so
  a free list is made exactly when frames and headroom are at most \<open>2 ^ 59\<close> (\<open>list_fits\<close>);
  \<open>send\<close> retries eight times, as the code does, so its recursion is structural; statements about
  epochs assume fewer than \<open>2 ^ 64 - 1\<close> updates; the only fuel is
  in \<open>next_power_of_two\<close>, whose argument is enough.

  Not modelled: memory orderings weaker than sequential consistency, and interleavings inside one
  operation other than those of \<open>Route_Race\<close>, \<open>Ring_Race\<close>, \<open>Free_List_Race\<close>, \<open>Throttle_Race\<close>
  and \<open>Alloc_Probe.peak_run\<close> (elsewhere an operation is one step); clock readings and nanosecond
  counters; allocation failure, which aborts; key zeroization; the effect of system calls beyond
  their results; accepting connections; JSON, Base64 and the Prometheus encoder, which are outside
  crates; thread pinning and the list of the host's cores (\<open>core_affinity\<close>); floating point
  (percentages, among them those that are not a number, rates and gauges are
  parameters or left out); the criterion benches, which only call what is modelled; in the unit tests the alignment of addresses, the guard that restores
  environment variables, and sleeping; \<open>crypto/integration_test.rs\<close>, which no crate includes.
\<close>

end
